(* ===== verification/Gronin_Prelude.thy ===== *)
theory Gronin_Prelude
  imports Main "HOL-Library.Char_ord" "HOL-Library.List_Lexorder" "HOL-Library.Sublist"
begin

text \<open>
  Shared vocabulary of the development: Go strings as byte lists with the operations of the
  packages \<open>strings\<close>, \<open>strconv\<close> and \<open>sort\<close> the runtime calls, \<open>int64\<close>
  arithmetic with its wrap-around, instants and durations in nanoseconds, Go maps as association
  lists, and the lemmas every component uses.  Nothing here models a file of the repository;
  everything here models the language and its standard library.
\<close>

named_theorems go_string \<open>characterisations of the Go string operations\<close>
named_theorems go_map \<open>lookup after update on Go maps\<close>
named_theorems go_int \<open>wrap-around of int64 arithmetic\<close>

subsection \<open>Types\<close>

text \<open>
  A Go string is a sequence of bytes, which is what the type \<open>string\<close> (a list of 8-bit
  characters) is.  A fallible function returns a sum with the error on the left.  A \<open>time.Time\<close>
  is its number of nanoseconds since the Unix epoch, a \<open>time.Duration\<close> its number of
  nanoseconds.
\<close>

type_synonym ('e, 'a) result = "'e + 'a"
type_synonym time = int
type_synonym duration = int
type_synonym 'v gomap = "(string \<times> 'v) list"

text \<open>The zero \<open>time.Time\<close>: the first instant of year 1, the value \<open>IsZero\<close> reports.\<close>

definition zero_time :: time where
  "zero_time = - 62135596800000000000"

definition is_zero :: "time \<Rightarrow> bool" where
  "is_zero t \<longleftrightarrow> t = zero_time"

abbreviation nanosecond :: duration where "nanosecond \<equiv> 1"
abbreviation second :: duration where "second \<equiv> 1000000000"
abbreviation minute :: duration where "minute \<equiv> 60000000000"
abbreviation hour :: duration where "hour \<equiv> 3600000000000"

subsection \<open>Signed 64-bit arithmetic\<close>

text \<open>
  A duration is an \<open>int64\<close>, so sums of durations wrap.  The wrap-around is written out.
\<close>

definition wrap64 :: "int \<Rightarrow> int" where
  "wrap64 x = (x + 2 ^ 63) mod 2 ^ 64 - 2 ^ 63"

definition in_int64 :: "int \<Rightarrow> bool" where
  "in_int64 x \<longleftrightarrow> - (2 ^ 63) \<le> x \<and> x < 2 ^ 63"

lemma wrap64_id [go_int]: "in_int64 x \<Longrightarrow> wrap64 x = x"
  by (simp add: wrap64_def in_int64_def)

lemma wrap64_in_int64 [go_int, simp]: "in_int64 (wrap64 x)"
proof -
  have "0 \<le> (x + 2 ^ 63) mod 2 ^ 64" "(x + 2 ^ 63) mod 2 ^ 64 < 2 ^ 64" by simp_all
  then show ?thesis unfolding wrap64_def in_int64_def by simp
qed

text \<open>\<open>Time.Sub\<close> saturates instead of wrapping.\<close>

definition time_sub :: "time \<Rightarrow> time \<Rightarrow> duration" where
  "time_sub t u = max (- (2 ^ 63)) (min (2 ^ 63 - 1) (t - u))"

subsection \<open>Package strings\<close>

definition has_prefix :: "string \<Rightarrow> string \<Rightarrow> bool" where
  "has_prefix s p \<longleftrightarrow> take (length p) s = p"

definition has_suffix :: "string \<Rightarrow> string \<Rightarrow> bool" where
  "has_suffix s p \<longleftrightarrow> has_prefix (rev s) (rev p)"

definition trim_prefix :: "string \<Rightarrow> string \<Rightarrow> string" where
  "trim_prefix s p = (if has_prefix s p then drop (length p) s else s)"

definition trim_suffix :: "string \<Rightarrow> string \<Rightarrow> string" where
  "trim_suffix s p = (if has_suffix s p then take (length s - length p) s else s)"

definition cut_prefix :: "string \<Rightarrow> string \<Rightarrow> string option" where
  "cut_prefix s p = (if has_prefix s p then Some (drop (length p) s) else None)"

fun str_index :: "string \<Rightarrow> string \<Rightarrow> nat option" where
  "str_index [] sub = (if sub = [] then Some 0 else None)"
| "str_index (c # cs) sub =
     (if has_prefix (c # cs) sub then Some 0 else map_option Suc (str_index cs sub))"

definition str_contains :: "string \<Rightarrow> string \<Rightarrow> bool" where
  "str_contains s sub \<longleftrightarrow> str_index s sub \<noteq> None"

text \<open>\<open>strings.Cut\<close>: what precedes and what follows the first separator, if there is one.\<close>

definition str_cut :: "string \<Rightarrow> string \<Rightarrow> (string \<times> string) option" where
  "str_cut s sep = (case str_index s sep of
      None \<Rightarrow> None
    | Some i \<Rightarrow> Some (take i s, drop (i + length sep) s))"

text \<open>The part before the separator, or the whole string: \<open>s, _, _ = strings.Cut(s, sep)\<close>.\<close>

definition cut_before :: "string \<Rightarrow> string \<Rightarrow> string" where
  "cut_before s sep = (case str_cut s sep of None \<Rightarrow> s | Some (b, _) \<Rightarrow> b)"

text \<open>
  \<open>strings.ReplaceAll\<close> and \<open>strings.Split\<close> with a separator that is not empty.  The
  recursion skips the separator just matched by counting its remaining bytes down.
\<close>

fun replace_from :: "nat \<Rightarrow> string \<Rightarrow> string \<Rightarrow> string \<Rightarrow> string" where
  "replace_from k old new [] = []"
| "replace_from (Suc k) old new (c # cs) = replace_from k old new cs"
| "replace_from 0 old new (c # cs) =
     (if has_prefix (c # cs) old then new @ replace_from (length old - 1) old new cs
      else c # replace_from 0 old new cs)"

definition replace_all :: "string \<Rightarrow> string \<Rightarrow> string \<Rightarrow> string" where
  "replace_all s old new = replace_from 0 old new s"

fun split_from :: "nat \<Rightarrow> string \<Rightarrow> string \<Rightarrow> string \<Rightarrow> string list" where
  "split_from k sep acc [] = [acc]"
| "split_from (Suc k) sep acc (c # cs) = split_from k sep acc cs"
| "split_from 0 sep acc (c # cs) =
     (if has_prefix (c # cs) sep then acc # split_from (length sep - 1) sep [] cs
      else split_from 0 sep (acc @ [c]) cs)"

definition str_split :: "string \<Rightarrow> string \<Rightarrow> string list" where
  "str_split s sep = split_from 0 sep [] s"

fun str_join :: "string list \<Rightarrow> string \<Rightarrow> string" where
  "str_join [] sep = []"
| "str_join [x] sep = x"
| "str_join (x # y # xs) sep = x @ sep @ str_join (y # xs) sep"

text \<open>\<open>strings.Count\<close> of a separator that is not empty: one less than the parts it splits into.\<close>

definition str_count :: "string \<Rightarrow> string \<Rightarrow> nat" where
  "str_count s sep = length (str_split s sep) - 1"

text \<open>
  \<open>unicode.IsSpace\<close> on the UTF-8 encoding: the number of bytes of the white-space character
  the string begins with, 0 when it begins with none.  Reading a string from its end is reading
  the reversed bytes of the same encodings.
\<close>

definition ascii_space :: "char \<Rightarrow> bool" where
  "ascii_space c \<longleftrightarrow> c \<in> {CHR 0x09, CHR 0x0A, CHR 0x0B, CHR 0x0C, CHR 0x0D, CHR 0x20}"

definition wide_spaces :: "string list" where
  "wide_spaces =
     [[CHR 0xC2, CHR 0x85], [CHR 0xC2, CHR 0xA0], [CHR 0xE1, CHR 0x9A, CHR 0x80],
      [CHR 0xE2, CHR 0x80, CHR 0x80], [CHR 0xE2, CHR 0x80, CHR 0x81],
      [CHR 0xE2, CHR 0x80, CHR 0x82], [CHR 0xE2, CHR 0x80, CHR 0x83],
      [CHR 0xE2, CHR 0x80, CHR 0x84], [CHR 0xE2, CHR 0x80, CHR 0x85],
      [CHR 0xE2, CHR 0x80, CHR 0x86], [CHR 0xE2, CHR 0x80, CHR 0x87],
      [CHR 0xE2, CHR 0x80, CHR 0x88], [CHR 0xE2, CHR 0x80, CHR 0x89],
      [CHR 0xE2, CHR 0x80, CHR 0x8A], [CHR 0xE2, CHR 0x80, CHR 0xA8],
      [CHR 0xE2, CHR 0x80, CHR 0xA9], [CHR 0xE2, CHR 0x80, CHR 0xAF],
      [CHR 0xE2, CHR 0x81, CHR 0x9F], [CHR 0xE3, CHR 0x80, CHR 0x80]]"

definition lead_space :: "string list \<Rightarrow> string \<Rightarrow> nat" where
  "lead_space wides s = (case s of [] \<Rightarrow> 0
     | c # _ \<Rightarrow> if ascii_space c then 1
                else (case find (has_prefix s) wides of None \<Rightarrow> 0 | Some w \<Rightarrow> length w))"

fun trim_lead :: "nat \<Rightarrow> string list \<Rightarrow> string \<Rightarrow> string" where
  "trim_lead k wides [] = []"
| "trim_lead (Suc k) wides (c # cs) = trim_lead k wides cs"
| "trim_lead 0 wides (c # cs) =
     (case lead_space wides (c # cs) of 0 \<Rightarrow> c # cs | Suc n \<Rightarrow> trim_lead n wides cs)"

definition trim_left_space :: "string \<Rightarrow> string" where
  "trim_left_space s = trim_lead 0 wide_spaces s"

definition trim_right_space :: "string \<Rightarrow> string" where
  "trim_right_space s = rev (trim_lead 0 (map rev wide_spaces) (rev s))"

definition trim_space :: "string \<Rightarrow> string" where
  "trim_space s = trim_right_space (trim_left_space s)"

text \<open>
  \<open>strings.ToUpper\<close> on ASCII text, byte by byte.  Bytes outside ASCII are left as they are;
  the callers upper-case keys whose accepted shape is ASCII.
\<close>

definition char_upper :: "char \<Rightarrow> char" where
  "char_upper c = (if CHR ''a'' \<le> c \<and> c \<le> CHR ''z'' then char_of (of_char c - 32 :: nat) else c)"

definition to_upper :: "string \<Rightarrow> string" where
  "to_upper = map char_upper"

subsection \<open>Character classes and decimal numbers\<close>

definition is_lower :: "char \<Rightarrow> bool" where
  "is_lower c \<longleftrightarrow> CHR ''a'' \<le> c \<and> c \<le> CHR ''z''"

definition is_upper :: "char \<Rightarrow> bool" where
  "is_upper c \<longleftrightarrow> CHR ''A'' \<le> c \<and> c \<le> CHR ''Z''"

definition is_digit :: "char \<Rightarrow> bool" where
  "is_digit c \<longleftrightarrow> CHR ''0'' \<le> c \<and> c \<le> CHR ''9''"

definition is_alnum :: "char \<Rightarrow> bool" where
  "is_alnum c \<longleftrightarrow> is_lower c \<or> is_upper c \<or> is_digit c"

definition digit_of :: "nat \<Rightarrow> char" where
  "digit_of n = char_of (48 + n)"

fun itoa :: "nat \<Rightarrow> string" where
  "itoa n = (if n < 10 then [digit_of n] else itoa (n div 10) @ [digit_of (n mod 10)])"

declare itoa.simps [simp del]

definition digit_val :: "char \<Rightarrow> nat" where
  "digit_val c = of_char c - 48"

text \<open>
  \<open>strconv.Atoi\<close>: an optional sign and at least one decimal digit, refused when the value does
  not fit an \<open>int\<close>.
\<close>

definition atoi_abs :: "string \<Rightarrow> nat option" where
  "atoi_abs s = (if s \<noteq> [] \<and> list_all is_digit s
     then Some (foldl (\<lambda>n c. 10 * n + digit_val c) 0 s) else None)"

definition atoi :: "string \<Rightarrow> int option" where
  "atoi s =
     (let (neg, digits) = (case s of [] \<Rightarrow> (False, [])
        | c # cs \<Rightarrow> if c = CHR ''-'' then (True, cs)
                    else if c = CHR ''+'' then (False, cs) else (False, s))
      in case atoi_abs digits of
           None \<Rightarrow> None
         | Some n \<Rightarrow> let v = (if neg then - int n else int n)
                      in if in_int64 v then Some v else None)"

text \<open>\<open>utf8.RuneStart\<close>: every byte but a continuation byte.\<close>

definition rune_start :: "char \<Rightarrow> bool" where
  "rune_start c \<longleftrightarrow> of_char c < (128 :: nat) \<or> of_char c \<ge> (192 :: nat)"

subsection \<open>Go maps as association lists\<close>

text \<open>
  A Go map is an association list whose keys are distinct.  Reading is \<open>map_of\<close>; assigning
  replaces the pair in place or adds one; ranging over the keys and sorting them is
  \<open>sorted_keys\<close>.
\<close>

fun map_set :: "'k \<Rightarrow> 'v \<Rightarrow> ('k \<times> 'v) list \<Rightarrow> ('k \<times> 'v) list" where
  "map_set k v [] = [(k, v)]"
| "map_set k v ((k', v') # m) = (if k = k' then (k, v) # m else (k', v') # map_set k v m)"

definition sorted_keys :: "'v gomap \<Rightarrow> string list" where
  "sorted_keys m = sort (map fst m)"

definition gomap_ok :: "'v gomap \<Rightarrow> bool" where
  "gomap_ok m \<longleftrightarrow> distinct (map fst m)"

lemma map_of_map_set [go_map, simp]: "map_of (map_set k v m) = (map_of m)(k \<mapsto> v)"
  by (induction m rule: map_set.induct) auto

fun map_del :: "'k \<Rightarrow> ('k \<times> 'v) list \<Rightarrow> ('k \<times> 'v) list" where
  "map_del k [] = []"
| "map_del k ((k', v) # m) = (if k = k' then map_del k m else (k', v) # map_del k m)"

lemma map_of_map_del [go_map, simp]: "map_of (map_del k m) = (map_of m)(k := None)"
  by (induction k m rule: map_del.induct) auto

lemma fst_map_set [go_map]: "fst ` set (map_set k v m) = insert k (fst ` set m)"
  by (induction m rule: map_set.induct) auto

lemma gomap_ok_map_set [go_map, intro]: "gomap_ok m \<Longrightarrow> gomap_ok (map_set k v m)"
  unfolding gomap_ok_def
proof (induction k v m rule: map_set.induct)
  case (2 k v k' v' m)
  have "fst ` set (map_set k v m) = insert k (fst ` set m)" by (rule fst_map_set)
  with 2 show ?case by auto
qed simp

lemma set_sorted_keys [go_map, simp]: "set (sorted_keys m) = fst ` set m"
  by (simp add: sorted_keys_def)

lemma sorted_keys_dom: "k \<in> set (sorted_keys m) \<longleftrightarrow> k \<in> dom (map_of m)"
  by (simp add: dom_map_of_conv_image_fst)

lemma find_append_None: "find P xs = None \<Longrightarrow> find P (xs @ ys) = find P ys"
  by (induction xs) (auto split: if_splits)

lemma append_Cons_unique:
  "u @ c # r = v @ c # r' \<Longrightarrow> c \<notin> set u \<Longrightarrow> c \<notin> set v \<Longrightarrow> u = v \<and> r = r'"
proof (induction u arbitrary: v)
  case Nil
  then show ?case by (cases v) auto
next
  case (Cons a u)
  then show ?case by (cases v) auto
qed

subsection \<open>Lemmas on strings\<close>

lemma has_prefix_prefix [go_string]: "has_prefix s p \<longleftrightarrow> prefix p s"
  by (metis append_take_drop_id has_prefix_def prefix_def append_eq_conv_conj)

lemma has_prefix_append [go_string, simp]: "has_prefix (p @ s) p"
  by (simp add: has_prefix_def)

lemma has_prefix_Nil [simp]: "has_prefix s []"
  by (simp add: has_prefix_def)

lemma find_SomeD: "find P xs = Some x \<Longrightarrow> x \<in> set xs \<and> P x"
  by (induction xs) (auto split: if_splits)

lemma has_prefix_decomp: "has_prefix s p \<Longrightarrow> s = p @ drop (length p) s"
  unfolding has_prefix_def by (metis append_take_drop_id)

lemma has_prefix_set: "has_prefix s p \<Longrightarrow> set p \<subseteq> set s"
  unfolding has_prefix_def by (metis set_take_subset)

text \<open>\<open>str_index\<close> finds the first occurrence, and finds one whenever there is one.\<close>

lemma str_index_Some:
  "str_index s sub = Some i \<Longrightarrow>
     has_prefix (drop i s) sub \<and> i \<le> length s \<and> (\<forall>j < i. \<not> has_prefix (drop j s) sub)"
proof (induction s arbitrary: i)
  case Nil
  then show ?case by (auto split: if_splits)
next
  case (Cons c cs)
  show ?case
  proof (cases "has_prefix (c # cs) sub")
    case True
    with Cons.prems show ?thesis by simp
  next
    case False
    with Cons.prems obtain k where k: "str_index cs sub = Some k" "i = Suc k"
      by (auto split: if_splits)
    from Cons.IH [OF k(1)] False k(2) show ?thesis
      by (auto simp: less_Suc_eq_0_disj)
  qed
qed

lemma str_index_None: "str_index s sub = None \<Longrightarrow> \<not> has_prefix (drop j s) sub"
proof (induction s arbitrary: j)
  case Nil
  then show ?case by (auto simp: has_prefix_def split: if_splits)
next
  case (Cons c cs)
  then show ?case by (cases j) (auto split: if_splits)
qed

lemma str_contains_iff [go_string]: "str_contains s sub \<longleftrightarrow> (\<exists>a b. s = a @ sub @ b)"
proof
  assume "str_contains s sub"
  then obtain i where "str_index s sub = Some i" by (auto simp: str_contains_def)
  then have "has_prefix (drop i s) sub" by (blast dest: str_index_Some)
  then have "drop i s = sub @ drop (length sub) (drop i s)" by (rule has_prefix_decomp)
  then show "\<exists>a b. s = a @ sub @ b" by (metis append_take_drop_id)
next
  assume "\<exists>a b. s = a @ sub @ b"
  then obtain a b where s: "s = a @ sub @ b" by blast
  then have "has_prefix (drop (length a) s) sub" by simp
  then show "str_contains s sub"
    unfolding str_contains_def using str_index_None by blast
qed

text \<open>\<open>str_cut\<close> cuts at the first separator.\<close>

lemma str_cut_Some: "str_cut s sep = Some (a, b) \<Longrightarrow> s = a @ sep @ b"
proof -
  assume "str_cut s sep = Some (a, b)"
  then obtain i where i: "str_index s sep = Some i" "a = take i s" "b = drop (i + length sep) s"
    by (auto simp: str_cut_def split: option.splits)
  then have "drop i s = sep @ drop (length sep) (drop i s)"
    using str_index_Some [OF i(1)] has_prefix_decomp by blast
  then show ?thesis using i(2,3) by (metis append_take_drop_id drop_drop add.commute)
qed

lemma str_cut_None: "str_cut s [c] = None \<Longrightarrow> c \<notin> set s"
proof
  assume "str_cut s [c] = None" "c \<in> set s"
  then obtain a b where "s = a @ [c] @ b" by (metis append_Cons append_Nil split_list)
  with \<open>str_cut s [c] = None\<close> str_contains_iff [of s "[c]"] show False
    by (auto simp: str_cut_def str_contains_def split: option.splits)
qed

lemma str_contains_sublist: "str_contains s sub \<longleftrightarrow> sublist sub s"
  unfolding str_contains_iff sublist_def ..

text \<open>Splitting at a one-byte separator: the parts hold no separator and join back.\<close>

lemma split_from_join:
  "split_from 0 [c] acc s \<noteq> [] \<and> str_join (split_from 0 [c] acc s) [c] = acc @ s"
proof (induction s arbitrary: acc)
  case Nil
  then show ?case by simp
next
  case (Cons x xs)
  from Cons.IH [of "[]"] obtain y ys where "split_from 0 [c] [] xs = y # ys"
    by (meson neq_Nil_conv)
  with Cons.IH [of "[]"] Cons.IH [of "acc @ [x]"] show ?case
    by (auto simp: has_prefix_def)
qed

lemma str_join_split [go_string]: "str_join (str_split s [c]) [c] = s"
  using split_from_join [of c "[]" s] by (simp add: str_split_def)

lemma split_from_no_sep:
  "c \<notin> set acc \<Longrightarrow> p \<in> set (split_from 0 [c] acc s) \<Longrightarrow> c \<notin> set p"
proof (induction s arbitrary: acc)
  case Nil
  then show ?case by simp
next
  case (Cons x xs)
  show ?case
  proof (cases "x = c")
    case True
    with Cons.prems have "p = acc \<or> p \<in> set (split_from 0 [c] [] xs)"
      by (simp add: has_prefix_def)
    with Cons.prems(1) Cons.IH [of "[]"] show ?thesis by auto
  next
    case False
    with Cons.prems have "c \<notin> set (acc @ [x])" "p \<in> set (split_from 0 [c] (acc @ [x]) xs)"
      by (auto simp: has_prefix_def)
    then show ?thesis by (rule Cons.IH)
  qed
qed

lemma str_split_no_sep [go_string]: "p \<in> set (str_split s [c]) \<Longrightarrow> c \<notin> set p"
  unfolding str_split_def by (rule split_from_no_sep) simp_all

subsection \<open>Replacing is joining what lies between\<close>

lemma split_from_skip: "split_from k sep acc s = split_from 0 sep acc (drop k s)"
  by (induction k sep acc s rule: split_from.induct) auto

lemma replace_from_skip: "replace_from k old new s = replace_from 0 old new (drop k s)"
  by (induction k old new s rule: replace_from.induct) auto

lemma split_from_ne: "split_from k sep acc s \<noteq> []"
  by (induction k sep acc s rule: split_from.induct) auto

lemma str_join_Cons: "xs \<noteq> [] \<Longrightarrow> str_join (x # xs) sep = x @ sep @ str_join xs sep"
  by (cases xs) auto

lemma replace_from_split:
  "old \<noteq> [] \<Longrightarrow> acc @ replace_from 0 old new s = str_join (split_from 0 old acc s) new"
proof (induction "length s" arbitrary: s acc rule: less_induct)
  case less
  show ?case
  proof (cases s)
    case (Cons c cs)
    show ?thesis
    proof (cases "has_prefix s old")
      case True
      let ?r = "drop (length old - 1) cs"
      have "[] @ replace_from 0 old new ?r = str_join (split_from 0 old [] ?r) new"
        using less Cons by (intro less.hyps) (auto simp: less_Suc_eq_le)
      with True Cons show ?thesis
        by (simp add: str_join_Cons split_from_ne replace_from_skip [of "length old - Suc 0"]
            split_from_skip [of "length old - Suc 0"])
    next
      case False
      with less.hyps [of cs "acc @ [c]"] less.prems Cons show ?thesis by simp
    qed
  qed simp
qed

lemma replace_all_split: "old \<noteq> [] \<Longrightarrow> replace_all s old new = str_join (str_split s old) new"
  using replace_from_split [of old "[]" new s] by (simp add: replace_all_def str_split_def)

lemma replace_from_same: "old \<noteq> [] \<Longrightarrow> replace_from 0 old old s = s"
proof (induction "length s" arbitrary: s rule: less_induct)
  case less
  show ?case
  proof (cases s)
    case (Cons c cs)
    show ?thesis
    proof (cases "has_prefix s old")
      case True
      obtain o' os where old: "old = o' # os" using less.prems by (cases old) auto
      have "old @ drop (length old) s = s" using has_prefix_decomp [OF True] by simp
      moreover have "drop (length old) s = drop (length old - 1) cs" using Cons old by simp
      moreover have "replace_from 0 old old (drop (length old - 1) cs) = drop (length old - 1) cs"
        by (rule less.hyps) (use Cons less.prems in \<open>auto simp: less_Suc_eq_le\<close>)
      ultimately show ?thesis
        using Cons True by (simp add: replace_from_skip [of "length old - Suc 0"])
    next
      case False
      with less.hyps [of cs] less.prems Cons show ?thesis by simp
    qed
  qed simp
qed

text \<open>The text itself is the parts joined by the separator, and no part holds the separator.\<close>

lemma str_split_join: "sep \<noteq> [] \<Longrightarrow> str_join (str_split s sep) sep = s"
  using replace_all_split [of sep s sep] replace_from_same [of sep s] by (simp add: replace_all_def)

lemma split_from_clean:
  assumes "sep \<noteq> []" "\<And>i. i < length acc \<Longrightarrow> \<not> has_prefix (drop i (acc @ s)) sep"
    and "p \<in> set (split_from 0 sep acc s)"
  shows "\<not> sublist sep p"
  using assms
proof (induction "length s" arbitrary: s acc rule: less_induct)
  case less
  have acc: "\<not> sublist sep acc"
  proof
    assume "sublist sep acc"
    then obtain a b where ab: "acc = a @ sep @ b" unfolding sublist_def by blast
    then have "has_prefix (drop (length a) (acc @ s)) sep" by simp
    moreover have "length a < length acc" using ab less.prems(1) by simp
    ultimately show False using less.prems(2) by blast
  qed
  show ?case
  proof (cases s)
    case Nil
    with acc less.prems(3) show ?thesis by simp
  next
    case (Cons c cs)
    show ?thesis
    proof (cases "has_prefix s sep")
      case True
      let ?r = "drop (length sep - 1) cs"
      have "p = acc \<or> p \<in> set (split_from 0 sep [] ?r)"
        using less.prems(3) Cons True by (auto simp: split_from_skip [of "length sep - Suc 0"])
      then show ?thesis
      proof
        assume "p \<in> set (split_from 0 sep [] ?r)"
        then show ?thesis
          by (intro less.hyps [of ?r "[]"]) (use less.prems(1) Cons in \<open>auto simp: less_Suc_eq_le\<close>)
      qed (use acc in simp)
    next
      case False
      show ?thesis
      proof (rule less.hyps [of cs "acc @ [c]"])
        show "\<not> has_prefix (drop i ((acc @ [c]) @ cs)) sep" if "i < length (acc @ [c])" for i
          using less.prems(2) [of i] that False Cons by (cases "i = length acc") auto
      qed (use less.prems Cons False in auto)
    qed
  qed
qed

lemma str_split_clean: "sep \<noteq> [] \<Longrightarrow> p \<in> set (str_split s sep) \<Longrightarrow> \<not> sublist sep p"
  unfolding str_split_def by (rule split_from_clean) auto

lemma str_join_sublist: "p \<in> set ps \<Longrightarrow> sublist p (str_join ps sep)"
proof (induction ps)
  case (Cons q qs)
  show ?case
  proof (cases "qs = []")
    case False
    have "sublist q (q @ sep @ str_join qs sep)" "sublist (str_join qs sep) (q @ sep @ str_join qs sep)"
      by (auto simp: sublist_append)
    with Cons False show ?thesis
      by (auto simp: str_join_Cons intro: sublist_order.order.trans)
  qed (use Cons in simp)
qed simp

subsection \<open>UTF-8\<close>

text \<open>
  The number of bytes of the first rune of a string that is not empty, as \<open>unicode/utf8\<close>
  decodes it: a byte that begins no valid encoding is a rune of its own.
\<close>

definition byte_in :: "nat \<Rightarrow> nat \<Rightarrow> char \<Rightarrow> bool" where
  "byte_in lo hi c \<longleftrightarrow> lo \<le> of_char c \<and> of_char c \<le> hi"

definition second_byte :: "char \<Rightarrow> nat \<times> nat" where
  "second_byte c = (let b = (of_char c :: nat) in
     if b = 0xE0 then (0xA0, 0xBF) else if b = 0xED then (0x80, 0x9F)
     else if b = 0xF0 then (0x90, 0xBF) else if b = 0xF4 then (0x80, 0x8F) else (0x80, 0xBF))"

definition rune_size :: "string \<Rightarrow> nat" where
  "rune_size s = (case s of
     c0 # c1 # cs \<Rightarrow>
       let (lo, hi) = second_byte c0; cont = byte_in 0x80 0xBF in
       if byte_in 0xC2 0xDF c0 \<and> byte_in lo hi c1 then 2
       else if byte_in 0xE0 0xEF c0 \<and> byte_in lo hi c1 \<and> cs \<noteq> [] \<and> cont (hd cs) then 3
       else if byte_in 0xF0 0xF4 c0 \<and> byte_in lo hi c1 \<and> length cs \<ge> 2 \<and> cont (hd cs) \<and> cont (cs ! 1)
         then 4
       else 1
   | _ \<Rightarrow> 1)"

text \<open>\<open>utf8.RuneCountInString\<close>, with the bytes of the current rune still to skip.\<close>

fun rune_count_from :: "nat \<Rightarrow> string \<Rightarrow> nat" where
  "rune_count_from k [] = 0"
| "rune_count_from (Suc k) (c # cs) = rune_count_from k cs"
| "rune_count_from 0 (c # cs) = Suc (rune_count_from (rune_size (c # cs) - 1) cs)"

definition rune_count :: "string \<Rightarrow> nat" where
  "rune_count s = rune_count_from 0 s"

end
