(* ===== verification/Filepath.thy ===== *)
theory Filepath
  imports Gronin_Prelude
begin

text \<open>
  The functions of Go's package \<open>path/filepath\<close> the runtime calls, on a system whose separator
  is the slash: the lexical clean-up of a path, joining, and the parts of a path.  This models the
  standard library, not a file of the repository.
\<close>

text \<open>
  \<open>clean_comps\<close> walks the components of a path with the stack of those kept so far, the
  innermost first: empty components and dots are dropped, a pair of dots removes the component
  before it, is dropped at the root of a rooted path and is kept at the front of any other.
\<close>

fun clean_comps :: "bool \<Rightarrow> string list \<Rightarrow> string list \<Rightarrow> string list" where
  "clean_comps rooted st [] = rev st"
| "clean_comps rooted st (c # cs) =
     (if c = [] \<or> c = ''.'' then clean_comps rooted st cs
      else if c = ''..'' then
        (case st of
           [] \<Rightarrow> clean_comps rooted (if rooted then [] else [''..'']) cs
         | s # ss \<Rightarrow> if s = ''..'' then clean_comps rooted (''..'' # st) cs
                     else clean_comps rooted ss cs)
      else clean_comps rooted (c # st) cs)"

definition IsAbs :: "string \<Rightarrow> bool" where
  "IsAbs path \<longleftrightarrow> has_prefix path ''/''"

definition Clean :: "string \<Rightarrow> string" where
  "Clean path =
     (if path = [] then ''.''
      else let body = str_join (clean_comps (IsAbs path) [] (str_split path ''/'')) ''/''
           in if IsAbs path then CHR ''/'' # body
              else if body = [] then ''.'' else body)"

definition path_Join :: "string list \<Rightarrow> string" where
  "path_Join elems = (case dropWhile (\<lambda>e. e = []) elems of
     [] \<Rightarrow> [] | e # es \<Rightarrow> Clean (str_join (e # es) ''/''))"

definition path_Dir :: "string \<Rightarrow> string" where
  "path_Dir path = Clean (rev (dropWhile (\<lambda>c. c \<noteq> CHR ''/'') (rev path)))"

definition path_Base :: "string \<Rightarrow> string" where
  "path_Base path =
     (if path = [] then ''.''
      else let s = rev (dropWhile (\<lambda>c. c = CHR ''/'') (rev path));
               base = rev (takeWhile (\<lambda>c. c \<noteq> CHR ''/'') (rev s))
           in if base = [] then ''/'' else base)"

definition path_Ext :: "string \<Rightarrow> string" where
  "path_Ext path =
     (let r = takeWhile (\<lambda>c. c \<noteq> CHR ''/'') (rev path)
      in if CHR ''.'' \<in> set r then CHR ''.'' # rev (takeWhile (\<lambda>c. c \<noteq> CHR ''.'') r) else [])"

text \<open>
  A walk that drops nothing below its starting point: \<open>stays_below n cs\<close> says that the
  components \<open>cs\<close>, walked from a depth of \<open>n\<close> below some directory, never leave that
  directory on the way.
\<close>

fun stays_below :: "nat \<Rightarrow> string list \<Rightarrow> bool" where
  "stays_below n [] \<longleftrightarrow> True"
| "stays_below n (c # cs) \<longleftrightarrow>
     (if c = [] \<or> c = ''.'' then stays_below n cs
      else if c = ''..'' then (case n of 0 \<Rightarrow> False | Suc m \<Rightarrow> stays_below m cs)
      else stays_below (Suc n) cs)"

text \<open>While a walk stays below its root, the root is a prefix of where it ends.\<close>

lemma clean_comps_stays:
  assumes "stays_below (length st) cs" "''..'' \<notin> set st"
  shows "\<exists>ds. clean_comps rooted (st @ base) cs = rev base @ ds"
  using assms
proof (induction cs arbitrary: st)
  case Nil
  then show ?case by simp
next
  case (Cons c cs)
  consider (skip) "c = [] \<or> c = ''.''" | (up) "c = ''..''" | (down) "c \<noteq> []" "c \<noteq> ''.''" "c \<noteq> ''..''"
    by blast
  then show ?case
  proof cases
    case skip
    with Cons show ?thesis by auto
  next
    case up
    with Cons.prems obtain s ss where st: "st = s # ss" "s \<noteq> ''..''" "''..'' \<notin> set ss"
      by (cases st) auto
    with up Cons.prems Cons.IH [of ss] show ?thesis by simp
  next
    case down
    with Cons.prems Cons.IH [of "c # st"] show ?thesis by simp
  qed
qed

lemma clean_comps_rooted_no_dots:
  "''..'' \<notin> set st \<Longrightarrow> ''..'' \<notin> set (clean_comps True st cs)"
  by (induction True st cs rule: clean_comps.induct) (auto split: list.splits)

text \<open>The components a clean-up keeps are components of the path.\<close>

lemma clean_comps_subset:
  "set (clean_comps r st cs) \<subseteq> set st \<union> set cs \<union> (if r then {} else {''..''})"
proof (induction r st cs rule: clean_comps.induct)
  case (2 r st c cs)
  then show ?case by (auto split: list.splits if_splits)
qed auto

text \<open>
  A walk that leaves its root ends elsewhere, unless a component of the path names the root again.
\<close>

lemma clean_comps_leaves:
  assumes "\<not> stays_below (length st) cs" "''..'' \<notin> set st" "root \<notin> set cs" "root \<noteq> ''..''"
  shows "hd (clean_comps True (st @ [root]) cs @ [[]]) \<noteq> root \<or> root = []"
  using assms
proof (induction cs arbitrary: st)
  case Nil
  then show ?case by simp
next
  case (Cons c cs)
  consider (skip) "c = [] \<or> c = ''.''" | (up) "c = ''..''" | (down) "c \<noteq> []" "c \<noteq> ''.''" "c \<noteq> ''..''"
    by blast
  then show ?case
  proof cases
    case skip
    with Cons show ?thesis by auto
  next
    case up
    show ?thesis
    proof (cases st)
      case Nil
      have "set (clean_comps True [] cs) \<subseteq> set cs" using clean_comps_subset [of True "[]" cs] by simp
      with Cons.prems have "root \<notin> set (clean_comps True [] cs)" by auto
      with up Nil Cons.prems show ?thesis by (cases "clean_comps True [] cs") auto
    next
      fix s ss assume "st = s # ss"
      with up Cons.prems Cons.IH [of ss] show ?thesis by auto
    qed
  next
    case down
    with Cons.prems Cons.IH [of "c # st"] show ?thesis by simp
  qed
qed

subsection \<open>Cleaning a path below a directory\<close>

definition real_comp :: "string \<Rightarrow> bool" where
  "real_comp c \<longleftrightarrow> c \<noteq> [] \<and> c \<noteq> ''.'' \<and> c \<noteq> ''..'' \<and> CHR ''/'' \<notin> set c"

lemma clean_comps_real:
  "list_all real_comp st \<Longrightarrow> (\<forall>c \<in> set cs. CHR ''/'' \<notin> set c) \<Longrightarrow>
   list_all real_comp (clean_comps True st cs)"
proof (induction True st cs rule: clean_comps.induct)
  case (1 st)
  then show ?case by (auto simp: list_all_iff)
next
  case (2 st c cs)
  then show ?case by (cases st) (auto simp: real_comp_def)
qed

lemma clean_comps_id:
  "list_all real_comp cs \<Longrightarrow> clean_comps r st cs = rev st @ cs"
  by (induction cs arbitrary: st) (auto simp: real_comp_def)

lemma split_from_acc:
  "CHR ''/'' \<notin> set c \<Longrightarrow> split_from 0 ''/'' acc (c @ CHR ''/'' # s) = (acc @ c) # split_from 0 ''/'' [] s"
  by (induction c arbitrary: acc) (auto simp: has_prefix_def)

lemma split_from_end:
  "CHR ''/'' \<notin> set c \<Longrightarrow> split_from 0 ''/'' acc c = [acc @ c]"
  by (induction c arbitrary: acc) (auto simp: has_prefix_def)

lemma str_split_str_join:
  "cs \<noteq> [] \<Longrightarrow> \<forall>c \<in> set cs. CHR ''/'' \<notin> set c \<Longrightarrow> str_split (str_join cs ''/'') ''/'' = cs"
proof (induction cs)
  case (Cons c cs)
  then show ?case
    by (cases cs) (auto simp: str_split_def split_from_acc split_from_end str_join_Cons)
qed simp

lemma Clean_real:
  assumes "list_all real_comp cs"
  shows "Clean (CHR ''/'' # str_join cs ''/'') = CHR ''/'' # str_join cs ''/''"
proof -
  have "str_split (CHR ''/'' # str_join cs ''/'') ''/'' = [] # (if cs = [] then [[]] else cs)"
    using assms str_split_str_join [of cs]
    by (auto simp: str_split_def list_all_iff real_comp_def has_prefix_def)
  moreover have "clean_comps True [] cs = cs" using clean_comps_id [OF assms] by simp
  ultimately show ?thesis by (simp add: Clean_def IsAbs_def has_prefix_def)
qed

lemma Clean_Join_under:
  assumes "real_comp root"
  shows "Clean (path_Join [CHR ''/'' # root, scope])
         = CHR ''/'' # str_join (clean_comps True [root] (str_split scope ''/'')) ''/''"
proof -
  let ?cs = "clean_comps True [root] (str_split scope ''/'')"
  have "str_split (CHR ''/'' # root @ CHR ''/'' # scope) ''/'' = [] # root # str_split scope ''/''"
    using assms by (simp add: str_split_def real_comp_def has_prefix_def split_from_acc)
  then have "path_Join [CHR ''/'' # root, scope] = CHR ''/'' # str_join ?cs ''/''"
    using assms by (simp add: path_Join_def Clean_def IsAbs_def has_prefix_def real_comp_def)
  moreover have "list_all real_comp ?cs"
    by (rule clean_comps_real) (use assms str_split_no_sep in auto)
  ultimately show ?thesis by (simp add: Clean_real)
qed

text \<open>A cleaned rooted path lies under a directory of the root when that is its first component.\<close>

lemma under_iff:
  assumes "list_all real_comp cs" "real_comp root"
  shows "(str_join cs ''/'' = root \<or> has_prefix (str_join cs ''/'') (root @ ''/''))
         \<longleftrightarrow> hd (cs @ [[]]) = root"
proof (cases cs)
  case Nil
  with assms show ?thesis by (auto simp: real_comp_def has_prefix_def)
next
  case (Cons c ds)
  have c: "CHR ''/'' \<notin> set c" and root: "CHR ''/'' \<notin> set root"
    using assms Cons by (simp_all add: real_comp_def)
  show ?thesis
  proof (cases "ds = []")
    case True
    have "\<not> has_prefix c (root @ ''/'')" using c has_prefix_set [of c "root @ ''/''"] by auto
    with True Cons show ?thesis by simp
  next
    case False
    have join: "str_join cs ''/'' = c @ CHR ''/'' # str_join ds ''/''"
      using Cons False by (simp add: str_join_Cons)
    have "has_prefix (str_join cs ''/'') (root @ ''/'') \<longleftrightarrow> c = root"
    proof
      assume "has_prefix (str_join cs ''/'') (root @ ''/'')"
      then have "c @ CHR ''/'' # str_join ds ''/'' = root @ CHR ''/'' # drop (length (root @ ''/'')) (str_join cs ''/'')"
        using has_prefix_decomp [of "str_join cs ''/''" "root @ ''/''"] join by simp
      then show "c = root" using append_Cons_unique [OF _ c root] by blast
    next
      assume "c = root"
      then show "has_prefix (str_join cs ''/'') (root @ ''/'')" by (simp add: join has_prefix_def)
    qed
    moreover have "str_join cs ''/'' \<noteq> root" using root join by auto
    ultimately show ?thesis using Cons by auto
  qed
qed

end
