(* ===== verification/Config.thy ===== *)
theory Config
  imports Filepath
begin

text \<open>
  The deployment configuration and the references a playbook makes to it: the package
  \<open>runtime/internal/config\<close>.  A reference is \<open>${config.x}\<close> or \<open>${trigger.x}\<close>.
  \<open>Interpolate\<close> substitutes values into text; \<open>BindShell\<close> turns the references of a shell
  line into variable expansions and hands the values over in the environment.  The file system
  and the JSON codec of \<open>Load\<close> and \<open>Set\<close> are parameters.
\<close>

subsection \<open>Data\<close>

record config_value =
  cv_value :: string
  cv_secret :: bool

record config =
  stateDir :: string
  cfg_values :: "config_value gomap"

text \<open>
  Every refusal of a reference, with the data its message is rendered from.
\<close>

datatype ref_problem =
    Unterminated string
  | Nested string
  | NoSource string
  | NotConfigured string
  | NotInPayload string
  | UnknownSource string string
  | InsideQuotes string
  | BothBind string string string

record bound =
  Line :: string
  Env :: "string list"

subsection \<open>References\<close>

text \<open>
  The regular expressions of the reference syntax all read a fixed opening, a body of bytes of a
  class that leaves out the closing brace, and the closing brace.  Leftmost matches that do not
  overlap cut a text into tokens: a byte no match covers, or a match with its body.
\<close>

datatype ref_token = Lit char | Ref string

fun ref_body :: "(char \<Rightarrow> bool) \<Rightarrow> string \<Rightarrow> string option" where
  "ref_body ok [] = None"
| "ref_body ok (c # cs) =
     (if c = CHR ''}'' then Some []
      else if ok c then map_option (Cons c) (ref_body ok cs) else None)"

definition ref_match :: "string \<Rightarrow> (char \<Rightarrow> bool) \<Rightarrow> string \<Rightarrow> string option" where
  "ref_match pre ok s = (case cut_prefix s pre of None \<Rightarrow> None | Some r \<Rightarrow> ref_body ok r)"

fun ref_scan :: "string \<Rightarrow> (char \<Rightarrow> bool) \<Rightarrow> nat \<Rightarrow> string \<Rightarrow> ref_token list" where
  "ref_scan pre ok k [] = []"
| "ref_scan pre ok (Suc k) (c # cs) = ref_scan pre ok k cs"
| "ref_scan pre ok 0 (c # cs) =
     (case ref_match pre ok (c # cs) of
        None \<Rightarrow> Lit c # ref_scan pre ok 0 cs
      | Some b \<Rightarrow> Ref b # ref_scan pre ok (length pre + length b) cs)"

fun ref_bodies :: "ref_token list \<Rightarrow> string list" where
  "ref_bodies [] = []"
| "ref_bodies (Lit c # ts) = ref_bodies ts"
| "ref_bodies (Ref b # ts) = b # ref_bodies ts"

text \<open>The offsets of each match, as \<open>FindAllStringSubmatchIndex\<close> reports them, and its body.\<close>

fun ref_spans :: "string \<Rightarrow> nat \<Rightarrow> ref_token list \<Rightarrow> (nat \<times> nat \<times> string) list" where
  "ref_spans pre off [] = []"
| "ref_spans pre off (Lit c # ts) = ref_spans pre (Suc off) ts"
| "ref_spans pre off (Ref b # ts) =
     (let e = off + length pre + length b + 1 in (off, e, b) # ref_spans pre e ts)"

text \<open>The expression \<open>reference\<close>: any body, namespace or not.\<close>

definition reference :: "string \<Rightarrow> ref_token list" where
  "reference s = ref_scan ''${'' (\<lambda>_. True) 0 s"

definition reference_spans :: "string \<Rightarrow> (nat \<times> nat \<times> string) list" where
  "reference_spans s = ref_spans ''${'' 0 (reference s)"

definition validKey :: "string \<Rightarrow> bool" where
  "validKey s \<longleftrightarrow> s \<noteq> [] \<and> list_all (\<lambda>c. is_alnum c \<or> c = CHR ''_'' \<or> c = CHR ''-'') s"

datatype key_problem = EmptyKey | BadKey string

definition ValidKey :: "string \<Rightarrow> key_problem option" where
  "ValidKey key = (if key = [] then Some EmptyKey
     else if \<not> validKey key then Some (BadKey key) else None)"

subsection \<open>Interpolation\<close>

definition around :: "string \<Rightarrow> nat \<Rightarrow> string" where
  "around text at =
     (let end' = min (at + 24) (length text);
          snippet = drop at (take end' text)
      in if end' < length text then snippet @ [CHR 0xE2, CHR 0x80, CHR 0xA6] else snippet)"

text \<open>
  The loop of \<open>unterminated\<close>: each round finds the next opening at or after the offset and goes
  on behind it, or behind the match that starts there.  Every round moves the offset by two bytes
  or more, so a text of length \<open>n\<close> needs at most \<open>n\<close> rounds; the fuel is one more.
\<close>

fun unterminated_loop ::
  "nat \<Rightarrow> (nat \<times> nat \<times> string) list \<Rightarrow> string \<Rightarrow> nat \<Rightarrow> ref_problem list" where
  "unterminated_loop 0 matched text offset = []"
| "unterminated_loop (Suc fuel) matched text offset =
     (case str_index (drop offset text) ''${'' of
        None \<Rightarrow> []
      | Some i \<Rightarrow>
          let start = i + offset in
          (case find (\<lambda>(a, e, b). a = start) matched of
             Some (a, e, b) \<Rightarrow> unterminated_loop fuel matched text e
           | None \<Rightarrow> Unterminated (around text start)
                      # unterminated_loop fuel matched text (start + 2)))"

definition unterminated :: "string \<Rightarrow> ref_problem list" where
  "unterminated text = unterminated_loop (Suc (length text)) (reference_spans text) text 0"

text \<open>
  The callback of \<open>Interpolate\<close> on one match: the problem it appends, if any, and the text it
  puts in the match's place.
\<close>

definition interpolate_ref ::
  "config \<Rightarrow> string gomap \<Rightarrow> string \<Rightarrow> ref_problem list \<times> string" where
  "interpolate_ref c trigger name =
     (let unchanged = ''${'' @ name @ ''}'' in
      if str_contains name ''${'' then ([Nested name], unchanged)
      else (case str_cut name ''.'' of
          None \<Rightarrow> ([NoSource name], unchanged)
        | Some (namespace, key) \<Rightarrow>
            if namespace = ''config'' then
              (case map_of (cfg_values c) key of
                 Some v \<Rightarrow> ([], cv_value v)
               | None \<Rightarrow> ([NotConfigured key], unchanged))
            else if namespace = ''trigger'' then
              (case map_of trigger key of
                 Some v \<Rightarrow> ([], v)
               | None \<Rightarrow> ([NotInPayload key], unchanged))
            else ([UnknownSource name namespace], unchanged)))"

fun interpolate_token ::
  "config \<Rightarrow> string gomap \<Rightarrow> ref_token \<Rightarrow> ref_problem list \<times> string" where
  "interpolate_token c trigger (Lit ch) = ([], [ch])"
| "interpolate_token c trigger (Ref name) = interpolate_ref c trigger name"

definition Interpolate ::
  "config \<Rightarrow> string \<Rightarrow> string gomap \<Rightarrow> (ref_problem list, string) result" where
  "Interpolate c text trigger =
     (let replaced = map (interpolate_token c trigger) (reference text);
          problems = unterminated text @ concat (map fst replaced);
          resolved = concat (map snd replaced)
      in if problems \<noteq> [] then Inl problems else Inr resolved)"

subsection \<open>Shell lines\<close>

definition EnvPrefix :: string where
  "EnvPrefix = ''GRONIN_''"

definition resolve ::
  "config \<Rightarrow> string \<Rightarrow> string \<Rightarrow> string \<Rightarrow> string gomap \<Rightarrow> (ref_problem, string) result" where
  "resolve c namespace key name trigger =
     (if namespace = ''config'' then
        (case map_of (cfg_values c) key of Some v \<Rightarrow> Inr (cv_value v) | None \<Rightarrow> Inl (NotConfigured key))
      else if namespace = ''trigger'' then
        (case map_of trigger key of Some v \<Rightarrow> Inr v | None \<Rightarrow> Inl (NotInPayload key))
      else Inl (UnknownSource name namespace))"

definition envSafe :: "string \<Rightarrow> string" where
  "envSafe key = to_upper (replace_all key ''-'' ''_'')"

fun quoted_loop :: "bool \<Rightarrow> bool \<Rightarrow> string \<Rightarrow> bool" where
  "quoted_loop single double [] = (single \<or> double)"
| "quoted_loop single double (c # cs) =
     (if c = CHR 0x5C then (if single then quoted_loop single double cs
                            else quoted_loop single double (tl cs))
      else if c = CHR 0x27 then quoted_loop (if double then single else \<not> single) double cs
      else if c = CHR 0x22 then quoted_loop single (if single then double else \<not> double) cs
      else quoted_loop single double cs)"

definition quoted :: "string \<Rightarrow> nat \<Rightarrow> bool" where
  "quoted line at = quoted_loop False False (take at line)"

record bind_state =
  b_problems :: "ref_problem list"
  b_names :: "string gomap"
  b_values :: "string gomap"
  b_out :: string
  b_last :: nat

definition bind_variable :: "string \<Rightarrow> string \<Rightarrow> string" where
  "bind_variable namespace key = EnvPrefix @ to_upper namespace @ ''_'' @ envSafe key"

text \<open>A refused reference: its problem is appended and its text copied as it stands.\<close>

definition bind_refuse :: "string \<Rightarrow> nat \<Rightarrow> nat \<Rightarrow> ref_problem \<Rightarrow> bind_state \<Rightarrow> bind_state" where
  "bind_refuse line at end' p st =
     st\<lparr>b_problems := b_problems st @ [p], b_out := b_out st @ drop at (take end' line)\<rparr>"

definition bind_span ::
  "config \<Rightarrow> string gomap \<Rightarrow> string \<Rightarrow> nat \<times> nat \<times> string \<Rightarrow> bind_state \<Rightarrow> bind_state" where
  "bind_span c trigger line = (\<lambda>(at, end', name) st0.
     let st = st0\<lparr>b_out := b_out st0 @ drop (b_last st0) (take at line), b_last := end'\<rparr> in
     if quoted line at then bind_refuse line at end' (InsideQuotes name) st
     else (case str_cut name ''.'' of
         None \<Rightarrow> bind_refuse line at end' (NoSource name) st
       | Some (namespace, key) \<Rightarrow>
           (case resolve c namespace key name trigger of
              Inl p \<Rightarrow> bind_refuse line at end' p st
            | Inr value \<Rightarrow>
                let variable = bind_variable namespace key in
                case map_of (b_names st) variable of
                  Some first \<Rightarrow>
                    if first \<noteq> name
                    then bind_refuse line at end' (BothBind first name variable) st
                    else st\<lparr>b_names := map_set variable name (b_names st),
                            b_values := map_set variable value (b_values st),
                            b_out := b_out st @ [CHR 0x22, CHR ''$''] @ variable @ [CHR 0x22]\<rparr>
                | None \<Rightarrow> st\<lparr>b_names := map_set variable name (b_names st),
                            b_values := map_set variable value (b_values st),
                            b_out := b_out st @ [CHR 0x22, CHR ''$''] @ variable @ [CHR 0x22]\<rparr>)))"

definition BindShell ::
  "config \<Rightarrow> string \<Rightarrow> string gomap \<Rightarrow> (ref_problem list, bound) result" where
  "BindShell c line trigger =
     (let st0 = \<lparr>b_problems = unterminated line, b_names = [], b_values = [], b_out = [], b_last = 0\<rparr>;
          st = fold (bind_span c trigger line) (reference_spans line) st0;
          out = b_out st @ drop (b_last st) line
      in if b_problems st \<noteq> [] then Inl (b_problems st)
         else Inr \<lparr>Line = out,
                   Env = sort (map (\<lambda>(variable, value). variable @ ''='' @ value) (b_values st))\<rparr>)"

definition QuotedReferences :: "string \<Rightarrow> string list" where
  "QuotedReferences line =
     map (\<lambda>(at, e, name). name) (filter (\<lambda>(at, e, name). quoted line at) (reference_spans line))"

definition TriggerReferences :: "string \<Rightarrow> string list" where
  "TriggerReferences line =
     concat (map (\<lambda>name. case str_cut name ''.'' of
                    Some (namespace, key) \<Rightarrow> if namespace = ''trigger'' then [key] else []
                  | None \<Rightarrow> [])
             (ref_bodies (reference line)))"

subsection \<open>The configuration file\<close>

text \<open>
  \<open>readFile\<close>, \<open>mkdirAll\<close> and \<open>writeFile\<close> are the calls of package \<open>os\<close>,
  \<open>unmarshal\<close> and \<open>marshal\<close> those of \<open>encoding/json\<close> at the type of the values.
\<close>

datatype os_error = ErrNotExist | OsError string

datatype config_error =
    ReadingConfiguration os_error
  | ParsingConfiguration string
  | CreatingStateDir os_error
  | EncodingConfiguration string
  | WritingConfiguration os_error
  | InvalidKey key_problem

definition configFile :: string where
  "configFile = ''config.json''"

definition config_Load ::
  "(string \<Rightarrow> (os_error, string) result) \<Rightarrow> (string \<Rightarrow> (string, config_value gomap) result) \<Rightarrow>
   string \<Rightarrow> (config_error, config) result" where
  "config_Load readFile unmarshal dir =
     (case readFile (path_Join [dir, configFile]) of
        Inl ErrNotExist \<Rightarrow> Inr \<lparr>stateDir = dir, cfg_values = []\<rparr>
      | Inl e \<Rightarrow> Inl (ReadingConfiguration e)
      | Inr data \<Rightarrow> (case unmarshal data of
            Inl e \<Rightarrow> Inl (ParsingConfiguration e)
          | Inr vs \<Rightarrow> Inr \<lparr>stateDir = dir, cfg_values = vs\<rparr>))"

text \<open>
  \<open>save\<close> answers the error it returns, or the path and the bytes it wrote.
\<close>

definition save ::
  "(string \<Rightarrow> os_error option) \<Rightarrow> (config_value gomap \<Rightarrow> (string, string) result) \<Rightarrow>
   (string \<Rightarrow> string \<Rightarrow> os_error option) \<Rightarrow> config \<Rightarrow> (config_error, string \<times> string) result" where
  "save mkdirAll marshal writeFile c =
     (case mkdirAll (stateDir c) of
        Some e \<Rightarrow> Inl (CreatingStateDir e)
      | None \<Rightarrow> (case marshal (cfg_values c) of
            Inl e \<Rightarrow> Inl (EncodingConfiguration e)
          | Inr data \<Rightarrow>
              let path = path_Join [stateDir c, configFile]; bytes = data @ [CHR 0x0A]
              in case writeFile path bytes of
                   Some e \<Rightarrow> Inl (WritingConfiguration e) | None \<Rightarrow> Inr (path, bytes)))"

text \<open>\<open>Set\<close> stores the value in memory first, so a failing save leaves it stored.\<close>

definition config_Set ::
  "(string \<Rightarrow> os_error option) \<Rightarrow> (config_value gomap \<Rightarrow> (string, string) result) \<Rightarrow>
   (string \<Rightarrow> string \<Rightarrow> os_error option) \<Rightarrow> string \<Rightarrow> config_value \<Rightarrow> config \<Rightarrow>
   config \<times> (config_error, string \<times> string) result" where
  "config_Set mkdirAll marshal writeFile key value c =
     (case ValidKey key of
        Some p \<Rightarrow> (c, Inl (InvalidKey p))
      | None \<Rightarrow> let c' = c\<lparr>cfg_values := map_set key value (cfg_values c)\<rparr>
                 in (c', save mkdirAll marshal writeFile c'))"

definition Keys :: "config \<Rightarrow> string list" where
  "Keys c = sorted_keys (cfg_values c)"

definition config_Get :: "config \<Rightarrow> string \<Rightarrow> config_value option" where
  "config_Get c key = map_of (cfg_values c) key"

definition Secrets :: "config \<Rightarrow> string list" where
  "Secrets c = concat (map (\<lambda>key. case map_of (cfg_values c) key of
       Some v \<Rightarrow> if cv_secret v \<and> cv_value v \<noteq> [] then [cv_value v] else []
     | None \<Rightarrow> []) (Keys c))"

subsection \<open>Facts of the reference syntax\<close>

fun tok_text :: "string \<Rightarrow> ref_token \<Rightarrow> string" where
  "tok_text pre (Lit c) = [c]"
| "tok_text pre (Ref b) = pre @ b @ ''}''"

abbreviation toks_text :: "string \<Rightarrow> ref_token list \<Rightarrow> string" where
  "toks_text pre ts \<equiv> concat (map (tok_text pre) ts)"

lemma ref_body_decomp:
  "ref_body ok s = Some b \<Longrightarrow>
     (\<exists>r. s = b @ ''}'' @ r) \<and> CHR ''}'' \<notin> set b \<and> (\<forall>c \<in> set b. ok c)"
proof (induction s arbitrary: b)
  case (Cons c cs)
  show ?case
  proof (cases "c = CHR ''}''")
    case False
    with Cons.prems obtain b' where b': "ok c" "ref_body ok cs = Some b'" "b = c # b'"
      by (auto split: if_splits)
    with Cons.IH [of b'] False show ?thesis by auto
  qed (use Cons.prems in auto)
qed simp

lemma ref_body_append:
  "CHR ''}'' \<notin> set b \<Longrightarrow> (\<forall>c \<in> set b. ok c) \<Longrightarrow> ref_body ok (b @ CHR ''}'' # r) = Some b"
  by (induction b) auto

lemma ref_body_total: "ref_body (\<lambda>_. True) s = None \<longleftrightarrow> CHR ''}'' \<notin> set s"
  by (induction s) auto

lemma ref_match_decomp:
  "ref_match pre ok s = Some b \<Longrightarrow>
     (\<exists>r. s = pre @ b @ ''}'' @ r) \<and> CHR ''}'' \<notin> set b \<and> (\<forall>c \<in> set b. ok c)"
  unfolding ref_match_def cut_prefix_def
  by (auto split: if_splits dest!: ref_body_decomp has_prefix_decomp)

text \<open>
  What the tokens say of the text, for every opening and every class of body bytes, so for each
  of the four reference expressions of the program.
\<close>

lemma ref_scan_text_from: "toks_text pre (ref_scan pre ok k s) = drop k s"
proof (induction pre ok k s rule: ref_scan.induct)
  case (3 pre' ok' c cs)
  show ?case
  proof (cases "ref_match pre' ok' (c # cs)")
    case None
    with 3 show ?thesis by simp
  next
    case (Some b)
    then obtain r where r: "c # cs = pre' @ b @ ''}'' @ r" by (blast dest: ref_match_decomp)
    have "drop (length pre' + length b) cs = r"
    proof -
      have "drop (Suc (length pre' + length b)) (c # cs) = r" unfolding r by simp
      then show ?thesis by simp
    qed
    with Some 3 have "toks_text pre' (ref_scan pre' ok' 0 (c # cs)) = pre' @ b @ ''}'' @ r" by simp
    with r show ?thesis by simp
  qed
qed simp_all

lemma ref_scan_text: "toks_text pre (ref_scan pre ok 0 s) = s"
  by (simp add: ref_scan_text_from)

lemma ref_scan_bodies:
  "Ref b \<in> set (ref_scan pre ok k s) \<Longrightarrow> CHR ''}'' \<notin> set b \<and> (\<forall>c \<in> set b. ok c)"
proof (induction pre ok k s rule: ref_scan.induct)
  case (3 pre' ok' c cs)
  then show ?case
    by (cases "ref_match pre' ok' (c # cs)") (auto dest: ref_match_decomp)
qed simp_all

lemma ref_scan_contains: "Ref b \<in> set (ref_scan pre ok 0 s) \<Longrightarrow> str_contains s (pre @ b @ ''}'')"
proof -
  assume "Ref b \<in> set (ref_scan pre ok 0 s)"
  then obtain us vs where "ref_scan pre ok 0 s = us @ Ref b # vs" by (meson split_list)
  then have "s = toks_text pre us @ (pre @ b @ ''}'') @ toks_text pre vs"
    using ref_scan_text [of pre ok s] by simp
  then show ?thesis unfolding str_contains_iff by blast
qed

lemma ref_scan_Lit_unmatched:
  "ref_scan pre ok k s = us @ Lit c # ws \<Longrightarrow> ref_match pre ok (c # toks_text pre ws) = None"
proof (induction pre ok k s arbitrary: us rule: ref_scan.induct)
  case (3 pre ok c' cs)
  show ?case
  proof (cases "ref_match pre ok (c' # cs)")
    case None
    with "3.prems" "3.IH"(1) ref_scan_text [of pre ok cs] show ?thesis by (cases us) auto
  next
    case (Some b)
    with "3.prems" "3.IH"(2) show ?thesis by (cases us) auto
  qed
qed auto

lemma ref_scan_literal: "\<not> str_contains s pre \<Longrightarrow> ref_scan pre ok 0 s = map Lit s"
proof (induction s)
  case (Cons c cs)
  have "\<not> has_prefix (c # cs) pre"
    using Cons.prems has_prefix_decomp [of "c # cs" pre] unfolding str_contains_iff
    by (metis append_Nil)
  moreover have "\<not> str_contains cs pre"
    using Cons.prems unfolding str_contains_iff by (metis append_Cons)
  ultimately show ?case using Cons.IH by (simp add: ref_match_def cut_prefix_def)
qed simp

lemma reference_text: "toks_text ''${'' (reference s) = s"
  unfolding reference_def by (rule ref_scan_text)

lemma scan_Lit: "toks_text pre (map Lit s) = s"
  by (induction s) auto

text \<open>
  The expressions for references of one kind open with the two bytes of every reference and a
  prefix of the name.  They find each reference whose name has that prefix: a match of theirs
  never runs over the end of a reference.
\<close>

locale ref_syntax =
  fixes x :: string and ok :: "char \<Rightarrow> bool"
  assumes no_brace: "CHR ''}'' \<notin> set x"
begin

abbreviation scan :: "nat \<Rightarrow> string \<Rightarrow> ref_token list" where
  "scan \<equiv> ref_scan (''${'' @ x) ok"

lemma scan_skip: "scan (length u) (u @ v) = scan 0 v"
  by (induction u) auto

lemma scan_match:
  assumes "ref_match (''${'' @ x) ok s = Some b" "s = u @ CHR ''}'' # r" "CHR ''}'' \<notin> set u"
  shows "u = ''${'' @ x @ b"
proof -
  from assms(1) obtain r' where "s = (''${'' @ x @ b) @ CHR ''}'' # r'" "CHR ''}'' \<notin> set b"
    by (auto dest: ref_match_decomp)
  then have "u @ CHR ''}'' # r = (''${'' @ x @ b) @ CHR ''}'' # r'" "CHR ''}'' \<notin> set (''${'' @ x @ b)"
    using assms(2) no_brace by auto
  then show ?thesis using append_Cons_unique [OF _ assms(3)] by blast
qed

lemma scan_aligned:
  "CHR ''}'' \<notin> set u \<Longrightarrow> \<exists>us. scan 0 (u @ CHR ''}'' # r) = us @ scan 0 r"
proof (induction u)
  case Nil
  have "ref_match (''${'' @ x) ok (CHR ''}'' # r) = None"
    by (simp add: ref_match_def cut_prefix_def has_prefix_def)
  then show ?case by simp
next
  case (Cons c u)
  show ?case
  proof (cases "ref_match (''${'' @ x) ok ((c # u) @ CHR ''}'' # r)")
    case None
    with Cons show ?thesis by (auto intro: exI [of _ "Lit c # us" for us])
  next
    case (Some b)
    then have "c # u = ''${'' @ x @ b" using scan_match Cons.prems by blast
    then have "length (''${'' @ x) + length b = length (u @ ''}'')"
      by (metis One_nat_def add.right_neutral add_Suc_right append.assoc length_Cons length_append list.size(3))
    then have "scan (length (''${'' @ x) + length b) (u @ CHR ''}'' # r) = scan 0 r"
      using scan_skip [of "u @ ''}''" r] by simp
    with Some have "scan 0 ((c # u) @ CHR ''}'' # r) = [Ref b] @ scan 0 r" by simp
    then show ?thesis by blast
  qed
qed

text \<open>Where no reference begins, no reference of the kind begins.\<close>

lemma scan_no_match:
  assumes "ref_match ''${'' (\<lambda>_. True) s = None"
  shows "ref_match (''${'' @ x) ok s = None"
proof (cases "ref_match (''${'' @ x) ok s")
  case (Some b)
  then obtain r where r: "s = ''${'' @ (x @ b) @ CHR ''}'' # r" "CHR ''}'' \<notin> set b"
    by (auto dest: ref_match_decomp)
  then have "ref_match ''${'' (\<lambda>_. True) s = Some (x @ b)"
    using no_brace
    by (simp add: ref_match_def cut_prefix_def has_prefix_def ref_body_append [of "x @ b", simplified])
  with assms show ?thesis by simp
qed simp

lemma scan_finds:
  "Ref (x @ b) \<in> set (ref_scan ''${'' (\<lambda>_. True) 0 s) \<Longrightarrow> \<forall>c \<in> set b. ok c \<Longrightarrow> Ref b \<in> set (scan 0 s)"
proof (induction "length s" arbitrary: s rule: less_induct)
  case less
  show ?case
  proof (cases s)
    case Nil
    with less.prems show ?thesis by simp
  next
    case (Cons c cs)
    show ?thesis
    proof (cases "ref_match ''${'' (\<lambda>_. True) (c # cs)")
      case None
      with less.prems less.hyps [of cs] Cons scan_no_match [OF None] show ?thesis by simp
    next
      case (Some n)
      then obtain r where r: "c # cs = ''${'' @ n @ CHR ''}'' # r" and n: "CHR ''}'' \<notin> set n"
        by (auto dest: ref_match_decomp)
      have "length ''${'' + length n = length (CHR ''{'' # n @ ''}'')" by simp
      then have rest: "ref_scan ''${'' (\<lambda>_. True) (length ''${'' + length n) cs
          = ref_scan ''${'' (\<lambda>_. True) 0 r"
        using r ref_syntax.scan_skip [of "[]" "\<lambda>_. True" "CHR ''{'' # n @ ''}''" r]
        by (simp add: ref_syntax_def)
      have al: "\<exists>us. scan 0 s = us @ scan 0 r"
        using scan_aligned [of "''${'' @ n" r] n r Cons by simp
      from less.prems(1) Some rest Cons have "n = x @ b \<or> Ref (x @ b) \<in> set (ref_scan ''${'' (\<lambda>_. True) 0 r)"
        by auto
      then show ?thesis
      proof
        assume nx: "n = x @ b"
        have "ref_match (''${'' @ x) ok (c # cs) = Some b"
          using nx n less.prems(2) unfolding r
          by (simp add: ref_match_def cut_prefix_def has_prefix_def ref_body_append)
        then show ?thesis using Cons by simp
      next
        assume "Ref (x @ b) \<in> set (ref_scan ''${'' (\<lambda>_. True) 0 r)"
        moreover have "length r < length s" using arg_cong [OF r, of length] Cons by simp
        ultimately have "Ref b \<in> set (scan 0 r)" using less.hyps less.prems(2) by blast
        with al show ?thesis by auto
      qed
    qed
  qed
qed

end

text \<open>The offsets of the spans, cut at a token boundary.\<close>

lemma ref_spans_append:
  "ref_spans pre off (us @ vs)
   = ref_spans pre off us @ ref_spans pre (off + length (toks_text pre us)) vs"
  by (induction pre off us rule: ref_spans.induct) (simp_all add: Let_def add.assoc)

lemma ref_spans_before:
  "(a, e, b) \<in> set (ref_spans pre off us) \<Longrightarrow> off \<le> a \<and> a < off + length (toks_text pre us)"
  by (induction pre off us rule: ref_spans.induct) (auto simp: Let_def)

lemma find_span_Ref:
  assumes "start = length (toks_text pre us)"
  shows "find (\<lambda>(a, e, b). a = start) (ref_spans pre 0 (us @ Ref b # vs))
         = Some (start, start + length pre + length b + 1, b)"
proof -
  have "find (\<lambda>(a, e, b). a = start) (ref_spans pre 0 us) = None"
    using ref_spans_before [of _ _ _ pre 0 us] assms by (fastforce simp: find_None_iff)
  from find_append_None [OF this] show ?thesis by (simp add: ref_spans_append assms Let_def)
qed

lemma find_span_Lit:
  assumes "start = length (toks_text pre us)"
  shows "find (\<lambda>(a, e, b). a = start) (ref_spans pre 0 (us @ Lit c # vs)) = None"
  using ref_spans_before [of _ _ _ pre 0 us] ref_spans_before [of _ _ _ pre "Suc start" vs] assms
  by (fastforce simp: find_None_iff ref_spans_append)

text \<open>An opening that no match covers shows in the tokens as two literals.\<close>

definition open_toks :: "ref_token list \<Rightarrow> bool" where
  "open_toks ts \<longleftrightarrow> (\<exists>us vs. ts = us @ Lit CHR ''$'' # Lit CHR ''{'' # vs)"

lemma open_toks_Cons:
  "open_toks (t # ts) \<longleftrightarrow> (t = Lit CHR ''$'' \<and> (\<exists>ws. ts = Lit CHR ''{'' # ws)) \<or> open_toks ts"
  unfolding open_toks_def by (auto simp: Cons_eq_append_conv)

lemma open_toks_Nil [simp]: "\<not> open_toks []"
  by (simp add: open_toks_def)

lemma toks_text_brace:
  "toks_text ''${'' ws = CHR ''{'' # r \<Longrightarrow> \<exists>ws'. ws = Lit CHR ''{'' # ws'"
  by (cases ws; cases "hd ws") auto

lemma str_index_toks:
  "case str_index (toks_text ''${'' vs) ''${'' of
     None \<Rightarrow> \<not> open_toks vs
   | Some i \<Rightarrow> \<exists>ls ws. length ls = i \<and> vs = map Lit ls @ ws \<and>
       ((\<exists>b ws'. ws = Ref b # ws' \<and> (open_toks vs \<longleftrightarrow> open_toks ws'))
        \<or> (\<exists>ws'. ws = Lit CHR ''$'' # Lit CHR ''{'' # ws'))"
proof (induction vs)
  case (Cons t ts)
  show ?case
  proof (cases t)
    case (Ref b)
    then have "str_index (toks_text ''${'' (t # ts)) ''${'' = Some 0" by (simp add: has_prefix_def)
    with Ref show ?thesis by (auto simp: open_toks_Cons)
  next
    case (Lit c)
    show ?thesis
    proof (cases "c = CHR ''$'' \<and> (\<exists>ws'. ts = Lit CHR ''{'' # ws')")
      case True
      with Lit show ?thesis by (auto simp: has_prefix_def)
    next
      case False
      then have no: "\<not> has_prefix (c # toks_text ''${'' ts) ''${''"
        using toks_text_brace [of ts]
        by (cases "toks_text ''${'' ts") (auto simp: has_prefix_def simp del: concat_eq_Nil_conv)
      have op: "open_toks (t # ts) \<longleftrightarrow> open_toks ts" using False Lit by (auto simp: open_toks_Cons)
      show ?thesis
      proof (cases "str_index (toks_text ''${'' ts) ''${''")
        case None
        with Cons.IH no op Lit show ?thesis by simp
      next
        case (Some i)
        with Cons.IH obtain ls ws where
          "length ls = i" "ts = map Lit ls @ ws"
          "(\<exists>b ws'. ws = Ref b # ws' \<and> (open_toks ts \<longleftrightarrow> open_toks ws'))
           \<or> (\<exists>ws'. ws = Lit CHR ''$'' # Lit CHR ''{'' # ws')" by auto
        then show ?thesis using Some no op Lit
          by (simp, intro exI [of _ "c # ls"] exI [of _ ws]) auto
      qed
    qed
  qed
qed simp

text \<open>The loop of \<open>unterminated\<close>, started at a token boundary with enough fuel.\<close>

lemma unterminated_loop_iff:
  assumes "reference text = us @ vs" "off = length (toks_text ''${'' us)"
    and "length (toks_text ''${'' vs) < fuel"
  shows "unterminated_loop fuel (reference_spans text) text off = [] \<longleftrightarrow> \<not> open_toks vs"
  using assms
proof (induction fuel arbitrary: us vs off)
  case (Suc fuel)
  have dec: "text = toks_text ''${'' us @ toks_text ''${'' vs"
    using reference_text [of "text"] Suc.prems(1) by simp
  then have rest: "drop off text = toks_text ''${'' vs" using Suc.prems(2) by simp
  show ?case
  proof (cases "str_index (toks_text ''${'' vs) ''${''")
    case None
    with str_index_toks [of vs] rest show ?thesis by simp
  next
    case (Some i)
    with str_index_toks [of vs] obtain ls ws where ls: "length ls = i" "vs = map Lit ls @ ws"
      and ws: "(\<exists>b ws'. ws = Ref b # ws' \<and> (open_toks vs \<longleftrightarrow> open_toks ws'))
           \<or> (\<exists>ws'. ws = Lit CHR ''$'' # Lit CHR ''{'' # ws')" by auto
    have start: "i + off = length (toks_text ''${'' (us @ map Lit ls))"
      using Suc.prems(2) ls(1) scan_Lit by simp
    from ws show ?thesis
    proof
      assume "\<exists>b ws'. ws = Ref b # ws' \<and> (open_toks vs \<longleftrightarrow> open_toks ws')"
      then obtain b ws' where b: "ws = Ref b # ws'" "open_toks vs \<longleftrightarrow> open_toks ws'" by blast
      have "find (\<lambda>(a, e, b). a = i + off) (reference_spans text)
            = Some (i + off, i + off + 2 + length b + 1, b)"
        using find_span_Ref [OF start] Suc.prems(1) ls(2) b(1) by (simp add: reference_spans_def)
      moreover have "unterminated_loop fuel (reference_spans text) text (i + off + 2 + length b + 1) = []
          \<longleftrightarrow> \<not> open_toks ws'"
      proof (rule Suc.IH [of "us @ map Lit ls @ [Ref b]"])
        show "reference text = (us @ map Lit ls @ [Ref b]) @ ws'" using Suc.prems(1) ls(2) b(1) by simp
        show "i + off + 2 + length b + 1 = length (toks_text ''${'' (us @ map Lit ls @ [Ref b]))"
          using start by simp
        show "length (toks_text ''${'' ws') < fuel" using Suc.prems(3) ls(2) b(1) by simp
      qed
      ultimately show ?thesis using rest Some b(2) by simp
    next
      assume "\<exists>ws'. ws = Lit CHR ''$'' # Lit CHR ''{'' # ws'"
      then obtain ws' where w: "ws = Lit CHR ''$'' # Lit CHR ''{'' # ws'" by blast
      then have "open_toks vs" using ls(2) unfolding open_toks_def by blast
      moreover have "find (\<lambda>(a, e, b). a = i + off) (reference_spans text) = None"
        using find_span_Lit [OF start] Suc.prems(1) ls(2) w by (simp add: reference_spans_def)
      ultimately show ?thesis using rest Some by (simp add: Let_def)
    qed
  qed
qed simp

lemma open_toks_text:
  "toks_text ''${'' ts = a @ ''${'' @ b \<Longrightarrow> CHR ''}'' \<notin> set b \<Longrightarrow> open_toks ts"
proof (induction ts arbitrary: a)
  case (Cons t ts)
  show ?case
  proof (cases t)
    case (Lit c)
    show ?thesis
    proof (cases a)
      case Nil
      with Lit Cons.prems toks_text_brace [of ts b] show ?thesis by (auto simp: open_toks_Cons)
    next
      case (Cons a0 as)
      with Lit Cons.prems Cons.IH [of as] show ?thesis by (simp add: open_toks_Cons)
    qed
  next
    case (Ref n)
    then have eq: "(''${'' @ n @ ''}'') @ toks_text ''${'' ts = a @ ''${'' @ b" using Cons.prems by simp
    then consider (inside) r where "''${'' @ n @ ''}'' = a @ r" "r @ toks_text ''${'' ts = ''${'' @ b"
      | (after) r where "a = (''${'' @ n @ ''}'') @ r" "toks_text ''${'' ts = r @ ''${'' @ b"
      unfolding append_eq_append_conv2 by blast
    then show ?thesis
    proof cases
      case inside
      have "r \<noteq> [] \<Longrightarrow> last r = CHR ''}''"
        using inside(1) by (metis last_appendR last_snoc append_assoc)
      moreover have "set r \<subseteq> set (''${'' @ b) "
        using inside(2) by (metis Un_upper1 set_append)
      ultimately have "r = []" using Cons.prems(2) by (cases "r = []") (auto dest: last_in_set)
      with inside Cons.IH [of "[]"] Cons.prems(2) show ?thesis by (simp add: open_toks_Cons)
    next
      case after
      with Cons.IH [of r] Cons.prems(2) show ?thesis by (simp add: open_toks_Cons)
    qed
  qed
qed simp

lemma open_toks_reference:
  "open_toks (reference s) \<longleftrightarrow> (\<exists>a b. s = a @ ''${'' @ b \<and> CHR ''}'' \<notin> set b)"
proof
  assume "open_toks (reference s)"
  then obtain us ws where ts: "reference s = us @ Lit CHR ''$'' # Lit CHR ''{'' # ws"
    unfolding open_toks_def by blast
  then have "ref_match ''${'' (\<lambda>_. True) (''${'' @ toks_text ''${'' ws) = None"
    unfolding reference_def using ref_scan_Lit_unmatched by fastforce
  then have "CHR ''}'' \<notin> set (toks_text ''${'' ws)"
    by (simp add: ref_match_def cut_prefix_def has_prefix_def ref_body_total)
  moreover have "s = toks_text ''${'' us @ ''${'' @ toks_text ''${'' ws"
    using reference_text [of s] ts by simp
  ultimately show "\<exists>a b. s = a @ ''${'' @ b \<and> CHR ''}'' \<notin> set b" by blast
next
  assume "\<exists>a b. s = a @ ''${'' @ b \<and> CHR ''}'' \<notin> set b"
  then show "open_toks (reference s)" using open_toks_text reference_text by metis
qed

text \<open>A text has an unterminated reference when some opening has no closing brace behind it.\<close>

definition all_closed :: "string \<Rightarrow> bool" where
  "all_closed s \<longleftrightarrow> (\<forall>a b. s = a @ ''${'' @ b \<longrightarrow> CHR ''}'' \<in> set b)"

lemma unterminated_iff: "unterminated s = [] \<longleftrightarrow> all_closed s"
proof -
  have "unterminated s = [] \<longleftrightarrow> \<not> open_toks (reference s)"
    unfolding unterminated_def
    by (rule unterminated_loop_iff [of _ "[]"]) (simp_all add: reference_text)
  then show ?thesis unfolding open_toks_reference all_closed_def by blast
qed

subsection \<open>What interpolation computes\<close>

text \<open>
  The value a reference stands for, and the substitution of every reference of a text at once.
\<close>

definition ref_value :: "config \<Rightarrow> string gomap \<Rightarrow> string \<Rightarrow> string option" where
  "ref_value c trigger name = (case str_cut name ''.'' of
      None \<Rightarrow> None
    | Some (namespace, key) \<Rightarrow>
        if namespace = ''config'' then map_option cv_value (map_of (cfg_values c) key)
        else if namespace = ''trigger'' then map_of trigger key else None)"

fun subst_token :: "(string \<Rightarrow> string) \<Rightarrow> ref_token \<Rightarrow> string" where
  "subst_token f (Lit c) = [c]"
| "subst_token f (Ref n) = f n"

lemma interpolate_ref_ok:
  "fst (interpolate_ref c t n) = [] \<longleftrightarrow> \<not> str_contains n ''${'' \<and> ref_value c t n \<noteq> None"
  by (auto simp: interpolate_ref_def ref_value_def Let_def split: option.splits)

lemma interpolate_ref_value:
  "fst (interpolate_ref c t n) = [] \<Longrightarrow> snd (interpolate_ref c t n) = the (ref_value c t n)"
  by (auto simp: interpolate_ref_def ref_value_def Let_def split: option.splits if_splits)

lemma ref_bodies_set: "n \<in> set (ref_bodies ts) \<longleftrightarrow> Ref n \<in> set ts"
  by (induction ts rule: ref_bodies.induct) auto

lemma interpolate_tokens_ok:
  "concat (map (fst \<circ> interpolate_token c t) ts) = [] \<longleftrightarrow>
     (\<forall>n \<in> set (ref_bodies ts). fst (interpolate_ref c t n) = [])"
  by (induction ts rule: ref_bodies.induct) auto

lemma interpolate_tokens_value:
  "(\<forall>n \<in> set (ref_bodies ts). fst (interpolate_ref c t n) = []) \<Longrightarrow>
   concat (map (snd \<circ> interpolate_token c t) ts)
   = concat (map (subst_token (\<lambda>n. the (ref_value c t n))) ts)"
  by (induction ts rule: ref_bodies.induct) (auto simp: interpolate_ref_value)

subsection \<open>What binding a shell line computes\<close>

text \<open>The variable a reference is bound to, and the expansion that replaces it in the line.\<close>

definition ref_variable :: "string \<Rightarrow> string" where
  "ref_variable name = (case str_cut name ''.'' of
     Some (namespace, key) \<Rightarrow> bind_variable namespace key | None \<Rightarrow> [])"

definition ref_expansion :: "string \<Rightarrow> string" where
  "ref_expansion name = [CHR 0x22, CHR ''$''] @ ref_variable name @ [CHR 0x22]"

lemma resolve_value:
  "str_cut n ''.'' = Some (ns, k) \<Longrightarrow> resolve c ns k n t = Inr v \<longleftrightarrow> ref_value c t n = Some v"
  by (auto simp: resolve_def ref_value_def split: option.splits)

text \<open>A span that is bound, and the state after it.\<close>

definition bind_success :: "config \<Rightarrow> string gomap \<Rightarrow> nat \<times> nat \<times> string \<Rightarrow> string \<Rightarrow>
    bind_state \<Rightarrow> bind_state \<Rightarrow> bool" where
  "bind_success c t sp line st st' \<longleftrightarrow> (case sp of (at, e, n) \<Rightarrow>
     \<not> quoted line at \<and> str_cut n ''.'' \<noteq> None \<and>
     map_of (b_names st) (ref_variable n) \<in> {None, Some n} \<and>
     (\<exists>v. ref_value c t n = Some v \<and>
       st' = \<lparr>b_problems = b_problems st,
              b_names = map_set (ref_variable n) n (b_names st),
              b_values = map_set (ref_variable n) v (b_values st),
              b_out = b_out st @ drop (b_last st) (take at line) @ ref_expansion n,
              b_last = e\<rparr>))"

lemma bind_span_cases:
  "bind_success c t sp line st (bind_span c t line sp st) \<or> b_problems (bind_span c t line sp st) \<noteq> []"
proof -
  obtain at e n where sp: "sp = (at, e, n)" by (cases sp)
  show ?thesis
  proof (cases "quoted line at \<or> str_cut n ''.'' = None")
    case True
    then show ?thesis by (auto simp: sp bind_span_def bind_refuse_def Let_def)
  next
    case False
    then obtain ns k where cut: "str_cut n ''.'' = Some (ns, k)" by auto
    show ?thesis
    proof (cases "resolve c ns k n t")
      case (Inl p)
      with False cut show ?thesis by (simp add: sp bind_span_def bind_refuse_def Let_def)
    next
      case (Inr v)
      with cut have v: "ref_value c t n = Some v" by (simp add: resolve_value)
      have var: "ref_variable n = bind_variable ns k" by (simp add: ref_variable_def cut)
      show ?thesis
        using False cut Inr v var
        by (cases "map_of (b_names st) (bind_variable ns k)")
          (auto simp: sp bind_span_def bind_refuse_def bind_success_def ref_expansion_def Let_def)
    qed
  qed
qed

lemma bind_span_problems: "b_problems st \<noteq> [] \<Longrightarrow> b_problems (bind_span c t line sp st) \<noteq> []"
  by (cases sp) (auto simp: bind_span_def bind_refuse_def Let_def split: option.splits sum.splits)

lemma bind_fold_problems:
  "b_problems st \<noteq> [] \<Longrightarrow> b_problems (fold (bind_span c t line) sps st) \<noteq> []"
  by (induction sps arbitrary: st) (auto simp: bind_span_problems)

lemma bind_fold_Cons:
  "b_problems (fold (bind_span c t line) (sp # sps) st) = [] \<Longrightarrow>
     bind_success c t sp line st (bind_span c t line sp st)"
  using bind_span_cases [of c t sp line st] bind_fold_problems by fastforce

text \<open>The text written out, from a token boundary on.\<close>

lemma bind_fold_out:
  assumes "line = toks_text ''${'' us @ toks_text ''${'' vs" "off = length (toks_text ''${'' us)"
    and "b_last st \<le> off"
    and "st' = fold (bind_span c t line) (ref_spans ''${'' off vs) st" "b_problems st' = []"
  shows "b_out st' @ drop (b_last st') line
         = b_out st @ drop (b_last st) (take off line) @ concat (map (subst_token ref_expansion) vs)"
  using assms
proof (induction vs arbitrary: us off st)
  case Nil
  then show ?case by simp
next
  case (Cons tk ts)
  show ?case
  proof (cases tk)
    case (Lit ch)
    have "line ! off = ch" "off < length line" using Cons.prems(1,2) Lit by (auto simp: nth_append)
    then have "drop (b_last st) (take (Suc off) line) = drop (b_last st) (take off line) @ [ch]"
      using Cons.prems(3) by (simp add: take_Suc_conv_app_nth)
    moreover have "b_out st' @ drop (b_last st') line = b_out st @ drop (b_last st) (take (Suc off) line)
        @ concat (map (subst_token ref_expansion) ts)"
      by (rule Cons.IH [of "us @ [Lit ch]"]) (use Cons.prems Lit in auto)
    ultimately show ?thesis using Lit by simp
  next
    case (Ref n)
    define e where "e = Suc (Suc (Suc (off + length n)))"
    let ?sp = "(off, e, n)" and ?st = "bind_span c t line (off, e, n) st"
    have spans: "ref_spans ''${'' off (tk # ts) = ?sp # ref_spans ''${'' e ts"
      by (simp add: Ref e_def Let_def)
    have succ: "bind_success c t ?sp line st ?st"
      by (rule bind_fold_Cons [of _ _ _ _ "ref_spans ''${'' e ts"]) (use Cons.prems(4,5) spans in simp)
    then have st: "b_last ?st = e" "b_out ?st = b_out st @ drop (b_last st) (take off line) @ ref_expansion n"
      by (auto simp: bind_success_def)
    have "b_out st' @ drop (b_last st') line = b_out ?st @ drop (b_last ?st) (take e line)
        @ concat (map (subst_token ref_expansion) ts)"
      by (rule Cons.IH [of "us @ [Ref n]"])
        (use Cons.prems Ref st spans in \<open>simp_all add: e_def\<close>)
    then show ?thesis using Ref st by simp
  qed
qed

text \<open>The environment: one variable per name, holding the value of that name.\<close>

definition bind_env_inv :: "config \<Rightarrow> string gomap \<Rightarrow> string list \<Rightarrow> bind_state \<Rightarrow> bool" where
  "bind_env_inv c t ns st \<longleftrightarrow> gomap_ok (b_values st) \<and>
     fst ` set (b_values st) = ref_variable ` set ns \<and>
     (\<forall>n \<in> set ns. map_of (b_names st) (ref_variable n) = Some n \<and>
        ref_value c t n \<noteq> None \<and> map_of (b_values st) (ref_variable n) = ref_value c t n)"

lemma bind_success_env:
  assumes "bind_success c t (at, e, n) line st st'" "bind_env_inv c t ns st"
  shows "bind_env_inv c t (ns @ [n]) st'"
proof -
  let ?x = "ref_variable n"
  from assms(1) obtain v where
    fresh: "map_of (b_names st) ?x = None \<or> map_of (b_names st) ?x = Some n"
    and v: "ref_value c t n = Some v"
    and names: "b_names st' = map_set ?x n (b_names st)"
    and vals: "b_values st' = map_set ?x v (b_values st)"
    by (auto simp: bind_success_def)
  have ok: "gomap_ok (b_values st)" and dom: "fst ` set (b_values st) = ref_variable ` set ns"
    and each: "\<And>m. m \<in> set ns \<Longrightarrow> map_of (b_names st) (ref_variable m) = Some m \<and>
        ref_value c t m \<noteq> None \<and> map_of (b_values st) (ref_variable m) = ref_value c t m"
    using assms(2) by (simp_all add: bind_env_inv_def)
  have inj: "m = n" if "m \<in> set ns" "ref_variable m = ?x" for m
    using each [OF that(1)] fresh that(2) by auto
  have "map_of (b_names st') (ref_variable m) = Some m \<and> ref_value c t m \<noteq> None \<and>
        map_of (b_values st') (ref_variable m) = ref_value c t m" if "m \<in> set (ns @ [n])" for m
    using that each [of m] inj [of m] v by (cases "m = n") (auto simp: names vals)
  moreover have "gomap_ok (b_values st')" unfolding vals by (rule gomap_ok_map_set [OF ok])
  moreover have "fst ` set (b_values st') = ref_variable ` set (ns @ [n])"
    by (simp add: vals fst_map_set dom)
  ultimately show ?thesis by (simp add: bind_env_inv_def)
qed

lemma bind_fold_env:
  assumes "b_problems (fold (bind_span c t line) sps st) = []" "bind_env_inv c t ns st"
  shows "bind_env_inv c t (ns @ map (\<lambda>(a, e, n). n) sps) (fold (bind_span c t line) sps st)
         \<and> (\<forall>(a, e, n) \<in> set sps. \<not> quoted line a)"
  using assms
proof (induction sps arbitrary: st ns)
  case (Cons sp sps)
  obtain a e n where sp: "sp = (a, e, n)" by (cases sp)
  have succ: "bind_success c t sp line st (bind_span c t line sp st)"
    using Cons.prems(1) by (rule bind_fold_Cons)
  then have "bind_env_inv c t (ns @ [n]) (bind_span c t line sp st)"
    using Cons.prems(2) sp bind_success_env by blast
  with Cons.IH [of "bind_span c t line sp st" "ns @ [n]"] Cons.prems(1) succ sp show ?case
    by (auto simp: bind_success_def)
qed simp

lemma ref_spans_bodies: "map (\<lambda>(a, e, n). n) (ref_spans pre off ts) = ref_bodies ts"
  by (induction pre off ts rule: ref_spans.induct) (simp_all add: Let_def)

text \<open>
  Two runs of the walk over configurations and payloads that hold the same keys stay equal in
  everything but the values.
\<close>

definition bind_sim :: "bind_state \<Rightarrow> bind_state \<Rightarrow> bool" where
  "bind_sim s1 s2 \<longleftrightarrow> b_problems s1 = b_problems s2 \<and> b_names s1 = b_names s2 \<and>
     b_out s1 = b_out s2 \<and> b_last s1 = b_last s2"

lemma resolve_same_keys:
  assumes "dom (map_of (cfg_values c1)) = dom (map_of (cfg_values c2))"
    and "dom (map_of t1) = dom (map_of t2)"
  shows "map_sum id (\<lambda>_. ()) (resolve c1 ns k n t1) = map_sum id (\<lambda>_. ()) (resolve c2 ns k n t2)"
proof -
  have "map_of (cfg_values c1) k = None \<longleftrightarrow> map_of (cfg_values c2) k = None"
    using assms(1) by (metis domIff)
  moreover have "map_of t1 k = None \<longleftrightarrow> map_of t2 k = None"
    using assms(2) by (metis domIff)
  ultimately show ?thesis unfolding resolve_def
    by (cases "map_of (cfg_values c1) k"; cases "map_of t1 k") auto
qed

lemma bind_span_sim:
  assumes "dom (map_of (cfg_values c1)) = dom (map_of (cfg_values c2))"
    and "dom (map_of t1) = dom (map_of t2)" and "bind_sim s1 s2"
  shows "bind_sim (bind_span c1 t1 line sp s1) (bind_span c2 t2 line sp s2)"
proof -
  obtain at e n where sp: "sp = (at, e, n)" by (cases sp)
  show ?thesis
  proof (cases "str_cut n ''.''")
    case None
    with assms(3) show ?thesis
      by (simp add: sp bind_span_def bind_sim_def bind_refuse_def Let_def)
  next
    case (Some nk)
    obtain ns k where nk: "nk = (ns, k)" by (cases nk)
    from resolve_same_keys [OF assms(1,2), of ns k n] assms(3) Some nk show ?thesis
      by (cases "resolve c1 ns k n t1"; cases "resolve c2 ns k n t2"; cases "quoted line at";
          cases "map_of (b_names s2) (bind_variable ns k)")
        (simp_all add: sp bind_span_def bind_sim_def bind_refuse_def Let_def)
  qed
qed

lemma bind_fold_sim:
  assumes "dom (map_of (cfg_values c1)) = dom (map_of (cfg_values c2))"
    and "dom (map_of t1) = dom (map_of t2)" and "bind_sim s1 s2"
  shows "bind_sim (fold (bind_span c1 t1 line) sps s1) (fold (bind_span c2 t2 line) sps s2)"
  using assms(3)
  by (induction sps arbitrary: s1 s2) (auto intro: bind_span_sim [OF assms(1,2)])

text \<open>Binding and interpolation agree on which references they can resolve.\<close>

lemma Keys_sorted: "sorted (Keys c) \<and> set (Keys c) = dom (map_of (cfg_values c))"
  by (simp add: Keys_def sorted_keys_def dom_map_of_conv_image_fst)

lemma Secrets_iff:
  assumes "gomap_ok (cfg_values c)"
  shows "x \<in> set (Secrets c) \<longleftrightarrow>
     x \<noteq> [] \<and> (\<exists>key v. (key, v) \<in> set (cfg_values c) \<and> cv_secret v \<and> cv_value v = x)"
proof -
  have mem: "(key, v) \<in> set (cfg_values c) \<longleftrightarrow> map_of (cfg_values c) key = Some v" for key v
    using assms by (simp add: gomap_ok_def)
  define pick where "pick key = (case map_of (cfg_values c) key of
       Some v \<Rightarrow> if cv_secret v \<and> cv_value v \<noteq> [] then [cv_value v] else []
     | None \<Rightarrow> [])" for key
  have pick: "x \<in> set (pick key) \<longleftrightarrow>
      (\<exists>v. map_of (cfg_values c) key = Some v \<and> cv_secret v \<and> cv_value v \<noteq> [] \<and> x = cv_value v)" for key
    by (cases "map_of (cfg_values c) key") (auto simp: pick_def)
  have "x \<in> set (Secrets c) \<longleftrightarrow> (\<exists>key \<in> set (Keys c). x \<in> set (pick key))"
    by (simp add: Secrets_def pick_def)
  also have "\<dots> \<longleftrightarrow> (\<exists>key. x \<in> set (pick key))"
    unfolding pick using Keys_sorted [of c] by auto
  finally show ?thesis unfolding mem pick by auto
qed

lemma bind_env_inv_values:
  assumes "bind_env_inv c t ns st"
  shows "set (b_values st) = {(ref_variable n, the (ref_value c t n)) | n. n \<in> set ns}"
proof -
  have mem: "(x, v) \<in> set (b_values st) \<longleftrightarrow> map_of (b_values st) x = Some v" for x v
    using assms by (simp add: bind_env_inv_def gomap_ok_def)
  have keys: "fst ` set (b_values st) = ref_variable ` set ns"
    and each: "\<And>n. n \<in> set ns \<Longrightarrow> map_of (b_values st) (ref_variable n) = Some (the (ref_value c t n))"
    using assms by (auto simp: bind_env_inv_def)
  show ?thesis
  proof (intro set_eqI iffI)
    fix p assume p: "p \<in> set (b_values st)"
    then obtain n where n: "n \<in> set ns" "fst p = ref_variable n" using keys by (metis image_iff)
    have "map_of (b_values st) (fst p) = Some (snd p)" using p mem [of "fst p" "snd p"] by simp
    then have "p = (ref_variable n, the (ref_value c t n))"
      using each [OF n(1)] n(2) by (simp add: prod_eq_iff)
    with n(1) show "p \<in> {(ref_variable n, the (ref_value c t n)) | n. n \<in> set ns}" by blast
  next
    fix p assume "p \<in> {(ref_variable n, the (ref_value c t n)) | n. n \<in> set ns}"
    with each mem show "p \<in> set (b_values st)" by auto
  qed
qed

text \<open>What an accepted line says, fact by fact.\<close>

lemma BindShell_facts:
  assumes "BindShell c line t = Inr b"
  shows "Line b = concat (map (subst_token ref_expansion) (reference line))"
    and "\<forall>(at, e, n) \<in> set (reference_spans line). \<not> quoted line at"
    and "inj_on ref_variable (set (ref_bodies (reference line)))"
    and "sorted (Env b)"
    and "set (Env b) = {ref_variable n @ ''='' @ the (ref_value c t n) | n. n \<in> set (ref_bodies (reference line))}"
    and "length (Env b) = card (set (ref_bodies (reference line)))"
proof -
  let ?st0 = "\<lparr>b_problems = unterminated line, b_names = [], b_values = [], b_out = [], b_last = 0\<rparr>"
  let ?ns = "ref_bodies (reference line)"
  define st where "st = fold (bind_span c t line) (reference_spans line) ?st0"
  have ok: "b_problems st = []" and b: "b = \<lparr>Line = b_out st @ drop (b_last st) line,
      Env = sort (map (\<lambda>(x, v). x @ ''='' @ v) (b_values st))\<rparr>"
    using assms by (auto simp: BindShell_def st_def Let_def split: if_splits)
  have "b_out st @ drop (b_last st) line = b_out ?st0 @ drop (b_last ?st0) (take 0 line)
      @ concat (map (subst_token ref_expansion) (reference line))"
    by (rule bind_fold_out [of _ "[]"])
      (use ok in \<open>simp_all add: st_def reference_spans_def reference_text\<close>)
  then show "Line b = concat (map (subst_token ref_expansion) (reference line))" by (simp add: b)
  have fold: "bind_env_inv c t ([] @ map (\<lambda>(a, e, n). n) (reference_spans line)) st
      \<and> (\<forall>(a, e, n) \<in> set (reference_spans line). \<not> quoted line a)"
    unfolding st_def by (rule bind_fold_env) (use ok in \<open>simp_all add: st_def bind_env_inv_def gomap_ok_def\<close>)
  then show "\<forall>(at, e, n) \<in> set (reference_spans line). \<not> quoted line at" by blast
  have inv: "bind_env_inv c t ?ns st"
    using fold by (simp add: reference_spans_def ref_spans_bodies)
  then show inj: "inj_on ref_variable (set ?ns)"
    by (metis (no_types, lifting) bind_env_inv_def inj_onI option.inject)
  show "sorted (Env b)" by (simp add: b)
  have keys: "fst ` set (b_values st) = ref_variable ` set ?ns" and dist: "distinct (map fst (b_values st))"
    using inv by (simp_all add: bind_env_inv_def gomap_ok_def)
  show "set (Env b) = {ref_variable n @ ''='' @ the (ref_value c t n) | n. n \<in> set ?ns}"
    unfolding b using bind_env_inv_values [OF inv] by auto
  have "length (Env b) = card (fst ` set (b_values st))"
    using distinct_card [OF dist] by (simp add: b)
  then show "length (Env b) = card (set ?ns)" using keys inj by (simp add: card_image)
qed

subsection \<open>Properties\<close>

text \<open>
  C1.  \<open>BindShell\<close> never lets a value reach the text of a command: whatever the deployment and
  the trigger payload hold under their keys, the refusals and the bound line are the same.
\<close>

theorem BindShell_line_independent_of_values:
  assumes "dom (map_of (cfg_values c1)) = dom (map_of (cfg_values c2))"
    and "dom (map_of t1) = dom (map_of t2)"
  shows "map_sum id Line (BindShell c1 line t1) = map_sum id Line (BindShell c2 line t2)"
proof -
  let ?st0 = "\<lparr>b_problems = unterminated line, b_names = [], b_values = [], b_out = [], b_last = 0\<rparr>"
  have "bind_sim (fold (bind_span c1 t1 line) (reference_spans line) ?st0)
                 (fold (bind_span c2 t2 line) (reference_spans line) ?st0)"
    by (rule bind_fold_sim [OF assms]) (simp add: bind_sim_def)
  then show ?thesis by (simp add: BindShell_def bind_sim_def Let_def)
qed

definition example_config :: "string \<Rightarrow> config" where
  "example_config v = \<lparr>stateDir = ''/var/lib/gronin'',
     cfg_values = [(''checkout'', \<lparr>cv_value = v, cv_secret = False\<rparr>)]\<rparr>"

theorem BindShell_line_independent_of_values_witness:
  "map_sum id Line (BindShell (example_config ''x; rm -rf ~'') ''git -C ${config.checkout} log'' [])
   = Inr ''git -C \"$GRONIN_CONFIG_CHECKOUT\" log''"
proof -
  have "map_sum id Line (BindShell (example_config ''x; rm -rf ~'') ''git -C ${config.checkout} log'' [])
        = map_sum id Line (BindShell (example_config ''/src'') ''git -C ${config.checkout} log'' [])"
    by (rule BindShell_line_independent_of_values) (auto simp: example_config_def)
  also have "\<dots> = Inr ''git -C \"$GRONIN_CONFIG_CHECKOUT\" log''" by code_simp
  finally show ?thesis .
qed

text \<open>
   A line \<open>BindShell\<close> accepts has every reference outside quotes, replaced by the quoted
  expansion of its own variable, and the sorted environment gives each of these variables, once,
  the value its reference stands for; two references share a variable only if they are the same.
\<close>

theorem BindShell_binds_every_reference:
  assumes "BindShell c line t = Inr b"
  shows "Line b = concat (map (subst_token ref_expansion) (reference line)) \<and>
    (\<forall>(at, e, n) \<in> set (reference_spans line). \<not> quoted line at) \<and>
    inj_on ref_variable (set (ref_bodies (reference line))) \<and>
    sorted (Env b) \<and>
    set (Env b) = {ref_variable n @ ''='' @ the (ref_value c t n) | n. n \<in> set (ref_bodies (reference line))} \<and>
    length (Env b) = card (set (ref_bodies (reference line)))"
  by (intro conjI BindShell_facts [OF assms])

theorem BindShell_binds_every_reference_witness:
  "case BindShell (example_config ''x; rm -rf ~'') ''git -C ${config.checkout} log'' [] of
     Inl _ \<Rightarrow> False
   | Inr b \<Rightarrow> Line b = ''git -C \"$GRONIN_CONFIG_CHECKOUT\" log'' \<and> length (Env b) = 1"
proof -
  obtain b where b: "BindShell (example_config ''x; rm -rf ~'') ''git -C ${config.checkout} log'' [] = Inr b"
    and line: "Line b = ''git -C \"$GRONIN_CONFIG_CHECKOUT\" log''"
  proof -
    have "BindShell (example_config ''x; rm -rf ~'') ''git -C ${config.checkout} log'' [] =
        Inr \<lparr>Line = ''git -C \"$GRONIN_CONFIG_CHECKOUT\" log'', Env = [''GRONIN_CONFIG_CHECKOUT=x; rm -rf ~'']\<rparr>"
      by code_simp
    then show thesis by (rule that) simp
  qed
  have "ref_bodies (reference ''git -C ${config.checkout} log'') = [''config.checkout'']" by code_simp
  with BindShell_binds_every_reference [OF b] b line show ?thesis by simp
qed

text \<open>
   \<open>Interpolate\<close> succeeds exactly when every opening is closed and every reference is a
  single \<open>config\<close> or \<open>trigger\<close> name that resolves, and its result then is the text with each
  reference replaced by its value in one pass: a value that looks like a reference is not read
  again.
\<close>

theorem Interpolate_iff:
  "Interpolate c s t = Inr r \<longleftrightarrow>
     (\<forall>a b. s = a @ ''${'' @ b \<longrightarrow> CHR ''}'' \<in> set b) \<and>
     (\<forall>n \<in> set (ref_bodies (reference s)). \<not> str_contains n ''${'' \<and> ref_value c t n \<noteq> None) \<and>
     r = concat (map (subst_token (\<lambda>n. the (ref_value c t n))) (reference s))"
proof -
  have closed: "unterminated s = [] \<longleftrightarrow> (\<forall>a b. s = a @ ''${'' @ b \<longrightarrow> CHR ''}'' \<in> set b)"
    unfolding unterminated_iff all_closed_def ..
  have refs: "concat (map fst (map (interpolate_token c t) (reference s))) = [] \<longleftrightarrow>
      (\<forall>n \<in> set (ref_bodies (reference s)). \<not> str_contains n ''${'' \<and> ref_value c t n \<noteq> None)"
    using interpolate_tokens_ok [of c t "reference s"] by (simp add: interpolate_ref_ok)
  show ?thesis
    unfolding Interpolate_def Let_def closed [symmetric] refs [symmetric]
    using interpolate_tokens_ok [of c t "reference s"] interpolate_tokens_value [of "reference s" c t]
    by auto
qed

theorem Interpolate_iff_witness:
  "Interpolate (example_config ''${trigger.x}'') ''in ${config.checkout}'' [] = Inr ''in ${trigger.x}'' \<and>
   ref_value (example_config ''${trigger.x}'') [] ''config.checkout'' \<noteq> None"
proof -
  have ok: "Interpolate (example_config ''${trigger.x}'') ''in ${config.checkout}'' [] = Inr ''in ${trigger.x}''"
    by code_simp
  have "ref_bodies (reference ''in ${config.checkout}'') = [''config.checkout'']" by code_simp
  with ok show ?thesis unfolding Interpolate_iff by simp
qed

end
