(* ===== verification/Playbook.thy ===== *)
theory Playbook
  imports Config
begin

text \<open>
  The playbook as it is parsed, and the values a webhook trigger takes out of a delivery: the
  files \<open>playbook.go\<close> and \<open>values.go\<close> of \<open>runtime/internal/playbook\<close>.  Decoding JSON
  and compiling a pattern an author wrote are parameters; durations are read by the parameter
  \<open>parseDuration\<close>, which stands for \<open>time.ParseDuration\<close>.
\<close>

subsection \<open>The document\<close>

text \<open>
  A decoded YAML value.  A nested mapping of a sink decodes into the named type \<open>Sink\<close>.
\<close>

datatype yaml =
    YNil
  | YString string
  | YInt int
  | YFloat string
  | YBool bool
  | YList "yaml list"
  | YMap "(string \<times> yaml) list"
  | YSink "(string \<times> yaml) list"

type_synonym sink = "yaml gomap"

record trigger_value =
  At :: string
  Pattern :: string
  MaxLength :: int

record trigger =
  trig_Type :: string
  Schedule :: string
  trig_Source :: string
  Values :: "trigger_value gomap"

record step =
  step_Run :: string
  step_As :: string

record agent =
  Model :: string
  PromptFile :: string
  Restricted :: "bool option"
  Tools :: "string list"
  MCP :: "string list"
  Allow :: "string list"
  OutputSchema :: yaml
  agent_Timeout :: string
  Extra :: "yaml gomap"

record rate =
  rate_Runs :: int
  Per :: string

record guard_decl =
  guard_Rate :: "rate option"
  guard_Wait :: string

record retrieval =
  Collection :: string
  Query :: string
  QueryFrom :: string
  retr_As :: string
  MaxResults :: int
  MaxBytes :: int

record playbook =
  pb_Name :: string
  Description :: string
  pb_Trigger :: trigger
  Gather :: "step list"
  pb_Agent :: agent
  Sinks :: "sink list"
  pb_Guard :: "guard_decl option"
  Retrieve :: "retrieval list"
  pb_Path :: string

definition DefaultWait :: duration where
  "DefaultWait = 30 * minute"

datatype duration_error = NotADuration string string

definition WaitFor ::
  "(string \<Rightarrow> duration option) \<Rightarrow> playbook \<Rightarrow> (duration_error, duration) result" where
  "WaitFor parseDuration p = (case pb_Guard p of
     None \<Rightarrow> Inr DefaultWait
   | Some g \<Rightarrow> if guard_Wait g = [] then Inr DefaultWait
       else (case parseDuration (guard_Wait g) of
               None \<Rightarrow> Inl (NotADuration ''guard.wait'' (guard_Wait g)) | Some d \<Rightarrow> Inr d))"

definition PerDuration ::
  "(string \<Rightarrow> duration option) \<Rightarrow> rate \<Rightarrow> (duration_error, duration) result" where
  "PerDuration parseDuration r = (case parseDuration (Per r) of
     None \<Rightarrow> Inl (NotADuration ''guard.rate.per'' (Per r)) | Some d \<Rightarrow> Inr d)"

definition DefaultMaxResults :: int where "DefaultMaxResults = 10"
definition MaxResultsCeiling :: int where "MaxResultsCeiling = 50"
definition DefaultMaxBytes :: int where "DefaultMaxBytes = 16384"
definition MaxBytesCeiling :: int where "MaxBytesCeiling = 65536"

definition ResultCount :: "retrieval \<Rightarrow> int" where
  "ResultCount r = (if MaxResults r = 0 then DefaultMaxResults else MaxResults r)"

definition ByteBound :: "retrieval \<Rightarrow> int" where
  "ByteBound r = (if MaxBytes r = 0 then DefaultMaxBytes else MaxBytes r)"

definition DefaultTimeout :: duration where
  "DefaultTimeout = 30 * minute"

definition IsRestricted :: "agent \<Rightarrow> bool" where
  "IsRestricted a \<longleftrightarrow> Restricted a = None \<or> Restricted a = Some True"

definition StageTimeout ::
  "(string \<Rightarrow> duration option) \<Rightarrow> agent \<Rightarrow> (duration_error, duration) result" where
  "StageTimeout parseDuration a =
     (if agent_Timeout a = [] then Inr DefaultTimeout
      else (case parseDuration (agent_Timeout a) of
              None \<Rightarrow> Inl (NotADuration ''agent.timeout'' (agent_Timeout a)) | Some d \<Rightarrow> Inr d))"

text \<open>\<open>Type\<close> answers the name, the configuration, and whether the sink is well formed.\<close>

definition sink_Type :: "sink \<Rightarrow> string \<times> yaml gomap \<times> bool" where
  "sink_Type s = (case s of
     [(name, value)] \<Rightarrow> (case value of
         YSink m \<Rightarrow> (name, m, True)
       | YMap m \<Rightarrow> (name, m, True)
       | YNil \<Rightarrow> (name, [], True)
       | _ \<Rightarrow> (name, [], False))
   | _ \<Rightarrow> ([], [], False))"

subsection \<open>Values of a delivery\<close>

text \<open>
  A decoded JSON document with number literals kept.  Go's nil, which a pointer that resolves to
  nothing and a JSON null both give, is \<open>JNull\<close>.
\<close>

datatype json =
    JNull
  | JBool bool
  | JNumber string
  | JString string
  | JArray "json list"
  | JObject "(string \<times> json) list"

definition unescape_segment :: "string \<Rightarrow> string" where
  "unescape_segment segment = replace_all (replace_all segment ''~1'' ''/'') ''~0'' ''~''"

fun at_segments :: "json \<Rightarrow> string list \<Rightarrow> json" where
  "at_segments current [] = current"
| "at_segments current (segment # segments) =
     (case current of
        JObject node \<Rightarrow> (case map_of node (unescape_segment segment) of
            None \<Rightarrow> JNull | Some value \<Rightarrow> at_segments value segments)
      | JArray node \<Rightarrow> (case atoi (unescape_segment segment) of
            None \<Rightarrow> JNull
          | Some index \<Rightarrow> if index < 0 \<or> index \<ge> int (length node) then JNull
                          else at_segments (node ! nat index) segments)
      | _ \<Rightarrow> JNull)"

definition AtPointer :: "json \<Rightarrow> string \<Rightarrow> json" where
  "AtPointer document pointer =
     (if pointer = [] then document else at_segments document (tl (str_split pointer ''/'')))"

text \<open>
  \<open>decode\<close> stands for the JSON decoder with number literals kept; a body it cannot decode leaves
  the document nil.
\<close>

definition Extract :: "(string \<Rightarrow> json option) \<Rightarrow> trigger \<Rightarrow> string \<Rightarrow> json gomap" where
  "Extract decode trigger body =
     (let decoded = (case decode body of None \<Rightarrow> JNull | Some d \<Rightarrow> d)
      in map (\<lambda>(name, declared). (name, AtPointer decoded (At declared))) (Values trigger))"

definition SingleValue :: "json \<Rightarrow> string option" where
  "SingleValue raw = (case raw of
     JString s \<Rightarrow> Some s
   | JNumber n \<Rightarrow> Some n
   | JBool b \<Rightarrow> Some (if b then ''true'' else ''false'')
   | _ \<Rightarrow> None)"

text \<open>
  \<open>compile\<close> stands for \<open>regexp.Compile\<close>: nothing when the pattern does not compile, and the
  matcher otherwise.
\<close>

type_synonym re_compile = "string \<Rightarrow> (string \<Rightarrow> bool) option"

definition anchoredMatch :: "re_compile \<Rightarrow> string \<Rightarrow> string \<Rightarrow> bool option" where
  "anchoredMatch compile pattern text =
     map_option (\<lambda>m. m text) (compile (''^(?:'' @ pattern @ '')$''))"

definition gatherReferenced :: "playbook \<Rightarrow> string list" where
  "gatherReferenced book = concat (map (\<lambda>step. TriggerReferences (step_Run step)) (Gather book))"

datatype value_refusal_kind = ValueAbsent | ValueNotSingle | ValueTooLong | ValueNoMatch | ValueLeadingDash

text \<open>What a value refusal found, with the data its message is rendered from.\<close>

datatype value_found =
    FoundAbsent
  | FoundNotSingle string json
  | FoundTooLong nat int
  | FoundBadPattern string
  | FoundNoMatch string string
  | FoundLeadingDash string

record value_refusal =
  ref_Name :: string
  ref_Kind :: value_refusal_kind
  ref_Field :: string
  ref_Found :: value_found

text \<open>
  The body of the loop of \<open>Check\<close>: one declared value against what the delivery holds, and the
  checks on its text.
\<close>

definition value_refuse :: "playbook \<Rightarrow> string \<Rightarrow> value_refusal_kind \<Rightarrow> value_found \<Rightarrow> value_refusal" where
  "value_refuse book name kind found = \<lparr>ref_Name = name, ref_Kind = kind,
     ref_Field = pb_Name book @ '': trigger.values.'' @ name, ref_Found = found\<rparr>"

definition check_text ::
  "re_compile \<Rightarrow> playbook \<Rightarrow> string \<Rightarrow> trigger_value \<Rightarrow> string \<Rightarrow> (value_refusal, string) result" where
  "check_text compile book name declared text =
     (if int (rune_count text) > MaxLength declared
      then Inl (value_refuse book name ValueTooLong (FoundTooLong (rune_count text) (MaxLength declared)))
      else (case anchoredMatch compile (Pattern declared) text of
          None \<Rightarrow> Inl (value_refuse book name ValueNoMatch (FoundBadPattern (Pattern declared)))
        | Some matched \<Rightarrow>
            if \<not> matched
            then Inl (value_refuse book name ValueNoMatch (FoundNoMatch text (Pattern declared)))
            else if name \<in> set (gatherReferenced book) \<and> has_prefix text ''-''
            then Inl (value_refuse book name ValueLeadingDash (FoundLeadingDash text))
            else Inr text))"

definition check_value ::
  "re_compile \<Rightarrow> playbook \<Rightarrow> json gomap \<Rightarrow> string \<Rightarrow> (value_refusal, string) result" where
  "check_value compile book vals name =
     (let declared = the (map_of (Values (pb_Trigger book)) name);
          raw = (case map_of vals name of None \<Rightarrow> JNull | Some raw \<Rightarrow> raw)
      in if raw = JNull then Inl (value_refuse book name ValueAbsent FoundAbsent)
         else (case SingleValue raw of
             None \<Rightarrow> Inl (value_refuse book name ValueNotSingle (FoundNotSingle name raw))
           | Some text \<Rightarrow> check_text compile book name declared text))"

fun check_loop ::
  "(string \<Rightarrow> (value_refusal, string) result) \<Rightarrow> string list \<Rightarrow> value_refusal list \<times> string gomap \<Rightarrow>
   value_refusal list \<times> string gomap" where
  "check_loop judge [] (refusals, checked) = (refusals, checked)"
| "check_loop judge (name # names) (refusals, checked) =
     (case judge name of
        Inl r \<Rightarrow> check_loop judge names (refusals @ [r], checked)
      | Inr text \<Rightarrow> check_loop judge names (refusals, map_set name text checked))"

definition Check ::
  "re_compile \<Rightarrow> playbook \<Rightarrow> json gomap \<Rightarrow> (value_refusal list, string gomap) result" where
  "Check compile book vals =
     (let (refusals, checked) =
        check_loop (check_value compile book vals) (sorted_keys (Values (pb_Trigger book))) ([], [])
      in if refusals \<noteq> [] then Inl refusals else Inr checked)"

subsection \<open>Facts of the values\<close>

text \<open>The shape every accepted value has.\<close>

definition value_ok :: "re_compile \<Rightarrow> playbook \<Rightarrow> json gomap \<Rightarrow> string \<Rightarrow> string \<Rightarrow> bool" where
  "value_ok compile book vals name text \<longleftrightarrow>
     (\<exists>raw. map_of vals name = Some raw \<and> SingleValue raw = Some text) \<and>
     (\<exists>declared. map_of (Values (pb_Trigger book)) name = Some declared \<and>
        int (rune_count text) \<le> MaxLength declared \<and>
        anchoredMatch compile (Pattern declared) text = Some True) \<and>
     \<not> (name \<in> set (gatherReferenced book) \<and> has_prefix text ''-'')"

lemma check_text_Inr:
  "check_text compile book name d s = Inr text \<longleftrightarrow> s = text \<and> int (rune_count s) \<le> MaxLength d \<and>
     anchoredMatch compile (Pattern d) s = Some True \<and>
     \<not> (name \<in> set (gatherReferenced book) \<and> has_prefix s ''-'')"
  unfolding check_text_def by (cases "anchoredMatch compile (Pattern d) s") auto

lemma check_value_Inr:
  assumes "map_of (Values (pb_Trigger book)) name \<noteq> None"
  shows "check_value compile book vals name = Inr text \<longleftrightarrow> value_ok compile book vals name text"
proof (cases "map_of vals name")
  case None
  then show ?thesis by (simp add: check_value_def value_ok_def Let_def)
next
  case (Some raw)
  show ?thesis
  proof (cases "SingleValue raw")
    case None
    with Some show ?thesis by (simp add: check_value_def value_ok_def Let_def)
  next
    case (Some s)
    then have "raw \<noteq> JNull" by (auto simp: SingleValue_def)
    with Some \<open>map_of vals name = Some raw\<close> assms show ?thesis
      by (auto simp: check_value_def value_ok_def check_text_Inr Let_def)
  qed
qed

lemma check_text_name: "check_text compile book name d s = Inl r \<Longrightarrow> ref_Name r = name"
  unfolding check_text_def value_refuse_def
  by (cases "anchoredMatch compile (Pattern d) s") (auto split: if_splits)

lemma check_value_name: "check_value compile book vals name = Inl r \<Longrightarrow> ref_Name r = name"
  unfolding check_value_def Let_def
  by (auto simp: value_refuse_def split: if_splits option.splits dest: check_text_name)

lemma check_loop_refusals:
  "fst (check_loop judge names (rs, ch)) = rs @ concat (map (\<lambda>n. case judge n of Inl r \<Rightarrow> [r] | Inr _ \<Rightarrow> []) names)"
  by (induction names arbitrary: rs ch) (auto split: sum.splits)

lemma check_loop_checked:
  "map_of (snd (check_loop judge names (rs, ch))) n =
     (if n \<in> set names \<and> (\<exists>t. judge n = Inr t) then Some (projr (judge n)) else map_of ch n)"
  by (induction names arbitrary: rs ch) (auto split: sum.splits)

subsection \<open>Properties\<close>

text \<open>
   \<open>Check\<close> accepts a delivery exactly when every declared value is present, single, within its
  length, wholly matched by its pattern, and free of a leading dash when a gather step binds it;
  it then returns exactly the declared names with those texts, and otherwise one refusal for every
  declared value that fails, in name order.
\<close>

theorem Check_judges_every_value:
  "case Check compile book vals of
     Inr checked \<Rightarrow> \<forall>name. (case map_of checked name of
         Some text \<Rightarrow> value_ok compile book vals name text
       | None \<Rightarrow> name \<notin> dom (map_of (Values (pb_Trigger book))))
   | Inl refusals \<Rightarrow> refusals \<noteq> [] \<and>
       map ref_Name refusals = filter (\<lambda>name. \<nexists>text. value_ok compile book vals name text)
         (sorted_keys (Values (pb_Trigger book)))"
proof -
  let ?judge = "check_value compile book vals"
  let ?names = "sorted_keys (Values (pb_Trigger book))"
  have ok: "?judge n = Inr t \<longleftrightarrow> value_ok compile book vals n t" if "n \<in> set ?names" for n t
    using that check_value_Inr [of book n compile vals t] by (auto simp: sorted_keys_dom simp del: set_sorted_keys)
  have notok: "\<not> value_ok compile book vals n t" if "n \<notin> set ?names" for n t
    using that by (auto simp: sorted_keys_dom value_ok_def simp del: set_sorted_keys)
  define res where "res = check_loop ?judge ?names ([], [])"
  have refs: "fst res = concat (map (\<lambda>n. case ?judge n of Inl r \<Rightarrow> [r] | Inr _ \<Rightarrow> []) ?names)"
    unfolding res_def by (simp add: check_loop_refusals)
  have names: "map ref_Name (concat (map (\<lambda>n. case ?judge n of Inl r \<Rightarrow> [r] | Inr _ \<Rightarrow> []) ns)) =
      filter (\<lambda>n. \<nexists>t. ?judge n = Inr t) ns" for ns
    by (induction ns) (auto split: sum.splits simp: check_value_name)
  have failing: "map ref_Name (fst res) = filter (\<lambda>n. \<nexists>t. value_ok compile book vals n t) ?names"
    unfolding refs names using ok by (intro filter_cong) auto
  have entry: "map_of (snd res) n = (if n \<in> set ?names \<and> (\<exists>t. ?judge n = Inr t)
      then Some (projr (?judge n)) else None)" for n
    unfolding res_def by (simp add: check_loop_checked)
  have Check: "Check compile book vals = (if fst res \<noteq> [] then Inl (fst res) else Inr (snd res))"
    by (simp add: Check_def res_def case_prod_beta Let_def)
  show ?thesis
  proof (cases "fst res = []")
    case True
    have all: "\<exists>t. ?judge n = Inr t" if "n \<in> set ?names" for n
    proof -
      have "filter (\<lambda>n. \<nexists>t. value_ok compile book vals n t) ?names = []" using failing True by simp
      with that show ?thesis unfolding filter_empty_conv ok [OF that] by blast
    qed
    have "case map_of (snd res) n of Some t \<Rightarrow> value_ok compile book vals n t
       | None \<Rightarrow> n \<notin> dom (map_of (Values (pb_Trigger book)))" for n
    proof (cases "n \<in> set ?names")
      case True
      then obtain t where t: "?judge n = Inr t" using all by blast
      then have "map_of (snd res) n = Some t" using entry [of n] True by (simp del: set_sorted_keys)
      moreover have "value_ok compile book vals n t" using ok [OF True] t by blast
      ultimately show ?thesis by simp
    next
      case False
      then show ?thesis by (simp only: sorted_keys_dom entry) simp
    qed
    with True show ?thesis by (simp add: Check)
  next
    case False
    with failing show ?thesis by (simp add: Check)
  qed
qed

end
