(* ===== verification/Gate.thy ===== *)
theory Gate
  imports Playbook
begin

text \<open>
  The load gate of \<open>runtime/internal/playbook/validate.go\<close>: the refusal rules a playbook is held
  to before anything is armed.  Opening the prompt file, reading a duration and compiling a pattern
  are parameters, gathered in one record.  What a refusal found is kept as data; what it would
  accept is kept as the text the code gives.
\<close>

subsection \<open>Data\<close>

record deployment =
  MCPServers :: "string list"
  SinkTypes :: "string list"
  CreatingSinks :: "string list"
  Collections :: "string list"
  ConfigKeys :: "string list"
  Sources :: "string list"

datatype prompt_error = PromptOs os_error | PromptNotRegular | PromptTooLarge int

datatype (plugins only: code) found =
    FNoDescription
  | FShell string
  | FWriting string
  | FNotATool string
  | FWholeServer string
  | FServerNotProvided string string
  | FNotAForm string
  | FScopesTool string string
  | FScopesNothing string
  | FOutside string
  | FNotAServer string
  | FPrompt string prompt_error
  | FBare string
  | FNotConfigured string
  | FTriggerRef string
  | FNotDuration string
  | FSinkShape
  | FSinkNoMapping string
  | FNotASink string
  | FMissing
  | FLabelNotString
  | FLabelEmpty
  | FLabelComma string
  | FLabelTrigger
  | FNotACollection string
  | FNotAnOutput string
  | FAlreadyWritten string string
  | FTooManyResults int
  | FTooManyBytes int
  | FNotApplied
  | FNotASource string
  | FPatternInvalid string
  | FNotAPointer string
  | FDataFile
  | FUndeclared string
  | FQuoted string

record problem =
  Field :: string
  Found :: found
  Accepted :: string

definition prob :: "string \<Rightarrow> found \<Rightarrow> string \<Rightarrow> problem" where
  "prob field found accepted = \<lparr>Field = field, Found = found, Accepted = accepted\<rparr>"

text \<open>An opened prompt file: what \<open>Stat\<close> says of it and the bytes a reader gets.\<close>

record open_file =
  of_regular :: bool
  of_size :: int
  of_bytes :: string

record gate_env =
  ge_open :: "string \<Rightarrow> (os_error, open_file) result"
  ge_parseDuration :: "string \<Rightarrow> duration option"
  ge_compile :: re_compile

subsection \<open>Tools\<close>

definition readOnlyTools :: "string list" where
  "readOnlyTools = [''Read'', ''Grep'', ''Glob'', ''WebFetch'', ''WebSearch'']"

definition shells :: "string list" where
  "shells = [''Bash'', ''Shell'', ''PowerShell'', ''Zsh'', ''Sh'', ''BashOutput'', ''KillShell'']"

definition writingTools :: "string list" where
  "writingTools = [''Write'', ''Edit'', ''MultiEdit'', ''NotebookEdit'', ''Task'', ''Agent'']"

definition toolName :: "string \<Rightarrow> bool" where
  "toolName s \<longleftrightarrow> (case s of [] \<Rightarrow> False
     | c # cs \<Rightarrow> is_alnum c \<and> list_all (\<lambda>c. is_alnum c \<or> c = CHR ''_'' \<or> c = CHR ''-'') cs)"

text \<open>The server an entry names, whether it names the whole server, and whether it is an MCP entry.\<close>

definition mcpShape :: "string \<Rightarrow> string \<times> bool \<times> bool" where
  "mcpShape entry =
     (let parts = str_split entry ''__'' in
      if length parts < 2 \<or> parts ! 0 \<noteq> ''mcp'' \<or> parts ! 1 = [] then ([], False, False)
      else if \<not> toolName (str_join (drop 2 parts) ''__'') then (parts ! 1, True, True)
      else (parts ! 1, False, True))"

definition isMCPEntry :: "string \<Rightarrow> bool" where
  "isMCPEntry entry = snd (snd (mcpShape entry))"

text \<open>The expression \<open>scopedTool\<close>: a tool name, and in parentheses a scope without a line break.\<close>

definition scopedTool :: "string \<Rightarrow> (string \<times> string) option" where
  "scopedTool s =
     (let tool = takeWhile (\<lambda>c. c \<noteq> CHR ''('') s; rest = dropWhile (\<lambda>c. c \<noteq> CHR ''('') s in
      if tool \<noteq> [] \<and> (is_lower (hd tool) \<or> is_upper (hd tool)) \<and>
         list_all (\<lambda>c. is_alnum c \<or> c = CHR ''_'') tool \<and>
         length rest \<ge> 2 \<and> last rest = CHR '')'' \<and> CHR 0x0A \<notin> set (butlast (tl rest))
      then Some (tool, butlast (tl rest)) else None)"

definition contains :: "string list \<Rightarrow> string \<Rightarrow> bool" where
  "contains xs want \<longleftrightarrow> list_ex (\<lambda>item. item = want) xs"

definition acceptedTools :: string where
  "acceptedTools = str_join (sort readOnlyTools) '', '' @
     '', or an MCP tool named in full (mcp__server__tool)''"

definition provided :: "string list \<Rightarrow> string" where
  "provided names = (if names = [] then ''nothing; this deployment provides none''
     else str_join (sort names) '', '')"

definition mcpProblems :: "string \<Rightarrow> string \<Rightarrow> deployment \<Rightarrow> problem list" where
  "mcpProblems field entry dep =
     (let (server, wholeServer, _) = mcpShape entry in
      if wholeServer then
        [prob field (FWholeServer entry) (''an individual tool, e.g. '' @ entry @ ''__query_prometheus'')]
      else if \<not> contains (MCPServers dep) server then
        [prob field (FServerNotProvided entry server) (provided (MCPServers dep))]
      else [])"

definition insideWorkingDirectory :: "string \<Rightarrow> bool" where
  "insideWorkingDirectory scope \<longleftrightarrow>
     (if IsAbs scope then False
      else if has_prefix scope ''~'' then False
      else let resolved = Clean (path_Join [''/run'', scope])
           in resolved = ''/run'' \<or> has_prefix resolved ''/run/'')"

definition scopeProblems :: "string \<Rightarrow> string \<Rightarrow> problem list" where
  "scopeProblems field entry =
     (case scopedTool entry of
        None \<Rightarrow>
          if contains readOnlyTools entry then []
          else [prob field (FNotAForm entry)
                  ''a scoped file tool such as Read(./**), or an MCP tool named in full'']
      | Some (tool, scope) \<Rightarrow>
          if \<not> contains readOnlyTools tool then
            [prob field (FScopesTool entry tool) acceptedTools]
          else if scope = [] then
            [prob field (FScopesNothing entry)
               (''a path inside the run'' @ [CHR 0x27] @ ''s working directory, e.g. '' @ tool @ ''(./**)'')]
          else if \<not> insideWorkingDirectory scope then
            [prob field (FOutside scope)
               (''a path inside it, e.g. '' @ tool @ ''(./**) or '' @ tool @ ''(./inputs/**)'')]
          else [])"

definition toolProblems :: "string \<Rightarrow> string \<Rightarrow> deployment \<Rightarrow> problem list" where
  "toolProblems field tool dep =
     (if contains shells tool then [prob field (FShell tool) acceptedTools]
      else if contains writingTools tool then [prob field (FWriting tool) acceptedTools]
      else if isMCPEntry tool then mcpProblems field tool dep
      else if \<not> contains readOnlyTools tool then [prob field (FNotATool tool) acceptedTools]
      else [])"

definition allowProblems :: "string \<Rightarrow> string \<Rightarrow> deployment \<Rightarrow> problem list" where
  "allowProblems field entry dep =
     (if isMCPEntry entry then mcpProblems field entry dep else scopeProblems field entry)"

text \<open>A field with an index: \<open>agent.tools[0]\<close>.\<close>

definition indexed :: "string \<Rightarrow> nat \<Rightarrow> string" where
  "indexed name at = name @ ''['' @ itoa at @ '']''"

text \<open>The loop over a list with its index: the problems of every element, in order.\<close>

definition each :: "(nat \<Rightarrow> 'a \<Rightarrow> 'b list) \<Rightarrow> 'a list \<Rightarrow> 'b list" where
  "each f xs = concat (map (\<lambda>(at, x). f at x) (enumerate 0 xs))"

subsection \<open>References\<close>

definition bareReference :: "string \<Rightarrow> string list" where
  "bareReference s = ref_bodies (ref_scan ''${'' (\<lambda>c. c \<noteq> CHR ''.'') 0 s)"

definition triggerReference :: "string \<Rightarrow> string list" where
  "triggerReference s = ref_bodies (ref_scan ''${trigger.'' (\<lambda>_. True) 0 s)"

definition configReference :: "string \<Rightarrow> string list" where
  "configReference s = ref_bodies (ref_scan ''${config.'' (\<lambda>_. True) 0 s)"

definition triggerReferencesIn :: "string \<Rightarrow> string list" where
  "triggerReferencesIn text = triggerReference text"

definition configured :: "deployment \<Rightarrow> string list" where
  "configured dep = ConfigKeys dep"

definition set_it_with :: "string \<Rightarrow> string" where
  "set_it_with key = ''set it with `printf '' @ [CHR 0x27] @ ''%s'' @ [CHR 0x27] @ '' '' @ [CHR 0x22] @
     ''$VALUE'' @ [CHR 0x22] @ '' | gronin config set '' @ key @ ''`''"

definition unconfigured :: "string \<Rightarrow> string \<Rightarrow> string list \<Rightarrow> problem list" where
  "unconfigured field text known =
     map (\<lambda>key. prob field (FNotConfigured key) (set_it_with key))
       (filter (\<lambda>key. \<not> contains known key) (configReference text))"

definition bareReferences :: "string \<Rightarrow> string \<Rightarrow> problem list" where
  "bareReferences field text =
     map (\<lambda>name. prob field (FBare name) (''${config.'' @ name @ ''} or ${trigger.'' @ name @ ''}''))
       (bareReference text)"

subsection \<open>The agent\<close>

definition PromptPath :: "playbook \<Rightarrow> string" where
  "PromptPath p =
     (if IsAbs (PromptFile (pb_Agent p)) then PromptFile (pb_Agent p)
      else path_Join [path_Dir (pb_Path p), PromptFile (pb_Agent p)])"

definition MaxPromptBytes :: int where
  "MaxPromptBytes = 1048576"

definition readPrompt :: "gate_env \<Rightarrow> string \<Rightarrow> (prompt_error, string) result" where
  "readPrompt env path =
     (case ge_open env path of
        Inl e \<Rightarrow> Inl (PromptOs e)
      | Inr file \<Rightarrow>
          if \<not> of_regular file then Inl PromptNotRegular
          else if of_size file > MaxPromptBytes then Inl (PromptTooLarge (of_size file))
          else Inr (take (nat MaxPromptBytes) (of_bytes file)))"

definition promptProblems :: "gate_env \<Rightarrow> playbook \<Rightarrow> deployment \<Rightarrow> problem list" where
  "promptProblems env book dep =
     (let agent = pb_Agent book in
      if PromptFile agent \<noteq> [] \<and> pb_Path book \<noteq> [] then
        (case readPrompt env (PromptPath book) of
           Inl e \<Rightarrow> [prob ''agent.prompt_file'' (FPrompt (PromptFile agent) e)
                      ''a readable file beside the playbook, under 1 MiB'']
         | Inr body \<Rightarrow>
             let where' = ''agent.prompt_file ('' @ PromptFile agent @ '')'' in
             bareReferences where' body @ unconfigured where' body (configured dep) @
             (if trig_Type (pb_Trigger book) = ''webhook'' then
                map (\<lambda>name. prob ''agent.prompt_file'' (FTriggerRef name)
                   ''no payload reference; declared values reach the agent only through the data file'')
                  (triggerReferencesIn body)
              else []))
      else [])"

definition validateAgent :: "gate_env \<Rightarrow> playbook \<Rightarrow> deployment \<Rightarrow> problem list" where
  "validateAgent env book dep =
     (let agent = pb_Agent book in
      (if \<not> IsRestricted agent \<and> trim_space (Description book) = [] then
         [prob ''agent.restricted'' FNoDescription
            ''a description stating why this playbook needs the command- and code-running tools'']
       else []) @
      each (\<lambda>at tool. toolProblems (indexed ''agent.tools'' at) tool dep) (Tools agent) @
      each (\<lambda>at entry. allowProblems (indexed ''agent.allow'' at) entry dep) (Allow agent) @
      each (\<lambda>at name. if \<not> contains (MCPServers dep) name
              then [prob (indexed ''agent.mcp'' at) (FNotAServer name) (provided (MCPServers dep))]
              else []) (MCP agent) @
      promptProblems env book dep @
      (if agent_Timeout agent \<noteq> [] then
         (case StageTimeout (ge_parseDuration env) agent of
            Inl _ \<Rightarrow> [prob ''agent.timeout'' (FNotDuration (agent_Timeout agent))
                        ''a duration such as 10m, 45m or 2h'']
          | Inr _ \<Rightarrow> [])
       else []))"

subsection \<open>Sinks\<close>

definition labelProblems :: "string \<Rightarrow> yaml gomap \<Rightarrow> problem list" where
  "labelProblems field config =
     (case map_of config ''label'' of
        None \<Rightarrow> []
      | Some raw \<Rightarrow>
          (case raw of
             YString text \<Rightarrow>
               if \<not> str_contains text ''${'' \<and> trim_space text = [] then
                 [prob field FLabelEmpty ''a label name, or remove the field to use the default'']
               else if str_contains text '','' then
                 [prob field (FLabelComma text)
                    (''one label name; the cap counts the issues carrying it, and a list '' @
                     ''would count issues the sink never creates'')]
               else if str_contains text ''${trigger.'' then
                 [prob field FLabelTrigger
                    ''a label name, or ${config.x}; the deployment names it, not the trigger'']
               else []
           | _ \<Rightarrow> [prob field FLabelNotString ''a label name, e.g. doc-drift'']))"

definition sinkProblems :: "deployment \<Rightarrow> nat \<Rightarrow> sink \<Rightarrow> problem list" where
  "sinkProblems dep at one =
     (let field = indexed ''sinks'' at; (name, config, ok) = sink_Type one in
      if \<not> ok then
        [prob field (if name \<noteq> [] then FSinkNoMapping name else FSinkShape)
           ''one key naming the sink, e.g. discord: {webhook: ${config.ops_webhook}}'']
      else if \<not> contains (SinkTypes dep) name then
        [prob (field @ ''.'' @ name) (FNotASink name) (provided (SinkTypes dep))]
      else if contains (CreatingSinks dep) name then
        (if map_of config ''cap'' = None then
           [prob (field @ ''.'' @ name @ ''.cap'') FMissing
              ''an integer; a sink that creates things must declare its ceiling'']
         else []) @ labelProblems (field @ ''.'' @ name @ ''.label'') config
      else [])"

definition validateSinks :: "playbook \<Rightarrow> deployment \<Rightarrow> problem list" where
  "validateSinks book dep = each (sinkProblems dep) (Sinks book)"

subsection \<open>Retrievals\<close>

definition byAGatherStep :: string where
  "byAGatherStep = ''a gather step''"

definition gatherNames :: "playbook \<Rightarrow> string" where
  "gatherNames book =
     (let names = map step_As (Gather book) in
      if names = [] then ''nothing; this playbook gathers nothing, so use `query` instead''
      else str_join (sort names) '', '')"

definition retrievalProblems ::
  "playbook \<Rightarrow> deployment \<Rightarrow> nat \<Rightarrow> retrieval \<Rightarrow> string gomap \<Rightarrow> problem list" where
  "retrievalProblems book dep at r written =
     (let field = indexed ''retrieve'' at in
      (if \<not> contains (Collections dep) (Collection r) then
         [prob (field @ ''.collection'') (FNotACollection (Collection r)) (provided (Collections dep))]
       else []) @
      (if QueryFrom r \<noteq> [] \<and> map_of written (QueryFrom r) \<noteq> Some byAGatherStep then
         [prob (field @ ''.query_from'') (FNotAnOutput (QueryFrom r)) (gatherNames book)]
       else []) @
      (case map_of written (retr_As r) of
         Some by' \<Rightarrow> [prob (field @ ''.as'') (FAlreadyWritten (retr_As r) by')
            ''a name nothing else in this playbook writes into the working directory'']
       | None \<Rightarrow> []) @
      (if MaxResults r > MaxResultsCeiling then
         [prob (field @ ''.max_results'') (FTooManyResults (MaxResults r))
            (''1 to '' @ itoa (nat MaxResultsCeiling) @ ''; a need for more is better met by two queries'')]
       else []) @
      (if MaxBytes r > MaxBytesCeiling then
         [prob (field @ ''.max_bytes'') (FTooManyBytes (MaxBytes r))
            (''1 to '' @ itoa (nat MaxBytesCeiling) @ ''; a need for more is better met by two queries'')]
       else []))"

text \<open>The loop over the retrievals: each one claims its name for those that follow.\<close>

fun retrieve_loop ::
  "playbook \<Rightarrow> deployment \<Rightarrow> nat \<Rightarrow> retrieval list \<Rightarrow> string gomap \<Rightarrow> problem list" where
  "retrieve_loop book dep at [] written = []"
| "retrieve_loop book dep at (r # rs) written =
     retrievalProblems book dep at r written @
     retrieve_loop book dep (Suc at) rs (map_set (retr_As r) (indexed ''retrieve'' at) written)"

definition validateRetrieve :: "playbook \<Rightarrow> deployment \<Rightarrow> problem list" where
  "validateRetrieve book dep =
     (if Retrieve book = [] then []
      else retrieve_loop book dep 0 (Retrieve book)
             (fold (\<lambda>step. map_set (step_As step) byAGatherStep) (Gather book) []))"

subsection \<open>The guard\<close>

definition appliedGuardKeys :: "string list" where
  "appliedGuardKeys = [''guard.rate'', ''guard.wait'']"

definition validateGuard :: "playbook \<Rightarrow> problem list" where
  "validateGuard book =
     (case pb_Guard book of
        None \<Rightarrow> []
      | Some g \<Rightarrow>
          concat (map (\<lambda>(field, declared).
             if declared \<and> \<not> contains appliedGuardKeys field then
               [prob field FNotApplied
                  ''remove the key; a declared bound nothing enforces reads as enforced in review'']
             else [])
            [(''guard.rate'', guard_Rate g \<noteq> None), (''guard.wait'', guard_Wait g \<noteq> [])]))"

subsection \<open>Strings of the document\<close>

record held =
  held_field :: string
  held_text :: string

function walkValue :: "string \<Rightarrow> yaml \<Rightarrow> held list" where
  "walkValue field (YString s) = [\<lparr>held_field = field, held_text = s\<rparr>]"
| "walkValue field (YMap m) =
     concat (map snd (sort_key fst (map (\<lambda>(key, v). (key, walkValue (field @ ''.'' @ key) v)) m)))"
| "walkValue field (YSink m) =
     concat (map snd (sort_key fst (map (\<lambda>(key, v). (key, walkValue (field @ ''.'' @ key) v)) m)))"
| "walkValue field (YList xs) =
     concat (map (\<lambda>(at, v). walkValue (indexed field at) v) (enumerate 0 xs))"
| "walkValue field YNil = []"
| "walkValue field (YInt i) = []"
| "walkValue field (YFloat x) = []"
| "walkValue field (YBool b) = []"
  by pat_completeness auto

lemma size_enumerate_yaml: "(n, v) \<in> set (enumerate k xs) \<Longrightarrow> size v < Suc (size_list size xs)"
proof -
  assume "(n, v) \<in> set (enumerate k xs)"
  then have "v \<in> set xs" by (auto simp: in_set_enumerate_eq)
  then have "size v \<le> size_list size xs" by (simp add: size_list_estimation')
  then show ?thesis by simp
qed

lemma size_pair_yaml:
  "(k, v) \<in> set m \<Longrightarrow> size v < Suc (size_list (size_prod f size) m)"
proof -
  assume "(k, v) \<in> set m"
  then have "size_prod f size (k, v) \<le> size_list (size_prod f size) m"
    by (rule size_list_estimation') simp
  then show ?thesis by simp
qed

termination walkValue
  by (relation "measure (\<lambda>(field, v). size v)")
    (auto intro: size_enumerate_yaml size_pair_yaml)

definition interpolatable :: "playbook \<Rightarrow> held list" where
  "interpolatable book =
     [\<lparr>held_field = ''description'', held_text = Description book\<rparr>,
      \<lparr>held_field = ''trigger.schedule'', held_text = Schedule (pb_Trigger book)\<rparr>,
      \<lparr>held_field = ''agent.model'', held_text = Model (pb_Agent book)\<rparr>,
      \<lparr>held_field = ''agent.prompt_file'', held_text = PromptFile (pb_Agent book)\<rparr>] @
     each (\<lambda>at step. [\<lparr>held_field = indexed ''gather'' at @ ''.run'', held_text = step_Run step\<rparr>,
                       \<lparr>held_field = indexed ''gather'' at @ ''.as'', held_text = step_As step\<rparr>])
       (Gather book) @
     each (\<lambda>at r. [\<lparr>held_field = indexed ''retrieve'' at @ ''.query'', held_text = Query r\<rparr>])
       (Retrieve book) @
     each (\<lambda>at tool. [\<lparr>held_field = indexed ''agent.tools'' at, held_text = tool\<rparr>])
       (Tools (pb_Agent book)) @
     each (\<lambda>at entry. [\<lparr>held_field = indexed ''agent.allow'' at, held_text = entry\<rparr>])
       (Allow (pb_Agent book)) @
     each (\<lambda>at name. [\<lparr>held_field = indexed ''agent.mcp'' at, held_text = name\<rparr>])
       (MCP (pb_Agent book)) @
     each (\<lambda>at one. let (name, config, ok) = sink_Type one in
             if \<not> ok then [] else walkValue (indexed ''sinks'' at @ ''.'' @ name) (YMap config))
       (Sinks book)"

definition resolvedHere :: "string list" where
  "resolvedHere = [''gather.run'', ''sinks'', ''retrieve.query'']"

definition fieldKind :: "string \<Rightarrow> string" where
  "fieldKind field0 =
     (let field =
        (case str_index field0 ''['' of
           None \<Rightarrow> field0
         | Some at \<Rightarrow>
             let rest = drop at field0 in
             case str_index rest '']'' of
               None \<Rightarrow> field0
             | Some end' \<Rightarrow> take at field0 @ drop (end' + 1) rest)
      in case str_cut field ''.'' of
           Some (before, _) \<Rightarrow> if before = ''sinks'' then ''sinks'' else trim_prefix field ''.''
         | None \<Rightarrow> trim_prefix field ''.'')"

definition quotedAccepted :: string where
  "quotedAccepted = ''the reference on its own, as in `git -C ${config.checkout} log` '' @
     [CHR 0xE2, CHR 0x80, CHR 0x94] @
     '' it is substituted as one quoted word and cannot be nested in another''"

definition validateInterpolation :: "playbook \<Rightarrow> deployment \<Rightarrow> problem list" where
  "validateInterpolation book dep =
     concat (map (\<lambda>h. bareReferences (held_field h) (held_text h) @
         (if contains resolvedHere (fieldKind (held_field h))
          then unconfigured (held_field h) (held_text h) (configured dep) else []))
       (interpolatable book)) @
     each (\<lambda>at step. map (\<lambda>name. prob (indexed ''gather'' at @ ''.run'') (FQuoted name) quotedAccepted)
         (QuotedReferences (step_Run step)))
       (Gather book)"

subsection \<open>Webhooks\<close>

definition declaredValueNames :: "playbook \<Rightarrow> string" where
  "declaredValueNames book =
     (if Values (pb_Trigger book) = [] then ''nothing; this trigger declares no values''
      else str_join (sorted_keys (Values (pb_Trigger book))) '', '')"

definition declaredProblems :: "gate_env \<Rightarrow> string \<Rightarrow> trigger_value \<Rightarrow> problem list" where
  "declaredProblems env name declared =
     (let field = ''trigger.values.'' @ name in
      (if Pattern declared = [] then
         [prob (field @ ''.pattern'') FMissing ''an RE2 pattern the whole value must match'']
       else if ge_compile env (Pattern declared) = None then
         [prob (field @ ''.pattern'') (FPatternInvalid (Pattern declared)) ''a valid RE2 pattern'']
       else []) @
      (if MaxLength declared \<le> 0 then
         [prob (field @ ''.max_length'') FMissing ''the most Unicode code points this value may hold'']
       else []) @
      (if At declared \<noteq> [] \<and> \<not> has_prefix (At declared) ''/'' then
         [prob (field @ ''.at'') (FNotAPointer (At declared)) ''a JSON Pointer such as /alertname'']
       else []))"

definition sinkTriggerProblems :: "nat \<Rightarrow> sink \<Rightarrow> problem list" where
  "sinkTriggerProblems at one =
     (let (name, config, ok) = sink_Type one in
      if \<not> ok then []
      else concat (map (\<lambda>h. map (\<lambda>ref. prob (held_field h) (FTriggerRef ref)
               ''a destination, credential or cap bucket the deployment names, not the trigger'')
             (triggerReferencesIn (held_text h)))
           (walkValue (indexed ''sinks'' at @ ''.'' @ name) (YMap config))))"

definition gatherTriggerProblems :: "playbook \<Rightarrow> nat \<Rightarrow> step \<Rightarrow> problem list" where
  "gatherTriggerProblems book at step =
     (if step_As step = ''trigger.json'' then
        [prob (indexed ''gather'' at @ ''.as'') FDataFile ''a name that does not collide with it'']
      else []) @
     map (\<lambda>name. prob (indexed ''gather'' at @ ''.run'') (FUndeclared name) (declaredValueNames book))
       (filter (\<lambda>name. map_of (Values (pb_Trigger book)) name = None) (TriggerReferences (step_Run step)))"

definition validateWebhook :: "gate_env \<Rightarrow> playbook \<Rightarrow> deployment \<Rightarrow> problem list" where
  "validateWebhook env book dep =
     (if trig_Type (pb_Trigger book) \<noteq> ''webhook'' then []
      else
        (if \<not> contains (Sources dep) (trig_Source (pb_Trigger book)) then
           [prob ''trigger.source'' (FNotASource (trig_Source (pb_Trigger book))) (provided (Sources dep))]
         else []) @
        concat (map (\<lambda>name. declaredProblems env name (the (map_of (Values (pb_Trigger book)) name)))
          (sorted_keys (Values (pb_Trigger book)))) @
        each sinkTriggerProblems (Sinks book) @
        each (gatherTriggerProblems book) (Gather book))"

subsection \<open>The whole gate\<close>

definition Validate :: "gate_env \<Rightarrow> playbook \<Rightarrow> deployment \<Rightarrow> problem list" where
  "Validate env book dep =
     validateAgent env book dep @ validateSinks book dep @ validateRetrieve book dep @
     validateGuard book @ validateWebhook env book dep @ validateInterpolation book dep"

subsection \<open>Facts of the loops\<close>

lemma contains_iff [simp]: "contains xs want \<longleftrightarrow> want \<in> set xs"
  by (auto simp: contains_def list_ex_iff)

lemma each_mem: "y \<in> set (each f xs) \<longleftrightarrow> (\<exists>i < length xs. y \<in> set (f i (xs ! i)))"
proof -
  have "y \<in> set (each f xs) \<longleftrightarrow> (\<exists>p \<in> set (enumerate 0 xs). y \<in> set (f (fst p) (snd p)))"
    by (simp add: each_def case_prod_beta)
  also have "\<dots> \<longleftrightarrow> (\<exists>i < length xs. y \<in> set (f i (xs ! i)))"
    by (auto simp: in_set_enumerate_eq intro!: bexI [of _ "(i, xs ! i)" for i])
  finally show ?thesis .
qed

lemma each_Nil: "each f xs = [] \<longleftrightarrow> (\<forall>i < length xs. f i (xs ! i) = [])"
  using each_mem [of _ f xs] by (metis empty_iff empty_set last_in_set)

lemma each_Nil_mem: "each f xs = [] \<Longrightarrow> x \<in> set xs \<Longrightarrow> \<exists>i < length xs. xs ! i = x \<and> f i x = []"
  unfolding each_Nil by (metis in_set_conv_nth)

lemma prob_simps [simp]:
  "Field (prob f w a) = f" "Found (prob f w a) = w" "Accepted (prob f w a) = a"
  by (simp_all add: prob_def)

subsection \<open>Facts of the tool rules\<close>







text \<open>Where a scope resolves: below the notional root, by components.\<close>

lemma real_comp_run: "real_comp ''run''"
  by (simp add: real_comp_def)

lemma insideWorkingDirectory_comps:
  "insideWorkingDirectory scope \<longleftrightarrow> \<not> IsAbs scope \<and> \<not> has_prefix scope ''~'' \<and>
     hd (clean_comps True [''run''] (str_split scope ''/'') @ [[]]) = ''run''"
proof -
  let ?cs = "clean_comps True [''run''] (str_split scope ''/'')"
  have real: "list_all real_comp ?cs"
    by (rule clean_comps_real) (use real_comp_run str_split_no_sep in auto)
  have "Clean (path_Join [''/run'', scope]) = CHR ''/'' # str_join ?cs ''/''"
    using Clean_Join_under [OF real_comp_run] by simp
  moreover have "(CHR ''/'' # s = ''/run'' \<or> has_prefix (CHR ''/'' # s) ''/run/'')
      \<longleftrightarrow> (s = ''run'' \<or> has_prefix s (''run'' @ ''/''))" for s
    by (simp add: has_prefix_def)
  ultimately show ?thesis
    unfolding insideWorkingDirectory_def Let_def using under_iff [OF real real_comp_run] by simp
qed

lemma insideWorkingDirectory_iff:
  assumes "''run'' \<notin> set (str_split scope ''/'')"
  shows "insideWorkingDirectory scope \<longleftrightarrow>
     \<not> IsAbs scope \<and> \<not> has_prefix scope ''~'' \<and> stays_below 0 (str_split scope ''/'')"
proof -
  let ?cs = "clean_comps True [''run''] (str_split scope ''/'')"
  have "hd (?cs @ [[]]) = ''run''" if stays: "stays_below 0 (str_split scope ''/'')"
    using clean_comps_stays [of "[]" "str_split scope ''/''" True "[''run'']"] stays by auto
  moreover have "hd (?cs @ [[]]) \<noteq> ''run''" if "\<not> stays_below 0 (str_split scope ''/'')"
    using clean_comps_leaves [of "[]" "str_split scope ''/''" "''run''"] that assms by auto
  ultimately show ?thesis unfolding insideWorkingDirectory_comps by blast
qed

subsection \<open>Facts of the field names\<close>

lemma itoa_digits: "c \<in> set (itoa n) \<Longrightarrow> is_digit c"
proof (induction n rule: itoa.induct)
  case (1 n)
  have d: "is_digit (digit_of k)" if "k < 10" for k
  proof -
    have "k \<in> {0, 1, 2, 3, 4, 5, 6, 7, 8, 9}" using that by auto
    then show ?thesis by (auto simp: digit_of_def is_digit_def char_of_def bit_0)
  qed
  show ?case
  proof (cases "n < 10")
    case True
    with "1.prems" d show ?thesis by (simp add: itoa.simps)
  next
    case False
    with "1.prems" have "c \<in> set (itoa (n div 10)) \<or> c = digit_of (n mod 10)"
      by (subst (asm) itoa.simps) auto
    with False "1.IH" d [of "n mod 10"] show ?thesis by auto
  qed
qed

lemma itoa_no: "\<not> is_digit c \<Longrightarrow> c \<notin> set (itoa n)"
  using itoa_digits by blast

lemma str_index_skip:
  "c \<notin> set u \<Longrightarrow> str_index (u @ c # v) [c] = Some (length u)"
  by (induction u) (auto simp: has_prefix_def)

lemma fieldKind_gather: "fieldKind (indexed ''gather'' i @ ''.run'') = ''gather.run''"
proof -
  let ?f = "''gather'' @ CHR ''['' # itoa i @ CHR '']'' # ''.run''"
  have "str_index ?f ''['' = Some 6" using str_index_skip [of "CHR ''[''" "''gather''"] by simp
  moreover have "str_index (CHR ''['' # itoa i @ CHR '']'' # ''.run'') '']'' = Some (Suc (length (itoa i)))"
    using str_index_skip [of "CHR '']''" "CHR ''['' # itoa i" "''.run''"] itoa_no [of "CHR '']''" i]
    by (simp add: is_digit_def)
  ultimately have "fieldKind ?f = ''gather.run''"
    by (simp add: fieldKind_def Let_def str_cut_def has_prefix_def trim_prefix_def)
  then show ?thesis by (simp add: indexed_def)
qed

subsection \<open>Facts of the references\<close>

interpretation bare_ref: ref_syntax "[]" "\<lambda>c. c \<noteq> CHR ''.''"
  by unfold_locales simp

interpretation trigger_ref: ref_syntax "''trigger.''" "\<lambda>_. True"
  by unfold_locales simp

interpretation config_ref: ref_syntax "''config.''" "\<lambda>_. True"
  by unfold_locales simp

lemma bareReference_finds:
  "n \<in> set (ref_bodies (reference s)) \<Longrightarrow> CHR ''.'' \<notin> set n \<Longrightarrow> n \<in> set (bareReference s)"
  using bare_ref.scan_finds [of n s]
  by (auto simp: ref_bodies_set reference_def bareReference_def)

lemma configReference_finds:
  "''config.'' @ k \<in> set (ref_bodies (reference s)) \<Longrightarrow> k \<in> set (configReference s)"
  using config_ref.scan_finds [of k s]
  by (simp add: ref_bodies_set reference_def configReference_def)

lemma triggerReference_finds:
  "''trigger.'' @ k \<in> set (ref_bodies (reference s)) \<Longrightarrow> k \<in> set (triggerReference s)"
  using trigger_ref.scan_finds [of k s]
  by (simp add: ref_bodies_set reference_def triggerReference_def)

subsection \<open>What an accepted playbook satisfies\<close>

lemma Validate_parts:
  assumes "Validate env book dep = []"
  shows "validateAgent env book dep = []" "validateSinks book dep = []" "validateRetrieve book dep = []"
    "validateWebhook env book dep = []" "validateInterpolation book dep = []"
  using assms by (simp_all add: Validate_def)

lemma Validate_gather_references:
  assumes "Validate env book dep = []" "step \<in> set (Gather book)"
  shows "bareReference (step_Run step) = []"
    and "set (configReference (step_Run step)) \<subseteq> set (ConfigKeys dep)"
    and "QuotedReferences (step_Run step) = []"
proof -
  obtain i where i: "i < length (Gather book)" "Gather book ! i = step"
    using assms(2) by (metis in_set_conv_nth)
  let ?h = "\<lparr>held_field = indexed ''gather'' i @ ''.run'', held_text = step_Run step\<rparr>"
  have "?h \<in> set (each (\<lambda>at step. [\<lparr>held_field = indexed ''gather'' at @ ''.run'', held_text = step_Run step\<rparr>,
      \<lparr>held_field = indexed ''gather'' at @ ''.as'', held_text = step_As step\<rparr>]) (Gather book))"
    unfolding each_mem using i by auto
  then have "?h \<in> set (interpolatable book)" by (simp add: interpolatable_def del: append_Cons)
  moreover have interp: "validateInterpolation book dep = []" using assms(1) by (rule Validate_parts)
  ultimately have h: "bareReferences (held_field ?h) (held_text ?h) = []"
    "contains resolvedHere (fieldKind (held_field ?h)) \<longrightarrow>
       unconfigured (held_field ?h) (held_text ?h) (configured dep) = []"
    unfolding validateInterpolation_def by auto
  then show "bareReference (step_Run step) = []" by (simp add: bareReferences_def)
  have "contains resolvedHere (fieldKind (held_field ?h))"
    using fieldKind_gather [of i] by (simp add: resolvedHere_def)
  with h(2) show "set (configReference (step_Run step)) \<subseteq> set (ConfigKeys dep)"
    by (auto simp: unconfigured_def configured_def filter_empty_conv)
  have "each (\<lambda>at step. map (\<lambda>name. prob (indexed ''gather'' at @ ''.run'') (FQuoted name) quotedAccepted)
         (QuotedReferences (step_Run step))) (Gather book) = []"
    using interp by (simp add: validateInterpolation_def)
  then show "QuotedReferences (step_Run step) = []" unfolding each_Nil using i by auto
qed

text \<open>A sink the gate accepts, and what it asks of one that creates things elsewhere.\<close>

definition label_ok :: "string \<Rightarrow> bool" where
  "label_ok t \<longleftrightarrow> \<not> str_contains t '','' \<and> \<not> str_contains t ''${trigger.'' \<and>
     (str_contains t ''${'' \<or> trim_space t \<noteq> [])"

definition sink_ok :: "deployment \<Rightarrow> sink \<Rightarrow> bool" where
  "sink_ok dep one \<longleftrightarrow> (case sink_Type one of (name, config, ok) \<Rightarrow>
     ok \<and> name \<in> set (SinkTypes dep) \<and>
     (name \<in> set (CreatingSinks dep) \<longrightarrow> map_of config ''cap'' \<noteq> None \<and>
        (case map_of config ''label'' of None \<Rightarrow> True | Some (YString t) \<Rightarrow> label_ok t | Some _ \<Rightarrow> False)))"

lemma labelProblems_Nil:
  "labelProblems field config = [] \<longleftrightarrow>
     (case map_of config ''label'' of None \<Rightarrow> True | Some (YString t) \<Rightarrow> label_ok t | Some _ \<Rightarrow> False)"
  by (auto simp: labelProblems_def label_ok_def split: option.splits yaml.splits)

lemma sinkProblems_Nil: "sinkProblems dep at one = [] \<longleftrightarrow> sink_ok dep one"
  by (cases "sink_Type one") (auto simp: sinkProblems_def sink_ok_def Let_def labelProblems_Nil)

text \<open>The strings a sink holds, wherever they are nested.\<close>

fun yaml_strings :: "yaml \<Rightarrow> string set" where
  "yaml_strings (YString s) = {s}"
| "yaml_strings (YMap m) = (\<Union>(k, v) \<in> set m. yaml_strings v)"
| "yaml_strings (YSink m) = (\<Union>(k, v) \<in> set m. yaml_strings v)"
| "yaml_strings (YList xs) = (\<Union>v \<in> set xs. yaml_strings v)"
| "yaml_strings _ = {}"

lemma walkValue_strings: "held_text ` set (walkValue field v) = yaml_strings v"
proof (induction field v rule: walkValue.induct)
  case (2 field m)
  have "held_text ` set (walkValue field (YMap m))
      = (\<Union>(k, v) \<in> set m. held_text ` set (walkValue (field @ ''.'' @ k) v))"
    by (auto simp: image_UN case_prod_beta)
  also have "\<dots> = (\<Union>(k, v) \<in> set m. yaml_strings v)"
    using 2 by (intro SUP_cong) (simp_all add: case_prod_beta)
  finally show ?case by simp
next
  case (3 field m)
  have "held_text ` set (walkValue field (YSink m))
      = (\<Union>(k, v) \<in> set m. held_text ` set (walkValue (field @ ''.'' @ k) v))"
    by (auto simp: image_UN case_prod_beta)
  also have "\<dots> = (\<Union>(k, v) \<in> set m. yaml_strings v)"
    using 3 by (intro SUP_cong) (simp_all add: case_prod_beta)
  finally show ?case by simp
next
  case (4 field xs)
  have "held_text ` set (walkValue field (YList xs))
      = (\<Union>(at, v) \<in> set (enumerate 0 xs). held_text ` set (walkValue (indexed field at) v))"
    by (auto simp: image_UN case_prod_beta)
  also have "\<dots> = (\<Union>(at, v) \<in> set (enumerate 0 xs). yaml_strings v)"
    using 4 by (intro SUP_cong) (simp_all add: case_prod_beta)
  also have "\<dots> = (\<Union>v \<in> snd ` set (enumerate 0 xs). yaml_strings v)" by (simp add: case_prod_beta)
  also have "snd ` set (enumerate 0 xs) = set xs" by (metis list.set_map map_snd_enumerate)
  finally show ?case by simp
qed auto

lemma sinkTriggerProblems_Nil:
  assumes "sinkTriggerProblems at one = []" "sink_Type one = (name, config, True)"
    and "s \<in> yaml_strings (YMap config)"
  shows "triggerReference s = []"
proof -
  let ?field = "indexed ''sinks'' at @ ''.'' @ name"
  have "s \<in> held_text ` set (walkValue ?field (YMap config))"
    using assms(3) unfolding walkValue_strings .
  then obtain h where "h \<in> set (walkValue ?field (YMap config))" "held_text h = s" by blast
  with assms(1,2) show ?thesis
    by (auto simp: sinkTriggerProblems_def triggerReferencesIn_def simp del: walkValue.simps)
qed

subsection \<open>Properties\<close>

definition example_env :: gate_env where
  "example_env = \<lparr>ge_open = (\<lambda>_. Inr \<lparr>of_regular = True, of_size = 9, of_bytes = ''Summarise''\<rparr>),
     ge_parseDuration = (\<lambda>_. Some minute), ge_compile = (\<lambda>_. Some (\<lambda>_. True))\<rparr>"

definition example_dep :: deployment where
  "example_dep = \<lparr>MCPServers = [''grafana''], SinkTypes = [''github'', ''slack''], CreatingSinks = [''github''],
     Collections = [''runbooks''], ConfigKeys = [''checkout''], Sources = [''alerts'']\<rparr>"

definition example_book :: playbook where
  "example_book = \<lparr>pb_Name = ''triage'', Description = [],
     pb_Trigger = \<lparr>trig_Type = ''webhook'', Schedule = [], trig_Source = ''alerts'',
       Values = [(''host'', \<lparr>At = ''/host'', Pattern = ''[a-z]+'', MaxLength = 20\<rparr>)]\<rparr>,
     Gather = [\<lparr>step_Run = ''ls ${config.checkout} ${trigger.host}'', step_As = ''out''\<rparr>],
     pb_Agent = \<lparr>Model = ''m'', PromptFile = ''p.md'', Restricted = None,
       Tools = [''Read'', ''mcp__grafana__query''], MCP = [''grafana''],
       Allow = [''Read(./**)'', ''mcp__grafana__query''], OutputSchema = YNil, agent_Timeout = [], Extra = []\<rparr>,
     Sinks = [[(''github'', YMap [(''repo'', YString ''o/r''), (''cap'', YInt 5), (''label'', YString ''drift'')])]],
     pb_Guard = None,
     Retrieve = [\<lparr>Collection = ''runbooks'', Query = [], QueryFrom = ''out'', retr_As = ''found'',
       MaxResults = 0, MaxBytes = 0\<rparr>],
     pb_Path = ''/pb/triage.yaml''\<rparr>"

text \<open>The definitions that evaluate the gate on a concrete playbook.\<close>

lemmas gate_eval = validateAgent_def Let_def IsRestricted_def each_def toolProblems_def
  isMCPEntry_def mcpShape_def str_split_def has_prefix_def toolName_def is_alnum_def is_lower_def
  is_upper_def is_digit_def less_eq_char_def readOnlyTools_def shells_def writingTools_def
  allowProblems_def mcpProblems_def scopeProblems_def scopedTool_def insideWorkingDirectory_comps
  IsAbs_def promptProblems_def readPrompt_def MaxPromptBytes_def bareReferences_def
  bareReference_def unconfigured_def configReference_def triggerReferencesIn_def
  triggerReference_def ref_match_def cut_prefix_def validateSinks_def sinkProblems_Nil sink_ok_def
  sink_Type_def label_ok_def str_contains_def trim_space_def trim_left_space_def
  trim_right_space_def lead_space_def ascii_space_def wide_spaces_def validateRetrieve_def
  retrievalProblems_def byAGatherStep_def MaxResultsCeiling_def MaxBytesCeiling_def
  validateGuard_def validateWebhook_def sorted_keys_def declaredProblems_def
  sinkTriggerProblems_def gatherTriggerProblems_def TriggerReferences_def reference_def str_cut_def
  validateInterpolation_def interpolatable_def resolvedHere_def fieldKind_def indexed_def itoa.simps
  trim_prefix_def configured_def QuotedReferences_def reference_spans_def quoted_def digit_of_def

lemmas example_defs = example_book_def example_dep_def example_env_def

lemma example_accepted: "Validate example_env example_book example_dep = []"
proof -
  have "validateAgent example_env example_book example_dep = []" by (simp add: gate_eval example_defs)
  moreover have "validateSinks example_book example_dep = []" by (simp add: gate_eval example_defs)
  moreover have "validateRetrieve example_book example_dep = []" by (simp add: gate_eval example_defs)
  moreover have "validateGuard example_book = []" by (simp add: gate_eval example_defs)
  moreover have "validateWebhook example_env example_book example_dep = []" by (simp add: gate_eval example_defs)
  moreover have "validateInterpolation example_book example_dep = []" by (simp add: gate_eval example_defs)
  ultimately show ?thesis by (simp add: Validate_def)
qed



text \<open>
   The containment test on a scope is exact as long as no component of the scope is the name
  \<open>run\<close> of the notional root: it accepts the scope exactly when the scope is relative, does not
  begin with a tilde, and, walked component by component, never leaves the directory it starts in.
\<close>

theorem insideWorkingDirectory_exact:
  assumes "''run'' \<notin> set (str_split scope ''/'')"
  shows "insideWorkingDirectory scope \<longleftrightarrow>
     \<not> IsAbs scope \<and> \<not> has_prefix scope ''~'' \<and> stays_below 0 (str_split scope ''/'')"
  using assms by (rule insideWorkingDirectory_iff)

theorem insideWorkingDirectory_exact_witness: "\<not> insideWorkingDirectory ''a/../../etc''"
  using insideWorkingDirectory_exact [of "''a/../../etc''"]
  by (simp add: str_split_def has_prefix_def)

text \<open>
  The exception is real.  A scope that leaves the directory it starts in and then names the
  notional root again passes the containment test, although at run time the directory beside the
  working directory that it names is another one.
\<close>

theorem insideWorkingDirectory_sibling:
  "insideWorkingDirectory ''../run/x'' \<and> \<not> stays_below 0 (str_split ''../run/x'' ''/'')"
  by (simp add: insideWorkingDirectory_comps str_split_def has_prefix_def IsAbs_def)

text \<open>
   Every sink of an accepted playbook is a type the deployment implements; one that creates
  things declares its cap, and a label it declares is one name the trigger does not choose.
\<close>

theorem Validate_caps_sinks:
  assumes "Validate env book dep = []" "one \<in> set (Sinks book)"
  shows "sink_ok dep one"
proof -
  have "each (sinkProblems dep) (Sinks book) = []"
    using Validate_parts(2) [OF assms(1)] by (simp add: validateSinks_def)
  from each_Nil_mem [OF this assms(2)] show ?thesis by (auto simp: sinkProblems_Nil)
qed

theorem Validate_caps_sinks_witness:
  "sink_ok example_dep [(''github'', YMap [(''repo'', YString ''o/r''), (''cap'', YInt 5), (''label'', YString ''drift'')])]"
  by (rule Validate_caps_sinks [OF example_accepted]) (simp add: example_book_def)

lemma Validate_declares_references:
  assumes "Validate env book dep = []" "trig_Type (pb_Trigger book) = ''webhook''" "step \<in> set (Gather book)"
  shows "set (TriggerReferences (step_Run step)) \<subseteq> dom (map_of (Values (pb_Trigger book)))"
proof -
  have "each (gatherTriggerProblems book) (Gather book) = []"
    using Validate_parts [OF assms(1)] assms(2) by (simp add: validateWebhook_def)
  from each_Nil_mem [OF this assms(3)] show ?thesis
    by (auto simp: gatherTriggerProblems_def filter_empty_conv split: if_splits)
qed

text \<open>
  C3.  In an accepted webhook playbook the payload reaches neither the prompt nor a sink: the prompt
  body and every string of every sink, however nested, hold no payload reference; every payload
  value a gather step names is declared; and the trigger's source is one the deployment configures.
\<close>

theorem Validate_confines_payload:
  assumes "Validate env book dep = []" "trig_Type (pb_Trigger book) = ''webhook''"
  shows "trig_Source (pb_Trigger book) \<in> set (Sources dep) \<and>
    (PromptFile (pb_Agent book) \<noteq> [] \<and> pb_Path book \<noteq> [] \<longrightarrow>
       (\<exists>body. readPrompt env (PromptPath book) = Inr body \<and> triggerReference body = [])) \<and>
    (\<forall>one \<in> set (Sinks book). \<forall>name config. sink_Type one = (name, config, True) \<longrightarrow>
       (\<forall>s \<in> yaml_strings (YMap config). triggerReference s = [])) \<and>
    (\<forall>step \<in> set (Gather book). set (TriggerReferences (step_Run step)) \<subseteq> dom (map_of (Values (pb_Trigger book))))"
proof (intro conjI impI ballI allI)
  have wh: "validateWebhook env book dep = []" using assms(1) by (rule Validate_parts)
  then show "trig_Source (pb_Trigger book) \<in> set (Sources dep)"
    using assms(2) by (simp add: validateWebhook_def split: if_splits)
  have sinks: "each sinkTriggerProblems (Sinks book) = []"
    using wh assms(2) by (simp_all add: validateWebhook_def)
  show "triggerReference s = []" if "one \<in> set (Sinks book)" "sink_Type one = (name, config, True)"
    "s \<in> yaml_strings (YMap config)" for one name config s
    using each_Nil_mem [OF sinks that(1)] sinkTriggerProblems_Nil [OF _ that(2,3)] by blast
  show "set (TriggerReferences (step_Run step)) \<subseteq> dom (map_of (Values (pb_Trigger book)))"
    if "step \<in> set (Gather book)" for step
    using Validate_declares_references [OF assms that] .
  assume prompt: "PromptFile (pb_Agent book) \<noteq> [] \<and> pb_Path book \<noteq> []"
  have "promptProblems env book dep = []"
    using Validate_parts(1) [OF assms(1)] by (simp add: validateAgent_def Let_def)
  with prompt assms(2) show "\<exists>body. readPrompt env (PromptPath book) = Inr body \<and> triggerReference body = []"
    by (auto simp: promptProblems_def triggerReferencesIn_def Let_def split: sum.splits)
qed

theorem Validate_confines_payload_witness:
  "''alerts'' \<in> set (Sources example_dep) \<and>
   set (TriggerReferences ''ls ${config.checkout} ${trigger.host}'') \<subseteq> {''host''}"
proof -
  have "trig_Type (pb_Trigger example_book) = ''webhook''" by (simp add: example_book_def)
  from Validate_confines_payload [OF example_accepted this] show ?thesis
    by (simp add: example_book_def)
qed

end
