(* ===== verification/Load.thy ===== *)
theory Load
  imports Gate
begin

text \<open>
  Reading a directory of playbooks: \<open>load.go\<close> and the reading part of \<open>parse.go\<close> in
  \<open>runtime/internal/playbook\<close>.  The file system, the YAML decoder and the schema check are
  parameters.
\<close>

subsection \<open>Operations\<close>

record dir_entry =
  entry_Name :: string
  entry_IsDir :: bool

text \<open>
  \<open>pe_raw\<close> decodes a document into a plain value, \<open>pe_shape\<close> checks that value against the
  published schema, \<open>pe_typed\<close> decodes the document into the typed playbook.
\<close>

record parse_env =
  pe_readFile :: "string \<Rightarrow> (os_error, string) result"
  pe_readDir :: "string \<Rightarrow> (os_error, dir_entry list) result"
  pe_raw :: "string \<Rightarrow> (string, yaml) result"
  pe_shape :: "yaml \<Rightarrow> string option"
  pe_typed :: "string \<Rightarrow> (string, playbook) result"

datatype parse_error =
    ReadFailed os_error
  | YamlError string string
  | EmptyDocument string
  | ShapeRefused string string

definition Parse :: "parse_env \<Rightarrow> string \<Rightarrow> string \<Rightarrow> (parse_error, playbook) result" where
  "Parse pe path document =
     (case pe_raw pe document of
        Inl e \<Rightarrow> Inl (YamlError path e)
      | Inr raw \<Rightarrow>
          if raw = YNil then Inl (EmptyDocument path)
          else (case pe_shape pe raw of
              Some e \<Rightarrow> Inl (ShapeRefused path e)
            | None \<Rightarrow> (case pe_typed pe document of
                Inl e \<Rightarrow> Inl (YamlError path e)
              | Inr book \<Rightarrow> Inr (book\<lparr>pb_Path := path\<rparr>))))"

definition ParseFile :: "parse_env \<Rightarrow> string \<Rightarrow> (parse_error, playbook) result" where
  "ParseFile pe path = (case pe_readFile pe path of
     Inl e \<Rightarrow> Inl (ReadFailed e) | Inr document \<Rightarrow> Parse pe path document)"

datatype load_reason = NotParsed parse_error | AlreadyDeclared string string

record refusal =
  rf_Path :: string
  rf_Reason :: "load_reason option"
  rf_Problems :: "problem list"

record loaded =
  Playbooks :: "playbook list"
  Refusals :: "refusal list"

definition loaded_OK :: "loaded \<Rightarrow> bool" where
  "loaded_OK l \<longleftrightarrow> length (Refusals l) = 0"

definition loaded_Err :: "loaded \<Rightarrow> refusal list option" where
  "loaded_Err l = (if length (Refusals l) = 0 then None else Some (Refusals l))"

definition playbook_paths :: "string \<Rightarrow> dir_entry list \<Rightarrow> string list" where
  "playbook_paths dir entries =
     sort (map (\<lambda>e. path_Join [dir, entry_Name e])
       (filter (\<lambda>e. \<not> entry_IsDir e \<and>
          (path_Ext (entry_Name e) = ''.yaml'' \<or> path_Ext (entry_Name e) = ''.yml'')) entries))"

fun load_loop ::
  "parse_env \<Rightarrow> gate_env \<Rightarrow> deployment \<Rightarrow> string list \<Rightarrow> loaded \<times> string gomap \<Rightarrow> loaded" where
  "load_loop pe env dep [] (l, seen) = l"
| "load_loop pe env dep (path # paths) (l, seen) =
     (case ParseFile pe path of
        Inl e \<Rightarrow> load_loop pe env dep paths
          (l\<lparr>Refusals := Refusals l @ [\<lparr>rf_Path = path, rf_Reason = Some (NotParsed e), rf_Problems = []\<rparr>]\<rparr>, seen)
      | Inr book \<Rightarrow>
          (case map_of seen (pb_Name book) of
             Some first \<Rightarrow> load_loop pe env dep paths
               (l\<lparr>Refusals := Refusals l @ [\<lparr>rf_Path = path,
                   rf_Reason = Some (AlreadyDeclared (pb_Name book) first), rf_Problems = []\<rparr>]\<rparr>, seen)
           | None \<Rightarrow>
               let problems = Validate env book dep in
               if length problems > 0 then load_loop pe env dep paths
                 (l\<lparr>Refusals := Refusals l @ [\<lparr>rf_Path = path, rf_Reason = None, rf_Problems = problems\<rparr>]\<rparr>, seen)
               else load_loop pe env dep paths
                 (l\<lparr>Playbooks := Playbooks l @ [book]\<rparr>, map_set (pb_Name book) (path_Base path) seen)))"

definition playbook_Load ::
  "parse_env \<Rightarrow> gate_env \<Rightarrow> string \<Rightarrow> deployment \<Rightarrow> (os_error, loaded) result" where
  "playbook_Load pe env dir dep = (case pe_readDir pe dir of
     Inl e \<Rightarrow> Inl e
   | Inr entries \<Rightarrow> Inr (load_loop pe env dep (playbook_paths dir entries)
       (\<lparr>Playbooks = [], Refusals = []\<rparr>, [])))"

datatype load_file_error = LoadDir os_error | LoadRefused "refusal list" | NotAmong string string

definition LoadFile ::
  "parse_env \<Rightarrow> gate_env \<Rightarrow> string \<Rightarrow> deployment \<Rightarrow> (load_file_error, playbook) result" where
  "LoadFile pe env path dep = (case playbook_Load pe env (path_Dir path) dep of
     Inl e \<Rightarrow> Inl (LoadDir e)
   | Inr l \<Rightarrow>
       if \<not> loaded_OK l then Inl (LoadRefused (Refusals l))
       else (case find (\<lambda>book. Clean (pb_Path book) = Clean path) (Playbooks l) of
           Some book \<Rightarrow> Inr book
         | None \<Rightarrow> Inl (NotAmong (path_Base path) (path_Dir path))))"

definition Find :: "loaded \<Rightarrow> string \<Rightarrow> playbook option" where
  "Find l name = find (\<lambda>book. pb_Name book = name) (Playbooks l)"

definition loaded_Names :: "loaded \<Rightarrow> string list" where
  "loaded_Names l = sort (map pb_Name (Playbooks l))"

subsection \<open>Facts of the loop\<close>

lemma ParseFile_Path: "ParseFile pe path = Inr book \<Longrightarrow> pb_Path book = path"
  by (auto simp: ParseFile_def Parse_def split: sum.splits option.splits if_splits)

text \<open>The names seen are those of the accepted playbooks, each accepted once.\<close>

definition load_inv :: "parse_env \<Rightarrow> gate_env \<Rightarrow> deployment \<Rightarrow> string list \<Rightarrow> loaded \<Rightarrow> bool" where
  "load_inv pe env dep paths l \<longleftrightarrow>
     distinct (map pb_Name (Playbooks l)) \<and>
     (\<forall>book \<in> set (Playbooks l). Validate env book dep = [] \<and>
        pb_Path book \<in> set paths \<and> ParseFile pe (pb_Path book) = Inr book) \<and>
     (\<forall>path \<in> set paths. (\<exists>book \<in> set (Playbooks l). pb_Path book = path) \<or>
        (\<exists>r \<in> set (Refusals l). rf_Path r = path)) \<and>
     length (Playbooks l) + length (Refusals l) = length paths"

lemma load_loop_inv:
  assumes "load_inv pe env dep before l" "fst ` set seen = pb_Name ` set (Playbooks l)"
  shows "load_inv pe env dep (before @ paths) (load_loop pe env dep paths (l, seen))"
  using assms
proof (induction paths arbitrary: before l seen)
  case (Cons path paths)
  have refused: "load_inv pe env dep ((before @ [path]) @ paths)
      (load_loop pe env dep paths (l\<lparr>Refusals := Refusals l @ [r]\<rparr>, seen))" if "rf_Path r = path" for r
    by (rule Cons.IH) (use Cons.prems that in \<open>auto simp: load_inv_def\<close>)
  show ?case
  proof (cases "ParseFile pe path")
    case (Inl e)
    then show ?thesis using refused by simp
  next
    case (Inr book)
    note path = ParseFile_Path [OF Inr]
    show ?thesis
    proof (cases "map_of seen (pb_Name book) = None \<and> Validate env book dep = []")
      case True
      then have fresh: "pb_Name book \<notin> pb_Name ` set (Playbooks l)"
        using Cons.prems(2) by (metis map_of_eq_None_iff)
      have "load_inv pe env dep ((before @ [path]) @ paths) (load_loop pe env dep paths
          (l\<lparr>Playbooks := Playbooks l @ [book]\<rparr>, map_set (pb_Name book) (path_Base path) seen))"
      proof (rule Cons.IH)
        show "load_inv pe env dep (before @ [path]) (l\<lparr>Playbooks := Playbooks l @ [book]\<rparr>)"
          using Cons.prems(1) fresh True Inr path by (auto simp: load_inv_def)
        show "fst ` set (map_set (pb_Name book) (path_Base path) seen)
            = pb_Name ` set (Playbooks (l\<lparr>Playbooks := Playbooks l @ [book]\<rparr>))"
          using Cons.prems(2) by (simp add: fst_map_set)
      qed
      with True Inr show ?thesis by simp
    next
      case False
      with Inr show ?thesis by (cases "map_of seen (pb_Name book)") (auto simp: Let_def intro: refused [simplified])
    qed
  qed
qed simp

lemma playbook_Load_inv:
  assumes "playbook_Load pe env dir dep = Inr l" "pe_readDir pe dir = Inr entries"
  shows "load_inv pe env dep (playbook_paths dir entries) l"
  using assms load_loop_inv [of pe env dep "[]" "\<lparr>Playbooks = [], Refusals = []\<rparr>" "[]" "playbook_paths dir entries"]
  by (simp add: playbook_Load_def load_inv_def)

subsection \<open>Properties\<close>

text \<open>
   Reading a directory decides every playbook file of it once: each is accepted, or named in a
  refusal, and their numbers add up.  No two accepted playbooks share a name, and each accepted one
  passed the whole gate.
\<close>

theorem Load_decides_every_file:
  assumes "playbook_Load pe env dir dep = Inr l" "pe_readDir pe dir = Inr entries"
  shows "distinct (map pb_Name (Playbooks l)) \<and>
    (\<forall>book \<in> set (Playbooks l). Validate env book dep = [] \<and> ParseFile pe (pb_Path book) = Inr book) \<and>
    (\<forall>path \<in> set (playbook_paths dir entries). path \<in> pb_Path ` set (Playbooks l) \<union> rf_Path ` set (Refusals l)) \<and>
    length (Playbooks l) + length (Refusals l) = length (playbook_paths dir entries)"
  using playbook_Load_inv [OF assms] unfolding load_inv_def by (auto simp: image_iff)

definition example_parse_env :: parse_env where
  "example_parse_env = \<lparr>pe_readFile = (\<lambda>p. Inr p),
     pe_readDir = (\<lambda>_. Inr [\<lparr>entry_Name = ''triage.yaml'', entry_IsDir = False\<rparr>, \<lparr>entry_Name = ''d'', entry_IsDir = True\<rparr>]),
     pe_raw = (\<lambda>_. Inr (YInt 0)), pe_shape = (\<lambda>_. None), pe_typed = (\<lambda>_. Inr example_book)\<rparr>"

theorem Load_decides_every_file_witness:
  "case playbook_Load example_parse_env example_env ''/pb'' example_dep of
     Inl _ \<Rightarrow> False | Inr l \<Rightarrow> length (Playbooks l) + length (Refusals l) = 1"
proof -
  obtain l where l: "playbook_Load example_parse_env example_env ''/pb'' example_dep = Inr l"
    by (simp add: playbook_Load_def example_parse_env_def)
  have "pe_readDir example_parse_env ''/pb''
      = Inr [\<lparr>entry_Name = ''triage.yaml'', entry_IsDir = False\<rparr>, \<lparr>entry_Name = ''d'', entry_IsDir = True\<rparr>]"
    by (simp add: example_parse_env_def)
  from Load_decides_every_file [OF l this] l show ?thesis
    by (simp add: playbook_paths_def path_Ext_def)
qed

text \<open>
   Re-reading one playbook answers a playbook only when the whole directory is accepted, and
  then the one read from that path: it passed the gate, and no file of the directory was refused.
  When the directory is accepted and holds the path, it does answer.
\<close>

theorem LoadFile_reads_as_a_start:
  assumes "pe_readDir pe (path_Dir path) = Inr entries"
  shows "(\<forall>book. LoadFile pe env path dep = Inr book \<longrightarrow>
      Clean (pb_Path book) = Clean path \<and> Validate env book dep = [] \<and>
      (\<forall>p \<in> set (playbook_paths (path_Dir path) entries). \<exists>b. ParseFile pe p = Inr b \<and> Validate env b dep = [])) \<and>
    (\<forall>l. playbook_Load pe env (path_Dir path) dep = Inr l \<and> Refusals l = [] \<and>
       path \<in> set (playbook_paths (path_Dir path) entries) \<longrightarrow> (\<exists>book. LoadFile pe env path dep = Inr book))"
proof (intro conjI allI impI)
  obtain l where l: "playbook_Load pe env (path_Dir path) dep = Inr l"
    using assms by (simp add: playbook_Load_def)
  note inv = playbook_Load_inv [OF l assms, unfolded load_inv_def]
  fix book assume b: "LoadFile pe env path dep = Inr book"
  then have ok: "Refusals l = []" and mem: "find (\<lambda>book. Clean (pb_Path book) = Clean path) (Playbooks l) = Some book"
    using l by (auto simp: LoadFile_def loaded_OK_def split: if_splits option.splits)
  have "book \<in> set (Playbooks l) \<and> Clean (pb_Path book) = Clean path"
    using mem by (auto simp: find_Some_iff)
  then show "Clean (pb_Path book) = Clean path" "Validate env book dep = []" using inv by auto
  show "\<forall>p \<in> set (playbook_paths (path_Dir path) entries). \<exists>b. ParseFile pe p = Inr b \<and> Validate env b dep = []"
    using inv ok by fastforce
next
  fix l assume l: "playbook_Load pe env (path_Dir path) dep = Inr l \<and> Refusals l = [] \<and>
       path \<in> set (playbook_paths (path_Dir path) entries)"
  then have "\<exists>book \<in> set (Playbooks l). pb_Path book = path"
    using playbook_Load_inv [of pe env "path_Dir path" dep l entries] assms by (auto simp: load_inv_def)
  then have "find (\<lambda>book. Clean (pb_Path book) = Clean path) (Playbooks l) \<noteq> None"
    by (auto simp: find_None_iff)
  with l show "\<exists>book. LoadFile pe env path dep = Inr book" by (auto simp: LoadFile_def loaded_OK_def)
qed

lemma example_paths: "playbook_paths ''/pb''
    [\<lparr>entry_Name = ''triage.yaml'', entry_IsDir = False\<rparr>, \<lparr>entry_Name = ''d'', entry_IsDir = True\<rparr>]
    = [''/pb/triage.yaml'']"
  by (simp add: playbook_paths_def path_Ext_def path_Join_def Clean_def IsAbs_def str_split_def has_prefix_def)

theorem LoadFile_reads_as_a_start_witness:
  "\<exists>book. LoadFile example_parse_env example_env ''/pb/triage.yaml'' example_dep = Inr book"
proof -
  have dir: "path_Dir ''/pb/triage.yaml'' = ''/pb''"
    by (simp add: path_Dir_def Clean_def IsAbs_def str_split_def has_prefix_def)
  have entries: "pe_readDir example_parse_env (path_Dir ''/pb/triage.yaml'')
      = Inr [\<lparr>entry_Name = ''triage.yaml'', entry_IsDir = False\<rparr>, \<lparr>entry_Name = ''d'', entry_IsDir = True\<rparr>]"
    by (simp add: example_parse_env_def)
  have parsed: "ParseFile example_parse_env ''/pb/triage.yaml'' = Inr example_book"
    by (simp add: ParseFile_def Parse_def example_parse_env_def example_book_def)
  have "playbook_Load example_parse_env example_env (path_Dir ''/pb/triage.yaml'') example_dep
      = Inr \<lparr>Playbooks = [example_book], Refusals = []\<rparr>"
    using entries parsed example_paths by (simp add: playbook_Load_def dir example_accepted)
  with LoadFile_reads_as_a_start [OF entries, of example_env example_dep] show ?thesis
    by (simp add: dir example_paths)
qed

end
