(* ===== verification/Schedule.thy ===== *)
theory Schedule
  imports Gronin_Prelude
begin

text \<open>
  The scheduler of \<open>runtime/internal/schedule/schedule.go\<close>.  A parsed cron expression comes from
  a library: the parameter of a schedule is its function \<open>Next\<close>.  The callbacks \<open>fire\<close> and
  \<open>missed\<close> act on a world the scheduler threads through.
\<close>

subsection \<open>Data\<close>

record schedule =
  expr :: string
  inner :: "time \<Rightarrow> time"

record entry =
  entry_name :: string
  entry_schedule :: schedule
  seenTo :: time

type_synonym scheduler = "entry gomap"

type_synonym 'w fire = "'w \<Rightarrow> string \<Rightarrow> time \<Rightarrow> 'w \<times> string option"
type_synonym 'w missed = "'w \<Rightarrow> string \<Rightarrow> time \<Rightarrow> string \<Rightarrow> 'w \<times> string option"

definition catchUpLimit :: nat where
  "catchUpLimit = 50"

definition sched_Next :: "schedule \<Rightarrow> time \<Rightarrow> time" where
  "sched_Next s t = inner s t"

definition sched_Add :: "string \<Rightarrow> schedule \<Rightarrow> time \<Rightarrow> scheduler \<Rightarrow> scheduler" where
  "sched_Add name sched from' s =
     map_set name \<lparr>entry_name = name, entry_schedule = sched, seenTo = from'\<rparr> s"

definition sched_Names :: "scheduler \<Rightarrow> string list" where
  "sched_Names s = sorted_keys s"

text \<open>\<open>NextDue\<close> ranges over a map, whose order is open: the order of the list stands for it.\<close>

definition NextDue :: "scheduler \<Rightarrow> time \<Rightarrow> time" where
  "NextDue s now = fold (\<lambda>(_, e) earliest.
     let next = sched_Next (entry_schedule e) now
     in if is_zero earliest \<or> next < earliest then next else earliest) s zero_time"

subsection \<open>One tick\<close>

text \<open>
  The loop that collects what is due.  It ends when an occurrence lies after \<open>now\<close>; nothing in
  it bounds the number of rounds, so not ending is the value \<open>None\<close>.
\<close>

partial_function (option) collect_due ::
  "(time \<Rightarrow> time) \<Rightarrow> time \<Rightarrow> time \<Rightarrow> time list \<Rightarrow> nat \<Rightarrow> (time list \<times> nat) option" where
  "collect_due next now at due overflow =
     (if at > now then Some (due, overflow)
      else if length due = catchUpLimit
      then collect_due next now (next at) (due[length due - 1 := at]) (overflow + 1)
      else collect_due next now (next at) (due @ [at]) overflow)"

definition sched_record :: "'w missed option \<Rightarrow> 'w missed" where
  "sched_record missed w name at reason = (case missed of None \<Rightarrow> (w, None) | Some m \<Rightarrow> m w name at reason)"

definition notRunning :: string where
  "notRunning = ''the runtime was not running when this occurrence was due''"

definition furtherMissed :: "nat \<Rightarrow> string" where
  "furtherMissed n = itoa n @ '' further occurrences were missed and not recorded individually''"

text \<open>The loop over all due occurrences but the last: errors of recording are collected.\<close>

fun record_missed ::
  "'w missed option \<Rightarrow> string \<Rightarrow> time list \<Rightarrow> 'w \<times> string list \<Rightarrow> 'w \<times> string list" where
  "record_missed missed name [] (w, problems) = (w, problems)"
| "record_missed missed name (at # ats) (w, problems) =
     (case sched_record missed w name at notRunning of
        (w', None) \<Rightarrow> record_missed missed name ats (w', problems)
      | (w', Some err) \<Rightarrow> record_missed missed name ats (w', problems @ [err]))"

definition option_list :: "'a option \<Rightarrow> 'a list" where
  "option_list x = (case x of None \<Rightarrow> [] | Some a \<Rightarrow> [a])"

text \<open>
  What one tick does with the collected occurrences: all but the last are recorded as missed, the
  overflow is recorded once, the last is fired, and recorded as missed when it did not become a run.
\<close>

definition tick_fire ::
  "'w fire \<Rightarrow> 'w missed option \<Rightarrow> string \<Rightarrow> time list \<Rightarrow> nat \<Rightarrow> 'w \<Rightarrow> 'w \<times> string list" where
  "tick_fire fire missed name due overflow w0 =
     (let last' = due ! (length due - 1);
          (w1, problems1) = record_missed missed name (take (length due - 1) due) (w0, []);
          (w2, problems2) =
            (if overflow > 0
             then (let (w, err) = sched_record missed w1 name (last' - nanosecond) (furtherMissed overflow)
                   in (w, problems1 @ option_list err))
             else (w1, problems1))
      in case fire w2 name last' of
           (w3, None) \<Rightarrow> (w3, problems2)
         | (w3, Some err) \<Rightarrow>
             (let (w4, recordErr) = sched_record missed w3 name last' err
              in (w4, problems2 @ option_list recordErr)))"

definition tickOne ::
  "'w fire \<Rightarrow> 'w missed option \<Rightarrow> time \<Rightarrow> entry \<Rightarrow> 'w \<Rightarrow> ('w \<times> entry \<times> string list) option" where
  "tickOne fire missed now e w =
     (let next = sched_Next (entry_schedule e) in
      case collect_due next now (next (seenTo e)) [] 0 of
        None \<Rightarrow> None
      | Some (due, overflow) \<Rightarrow>
          if length due = 0 then Some (w, e, [])
          else (let (w', problems) = tick_fire fire missed (entry_name e) due overflow w
                in Some (w', e\<lparr>seenTo := now\<rparr>, problems)))"

fun tick_entries ::
  "'w fire \<Rightarrow> 'w missed option \<Rightarrow> time \<Rightarrow> entry list \<Rightarrow> 'w \<times> scheduler \<times> string list \<Rightarrow>
   ('w \<times> scheduler \<times> string list) option" where
  "tick_entries fire missed now [] acc = Some acc"
| "tick_entries fire missed now (e # es) (w, s, problems) =
     (case tickOne fire missed now e w of
        None \<Rightarrow> None
      | Some (w', e', ps) \<Rightarrow>
          tick_entries fire missed now es (w', map_set (entry_name e) e' s, problems @ ps))"

text \<open>\<open>Tick\<close> answers the joined problems; no problem is no error.\<close>

definition Tick ::
  "'w fire \<Rightarrow> 'w missed option \<Rightarrow> time \<Rightarrow> scheduler \<Rightarrow> 'w \<Rightarrow> ('w \<times> scheduler \<times> string list) option" where
  "Tick fire missed now s w = tick_entries fire missed now (sort_key entry_name (map snd s)) (w, s, [])"

text \<open>How long \<open>Run\<close> waits after a tick at \<open>ticked\<close>, with the clock then at \<open>now\<close>.\<close>

definition run_wait :: "scheduler \<Rightarrow> time \<Rightarrow> time \<Rightarrow> duration" where
  "run_wait s ticked now =
     (let next = NextDue s ticked;
          wait = (if is_zero next then minute else time_sub next now)
      in if wait < second then second else wait)"

text \<open>One round of \<open>Run\<close>: the tick and the wait until the next.\<close>

definition run_round ::
  "'w fire \<Rightarrow> 'w missed option \<Rightarrow> time \<Rightarrow> time \<Rightarrow> scheduler \<Rightarrow> 'w \<Rightarrow>
   ('w \<times> scheduler \<times> string list \<times> duration) option" where
  "run_round fire missed ticked now s w =
     (case Tick fire missed ticked s w of
        None \<Rightarrow> None
      | Some (w', s', problems) \<Rightarrow> Some (w', s', problems, run_wait s' ticked now))"

subsection \<open>What is due\<close>

text \<open>
  \<open>Next\<close> is the first occurrence strictly after its argument, for a set \<open>S\<close> of occurrences.
\<close>

definition cron_of :: "time set \<Rightarrow> (time \<Rightarrow> time) \<Rightarrow> bool" where
  "cron_of S next \<longleftrightarrow> (\<forall>t. t < next t \<and> next t \<in> S \<and> (\<forall>s \<in> S. t < s \<longrightarrow> next t \<le> s))"

lemma cron_of_gt: "cron_of S next \<Longrightarrow> t < next t"
  by (simp add: cron_of_def)

text \<open>The occurrences from \<open>at\<close> on that are not after \<open>now\<close>, without the limit.\<close>

function occurrences :: "(time \<Rightarrow> time) \<Rightarrow> time \<Rightarrow> time \<Rightarrow> time list" where
  "occurrences nx now at = (if at > now \<or> nx at \<le> at then [] else at # occurrences nx now (nx at))"
  by pat_completeness auto

termination occurrences
  by (relation "measure (\<lambda>(nx, now, at). nat (now + 1 - at))") auto

declare occurrences.simps [simp del]

lemma occurrences_cron:
  assumes "\<And>t. t < nx t"
  shows "occurrences nx now at = (if at > now then [] else at # occurrences nx now (nx at))"
  using assms [of at] by (subst occurrences.simps) auto

lemma occurrences_facts:
  assumes "cron_of S nx" "at \<in> S"
  shows "set (occurrences nx now at) = {s \<in> S. at \<le> s \<and> s \<le> now} \<and>
         sorted_wrt (<) (occurrences nx now at)"
  using assms
proof (induction nx now at rule: occurrences.induct)
  case (1 nx now at)
  have step: "\<And>t. t < nx t" using "1.prems"(1) by (simp add: cron_of_def)
  show ?case
  proof (cases "at > now")
    case True
    then show ?thesis by (auto simp: occurrences_cron [OF step, of now at])
  next
    case False
    have nx: "nx at \<in> S" "\<forall>s \<in> S. at < s \<longrightarrow> nx at \<le> s" using "1.prems"(1) by (auto simp: cron_of_def)
    have ih: "set (occurrences nx now (nx at)) = {s \<in> S. nx at \<le> s \<and> s \<le> now}"
      "sorted_wrt (<) (occurrences nx now (nx at))"
      using "1.IH" False step [of at] "1.prems"(1) nx(1) by auto
    have "{s \<in> S. at \<le> s \<and> s \<le> now} = insert at {s \<in> S. nx at \<le> s \<and> s \<le> now}"
      using nx step [of at] "1.prems"(2) False by force
    then show ?thesis
      using False ih step [of at] by (auto simp: occurrences_cron [OF step, of now at])
  qed
qed

text \<open>The loop with the limit, against the list of all occurrences.\<close>

lemma collect_due_occurrences:
  assumes "\<And>t. t < nx t" "length due \<le> 50"
  shows "collect_due nx now at due ov =
     (let os = occurrences nx now at; n = length due + length os in
      Some (if n \<le> 50 then (due @ os, ov) else (take 49 (due @ os) @ [last os], ov + n - 50)))"
  using assms
proof (induction nx now at arbitrary: due ov rule: occurrences.induct)
  case (1 nx now at)
  note occ = occurrences_cron [OF "1.prems"(1), of now at]
  show ?case
  proof (cases "at > now")
    case True
    then show ?thesis using "1.prems"(2) by (subst collect_due.simps) (simp add: occ)
  next
    case False
    let ?os = "occurrences nx now (nx at)"
    have IH: "length d \<le> 50 \<Longrightarrow> collect_due nx now (nx at) d v =
        (let n = length d + length ?os in
         Some (if n \<le> 50 then (d @ ?os, v) else (take 49 (d @ ?os) @ [last ?os], v + n - 50)))" for d v
      using "1.IH" "1.prems"(1) False by (metis not_less)
    show ?thesis
    proof (cases "length due = 50")
      case True
      then have upd: "due[49 := at] = take 49 due @ [at]"
        by (simp add: upd_conv_take_nth_drop)
      have "collect_due nx now at due ov = collect_due nx now (nx at) (due[49 := at]) (ov + 1)"
        using False True by (subst collect_due.simps) (simp add: catchUpLimit_def)
      also have "\<dots> = (let n = length (due[49 := at]) + length ?os in
         Some (if n \<le> 50 then (due[49 := at] @ ?os, ov + 1)
               else (take 49 (due[49 := at] @ ?os) @ [last ?os], ov + 1 + n - 50)))"
        by (rule IH) (simp add: True)
      finally show ?thesis using False True by (simp add: occ upd)
    next
      case less: False
      have "collect_due nx now at due ov = collect_due nx now (nx at) (due @ [at]) ov"
        using False less by (subst collect_due.simps) (simp add: catchUpLimit_def)
      also have "\<dots> = (let n = length (due @ [at]) + length ?os in
         Some (if n \<le> 50 then ((due @ [at]) @ ?os, ov) else (take 49 ((due @ [at]) @ ?os) @ [last ?os], ov + n - 50)))"
        by (rule IH) (use "1.prems"(2) less in simp)
      finally show ?thesis using False "1.prems"(2) less by (auto simp: occ)
    qed
  qed
qed

subsection \<open>What a tick does to the record\<close>

text \<open>The callbacks that only write down what they were called with.\<close>

datatype sched_event = EvMissed string time string | EvFired string time

definition trace_fire :: "(string \<Rightarrow> time \<Rightarrow> string option) \<Rightarrow> sched_event list fire" where
  "trace_fire outcome w name at = (w @ [EvFired name at], outcome name at)"

definition trace_missed :: "sched_event list missed" where
  "trace_missed w name at reason = (w @ [EvMissed name at reason], None)"

lemma record_missed_trace:
  "record_missed (Some trace_missed) name ats (w, ps) = (w @ map (\<lambda>t. EvMissed name t notRunning) ats, ps)"
  by (induction ats arbitrary: w) (simp_all add: sched_record_def trace_missed_def)

lemma tick_fire_trace:
  "tick_fire (trace_fire outcome) (Some trace_missed) name due ov w =
     (w @ map (\<lambda>t. EvMissed name t notRunning) (take (length due - 1) due) @
      (if ov > 0 then [EvMissed name (due ! (length due - 1) - 1) (furtherMissed ov)] else []) @
      [EvFired name (due ! (length due - 1))] @
      map (EvMissed name (due ! (length due - 1))) (option_list (outcome name (due ! (length due - 1)))), [])"
  by (cases "outcome name (due ! (length due - 1))")
    (auto simp: tick_fire_def record_missed_trace trace_fire_def sched_record_def trace_missed_def option_list_def Let_def)

text \<open>\<open>Next\<close> from the instant covered so far lists the occurrences due, each once.\<close>

lemma occurrences_due:
  assumes "cron_of S nx" "sorted_wrt (<) os" "set os = {s \<in> S. t < s \<and> s \<le> now}"
  shows "occurrences nx now (nx t) = os"
proof -
  have "nx t \<in> S" "t < nx t" "\<forall>s \<in> S. t < s \<longrightarrow> nx t \<le> s" using assms(1) by (auto simp: cron_of_def)
  then have "set (occurrences nx now (nx t)) = set os" "sorted_wrt (<) (occurrences nx now (nx t))"
    using occurrences_facts [OF assms(1), of "nx t" now] assms(3) by auto
  then show ?thesis using assms(2) by (simp add: strict_sorted_equal)
qed

lemma Tick_entries_total:
  assumes "\<forall>e \<in> set es. \<exists>S. cron_of S (inner (entry_schedule e))"
  shows "tick_entries fire missed now es acc \<noteq> None"
  using assms
proof (induction es arbitrary: acc)
  case (Cons e es)
  obtain w s ps where acc: "acc = (w, s, ps)" by (cases acc)
  from Cons.prems have "\<And>t. t < inner (entry_schedule e) t" by (auto simp: cron_of_def)
  then have "collect_due (sched_Next (entry_schedule e)) now
      (sched_Next (entry_schedule e) (seenTo e)) [] 0 \<noteq> None"
    using collect_due_occurrences [of "inner (entry_schedule e)" "[]" now "inner (entry_schedule e) (seenTo e)" 0]
    by (simp add: sched_Next_def [abs_def] Let_def)
  then have "tickOne fire missed now e w \<noteq> None"
    by (auto simp: tickOne_def Let_def case_prod_beta)
  with Cons acc show ?case by auto
qed simp

text \<open>A loop that never meets an occurrence after \<open>now\<close> does not return.\<close>

lemma collect_due_zero:
  assumes "collect_due nx now at due ov = Some r"
  shows "\<not> (at = zero_time \<and> nx zero_time = zero_time \<and> zero_time \<le> now)"
proof (rule collect_due.raw_induct
    [where P = "\<lambda>nx now at due ov r. \<not> (at = zero_time \<and> nx zero_time = zero_time \<and> zero_time \<le> now)", OF _ assms])
  fix f nx now at due ov r
  assume IH: "\<And>nx now at due ov r. f nx now at due ov = Some r \<Longrightarrow>
      \<not> (at = zero_time \<and> nx zero_time = zero_time \<and> zero_time \<le> now)"
    and body: "(if now < at then Some (due, ov)
      else if length due = catchUpLimit then f nx now (nx at) (due[length due - 1 := at]) (ov + 1)
      else f nx now (nx at) (due @ [at]) ov) = Some r"
  show "\<not> (at = zero_time \<and> nx zero_time = zero_time \<and> zero_time \<le> now)"
  proof
    assume z: "at = zero_time \<and> nx zero_time = zero_time \<and> zero_time \<le> now"
    then have nx: "nx at = zero_time" and now: "\<not> now < at" by auto
    from body now have "(if length due = catchUpLimit then f nx now (nx at) (due[length due - 1 := at]) (ov + 1)
        else f nx now (nx at) (due @ [at]) ov) = Some r" by simp
    with IH [of nx now "nx at"] nx z show False by (cases r) (auto split: if_splits)
  qed
qed

lemma Min_insert_min: "finite R \<Longrightarrow> Min (insert a (insert b R)) = Min (insert (min a b) R)" for a :: int
  by (cases "R = {}") (simp_all add: min.assoc)

lemma NextDue_fold:
  assumes "\<forall>(n, e) \<in> set s. \<not> is_zero (sched_Next (entry_schedule e) now)" "s \<noteq> [] \<or> \<not> is_zero t0"
  shows "fold (\<lambda>(_, e) earliest. let nx = sched_Next (entry_schedule e) now
     in if is_zero earliest \<or> nx < earliest then nx else earliest) s t0
     = Min ((\<lambda>(n, e). sched_Next (entry_schedule e) now) ` set s \<union> (if is_zero t0 then {} else {t0}))"
  using assms
proof (induction s arbitrary: t0)
  case Nil
  then show ?case by simp
next
  case (Cons x s)
  obtain n e where x: "x = (n, e)" by (cases x)
  let ?nx = "sched_Next (entry_schedule e) now"
  let ?t = "if is_zero t0 \<or> ?nx < t0 then ?nx else t0"
  have t: "\<not> is_zero ?t" using Cons.prems x by auto
  let ?R = "(\<lambda>(n, e). sched_Next (entry_schedule e) now) ` set s"
  have "Min (?R \<union> {?t}) = Min (insert ?nx ?R \<union> (if is_zero t0 then {} else {t0}))"
  proof (cases "is_zero t0")
    case False
    have "Min (insert ?nx ?R \<union> {t0}) = Min (insert ?nx (insert t0 ?R))" by (simp add: insert_commute)
    also have "\<dots> = Min (insert (min ?nx t0) ?R)" by (rule Min_insert_min) simp
    finally show ?thesis using False by (auto simp: min_def)
  qed simp
  with Cons t x show ?case by (simp add: Let_def)
qed

subsection \<open>Properties\<close>

text \<open>
  C27.  One tick accounts for every occurrence that fell due since the last: with \<open>os\<close> the
  occurrences in order, only the most recent is fired; the ones before it are recorded as missed,
  the first 49 of more than 50 one by one and the rest by their number; and the playbook is caught up
  to \<open>now\<close>.  The loop ends, because \<open>Next\<close> moves strictly forward.
\<close>

theorem tickOne_accounts_for_every_occurrence:
  assumes "cron_of S (inner (entry_schedule e))"
    and "sorted_wrt (<) os" "set os = {s \<in> S. seenTo e < s \<and> s \<le> now}" "os \<noteq> []"
  shows "tickOne (trace_fire outcome) (Some trace_missed) now e w =
    (let n = entry_name e; N = length os in
     Some (w @ map (\<lambda>t. EvMissed n t notRunning) (take (min (N - 1) 49) os) @
             (if N > 50 then [EvMissed n (last os - 1) (furtherMissed (N - 50))] else []) @
             [EvFired n (last os)] @
             map (EvMissed n (last os)) (option_list (outcome n (last os))),
           e\<lparr>seenTo := now\<rparr>, []))"
proof -
  let ?nx = "inner (entry_schedule e)"
  have "occurrences ?nx now (?nx (seenTo e)) = os" using assms by (intro occurrences_due)
  moreover have "\<And>t. t < ?nx t" using assms(1) by (simp add: cron_of_def)
  ultimately have collect: "collect_due ?nx now (?nx (seenTo e)) [] 0 =
      Some (if length os \<le> 50 then (os, 0) else (take 49 os @ [last os], length os - 50))"
    using collect_due_occurrences [of ?nx "[]" now "?nx (seenTo e)" 0] by (simp add: Let_def)
  show ?thesis
  proof (cases "length os \<le> 50")
    case True
    with assms(4) have "min (length os - 1) 49 = length os - 1" by simp
    with True collect assms(4) show ?thesis
      by (simp add: tickOne_def sched_Next_def [abs_def] tick_fire_trace last_conv_nth Let_def)
  next
    case False
    then have "min (length os - 1) 49 = 49" "(take 49 os @ [last os]) ! 49 = last os"
      "take 49 (take 49 os @ [last os]) = take 49 os" by (simp_all add: nth_append)
    with False collect show ?thesis
      by (simp add: tickOne_def sched_Next_def [abs_def] tick_fire_trace Let_def)
  qed
qed

text \<open>The answers of \<open>Next\<close> for a schedule with a fixed period.\<close>

definition every :: "duration \<Rightarrow> time \<Rightarrow> time" where
  "every p t = (t div p + 1) * p"

lemma cron_of_every: "0 < p \<Longrightarrow> cron_of {k. p dvd k} (every p)"
  unfolding cron_of_def every_def
proof (intro allI conjI ballI impI)
  fix t s :: int assume p: "0 < p"
  show "t < (t div p + 1) * p"
  proof -
    have "t = (t div p) * p + t mod p" "t mod p < p" using p by simp_all
    then show ?thesis unfolding distrib_right by linarith
  qed
  show "(t div p + 1) * p \<in> {k. p dvd k}" by simp
  assume "s \<in> {k. p dvd k}" "t < s"
  then obtain k where k: "s = k * p" by (metis dvd_div_mult_self mem_Collect_eq)
  have "(t div p) * p \<le> t" using div_mult_mod_eq [of t p] pos_mod_sign [OF p, of t] by linarith
  then have "(t div p) * p < k * p" using \<open>t < s\<close> k by linarith
  then have "t div p < k" using p by (simp add: mult_less_cancel_right_pos)
  with p k show "(t div p + 1) * p \<le> s" by (simp add: mult_right_mono)
qed

theorem tickOne_accounts_witness:
  "tickOne (trace_fire (\<lambda>_ _. None)) (Some trace_missed) 7
     \<lparr>entry_name = ''p'', entry_schedule = \<lparr>expr = ''x'', inner = every 2\<rparr>, seenTo = 1\<rparr> [] =
   Some ([EvMissed ''p'' 2 notRunning, EvMissed ''p'' 4 notRunning, EvFired ''p'' 6],
     \<lparr>entry_name = ''p'', entry_schedule = \<lparr>expr = ''x'', inner = every 2\<rparr>, seenTo = 7\<rparr>, [])"
proof -
  let ?e = "\<lparr>entry_name = ''p'', entry_schedule = \<lparr>expr = ''x'', inner = every 2\<rparr>, seenTo = 1\<rparr>"
  have cron: "cron_of {k. (2::int) dvd k} (inner (entry_schedule ?e))" by (simp add: cron_of_every)
  have "set [2, 4, 6::int] = {s \<in> {k. 2 dvd k}. seenTo ?e < s \<and> s \<le> 7}"
  proof (intro set_eqI iffI)
    fix s :: int assume "s \<in> {s \<in> {k. 2 dvd k}. seenTo ?e < s \<and> s \<le> 7}"
    then have even: "2 dvd s" and "1 < s" "s \<le> 7" by simp_all
    then have "s = 2 \<or> s = 3 \<or> s = 4 \<or> s = 5 \<or> s = 6 \<or> s = 7" by arith
    with even show "s \<in> set [2, 4, 6]" by (elim disjE) simp_all
  next
    fix s :: int assume "s \<in> set [2, 4, 6]"
    then have "s = 2 \<or> s = 4 \<or> s = 6" by simp
    then show "s \<in> {s \<in> {k. 2 dvd k}. seenTo ?e < s \<and> s \<le> 7}" by (elim disjE) simp_all
  qed
  from tickOne_accounts_for_every_occurrence [OF cron _ this, of "\<lambda>_ _. None" "[]"] show ?thesis
    by (simp add: option_list_def Let_def)
qed

text \<open>
   The instant \<open>Run\<close> sleeps towards does not depend on the order in which the map is ranged
  over: it is the earliest next occurrence of the armed playbooks, as long as every schedule has one.
\<close>

theorem NextDue_is_earliest:
  assumes "\<forall>(n, e) \<in> set s. \<not> is_zero (sched_Next (entry_schedule e) now)" "s \<noteq> []"
  shows "NextDue s now = Min ((\<lambda>(n, e). sched_Next (entry_schedule e) now) ` set s)"
  using NextDue_fold [of s now zero_time] assms by (simp add: NextDue_def is_zero_def)

theorem NextDue_is_earliest_witness:
  "NextDue [(''a'', \<lparr>entry_name = ''a'', entry_schedule = \<lparr>expr = ''x'', inner = every 5\<rparr>, seenTo = 0\<rparr>),
            (''b'', \<lparr>entry_name = ''b'', entry_schedule = \<lparr>expr = ''y'', inner = every 3\<rparr>, seenTo = 0\<rparr>)] 4 = 5"
  by (subst NextDue_is_earliest) (simp_all add: sched_Next_def every_def is_zero_def zero_time_def)

text \<open>
  A tick of a schedule that has no occurrence does not return.  The cron library then answers
  the zero instant, which is never after \<open>now\<close>, and the loop asks for the next one for ever.
\<close>

theorem tickOne_never_satisfied:
  assumes "\<And>t. inner (entry_schedule e) t = zero_time" "zero_time \<le> now"
  shows "tickOne fire missed now e w = None"
proof -
  let ?nx = "sched_Next (entry_schedule e)"
  have "?nx t = zero_time" for t by (simp add: sched_Next_def assms(1))
  then have "collect_due ?nx now (?nx (seenTo e)) [] 0 \<noteq> Some r" for r
    using collect_due_zero [of ?nx now zero_time "[]" 0 r] assms(2) by auto
  then show ?thesis by (cases "collect_due ?nx now (?nx (seenTo e)) [] 0") (auto simp: tickOne_def Let_def)
qed

theorem tickOne_never_satisfied_witness:
  "tickOne (trace_fire (\<lambda>_ _. None)) (Some trace_missed) 5
     \<lparr>entry_name = ''feb30'', entry_schedule = \<lparr>expr = ''0 0 30 2 *'', inner = (\<lambda>_. zero_time)\<rparr>, seenTo = 0\<rparr> [] = None"
  by (rule tickOne_never_satisfied) (simp_all add: zero_time_def)

end
