(* ===== verification/Coordinator.thy ===== *)
theory Coordinator
  imports Gronin_Prelude
begin

text \<open>
  The coordination contract: \<open>coordinator.go\<close> and \<open>duration.go\<close> of \<open>runtime/internal/guard\<close>.  The
  requests, refusals and the check of a request are translated; the Go interface \<open>Coordinator\<close> is the
  locale \<open>coordinator\<close>, whose laws say what an acquisition takes, and \<open>fenced_coordinator\<close>, which adds
  the fencing tokens of a backend that several hosts share.  What follows for the whole deployment is
  proved once, from the laws, and read off for each backend by its interpretation.
\<close>

subsection \<open>Requests and refusals\<close>

record holder =
  Host :: string
  Instance :: string
  RunID :: string

record rate_limit =
  Runs :: int
  Per :: duration

datatype claim_kind = KindSchedule | KindManual

record trigger_ref =
  Kind :: claim_kind
  DueAt :: time

record acquire_request =
  Name :: string
  Holder :: holder
  Expiry :: duration
  Rate :: "rate_limit option"
  Trigger :: trigger_ref

datatype reach = ReachCrossHost | ReachSingleHost

text \<open>
  A refusal or failure a coordinator reports.  \<open>AlreadyRunning\<close> is the file lock's spelling of a held
  claim, which may not know the holder; \<open>Malformed\<close> is a request refused by \<open>Check\<close>, or one whose
  expiry is not a whole number of seconds.
\<close>

datatype coord_error =
    Held holder
  | AlreadyRunning "holder option"
  | TickRan time holder
  | RateLimited rate_limit
  | Unavailable string
  | Lost string
  | Malformed string

fun is_held :: "coord_error \<Rightarrow> bool" where
  "is_held (Held _) = True"
| "is_held (AlreadyRunning _) = True"
| "is_held _ = False"

definition request_Check :: "acquire_request \<Rightarrow> coord_error option" where
  "request_Check r =
     (if Name r = [] then Some (Malformed ''a claim was asked for with no name'')
      else if Kind (Trigger r) = KindSchedule \<and> is_zero (DueAt (Trigger r))
      then Some (Malformed (''a scheduled trigger of '' @ Name r @ '' carries no due instant''))
      else None)"

definition scheduled :: "acquire_request \<Rightarrow> bool" where
  "scheduled r \<longleftrightarrow> Kind (Trigger r) = KindSchedule"

subsection \<open>Durations in messages\<close>

text \<open>\<open>Duration.Round\<close> of the standard library, which rounds half away from zero and saturates.\<close>

definition duration_Round :: "duration \<Rightarrow> duration \<Rightarrow> duration" where
  "duration_Round d m =
     (if m \<le> 0 then d
      else if d < 0 then
        (let r = (- d) mod m in
         if r + r < m then d + r
         else if d - m + r < - (2 ^ 63) then - (2 ^ 63) else d - m + r)
      else
        (let r = d mod m in
         if r + r < m then d - r
         else if d + m - r > 2 ^ 63 - 1 then 2 ^ 63 - 1 else d + m - r))"

definition duration_part :: "int \<Rightarrow> string \<Rightarrow> string" where
  "duration_part count unit' = (if count > 0 then itoa (nat count) @ unit' else [])"

definition HumanDuration :: "duration \<Rightarrow> string" where
  "HumanDuration d0 =
     (let d = duration_Round d0 second in
      if d \<le> 0 then ''0s''
      else duration_part (d div hour) ''h'' @ duration_part (d mod hour div minute) ''m'' @
           duration_part (d mod minute div second) ''s'')"

definition holder_String :: "holder \<Rightarrow> string" where
  "holder_String h = ''run '' @ RunID h @ '' on '' @ Host h @ '', process '' @ Instance h"

text \<open>The text of a refusal; \<open>rfc3339\<close> writes an instant.\<close>

fun coord_error_text :: "(time \<Rightarrow> string) \<Rightarrow> coord_error \<Rightarrow> string" where
  "coord_error_text rfc3339 (Held h) = ''held by '' @ holder_String h"
| "coord_error_text rfc3339 (AlreadyRunning None) =
     ''a run of this playbook is already in flight (claim held): held by another process''"
| "coord_error_text rfc3339 (AlreadyRunning (Some h)) =
     ''a run of this playbook is already in flight (claim held): held by '' @ holder_String h"
| "coord_error_text rfc3339 (TickRan tick h) = ''tick already ran: tick '' @ rfc3339 tick @ '' ran as '' @ holder_String h"
| "coord_error_text rfc3339 (RateLimited limit) =
     ''rate limit reached: '' @ itoa (nat (Runs limit)) @ '' runs per '' @ HumanDuration (Per limit)"
| "coord_error_text rfc3339 (Unavailable why) = ''backend unavailable: '' @ why"
| "coord_error_text rfc3339 (Lost why) = ''claim lost: '' @ why"
| "coord_error_text rfc3339 (Malformed why) = why"

subsection \<open>The contract\<close>

text \<open>
  A history of a deployment: acquisitions by any host, granted or refused, and everything else that
  may happen to the backend between them.  The list holds the granted requests with their claims.
\<close>

inductive history ::
  "('w \<Rightarrow> acquire_request \<Rightarrow> 's \<Rightarrow> 's \<times> (coord_error, 'c) result) \<Rightarrow> ('w \<Rightarrow> bool) \<Rightarrow> ('s \<Rightarrow> 's \<Rightarrow> bool) \<Rightarrow>
   's \<Rightarrow> (acquire_request \<times> 'c) list \<Rightarrow> 's \<Rightarrow> bool" for acquire fair evolves where
  start: "history acquire fair evolves s [] s"
| others: "history acquire fair evolves s tr s1 \<Longrightarrow> evolves s1 s2 \<Longrightarrow> history acquire fair evolves s tr s2"
| grant: "history acquire fair evolves s tr s1 \<Longrightarrow> fair w \<Longrightarrow> acquire w req s1 = (s2, Inr c) \<Longrightarrow>
    history acquire fair evolves s (tr @ [(req, c)]) s2"
| refuse: "history acquire fair evolves s tr s1 \<Longrightarrow> fair w \<Longrightarrow> acquire w req s1 = (s2, Inl e) \<Longrightarrow>
    history acquire fair evolves s tr s2"

text \<open>
  The laws.  \<open>fair\<close> says what others may do while a call is under way, \<open>evolves\<close> what the backend's
  state may become meanwhile.  A call that is granted commits at some state the backend passed
  through, in which the name had no live claim and, for a scheduled trigger, its recorded tick was
  earlier; it then holds the claim and, if scheduled, has recorded its own tick.
\<close>

locale coordinator =
  fixes acquire :: "'w \<Rightarrow> acquire_request \<Rightarrow> 's \<Rightarrow> 's \<times> (coord_error, 'c) result"
    and fair :: "'w \<Rightarrow> bool"
    and inv :: "'s \<Rightarrow> bool"
    and evolves :: "'s \<Rightarrow> 's \<Rightarrow> bool"
    and live :: "'s \<Rightarrow> string \<Rightarrow> bool"
    and last_tick :: "'s \<Rightarrow> string \<Rightarrow> time option"
  assumes evolves_refl: "evolves s s"
    and evolves_trans: "evolves s s1 \<Longrightarrow> evolves s1 s2 \<Longrightarrow> evolves s s2"
    and evolves_inv: "inv s \<Longrightarrow> evolves s s' \<Longrightarrow> inv s'"
    and evolves_tick: "inv s \<Longrightarrow> evolves s s' \<Longrightarrow> last_tick s n = Some t \<Longrightarrow> \<exists>t'. last_tick s' n = Some t' \<and> t \<le> t'"
    and acquire_evolves: "inv s \<Longrightarrow> fair w \<Longrightarrow> acquire w req s = (s', r) \<Longrightarrow> evolves s s'"
    and granted: "inv s \<Longrightarrow> fair w \<Longrightarrow> acquire w req s = (s', Inr c) \<Longrightarrow>
      \<exists>s1. evolves s s1 \<and> \<not> live s1 (Name req) \<and> live s' (Name req) \<and>
        (scheduled req \<longrightarrow> (\<forall>t. last_tick s1 (Name req) = Some t \<longrightarrow> t < DueAt (Trigger req)) \<and>
           last_tick s' (Name req) = Some (DueAt (Trigger req)))"
begin

abbreviation hist :: "'s \<Rightarrow> (acquire_request \<times> 'c) list \<Rightarrow> 's \<Rightarrow> bool" where
  "hist \<equiv> history acquire fair evolves"

lemma history_evolves: "hist s tr s' \<Longrightarrow> inv s \<Longrightarrow> evolves s s' \<and> inv s'"
proof (induction rule: history.induct)
  case (others s tr s1 s2)
  then show ?case using evolves_trans evolves_inv by blast
next
  case (grant s tr s1 w req s2 c)
  then show ?case using acquire_evolves evolves_trans evolves_inv by blast
next
  case (refuse s tr s1 w req s2 e)
  then show ?case using acquire_evolves evolves_trans evolves_inv by blast
qed (simp add: evolves_refl)

text \<open>Every tick that was granted is recorded, or a later one is.\<close>

lemma history_ticks_recorded:
  "hist s tr s' \<Longrightarrow> inv s \<Longrightarrow> (q, c) \<in> set tr \<Longrightarrow> scheduled q \<Longrightarrow>
     \<exists>t. last_tick s' (Name q) = Some t \<and> DueAt (Trigger q) \<le> t"
proof (induction arbitrary: q c rule: history.induct)
  case (others s tr s1 s2)
  then obtain t where "last_tick s1 (Name q) = Some t" "DueAt (Trigger q) \<le> t" by blast
  moreover have "inv s1" using history_evolves others by blast
  ultimately show ?case using evolves_tick others.hyps(2) order_trans by blast
next
  case (grant s tr s1 w req s2 c' q c)
  have inv1: "inv s1" using history_evolves grant by blast
  show ?case
  proof (cases "(q, c) \<in> set tr")
    case True
    with grant obtain t where t: "last_tick s1 (Name q) = Some t" "DueAt (Trigger q) \<le> t" by blast
    have "evolves s1 s2" using acquire_evolves inv1 grant.hyps by blast
    with t inv1 show ?thesis using evolves_tick order_trans by blast
  next
    case False
    then have "q = req" using grant.prems by simp
    then show ?thesis using granted [OF inv1 grant.hyps(2,3)] grant.prems by auto
  qed
next
  case (refuse s tr s1 w req s2 e q c)
  then obtain t where t: "last_tick s1 (Name q) = Some t" "DueAt (Trigger q) \<le> t" by blast
  have "inv s1" using history_evolves refuse by blast
  with t show ?case using acquire_evolves refuse.hyps(2,3) evolves_tick order_trans by blast
qed simp

text \<open>So no tick of a name is ever granted twice, in any history, by any host.\<close>

lemma ticks_increase:
  "hist s tr s' \<Longrightarrow> inv s \<Longrightarrow>
     sorted_wrt (\<lambda>(q, c) (q', c'). scheduled q \<and> scheduled q' \<and> Name q = Name q' \<longrightarrow> DueAt (Trigger q) < DueAt (Trigger q')) tr"
proof (induction rule: history.induct)
  case (grant s tr s1 w req s2 c')
  have inv1: "inv s1" using history_evolves grant by blast
  from granted [OF inv1 grant.hyps(2,3)] obtain s0 where s0: "evolves s1 s0"
    "scheduled req \<Longrightarrow> last_tick s0 (Name req) = Some t \<Longrightarrow> t < DueAt (Trigger req)" for t by blast
  have "DueAt (Trigger q) < DueAt (Trigger req)"
    if "(q, c) \<in> set tr" "scheduled q" "scheduled req" "Name q = Name req" for q c
  proof -
    from history_ticks_recorded [OF grant.hyps(1) grant.prems that(1,2)]
    obtain t where t: "last_tick s1 (Name q) = Some t" "DueAt (Trigger q) \<le> t" by blast
    with evolves_tick [OF inv1 s0(1)] obtain t' where "last_tick s0 (Name q) = Some t'" "t \<le> t'" by blast
    with s0(2) [OF that(3)] t that(4) show ?thesis by fastforce
  qed
  then show ?case using grant by (auto simp: sorted_wrt_append)
qed simp_all

end

text \<open>
  A backend shared by hosts also hands out fencing tokens: \<open>holds s n\<close> is the token of the live claim
  on a name, \<open>rev\<close> the backend's revision.  A claim's token is a revision nothing was written at
  before, and a token that is gone does not come back.
\<close>

locale fenced_coordinator = coordinator acquire fair inv evolves live last_tick
  for acquire :: "'w \<Rightarrow> acquire_request \<Rightarrow> 's \<Rightarrow> 's \<times> (coord_error, 'c) result"
    and fair :: "'w \<Rightarrow> bool" and inv :: "'s \<Rightarrow> bool" and evolves :: "'s \<Rightarrow> 's \<Rightarrow> bool"
    and live :: "'s \<Rightarrow> string \<Rightarrow> bool" and last_tick :: "'s \<Rightarrow> string \<Rightarrow> time option" +
  fixes token :: "'c \<Rightarrow> int"
    and rev :: "'s \<Rightarrow> int"
    and holds :: "'s \<Rightarrow> string \<Rightarrow> int option"
  assumes live_holds: "live s n \<longleftrightarrow> holds s n \<noteq> None"
    and evolves_rev: "evolves s s' \<Longrightarrow> rev s \<le> rev s'"
    and evolves_holds: "inv s \<Longrightarrow> evolves s s' \<Longrightarrow> holds s' n = Some t \<Longrightarrow> t \<le> rev s \<Longrightarrow> holds s n = Some t"
    and granted_token: "inv s \<Longrightarrow> fair w \<Longrightarrow> acquire w req s = (s', Inr c) \<Longrightarrow>
      rev s < token c \<and> token c \<le> rev s' \<and> holds s' (Name req) = Some (token c)"
begin

lemma history_tokens:
  "hist s tr s' \<Longrightarrow> inv s \<Longrightarrow> (q, c) \<in> set tr \<Longrightarrow> token c \<le> rev s'"
proof (induction arbitrary: q c rule: history.induct)
  case (others s tr s1 s2)
  then show ?case using evolves_rev order_trans by blast
next
  case (grant s tr s1 w req s2 c')
  have "inv s1" using history_evolves grant by blast
  then have "rev s1 \<le> rev s2 \<and> token c' \<le> rev s2" using granted_token [OF _ grant.hyps(2,3)] by auto
  then show ?case using grant by (auto intro: order_trans)
next
  case (refuse s tr s1 w req s2 e)
  have "inv s1" using history_evolves refuse by blast
  then show ?case using refuse acquire_evolves evolves_rev order_trans by blast
qed simp

lemma tokens_increase: "hist s tr s' \<Longrightarrow> inv s \<Longrightarrow> sorted_wrt (\<lambda>(q, c) (q', c'). token c < token c') tr"
proof (induction rule: history.induct)
  case (grant s tr s1 w req s2 c')
  have "inv s1" using history_evolves grant by blast
  then have "rev s1 < token c'" using granted_token [OF _ grant.hyps(2,3)] by auto
  then have "\<forall>(q, c) \<in> set tr. token c < token c'"
    using history_tokens [OF grant.hyps(1) grant.prems] by fastforce
  then show ?case using grant by (auto simp: sorted_wrt_append)
qed simp_all

text \<open>Once a later claim on the name was granted, the earlier one never passes a fence again.\<close>

lemma superseded_never_fenced:
  "hist s tr s' \<Longrightarrow> inv s \<Longrightarrow> i < j \<Longrightarrow> j < length tr \<Longrightarrow> Name (fst (tr ! i)) = Name (fst (tr ! j)) \<Longrightarrow>
     holds s' (Name (fst (tr ! i))) \<noteq> Some (token (snd (tr ! i)))"
proof (induction rule: history.induct)
  case (others s tr s1 s2)
  have "inv s1" using history_evolves others by blast
  moreover have "(fst (tr ! i), snd (tr ! i)) \<in> set tr" using others.prems by simp
  then have "token (snd (tr ! i)) \<le> rev s1" using history_tokens [OF others.hyps(1) others.prems(1)] by blast
  ultimately show ?case using others evolves_holds by blast
next
  case (grant s tr s1 w req s2 c')
  have inv1: "inv s1" using history_evolves grant by blast
  have i: "(tr @ [(req, c')]) ! i = tr ! i" "(fst (tr ! i), snd (tr ! i)) \<in> set tr"
    using grant.prems by (auto simp: nth_append)
  have le: "token (snd (tr ! i)) \<le> rev s1" using history_tokens [OF grant.hyps(1) grant.prems(1) i(2)] .
  note g = granted_token [OF inv1 grant.hyps(2,3)]
  show ?case
  proof (cases "j < length tr")
    case True
    have ev: "evolves s1 s2" using acquire_evolves inv1 grant.hyps by blast
    have "holds s1 (Name (fst (tr ! i))) \<noteq> Some (token (snd (tr ! i)))"
      using grant True by (simp add: nth_append)
    then show ?thesis unfolding i(1) using evolves_holds [OF inv1 ev _ le] by blast
  next
    case False
    then have "(tr @ [(req, c')]) ! j = (req, c')" using grant.prems by (simp add: nth_append)
    then show ?thesis using g le grant.prems(4) unfolding i(1) by simp
  qed
next
  case (refuse s tr s1 w req s2 e)
  have "inv s1" using history_evolves refuse by blast
  moreover from this have "evolves s1 s2" using acquire_evolves refuse.hyps by blast
  moreover have "(fst (tr ! i), snd (tr ! i)) \<in> set tr" using refuse.prems by simp
  then have "token (snd (tr ! i)) \<le> rev s1" using history_tokens [OF refuse.hyps(1) refuse.prems(1)] by blast
  ultimately show ?case using refuse evolves_holds by blast
qed simp

end

end
