(* ===== verification/Fake.thy ===== *)
theory Fake
  imports Coordinator
begin

text \<open>
  The in-memory claim backend of \<open>guard/guardtest/fake.go\<close>: the repository's own model of a backend
  several hosts share, which the contract suite holds to the same clauses as the etcd adapter.  An
  acquisition reads and decides under the backend's lock, lets the lock go, and takes it again to
  commit; what other hosts do in between is a list of functions on the backend, one per round, whose
  end is the end of the caller's context.
\<close>

subsection \<open>State\<close>

record fake_claim =
  fk_token :: int
  fk_holder :: holder
  fk_taken :: time
  fk_granted :: duration
  fk_expires :: int

record fake_tick =
  ft_dueAt :: time
  ft_holder :: holder
  ft_revision :: int

record fake =
  fk_clock :: int
  fk_revision :: int
  fk_claims :: "fake_claim gomap"
  fk_ticks :: "fake_tick gomap"
  fk_slots :: "(int list) gomap"
  fk_changed :: nat

record fake_host =
  fh_held :: bool
  fh_severed :: bool
  fh_grant :: "duration \<Rightarrow> duration"

record fake_held =
  fd_name :: string
  fd_token :: int
  fd_granted :: duration

definition NewFake :: "int \<Rightarrow> fake" where
  "NewFake clock = \<lparr>fk_clock = clock, fk_revision = 0, fk_claims = [], fk_ticks = [], fk_slots = [], fk_changed = 0\<rparr>"

subsection \<open>Under the backend's lock\<close>

definition notifyLocked :: "fake \<Rightarrow> fake" where
  "notifyLocked f = f\<lparr>fk_changed := fk_changed f + 1\<rparr>"

definition liveLocked :: "string \<Rightarrow> fake \<Rightarrow> fake \<times> fake_claim option" where
  "liveLocked name f =
     (case map_of (fk_claims f) name of
        None \<Rightarrow> (f, None)
      | Some c \<Rightarrow> if \<not> fk_clock f < fk_expires c
          then (notifyLocked (f\<lparr>fk_claims := map_del name (fk_claims f)\<rparr>), None)
          else (f, Some c))"

definition slots_of :: "string \<Rightarrow> fake \<Rightarrow> int list" where
  "slots_of name f = (case map_of (fk_slots f) name of None \<Rightarrow> [] | Some xs \<Rightarrow> xs)"

definition pruneSlotsLocked :: "string \<Rightarrow> fake \<Rightarrow> fake" where
  "pruneSlotsLocked name f =
     f\<lparr>fk_slots := map_set name (filter (\<lambda>expires. fk_clock f < expires) (slots_of name f)) (fk_slots f)\<rparr>"

definition rateFullLocked :: "string \<Rightarrow> rate_limit \<Rightarrow> fake \<Rightarrow> fake \<times> bool" where
  "rateFullLocked name limit f =
     (let f' = pruneSlotsLocked name f in (f', int (length (slots_of name f')) \<ge> Runs limit))"

definition takeRateSlotLocked :: "string \<Rightarrow> rate_limit \<Rightarrow> fake \<Rightarrow> fake" where
  "takeRateSlotLocked name limit f =
     f\<lparr>fk_slots := map_set name (slots_of name f @ [fk_clock f + Per limit]) (fk_slots f)\<rparr>"

definition Expire :: "int \<Rightarrow> fake \<Rightarrow> fake" where
  "Expire token f =
     fold (\<lambda>(name, c) g. if fk_token c = token then notifyLocked (g\<lparr>fk_claims := map_del name (fk_claims g)\<rparr>) else g)
       (fk_claims f) f"

definition host_reach :: "fake_host \<Rightarrow> bool \<Rightarrow> coord_error option" where
  "host_reach h ended =
     (if fh_severed h then Some (Unavailable ''the fake is severed from this host'')
      else if fh_held h then Some (Unavailable ''the fake held its answer'')
      else if ended then Some (Unavailable ''the context ended'')
      else None)"

subsection \<open>Acquiring\<close>

definition fake_decide :: "fake_claim option \<Rightarrow> fake_tick option \<Rightarrow> acquire_request \<Rightarrow> coord_error option" where
  "fake_decide live tick req =
     (case live of
        Some c \<Rightarrow> Some (Held (fk_holder c))
      | None \<Rightarrow> (case tick of
            Some t \<Rightarrow> if scheduled req \<and> \<not> DueAt (Trigger req) > ft_dueAt t
              then Some (TickRan (ft_dueAt t) (ft_holder t)) else None
          | None \<Rightarrow> None))"

definition tick_revision :: "string \<Rightarrow> fake \<Rightarrow> int" where
  "tick_revision name f = (case map_of (fk_ticks f) name of None \<Rightarrow> 0 | Some t \<Rightarrow> ft_revision t)"

definition fake_full :: "acquire_request \<Rightarrow> fake \<Rightarrow> fake \<times> bool" where
  "fake_full req f = (case Rate req of None \<Rightarrow> (f, False) | Some limit \<Rightarrow> rateFullLocked (Name req) limit f)"

definition fake_read :: "acquire_request \<Rightarrow> fake \<Rightarrow> fake \<times> coord_error option" where
  "fake_read req f =
     (case liveLocked (Name req) f of (f1, live) \<Rightarrow>
        (case fake_decide live (map_of (fk_ticks f) (Name req)) req of
           Some e \<Rightarrow> (f1, Some e)
         | None \<Rightarrow> (case fake_full req f1 of
               (f2, True) \<Rightarrow> (f2, map_option RateLimited (Rate req))
             | (f2, False) \<Rightarrow> (f2, None))))"

definition fake_grant :: "duration \<Rightarrow> time \<Rightarrow> acquire_request \<Rightarrow> fake \<Rightarrow> fake \<times> fake_held" where
  "fake_grant granted wall req f =
     (let r = fk_revision f + 1;
          c = \<lparr>fk_token = r, fk_holder = Holder req, fk_taken = wall, fk_granted = granted, fk_expires = fk_clock f + granted\<rparr>;
          f1 = f\<lparr>fk_revision := r, fk_claims := map_set (Name req) c (fk_claims f)\<rparr>;
          f2 = (case Rate req of None \<Rightarrow> f1 | Some limit \<Rightarrow> takeRateSlotLocked (Name req) limit f1);
          f3 = (if scheduled req then f2\<lparr>fk_ticks := map_set (Name req) \<lparr>ft_dueAt = DueAt (Trigger req),
                  ft_holder = Holder req, ft_revision = r\<rparr> (fk_ticks f2)\<rparr> else f2)
      in (notifyLocked f3, \<lparr>fd_name = Name req, fd_token = r, fd_granted = granted\<rparr>))"

definition fake_commit :: "duration \<Rightarrow> time \<Rightarrow> acquire_request \<Rightarrow> int \<Rightarrow> fake \<Rightarrow> fake \<times> fake_held option" where
  "fake_commit granted wall req read f =
     (case liveLocked (Name req) f of
        (f1, Some _) \<Rightarrow> (f1, None)
      | (f1, None) \<Rightarrow>
          if scheduled req \<and> tick_revision (Name req) f1 \<noteq> read then (f1, None)
          else (case fake_full req f1 of
              (f2, True) \<Rightarrow> (f2, None)
            | (f2, False) \<Rightarrow> (case fake_grant granted wall req f2 of (f3, c) \<Rightarrow> (f3, Some c))))"

fun fake_rounds ::
  "duration \<Rightarrow> time \<Rightarrow> acquire_request \<Rightarrow> (fake \<Rightarrow> fake) list \<Rightarrow> fake \<Rightarrow> fake \<times> (coord_error, fake_held) result" where
  "fake_rounds granted wall req [] f =
     (case fake_read req f of
        (f1, Some e) \<Rightarrow> (f1, Inl e)
      | (f1, None) \<Rightarrow> (f1, Inl (Unavailable ''the context ended'')))"
| "fake_rounds granted wall req (others # ws) f =
     (case fake_read req f of
        (f1, Some e) \<Rightarrow> (f1, Inl e)
      | (f1, None) \<Rightarrow> (case fake_commit granted wall req (tick_revision (Name req) f1) (others f1) of
            (f2, None) \<Rightarrow> fake_rounds granted wall req ws f2
          | (f2, Some c) \<Rightarrow> (f2, Inr c)))"

record fake_call =
  ca_host :: fake_host
  ca_wall :: time
  ca_ended :: bool
  ca_rounds :: "(fake \<Rightarrow> fake) list"

definition FakeHost_Acquire :: "fake_call \<Rightarrow> acquire_request \<Rightarrow> fake \<Rightarrow> fake \<times> (coord_error, fake_held) result" where
  "FakeHost_Acquire call req f =
     (case request_Check req of
        Some e \<Rightarrow> (f, Inl e)
      | None \<Rightarrow>
          if Expiry req \<le> 0 \<or> Expiry req mod second \<noteq> 0
          then (f, Inl (Malformed ''the claim expiry is not a whole number of seconds''))
          else (case host_reach (ca_host call) (ca_ended call) of
              Some e \<Rightarrow> (f, Inl e)
            | None \<Rightarrow>
                let granted = fh_grant (ca_host call) (Expiry req) in
                if granted < Expiry req then (f, Inl (Unavailable ''granted less than was asked for''))
                else fake_rounds granted (ca_wall call) req (ca_rounds call) f))"

subsection \<open>A held claim\<close>

definition currentLocked :: "fake_held \<Rightarrow> fake \<Rightarrow> fake \<times> fake_claim option" where
  "currentLocked c f =
     (case liveLocked (fd_name c) f of
        (f1, None) \<Rightarrow> (f1, None)
      | (f1, Some live) \<Rightarrow> if fk_token live \<noteq> fd_token c then (f1, None) else (f1, Some live))"

definition fakeHeld_Renew :: "fake_host \<Rightarrow> bool \<Rightarrow> fake_held \<Rightarrow> fake \<Rightarrow> fake \<times> coord_error option" where
  "fakeHeld_Renew h ended c f =
     (case host_reach h ended of
        Some e \<Rightarrow> (f, Some e)
      | None \<Rightarrow> (case currentLocked c f of
            (f1, None) \<Rightarrow> (f1, Some (Lost (fd_name c)))
          | (f1, Some live) \<Rightarrow>
              (f1\<lparr>fk_claims := map_set (fd_name c) (live\<lparr>fk_expires := fk_clock f1 + fk_granted live\<rparr>) (fk_claims f1)\<rparr>, None)))"

definition fakeHeld_Fence :: "fake_host \<Rightarrow> bool \<Rightarrow> fake_held \<Rightarrow> fake \<Rightarrow> fake \<times> coord_error option" where
  "fakeHeld_Fence h ended c f =
     (case host_reach h ended of
        Some e \<Rightarrow> (f, Some e)
      | None \<Rightarrow> (case currentLocked c f of
            (f1, None) \<Rightarrow> (f1, Some (Lost (fd_name c)))
          | (f1, Some live) \<Rightarrow> (f1, None)))"

definition fakeHeld_Release :: "fake_host \<Rightarrow> bool \<Rightarrow> fake_held \<Rightarrow> fake \<Rightarrow> fake \<times> coord_error option" where
  "fakeHeld_Release h ended c f =
     (case host_reach h ended of
        Some e \<Rightarrow> (f, Some e)
      | None \<Rightarrow> (case currentLocked c f of
            (f1, None) \<Rightarrow> (f1, None)
          | (f1, Some live) \<Rightarrow> (notifyLocked (f1\<lparr>fk_claims := map_del (fd_name c) (fk_claims f1)\<rparr>), None)))"

text \<open>One look of \<open>Released\<close>: whether the name is free; it waits for a notification and looks again while it is not.\<close>

definition Released_look :: "string \<Rightarrow> fake \<Rightarrow> fake \<times> bool" where
  "Released_look name f = (case liveLocked name f of (f1, live) \<Rightarrow> (f1, live = None))"

fun FakeHost_Released :: "fake_host \<Rightarrow> string \<Rightarrow> (fake \<Rightarrow> fake) list \<Rightarrow> fake \<Rightarrow> fake \<times> coord_error option" where
  "FakeHost_Released h name [] f =
     (case host_reach h False of
        Some e \<Rightarrow> (f, Some e)
      | None \<Rightarrow> (case Released_look name f of
            (f1, True) \<Rightarrow> (f1, None)
          | (f1, False) \<Rightarrow> (f1, Some (Unavailable ''the context ended''))))"
| "FakeHost_Released h name (others # ws) f =
     (case host_reach h False of
        Some e \<Rightarrow> (f, Some e)
      | None \<Rightarrow> (case Released_look name f of
            (f1, True) \<Rightarrow> (f1, None)
          | (f1, False) \<Rightarrow> FakeHost_Released h name ws (others f1)))"

subsection \<open>How the backend may change\<close>

definition fake_inv :: "fake \<Rightarrow> bool" where
  "fake_inv f \<longleftrightarrow> 0 \<le> fk_revision f \<and>
     (\<forall>n c. map_of (fk_claims f) n = Some c \<longrightarrow> 0 < fk_token c \<and> fk_token c \<le> fk_revision f) \<and>
     (\<forall>n t. map_of (fk_ticks f) n = Some t \<longrightarrow> 0 < ft_revision t \<and> ft_revision t \<le> fk_revision f)"

definition fk_holds :: "fake \<Rightarrow> string \<Rightarrow> int option" where
  "fk_holds f n = (case map_of (fk_claims f) n of None \<Rightarrow> None
     | Some c \<Rightarrow> if fk_clock f < fk_expires c then Some (fk_token c) else None)"

definition fk_live :: "fake \<Rightarrow> string \<Rightarrow> bool" where
  "fk_live f n \<longleftrightarrow> fk_holds f n \<noteq> None"

definition fk_last_tick :: "fake \<Rightarrow> string \<Rightarrow> time option" where
  "fk_last_tick f n = map_option ft_dueAt (map_of (fk_ticks f) n)"

text \<open>
  The revision never goes back; a live claim with an old token was live before; a tick stays or is
  replaced, at a new revision, by a later one.
\<close>

definition fk_evolves :: "fake \<Rightarrow> fake \<Rightarrow> bool" where
  "fk_evolves f f' \<longleftrightarrow> (fake_inv f \<longrightarrow> fake_inv f') \<and> fk_revision f \<le> fk_revision f' \<and>
     (\<forall>n t. fk_holds f' n = Some t \<and> t \<le> fk_revision f \<longrightarrow> fk_holds f n = Some t) \<and>
     (\<forall>n t'. map_of (fk_ticks f') n = Some t' \<longrightarrow> map_of (fk_ticks f) n = Some t' \<or>
        fk_revision f < ft_revision t' \<and> (\<forall>t. map_of (fk_ticks f) n = Some t \<longrightarrow> ft_dueAt t < ft_dueAt t')) \<and>
     (\<forall>n. map_of (fk_ticks f) n \<noteq> None \<longrightarrow> map_of (fk_ticks f') n \<noteq> None)"

definition fair_rounds :: "fake_call \<Rightarrow> bool" where
  "fair_rounds call \<longleftrightarrow> (\<forall>w \<in> set (ca_rounds call). \<forall>f. fake_inv f \<longrightarrow> fk_evolves f (w f))"

lemma fk_evolves_refl: "fk_evolves f f"
  by (simp add: fk_evolves_def)

lemma fk_evolves_trans:
  assumes a: "fk_evolves f f1" and b: "fk_evolves f1 f2"
  shows "fk_evolves f f2"
proof -
  have rev: "fk_revision f \<le> fk_revision f1" "fk_revision f1 \<le> fk_revision f2" using a b by (simp_all add: fk_evolves_def)
  have holds: "fk_holds f n = Some t" if "fk_holds f2 n = Some t" "t \<le> fk_revision f" for n t
  proof -
    have "t \<le> fk_revision f1" using that(2) rev by simp
    then have "fk_holds f1 n = Some t" using b that(1) unfolding fk_evolves_def by blast
    then show ?thesis using a that(2) unfolding fk_evolves_def by blast
  qed
  have ticks: "map_of (fk_ticks f) n = Some t' \<or>
      fk_revision f < ft_revision t' \<and> (\<forall>t. map_of (fk_ticks f) n = Some t \<longrightarrow> ft_dueAt t < ft_dueAt t')"
    if t': "map_of (fk_ticks f2) n = Some t'" for n t'
  proof (cases "map_of (fk_ticks f1) n = Some t'")
    case True
    then show ?thesis using a unfolding fk_evolves_def by blast
  next
    case False
    with b t' have new: "fk_revision f1 < ft_revision t'" "\<forall>t. map_of (fk_ticks f1) n = Some t \<longrightarrow> ft_dueAt t < ft_dueAt t'"
      unfolding fk_evolves_def by blast+
    have "ft_dueAt t < ft_dueAt t'" if t: "map_of (fk_ticks f) n = Some t" for t
    proof -
      from a t obtain t1 where t1: "map_of (fk_ticks f1) n = Some t1" unfolding fk_evolves_def by blast
      with a t have "t1 = t \<or> ft_dueAt t < ft_dueAt t1" unfolding fk_evolves_def by (metis option.inject)
      then show ?thesis using new(2) t1 by (metis order_less_trans)
    qed
    then show ?thesis using new(1) rev by simp
  qed
  have keep: "map_of (fk_ticks f) n \<noteq> None \<Longrightarrow> map_of (fk_ticks f2) n \<noteq> None" for n
    using a b unfolding fk_evolves_def by blast
  have inv: "fake_inv f \<longrightarrow> fake_inv f2" using a b unfolding fk_evolves_def by blast
  have le: "fk_revision f \<le> fk_revision f2" using rev by simp
  show ?thesis unfolding fk_evolves_def using inv le holds ticks keep by blast
qed

lemma fk_evolves_quiet:
  assumes "fk_revision f' = fk_revision f" "fk_ticks f' = fk_ticks f"
    and "\<And>n c. map_of (fk_claims f') n = Some c \<Longrightarrow> \<exists>c0. map_of (fk_claims f) n = Some c0 \<and> fk_token c = fk_token c0"
    and "\<And>n t. fk_holds f' n = Some t \<Longrightarrow> fk_holds f n = Some t"
  shows "fk_evolves f f'"
proof -
  have "fake_inv f'" if "fake_inv f"
    unfolding fake_inv_def
  proof (intro conjI allI impI)
    fix n c assume "map_of (fk_claims f') n = Some c"
    from assms(3) [OF this] that show "0 < fk_token c" "fk_token c \<le> fk_revision f'"
      unfolding fake_inv_def assms(1) by auto
  qed (use that assms(1,2) in \<open>simp_all add: fake_inv_def\<close>)
  then show ?thesis using assms by (simp add: fk_evolves_def)
qed

lemma liveLocked_spec:
  assumes "liveLocked n f = (f', r)"
  shows "fk_evolves f f'" "map_option fk_token r = fk_holds f n" "fk_holds f' = fk_holds f"
    "fk_ticks f' = fk_ticks f" "fk_revision f' = fk_revision f" "fk_clock f' = fk_clock f"
proof -
  have "map_option fk_token r = fk_holds f n \<and> (\<forall>m. fk_holds f' m = fk_holds f m)"
  proof (cases "map_of (fk_claims f) n")
    case None
    then show ?thesis using assms by (auto simp: liveLocked_def fk_holds_def)
  next
    case (Some c)
    show ?thesis
    proof (cases "fk_clock f < fk_expires c")
      case True
      then have "f' = f" "r = Some c" using assms Some by (simp_all add: liveLocked_def)
      then show ?thesis using Some True by (simp add: fk_holds_def)
    next
      case False
      then have "r = None" "fk_claims f' = map_del n (fk_claims f)" "fk_clock f' = fk_clock f"
        using assms Some by (auto simp: liveLocked_def notifyLocked_def)
      then show ?thesis using Some False by (simp add: fk_holds_def split: option.split)
    qed
  qed
  then show h: "fk_holds f' = fk_holds f" and "map_option fk_token r = fk_holds f n" by auto
  show t: "fk_ticks f' = fk_ticks f" and rv: "fk_revision f' = fk_revision f" and "fk_clock f' = fk_clock f"
    using assms by (auto simp: liveLocked_def notifyLocked_def split: option.splits if_splits)
  have "map_of (fk_claims f) m = Some c" if "map_of (fk_claims f') m = Some c" for m c
    using assms that by (auto simp: liveLocked_def notifyLocked_def split: option.splits if_splits)
  then show "fk_evolves f f'" using h t rv by (intro fk_evolves_quiet) auto
qed

lemma fake_full_spec:
  assumes "fake_full req f = (f', b)"
  shows "fk_evolves f f'" "fk_holds f' = fk_holds f" "fk_ticks f' = fk_ticks f" "fk_revision f' = fk_revision f"
    "fk_claims f' = fk_claims f" "fk_clock f' = fk_clock f"
proof -
  show k: "fk_holds f' = fk_holds f" "fk_ticks f' = fk_ticks f" "fk_revision f' = fk_revision f"
    "fk_claims f' = fk_claims f" "fk_clock f' = fk_clock f"
    using assms by (auto simp: fake_full_def rateFullLocked_def pruneSlotsLocked_def fk_holds_def Let_def fun_eq_iff split: option.splits)
  then show "fk_evolves f f'" by (intro fk_evolves_quiet) auto
qed

lemma fake_read_spec:
  assumes "fake_read req f = (f', r)"
  shows "fk_evolves f f'" "fk_ticks f' = fk_ticks f" "fk_revision f' = fk_revision f"
    "r = None \<Longrightarrow> fk_holds f (Name req) = None \<and> (scheduled req \<longrightarrow> (\<forall>t. fk_last_tick f (Name req) = Some t \<longrightarrow> t < DueAt (Trigger req)))"
proof -
  obtain f1 live where l: "liveLocked (Name req) f = (f1, live)" by fastforce
  note ls = liveLocked_spec [OF l]
  have "fk_evolves f f' \<and> fk_ticks f' = fk_ticks f \<and> fk_revision f' = fk_revision f"
  proof (cases "fake_decide live (map_of (fk_ticks f) (Name req)) req")
    case None
    obtain f2 b where fl: "fake_full req f1 = (f2, b)" by fastforce
    have "f' = f2" using assms l None fl by (auto simp: fake_read_def split: bool.splits)
    then show ?thesis using fake_full_spec [OF fl] ls fk_evolves_trans by metis
  next
    case (Some e)
    then have "f' = f1" using assms l by (simp add: fake_read_def)
    then show ?thesis using ls by simp
  qed
  then show "fk_evolves f f'" "fk_ticks f' = fk_ticks f" "fk_revision f' = fk_revision f" by simp_all
  assume "r = None"
  then have "fake_decide live (map_of (fk_ticks f) (Name req)) req = None"
    using assms l by (auto simp: fake_read_def split: option.splits prod.splits)
  then show "fk_holds f (Name req) = None \<and> (scheduled req \<longrightarrow> (\<forall>t. fk_last_tick f (Name req) = Some t \<longrightarrow> t < DueAt (Trigger req)))"
    using ls(2) by (auto simp: fake_decide_def fk_last_tick_def split: option.splits if_splits)
qed

lemma fake_grant_spec:
  assumes g: "fake_grant granted wall req f = (f', c)" and inv: "fake_inv f" and pos: "0 < granted"
    and free: "fk_holds f (Name req) = None"
    and tick: "\<And>t. scheduled req \<Longrightarrow> fk_last_tick f (Name req) = Some t \<Longrightarrow> t < DueAt (Trigger req)"
  shows "fk_evolves f f'" "fd_token c = fk_revision f + 1" "fk_revision f' = fk_revision f + 1"
    "fk_holds f' (Name req) = Some (fd_token c)" "scheduled req \<Longrightarrow> fk_last_tick f' (Name req) = Some (DueAt (Trigger req))"
proof -
  define cl where "cl = \<lparr>fk_token = fk_revision f + 1, fk_holder = Holder req, fk_taken = wall, fk_granted = granted,
    fk_expires = fk_clock f + granted\<rparr>"
  define tk where "tk = \<lparr>ft_dueAt = DueAt (Trigger req), ft_holder = Holder req, ft_revision = fk_revision f + 1\<rparr>"
  have parts: "fk_claims f' = map_set (Name req) cl (fk_claims f)" "fk_clock f' = fk_clock f"
    "fk_ticks f' = (if scheduled req then map_set (Name req) tk (fk_ticks f) else fk_ticks f)"
    and rev: "fk_revision f' = fk_revision f + 1" and tok: "fd_token c = fk_revision f + 1"
    using g by (auto simp: fake_grant_def Let_def notifyLocked_def takeRateSlotLocked_def cl_def tk_def split: option.splits)
  show "fd_token c = fk_revision f + 1" "fk_revision f' = fk_revision f + 1" by (fact tok, fact rev)
  show "fk_holds f' (Name req) = Some (fd_token c)" using parts pos tok by (simp add: fk_holds_def cl_def)
  show "scheduled req \<Longrightarrow> fk_last_tick f' (Name req) = Some (DueAt (Trigger req))"
    using parts(3) by (simp add: fk_last_tick_def tk_def)
  have "fake_inv f'" using inv parts rev unfolding fake_inv_def
    by (auto simp: cl_def tk_def split: if_splits intro: order_trans [of _ "fk_revision f" "fk_revision f + 1"])
  moreover have "fk_holds f n = Some t" if "fk_holds f' n = Some t" "t \<le> fk_revision f" for n t
    using that parts by (auto simp: fk_holds_def cl_def split: if_splits option.splits)
  moreover have "map_of (fk_ticks f) n = Some t' \<or> fk_revision f < ft_revision t' \<and>
      (\<forall>t. map_of (fk_ticks f) n = Some t \<longrightarrow> ft_dueAt t < ft_dueAt t')" if "map_of (fk_ticks f') n = Some t'" for n t'
    using that parts(3) tick by (auto simp: tk_def fk_last_tick_def split: if_splits)
  moreover have "map_of (fk_ticks f') n \<noteq> None" if "map_of (fk_ticks f) n \<noteq> None" for n
    using that parts(3) by auto
  ultimately show "fk_evolves f f'" using rev unfolding fk_evolves_def by auto
qed

text \<open>A tick whose revision did not move is the tick that was read.\<close>

lemma same_revision_same_tick:
  assumes "fk_evolves f f'" "fake_inv f" "tick_revision n f' = tick_revision n f"
  shows "map_of (fk_ticks f') n = map_of (fk_ticks f) n"
proof (cases "map_of (fk_ticks f') n")
  case None
  then show ?thesis using assms(1) unfolding fk_evolves_def by (metis option.exhaust)
next
  case (Some t')
  have inv': "fake_inv f'" using assms(1,2) by (simp add: fk_evolves_def)
  show ?thesis
  proof (rule ccontr)
    assume "map_of (fk_ticks f') n \<noteq> map_of (fk_ticks f) n"
    with assms(1) Some have new: "fk_revision f < ft_revision t'" unfolding fk_evolves_def by metis
    show False
    proof (cases "map_of (fk_ticks f) n")
      case None
      then have "ft_revision t' = 0" using assms(3) Some by (simp add: tick_revision_def)
      then show False using inv' Some unfolding fake_inv_def by fastforce
    next
      case (Some t)
      then have "ft_revision t' = ft_revision t" "ft_revision t \<le> fk_revision f"
        using assms(2,3) \<open>map_of (fk_ticks f') n = Some t'\<close> by (auto simp: tick_revision_def fake_inv_def)
      with new show False by simp
    qed
  qed
qed

text \<open>What a committed acquisition did, from the state it committed in to the one it left.\<close>

definition fake_took :: "acquire_request \<Rightarrow> fake \<Rightarrow> fake_held \<Rightarrow> fake \<Rightarrow> bool" where
  "fake_took req g h g' \<longleftrightarrow> fk_revision g < fd_token h \<and> fd_token h \<le> fk_revision g' \<and>
     fk_holds g (Name req) = None \<and> fk_holds g' (Name req) = Some (fd_token h) \<and>
     (scheduled req \<longrightarrow> (\<forall>t. fk_last_tick g (Name req) = Some t \<longrightarrow> t < DueAt (Trigger req)) \<and>
        fk_last_tick g' (Name req) = Some (DueAt (Trigger req)))"

lemma fake_commit_spec:
  assumes c: "fake_commit granted wall req r g = (g', res)" and inv: "fake_inv g" and pos: "0 < granted"
    and tick: "\<And>t. scheduled req \<Longrightarrow> tick_revision (Name req) g = r \<Longrightarrow> fk_last_tick g (Name req) = Some t \<Longrightarrow> t < DueAt (Trigger req)"
  shows "fk_evolves g g' \<and> (\<forall>h. res = Some h \<longrightarrow> fake_took req g h g')"
proof -
  obtain f1 live where l: "liveLocked (Name req) g = (f1, live)" by fastforce
  obtain f2 full where fl: "fake_full req f1 = (f2, full)" by fastforce
  obtain f3 h' where gr: "fake_grant granted wall req f2 = (f3, h')" by fastforce
  note ls = liveLocked_spec [OF l] and fs = fake_full_spec [OF fl]
  have ev2: "fk_evolves g f2" using ls(1) fs(1) fk_evolves_trans by blast
  show ?thesis
  proof (cases "live \<noteq> None \<or> scheduled req \<and> tick_revision (Name req) f1 \<noteq> r \<or> full")
    case True
    then have "res = None" "g' = f1 \<or> g' = f2"
      using c l fl by (auto simp: fake_commit_def split: option.splits if_splits)
    then show ?thesis using ls(1) ev2 by auto
  next
    case False
    then have res: "res = Some h'" "g' = f3" using c l fl gr by (auto simp: fake_commit_def)
    have free: "fk_holds f2 (Name req) = None" "fk_holds g (Name req) = None" using False ls(2,3) fs(2) by simp_all
    have inv2: "fake_inv f2" using ev2 inv by (simp add: fk_evolves_def)
    have same: "fk_ticks f2 = fk_ticks g" "fk_revision f2 = fk_revision g" using ls(4,5) fs(3,4) by simp_all
    have rv: "tick_revision (Name req) f1 = tick_revision (Name req) g" using ls(4) by (simp add: tick_revision_def)
    have tk: "t < DueAt (Trigger req)" if "scheduled req" "fk_last_tick f2 (Name req) = Some t" for t
      using tick [OF that(1)] False rv that same by (simp add: fk_last_tick_def)
    note gs = fake_grant_spec [OF gr inv2 pos free(1) tk]
    have "fk_evolves g f3" using ev2 gs(1) fk_evolves_trans by blast
    moreover have "fake_took req g h' f3"
      using gs(2-5) same free tk by (auto simp: fake_took_def fk_last_tick_def)
    ultimately show ?thesis using res by simp
  qed
qed

lemma fake_rounds_spec:
  assumes "\<forall>w \<in> set ws. \<forall>f. fake_inv f \<longrightarrow> fk_evolves f (w f)" "fake_inv f" "0 < granted" "fake_rounds granted wall req ws f = (f', r)"
  shows "fk_evolves f f' \<and> (\<forall>h. r = Inr h \<longrightarrow> (\<exists>g. fk_evolves f g \<and> fake_took req g h f'))"
  using assms
proof (induction ws arbitrary: f)
  case Nil
  then show ?case using fake_read_spec(1) by (auto split: prod.splits option.splits)
next
  case (Cons w ws)
  obtain f1 e where rd: "fake_read req f = (f1, e)" by fastforce
  note rs = fake_read_spec [OF rd]
  show ?case
  proof (cases e)
    case (Some x)
    then show ?thesis using Cons.prems(4) rd rs(1) by auto
  next
    case None
    obtain f2 res where cm: "fake_commit granted wall req (tick_revision (Name req) f1) (w f1) = (f2, res)" by fastforce
    have inv1: "fake_inv f1" using rs(1) Cons.prems(2) by (simp add: fk_evolves_def)
    have ev: "fk_evolves f1 (w f1)" "fk_evolves f (w f1)"
      using Cons.prems(1) inv1 rs(1) fk_evolves_trans by auto
    have inv2: "fake_inv (w f1)" using ev(1) inv1 by (simp add: fk_evolves_def)
    have "t < DueAt (Trigger req)" if "scheduled req" "tick_revision (Name req) (w f1) = tick_revision (Name req) f1"
      "fk_last_tick (w f1) (Name req) = Some t" for t
    proof -
      have "fk_last_tick f (Name req) = Some t"
        using same_revision_same_tick [OF ev(1) inv1 that(2)] that(3) rs(2) by (simp add: fk_last_tick_def)
      then show ?thesis using rs(4) [OF None] that(1) by blast
    qed
    from fake_commit_spec [OF cm inv2 Cons.prems(3) this]
    have cs: "fk_evolves (w f1) f2" "\<And>h. res = Some h \<Longrightarrow> fake_took req (w f1) h f2" by blast+
    have ev2: "fk_evolves f f2" using ev(2) cs(1) fk_evolves_trans by blast
    show ?thesis
    proof (cases res)
      case (Some h)
      then have "f' = f2" "r = Inr h" using Cons.prems(4) rd None cm by auto
      then show ?thesis using ev(2) ev2 cs(2) Some by auto
    next
      case none: None
      then have r: "fake_rounds granted wall req ws f2 = (f', r)" using Cons.prems(4) rd None cm by auto
      have "fake_inv f2" using ev2 Cons.prems(2) by (simp add: fk_evolves_def)
      then have ih: "fk_evolves f2 f' \<and> (\<forall>h. r = Inr h \<longrightarrow> (\<exists>g. fk_evolves f2 g \<and> fake_took req g h f'))"
        using Cons.IH [OF _ _ Cons.prems(3) r] Cons.prems(1) by simp
      then show ?thesis using fk_evolves_trans [OF ev2] by blast
    qed
  qed
qed

lemma FakeHost_Acquire_spec:
  assumes "fair_rounds call" "fake_inv f" "FakeHost_Acquire call req f = (f', r)"
  shows "fk_evolves f f' \<and> (\<forall>h. r = Inr h \<longrightarrow> (\<exists>g. fk_evolves f g \<and> fake_took req g h f'))"
proof (cases "\<exists>granted. 0 < granted \<and> fake_rounds granted (ca_wall call) req (ca_rounds call) f = (f', r)")
  case True
  then show ?thesis using fake_rounds_spec [OF _ assms(2)] assms(1) unfolding fair_rounds_def by blast
next
  case False
  then have "f' = f \<and> (\<exists>e. r = Inl e)"
    using assms(3) by (auto simp: FakeHost_Acquire_def Let_def split: option.splits if_splits)
  then show ?thesis using fk_evolves_refl by auto
qed

interpretation fake: fenced_coordinator FakeHost_Acquire fair_rounds fake_inv fk_evolves fk_live fk_last_tick
  fd_token fk_revision fk_holds
proof
  fix f f' f2 :: fake and n t w req r h
  show "fk_evolves f f" by (rule fk_evolves_refl)
  show "fk_evolves f f' \<Longrightarrow> fk_evolves f' f2 \<Longrightarrow> fk_evolves f f2" by (rule fk_evolves_trans)
  show "fake_inv f \<Longrightarrow> fk_evolves f f' \<Longrightarrow> fake_inv f'" by (simp add: fk_evolves_def)
  show "\<exists>t'. fk_last_tick f' n = Some t' \<and> t \<le> t'" if "fake_inv f" "fk_evolves f f'" "fk_last_tick f n = Some t"
  proof -
    from that(3) obtain x where x: "map_of (fk_ticks f) n = Some x" "ft_dueAt x = t" by (auto simp: fk_last_tick_def)
    with that(2) obtain x' where x': "map_of (fk_ticks f') n = Some x'" unfolding fk_evolves_def by blast
    with that(2) x have "x' = x \<or> ft_dueAt x < ft_dueAt x'" unfolding fk_evolves_def by (metis option.inject)
    then show ?thesis using x x' by (auto simp: fk_last_tick_def)
  qed
  show "fake_inv f \<Longrightarrow> fair_rounds w \<Longrightarrow> FakeHost_Acquire w req f = (f', r) \<Longrightarrow> fk_evolves f f'"
    using FakeHost_Acquire_spec by blast
  show "\<exists>g. fk_evolves f g \<and> \<not> fk_live g (Name req) \<and> fk_live f' (Name req) \<and>
      (scheduled req \<longrightarrow> (\<forall>t. fk_last_tick g (Name req) = Some t \<longrightarrow> t < DueAt (Trigger req)) \<and>
         fk_last_tick f' (Name req) = Some (DueAt (Trigger req)))"
    if "fake_inv f" "fair_rounds w" "FakeHost_Acquire w req f = (f', Inr h)"
    using FakeHost_Acquire_spec [OF that(2,1,3)] by (auto simp: fake_took_def fk_live_def)
  show "fk_live f n \<longleftrightarrow> fk_holds f n \<noteq> None" by (simp add: fk_live_def)
  show "fk_evolves f f' \<Longrightarrow> fk_revision f \<le> fk_revision f'" by (simp add: fk_evolves_def)
  show "fake_inv f \<Longrightarrow> fk_evolves f f' \<Longrightarrow> fk_holds f' n = Some t' \<Longrightarrow> t' \<le> fk_revision f \<Longrightarrow> fk_holds f n = Some t'" for t'
    unfolding fk_evolves_def by blast
  show "fk_revision f < fd_token h \<and> fd_token h \<le> fk_revision f' \<and> fk_holds f' (Name req) = Some (fd_token h)"
    if "fake_inv f" "fair_rounds w" "FakeHost_Acquire w req f = (f', Inr h)"
  proof -
    from FakeHost_Acquire_spec [OF that(2,1,3)] obtain g where "fk_evolves f g" "fake_took req g h f'" by blast
    then show ?thesis by (auto simp: fake_took_def fk_evolves_def)
  qed
qed

subsection \<open>Every operation of every host is such a change\<close>

lemma currentLocked_spec:
  assumes "currentLocked c f = (f', r)"
  shows "fk_evolves f f'" "fk_holds f' = fk_holds f" "r \<noteq> None \<longleftrightarrow> fk_holds f (fd_name c) = Some (fd_token c)"
    "r = Some live \<Longrightarrow> map_of (fk_claims f') (fd_name c) = Some live \<and> fk_clock f' < fk_expires live"
proof -
  obtain f1 l where l: "liveLocked (fd_name c) f = (f1, l)" by fastforce
  note ls = liveLocked_spec [OF l]
  have f': "f' = f1" and r: "r = (case l of None \<Rightarrow> None | Some x \<Rightarrow> if fk_token x \<noteq> fd_token c then None else Some x)"
    using assms l by (auto simp: currentLocked_def split: option.splits if_splits)
  show "fk_evolves f f'" "fk_holds f' = fk_holds f" using ls f' by simp_all
  show "r \<noteq> None \<longleftrightarrow> fk_holds f (fd_name c) = Some (fd_token c)"
    unfolding r ls(2) [symmetric] by (auto split: option.splits)
  assume "r = Some live"
  then have "l = Some live" using r by (auto split: option.splits if_splits)
  then show "map_of (fk_claims f') (fd_name c) = Some live \<and> fk_clock f' < fk_expires live"
    using l f' by (auto simp: liveLocked_def split: option.splits if_splits)
qed

lemma dropped_claim_evolves: "fk_evolves f (notifyLocked (f\<lparr>fk_claims := map_del n (fk_claims f)\<rparr>))"
  by (rule fk_evolves_quiet) (auto simp: notifyLocked_def fk_holds_def split: if_splits option.splits)

lemma fakeHeld_Renew_evolves: "fk_evolves f (fst (fakeHeld_Renew h ended c f))"
proof -
  obtain f1 r where cl: "currentLocked c f = (f1, r)" by fastforce
  note cs = currentLocked_spec [OF cl]
  show ?thesis
  proof (cases "host_reach h ended = None \<and> r \<noteq> None")
    case True
    then obtain live where r: "r = Some live" by auto
    note lv = cs(4) [OF r]
    let ?f2 = "f1\<lparr>fk_claims := map_set (fd_name c) (live\<lparr>fk_expires := fk_clock f1 + fk_granted live\<rparr>) (fk_claims f1)\<rparr>"
    have "fk_evolves f1 ?f2"
      by (rule fk_evolves_quiet) (use lv in \<open>auto simp: fk_holds_def split: if_splits option.splits\<close>)
    then show ?thesis using True cl r cs(1) fk_evolves_trans by (simp add: fakeHeld_Renew_def)
  next
    case False
    then show ?thesis using cl cs(1) fk_evolves_refl by (auto simp: fakeHeld_Renew_def split: option.splits)
  qed
qed

lemma fakeHeld_Fence_spec:
  "fk_evolves f (fst (fakeHeld_Fence h ended c f))"
  "snd (fakeHeld_Fence h ended c f) = None \<longleftrightarrow> host_reach h ended = None \<and> fk_holds f (fd_name c) = Some (fd_token c)"
proof -
  obtain f1 r where cl: "currentLocked c f = (f1, r)" by fastforce
  note cs = currentLocked_spec [OF cl]
  show "fk_evolves f (fst (fakeHeld_Fence h ended c f))"
    using cl cs(1) fk_evolves_refl by (auto simp: fakeHeld_Fence_def split: option.splits)
  show "snd (fakeHeld_Fence h ended c f) = None \<longleftrightarrow> host_reach h ended = None \<and> fk_holds f (fd_name c) = Some (fd_token c)"
    unfolding cs(3) [symmetric] using cl by (auto simp: fakeHeld_Fence_def split: option.splits)
qed

lemma fakeHeld_Release_evolves: "fk_evolves f (fst (fakeHeld_Release h ended c f))"
proof -
  obtain f1 r where cl: "currentLocked c f = (f1, r)" by fastforce
  have "fk_evolves f f1" using currentLocked_spec(1) [OF cl] .
  then show ?thesis using cl fk_evolves_refl fk_evolves_trans [OF _ dropped_claim_evolves]
    by (auto simp: fakeHeld_Release_def split: option.splits)
qed

lemma Expire_evolves: "fk_evolves f (Expire t f)"
proof -
  have "fk_evolves g (fold (\<lambda>(n, c) g. if fk_token c = t then notifyLocked (g\<lparr>fk_claims := map_del n (fk_claims g)\<rparr>) else g) m g)" for m g
  proof (induction m arbitrary: g)
    case (Cons p m)
    obtain n c where p: "p = (n, c)" by (cases p)
    show ?case
    proof (cases "fk_token c = t")
      case True
      have "fk_evolves g (notifyLocked (g\<lparr>fk_claims := map_del n (fk_claims g)\<rparr>))" by (rule dropped_claim_evolves)
      then show ?thesis using Cons.IH p True fk_evolves_trans by simp
    qed (use Cons.IH p in simp)
  qed (simp add: fk_evolves_refl)
  then show ?thesis by (simp add: Expire_def)
qed

lemma clock_evolves: "fk_clock f \<le> t \<Longrightarrow> fk_evolves f (f\<lparr>fk_clock := t\<rparr>)"
  by (rule fk_evolves_quiet) (auto simp: fk_holds_def split: option.splits if_splits)

subsection \<open>Properties\<close>

text \<open>
  C30. Claims on a shared backend are fenced.  In any history of acquisitions by any hosts, whatever
  the others did between a call's read and its commit, the fencing tokens strictly increase in the
  order of the grants, the scheduled grants on one name have strictly increasing due instants, and a
  claim on whose name a later one was granted fails every fence from then on.
\<close>

theorem Fake_claims_are_fenced:
  assumes "history FakeHost_Acquire fair_rounds fk_evolves f tr f'" "fake_inv f"
  shows "sorted_wrt (\<lambda>(q, c) (q', c'). fd_token c < fd_token c' \<and>
       (scheduled q \<and> scheduled q' \<and> Name q = Name q' \<longrightarrow> DueAt (Trigger q) < DueAt (Trigger q'))) tr \<and>
     (\<forall>i j h ended. i < j \<and> j < length tr \<and> Name (fst (tr ! i)) = Name (fst (tr ! j)) \<and>
        fd_name (snd (tr ! i)) = Name (fst (tr ! i)) \<longrightarrow> snd (fakeHeld_Fence h ended (snd (tr ! i)) f') \<noteq> None)"
proof (intro conjI allI impI)
  show "sorted_wrt (\<lambda>(q, c) (q', c'). fd_token c < fd_token c' \<and>
       (scheduled q \<and> scheduled q' \<and> Name q = Name q' \<longrightarrow> DueAt (Trigger q) < DueAt (Trigger q'))) tr"
    using fake.tokens_increase [OF assms] fake.ticks_increase [OF assms] by (simp add: sorted_wrt_iff_nth_less split_def)
next
  fix i j h ended
  assume "i < j \<and> j < length tr \<and> Name (fst (tr ! i)) = Name (fst (tr ! j)) \<and> fd_name (snd (tr ! i)) = Name (fst (tr ! i))"
  then show "snd (fakeHeld_Fence h ended (snd (tr ! i)) f') \<noteq> None"
    using fake.superseded_never_fenced [OF assms, of i j] fakeHeld_Fence_spec(2) [of h ended "snd (tr ! i)" f'] by auto
qed

definition demo_call :: fake_call where
  "demo_call = \<lparr>ca_host = \<lparr>fh_held = False, fh_severed = False, fh_grant = (\<lambda>d. d)\<rparr>, ca_wall = 7, ca_ended = False,
     ca_rounds = [\<lambda>f. f]\<rparr>"

definition demo_ask :: "time \<Rightarrow> acquire_request" where
  "demo_ask due = \<lparr>Name = ''sweep'', Holder = \<lparr>Host = ''h'', Instance = ''i'', RunID = ''r''\<rparr>, Expiry = 30 * second, Rate = None,
     Trigger = \<lparr>Kind = KindSchedule, DueAt = due\<rparr>\<rparr>"

lemmas fake_eval = demo_call_def demo_ask_def FakeHost_Acquire_def request_Check_def host_reach_def NewFake_def
  fake_read_def liveLocked_def fake_decide_def fake_full_def tick_revision_def fake_commit_def fake_grant_def scheduled_def
  notifyLocked_def is_zero_def zero_time_def Let_def Expire_def

lemma demo_fair: "fair_rounds demo_call"
  by (simp add: fair_rounds_def demo_call_def fk_evolves_refl)

definition demo_first :: "fake \<times> (coord_error, fake_held) result" where
  "demo_first = FakeHost_Acquire demo_call (demo_ask 90) (NewFake 0)"

definition demo_second :: "fake \<times> (coord_error, fake_held) result" where
  "demo_second = FakeHost_Acquire demo_call (demo_ask 95) (Expire 1 (fst demo_first))"

lemma demo_history:
  "history FakeHost_Acquire fair_rounds fk_evolves (NewFake 0)
     [(demo_ask 90, \<lparr>fd_name = ''sweep'', fd_token = 1, fd_granted = 30 * second\<rparr>),
      (demo_ask 95, \<lparr>fd_name = ''sweep'', fd_token = 2, fd_granted = 30 * second\<rparr>)] (fst demo_second)"
proof -
  have 1: "snd demo_first = Inr \<lparr>fd_name = ''sweep'', fd_token = 1, fd_granted = 30 * second\<rparr>"
    by (simp add: demo_first_def fake_eval)
  have 2: "snd demo_second = Inr \<lparr>fd_name = ''sweep'', fd_token = 2, fd_granted = 30 * second\<rparr>"
    by (simp add: demo_second_def demo_first_def fake_eval)
  have f1: "FakeHost_Acquire demo_call (demo_ask 90) (NewFake 0) =
      (fst demo_first, Inr \<lparr>fd_name = ''sweep'', fd_token = 1, fd_granted = 30 * second\<rparr>)"
    using 1 prod.collapse [of demo_first] unfolding demo_first_def by simp
  have f2: "FakeHost_Acquire demo_call (demo_ask 95) (Expire 1 (fst demo_first)) =
      (fst demo_second, Inr \<lparr>fd_name = ''sweep'', fd_token = 2, fd_granted = 30 * second\<rparr>)"
    using 2 prod.collapse [of demo_second] unfolding demo_second_def by simp
  have h1: "history FakeHost_Acquire fair_rounds fk_evolves (NewFake 0)
      ([] @ [(demo_ask 90, \<lparr>fd_name = ''sweep'', fd_token = 1, fd_granted = 30 * second\<rparr>)]) (fst demo_first)"
    by (rule history.grant, rule history.start, rule demo_fair, rule f1)
  have h2: "history FakeHost_Acquire fair_rounds fk_evolves (NewFake 0)
      [(demo_ask 90, \<lparr>fd_name = ''sweep'', fd_token = 1, fd_granted = 30 * second\<rparr>)] (Expire 1 (fst demo_first))"
    by (rule history.others, rule h1 [unfolded append_Nil], rule Expire_evolves)
  have "history FakeHost_Acquire fair_rounds fk_evolves (NewFake 0)
     ([(demo_ask 90, \<lparr>fd_name = ''sweep'', fd_token = 1, fd_granted = 30 * second\<rparr>)] @
      [(demo_ask 95, \<lparr>fd_name = ''sweep'', fd_token = 2, fd_granted = 30 * second\<rparr>)]) (fst demo_second)"
    by (rule history.grant, rule h2, rule demo_fair, rule f2)
  then show ?thesis by simp
qed

theorem Fake_claims_are_fenced_witness:
  "snd (fakeHeld_Fence \<lparr>fh_held = False, fh_severed = False, fh_grant = (\<lambda>d. d)\<rparr> False
     \<lparr>fd_name = ''sweep'', fd_token = 1, fd_granted = 30 * second\<rparr> (fst demo_second)) \<noteq> None"
proof -
  have "fake_inv (NewFake 0)" by (simp add: fake_inv_def NewFake_def)
  from conjunct2 [OF Fake_claims_are_fenced [OF demo_history this], rule_format, of 0 1] show ?thesis
    by (simp add: demo_ask_def)
qed

text \<open>
  Whatever a host does to the backend is a change the contract allows for between another host's
  read and its commit: renewing, fencing and releasing a claim, an acquisition of its own, the expiry of
  a claim and the passing of the backend's time keep the revision from going back, bring no old token
  back to life, and never replace a tick by an earlier one.
\<close>

theorem fake_operations_evolve:
  assumes "fake_inv f" "fk_clock f \<le> t" "fair_rounds call"
  shows "fk_evolves f (fst (fakeHeld_Renew h ended c f)) \<and> fk_evolves f (fst (fakeHeld_Fence h ended c f)) \<and>
     fk_evolves f (fst (fakeHeld_Release h ended c f)) \<and> fk_evolves f (fst (FakeHost_Acquire call req f)) \<and>
     fk_evolves f (Expire token f) \<and> fk_evolves f (f\<lparr>fk_clock := t\<rparr>)"
  using fakeHeld_Renew_evolves fakeHeld_Fence_spec(1) fakeHeld_Release_evolves Expire_evolves clock_evolves [OF assms(2)]
    FakeHost_Acquire_spec [OF assms(3,1) prod.collapse [symmetric]] by blast

theorem fake_operations_evolve_witness:
  "fk_evolves (NewFake 0) (fst (FakeHost_Acquire demo_call (demo_ask 90) (NewFake 0)))"
proof -
  have "fake_inv (NewFake 0)" "fk_clock (NewFake 0) \<le> 1" by (simp_all add: fake_inv_def NewFake_def)
  from fake_operations_evolve [OF this demo_fair] show ?thesis by blast
qed

end
