(* ===== verification/Redact.thy ===== *)
theory Redact
  imports Gronin_Prelude
begin

text \<open>
  The redactor of \<open>runtime/internal/record/redact.go\<close>, applied at the write boundary of the
  record store and of the log: it replaces every configured secret value by a placeholder.
\<close>

subsection \<open>Operations\<close>

definition Placeholder :: string where
  "Placeholder = ''[redacted]''"

record redactor =
  secrets :: "string list"

text \<open>
  \<open>NewRedactor\<close> orders the secrets longest first.  \<open>sort.Slice\<close> leaves the order of secrets of
  one length open; the model keeps it, and the lemmas below hold for every order by length.
\<close>

definition NewRedactor :: "string list \<Rightarrow> redactor" where
  "NewRedactor ss = \<lparr>secrets = sort_key (\<lambda>s. - int (length s)) (filter (\<lambda>s. s \<noteq> []) ss)\<rparr>"

text \<open>A nil redactor is \<open>None\<close>.\<close>

definition Redact :: "redactor option \<Rightarrow> string \<Rightarrow> string" where
  "Redact r text = (case r of
     None \<Rightarrow> text
   | Some r \<Rightarrow> if secrets r = [] then text
              else fold (\<lambda>secret t. replace_all t secret Placeholder) (secrets r) text)"

definition RedactBytes :: "redactor option \<Rightarrow> string \<Rightarrow> string" where
  "RedactBytes r data = (case r of
     None \<Rightarrow> data
   | Some r' \<Rightarrow> if secrets r' = [] then data else Redact r data)"

subsection \<open>What redaction leaves behind\<close>

text \<open>
  A secret the placeholder can neither hide in nor complete: it is not empty, it holds no bracket
  and it is no part of the word the placeholder shows.
\<close>

definition plain_secret :: "string \<Rightarrow> bool" where
  "plain_secret s \<longleftrightarrow> s \<noteq> [] \<and> CHR ''['' \<notin> set s \<and> CHR '']'' \<notin> set s \<and> \<not> str_contains ''redacted'' s"

lemma plain_secret_placeholder: "plain_secret s \<Longrightarrow> \<not> sublist s Placeholder"
proof
  assume s: "plain_secret s" "sublist s Placeholder"
  define w where "w = ''redacted''"
  from s obtain a b where ab: "CHR ''['' # w @ [CHR '']''] = a @ s @ b"
    unfolding Placeholder_def sublist_def w_def by auto
  have ne: "s \<noteq> []" "CHR ''['' \<notin> set s" "CHR '']'' \<notin> set s" using s(1) by (simp_all add: plain_secret_def)
  from ab ne obtain a' where a: "a = CHR ''['' # a'" by (cases a; cases s) auto
  moreover obtain b' where b: "b = b' @ [CHR '']'']"
  proof (cases b rule: rev_cases)
    case Nil
    then have "last s = CHR '']''" using ab ne(1) by (metis append_Nil2 last_ConsR last_appendR last_snoc snoc_eq_iff_butlast)
    with ne show thesis by (metis last_in_set)
  next
    case (snoc b' c)
    then have "c = CHR '']''" using ab by (metis append.assoc append_Cons last_snoc)
    with snoc that show thesis by blast
  qed
  ultimately have "w @ [CHR '']''] = (a' @ s @ b') @ [CHR '']'']" using ab by simp
  then have "w = a' @ s @ b'" by blast
  then have "str_contains ''redacted'' s" unfolding str_contains_iff w_def by blast
  with s(1) show False by (simp add: plain_secret_def)
qed

text \<open>A plain secret found in text joined by placeholders lies inside one of the parts.\<close>

lemma plain_secret_join:
  assumes "plain_secret s" "sublist s (str_join ps Placeholder)"
  shows "\<exists>p \<in> set ps. sublist s p"
  using assms(2)
proof (induction ps)
  case Nil
  with assms(1) show ?case by (simp add: plain_secret_def)
next
  case (Cons p ps)
  show ?case
  proof (cases "ps = []")
    case False
    have s: "s \<noteq> []" "CHR ''['' \<notin> set s" "CHR '']'' \<notin> set s" using assms(1) by (simp_all add: plain_secret_def)
    have ne: "v = []" if "prefix v (Placeholder @ r)" "set v \<subseteq> set s" for v r
      using that s by (cases v) (auto simp: Placeholder_def)
    have nl: "u = []" if "suffix u Placeholder" "set u \<subseteq> set s" for u
    proof -
      have "prefix (rev u) (rev Placeholder)" using that(1) by (simp add: suffix_to_prefix)
      with that(2) s show ?thesis by (cases "rev u") (auto simp: Placeholder_def)
    qed
    from Cons.prems False have "sublist s (p @ Placeholder @ str_join ps Placeholder)"
      by (simp add: str_join_Cons)
    then consider "sublist s p" | "sublist s (Placeholder @ str_join ps Placeholder)"
      | u v where "s = u @ v" "suffix u p" "prefix v (Placeholder @ str_join ps Placeholder)"
      unfolding sublist_append [of s p] by blast
    then show ?thesis
    proof cases
      case 2
      then consider "sublist s Placeholder" | "sublist s (str_join ps Placeholder)"
        | u v where "s = u @ v" "suffix u Placeholder" "prefix v (str_join ps Placeholder)"
        unfolding sublist_append by blast
      then have "sublist s (str_join ps Placeholder)"
      proof cases
        case 1
        with plain_secret_placeholder [OF assms(1)] show ?thesis by simp
      next
        case 3
        then have "u = []" by (intro nl) auto
        with 3 show ?thesis by (simp add: prefix_imp_sublist)
      qed
      with Cons.IH show ?thesis by auto
    next
      case 3
      then have "v = []" by (intro ne) auto
      with 3 show ?thesis by (auto intro: suffix_imp_sublist)
    qed auto
  qed (use Cons in auto)
qed

lemma replace_all_removes:
  "plain_secret s \<Longrightarrow> \<not> sublist s (replace_all t s Placeholder)"
  using plain_secret_join [of s "str_split t s"] str_split_clean [of s]
  by (auto simp: replace_all_split plain_secret_def)

lemma replace_all_adds_none:
  assumes "plain_secret s" "old \<noteq> []" "sublist s (replace_all t old Placeholder)"
  shows "sublist s t"
proof -
  from assms obtain p where p: "p \<in> set (str_split t old)" "sublist s p"
    using plain_secret_join [of s "str_split t old"] by (auto simp: replace_all_split)
  moreover have "sublist p t" using str_join_sublist [OF p(1), of old] str_split_join [of old t] assms(2) by simp
  ultimately show ?thesis by (blast intro: sublist_order.order.trans)
qed

lemma replace_all_absent: "old \<noteq> [] \<Longrightarrow> \<not> sublist old t \<Longrightarrow> replace_all t old new = t"
  unfolding replace_all_def
proof (induction t)
  case (Cons c cs)
  have "\<not> has_prefix (c # cs) old"
    using Cons.prems(2) prefix_imp_sublist by (auto simp: has_prefix_prefix)
  with Cons show ?case by (simp add: sublist_Cons_right)
qed simp

lemma replace_all_whole: "s \<noteq> [] \<Longrightarrow> replace_all s s new = new"
proof -
  assume "s \<noteq> []"
  then obtain c cs where s: "s = c # cs" by (cases s) auto
  have "replace_from (length cs) s new cs = []" by (simp add: replace_from_skip [of "length cs"])
  then show ?thesis by (simp add: replace_all_def s has_prefix_def)
qed

lemma fold_replace_adds_none:
  assumes "plain_secret s" "\<forall>k \<in> set ks. k \<noteq> []"
    "sublist s (fold (\<lambda>k t. replace_all t k Placeholder) ks t)"
  shows "sublist s t"
  using assms(2,3)
proof (induction ks arbitrary: t)
  case (Cons k ks)
  then have "sublist s (replace_all t k Placeholder)" by simp
  with Cons.prems(1) show ?case using replace_all_adds_none [OF assms(1), of k t] by simp
qed simp

lemma fold_replace_removes:
  assumes "plain_secret s" "s \<in> set ks" "\<forall>k \<in> set ks. k \<noteq> []"
  shows "\<not> sublist s (fold (\<lambda>k t. replace_all t k Placeholder) ks t)"
proof -
  from assms(2) obtain us vs where ks: "ks = us @ s # vs" by (meson split_list)
  with assms(3) fold_replace_adds_none [OF assms(1), of vs] replace_all_removes [OF assms(1)]
  show ?thesis by auto
qed

lemma fold_replace_absent:
  "\<forall>k \<in> set ks. k \<noteq> [] \<and> \<not> sublist k t \<Longrightarrow> fold (\<lambda>k t. replace_all t k new) ks t = t"
  by (induction ks) (auto simp: replace_all_absent)

lemma NewRedactor_secrets: "set (secrets (NewRedactor ss)) = set ss - {[]}"
  by (auto simp: NewRedactor_def)

subsection \<open>Properties\<close>

text \<open>
  C28.  Nothing the redactor returns holds a configured secret, as long as no secret holds a bracket
  or is a part of the word \<open>redacted\<close>.
\<close>

theorem Redact_removes_secrets:
  assumes "s \<in> set ss" "s \<noteq> []" "\<forall>x \<in> set ss. x \<noteq> [] \<longrightarrow> plain_secret x"
  shows "\<not> str_contains (Redact (Some (NewRedactor ss)) t) s"
proof -
  let ?ks = "secrets (NewRedactor ss)"
  have "\<not> sublist s (fold (\<lambda>k t. replace_all t k Placeholder) ?ks t)"
    by (rule fold_replace_removes) (use assms NewRedactor_secrets [of ss] in auto)
  moreover have "s \<in> set ?ks" unfolding NewRedactor_secrets using assms(1,2) by simp
  then have "?ks \<noteq> []" by (metis empty_iff empty_set)
  ultimately show ?thesis by (simp add: Redact_def str_contains_sublist)
qed

theorem Redact_removes_secrets_witness:
  "\<not> str_contains (Redact (Some (NewRedactor [''tok'', [], ''https://h/tok/x'']))
      ''at https://h/tok/x and tok'') ''tok''"
  by (rule Redact_removes_secrets) (simp_all add: plain_secret_def str_contains_def has_prefix_def)

text \<open>
   Longest first: a text that is one whole secret leaves nothing but the placeholder, also when
  other secrets are parts of it.
\<close>

theorem Redact_longest_first:
  assumes "s \<in> set ss" "s \<noteq> []" "\<forall>x \<in> set ss. x \<noteq> [] \<longrightarrow> plain_secret x"
  shows "Redact (Some (NewRedactor ss)) s = Placeholder"
proof -
  let ?ks = "secrets (NewRedactor ss)"
  have mem: "s \<in> set ?ks" and ne: "\<forall>k \<in> set ?ks. k \<noteq> []"
    and plain: "\<forall>k \<in> set ?ks. plain_secret k"
    using assms NewRedactor_secrets [of ss] by auto
  obtain us vs where ks: "?ks = us @ s # vs" "s \<notin> set us" using split_list_first [OF mem] by blast
  have "sorted (map (\<lambda>s. - int (length s)) ?ks)" by (simp add: NewRedactor_def)
  then have longer: "\<forall>u \<in> set us. length s \<le> length u" unfolding ks by (auto simp: sorted_append)
  have "u \<noteq> [] \<and> \<not> sublist u s" if "u \<in> set us" for u
  proof
    show "u \<noteq> []" using ne ks(1) that by simp
    show "\<not> sublist u s"
    proof
      assume "sublist u s"
      then obtain a b where "s = a @ u @ b" unfolding sublist_def by blast
      moreover have "length s \<le> length u" using longer that by blast
      ultimately have "u = s" by auto
      with that ks(2) show False by blast
    qed
  qed
  then have "fold (\<lambda>k t. replace_all t k Placeholder) us s = s" by (intro fold_replace_absent) blast
  moreover have "fold (\<lambda>k t. replace_all t k Placeholder) vs Placeholder = Placeholder"
    by (rule fold_replace_absent) (use ne plain plain_secret_placeholder ks(1) in auto)
  ultimately show ?thesis
    using assms(2) mem by (simp add: Redact_def ks replace_all_whole)
qed

theorem Redact_longest_first_witness:
  "Redact (Some (NewRedactor [''tok'', ''https://h/tok/x''])) ''https://h/tok/x'' = Placeholder"
  by (rule Redact_longest_first) (simp_all add: plain_secret_def str_contains_def has_prefix_def)

end
