(* ===== verification/Store.thy ===== *)
theory Store
  imports Redact
begin

text \<open>
  The record store: \<open>store.go\<close>, \<open>runs.go\<close>, \<open>waiting.go\<close>, \<open>refusals.go\<close>, \<open>ticks.go\<close> and
  \<open>rate.go\<close> of \<open>runtime/internal/record\<close>.  A table is a list of rows in insertion order; a
  column that may be null is a string or number whose zero value is null, as \<open>nullable\<close> and its
  relatives write it.  A statement that violates a key, or a transaction that is rolled back,
  answers an error and leaves the tables as they were.  Failures of the database file itself are
  outside the model; random identifiers and the blob store are parameters.
\<close>

subsection \<open>Data\<close>

datatype status =
    StatusRunning | StatusSucceeded | StatusFailed | StatusTimedOut | StatusCapped
  | StatusInterrupted | StatusRefused | StatusClaimLost

datatype mechanism =
    MechanismClaimHeld | MechanismTickAlreadyRan | MechanismWaitingSlotFull | MechanismWaitExpired
  | MechanismRateLimited | MechanismBackendUnavailable | MechanismPlaybookChanged | MechanismDropped

datatype trigger_kind = TriggerSchedule | TriggerManual | TriggerReplay | TriggerResume | TriggerWebhook

datatype wait_outcome =
    WaitWaiting | WaitRan | WaitExpired | WaitRateLimited | WaitPlaybookChanged
  | WaitBackendUnavailable | WaitDropped | WaitOther mechanism

datatype delivery_state =
    DeliveryAccepted | DeliveryWaiting | DeliveryHandedOff | DeliveryDropped | DeliveryUnbound

datatype identity_kind = IdentityNone | IdentityDeclared | IdentityDigest

datatype handoff_state = HandOffPending | HandOffWaiting | HandOffHandedOff | HandOffRefused | HandOffDropped

text \<open>A run.  The cost is read only for being zero; it is kept as a whole number of a small unit.\<close>

record run_row =
  run_ID :: string
  run_PlaybookName :: string
  ResolvedPlaybookRef :: string
  ReportRef :: string
  PromptRef :: string
  run_TriggerKind :: trigger_kind
  ParentRunID :: string
  run_Status :: status
  StartedAt :: time
  EndedAt :: time
  CostUSD :: int
  Tokens :: int
  AgentSessionID :: string
  CredentialSource :: string
  run_Error :: string
  run_WaitingTriggerID :: string
  WaitedMS :: int
  ClaimReach :: string
  ClaimToken :: int
  run_DeliveryID :: string

record refusal_row =
  rfl_ID :: string
  rfl_PlaybookName :: string
  rfl_TriggerKind :: trigger_kind
  rfl_DueAt :: time
  rfl_WaitingTriggerID :: string
  rfl_Mechanism :: mechanism
  rfl_Detail :: string
  RefusedAt :: time
  rfl_DeliveryID :: string

record waiting_row =
  wt_ID :: string
  wt_PlaybookName :: string
  wt_PlaybookPath :: string
  wt_TriggerKind :: trigger_kind
  wt_TriggerRef :: string
  AcceptedAt :: time
  ExpiresAt :: time
  wt_Instance :: string
  wt_Outcome :: wait_outcome
  OutcomeAt :: time
  wt_RunID :: string
  wt_DeliveryID :: string

record tick_row =
  tick_DueAt :: time
  tick_Host :: string
  tick_Instance :: string
  tick_RunID :: string

record delivery =
  dlv_ID :: string
  dlv_Source :: string
  dlv_Identity :: string
  dlv_IdentityKind :: identity_kind
  dlv_ReceivedAt :: time
  dlv_Peer :: string
  dlv_BodyRef :: string
  BodySHA256 :: string
  Repeats :: nat
  dlv_Instance :: string
  Supersedes :: string
  dlv_State :: delivery_state

record handoff =
  ho_DeliveryID :: string
  ho_PlaybookName :: string
  ho_State :: handoff_state
  DecidedAt :: time

record delivery_refusal =
  dr_ID :: string
  dr_Source :: string
  dr_Reason :: string
  dr_ValueName :: string
  dr_PlaybookName :: string
  dr_DeliveryID :: string
  dr_ReceivedAt :: time
  dr_Peer :: string
  dr_BodyRef :: string

record store =
  st_redactor :: "redactor option"
  st_runs :: "run_row list"
  st_refusals :: "refusal_row list"
  st_waiting :: "waiting_row list"
  st_last_ticks :: "tick_row gomap"
  st_rate_starts :: "(string \<times> string \<times> time) list"
  st_missed :: "((string \<times> time) \<times> string) list"
  st_deliveries :: "delivery list"
  st_identities :: "((string \<times> string) \<times> string \<times> time) list"
  st_handoffs :: "handoff list"
  st_delivery_refusals :: "delivery_refusal list"
  st_counts :: "((time \<times> string \<times> string) \<times> nat \<times> string \<times> time) list"

datatype store_error =
    NoTime string
  | NoIdentifier
  | BlobFailed string
  | ConstraintFailed string
  | WaitAlreadyEnded string string
  | NoOutcome string
  | SlotFull "waiting_row option"
  | NotFound string
  | NoDelivery string
  | NoReadableTick string

type_synonym 'a st_result = "store \<times> (store_error, 'a) result"

abbreviation redact :: "store \<Rightarrow> string \<Rightarrow> string" where
  "redact s \<equiv> Redact (st_redactor s)"

subsection \<open>Statements\<close>

text \<open>\<open>UPDATE ... WHERE\<close>, the number of rows it changes, and \<open>coalesce(?, column)\<close>.\<close>

definition update_where :: "('r \<Rightarrow> bool) \<Rightarrow> ('r \<Rightarrow> 'r) \<Rightarrow> 'r list \<Rightarrow> 'r list" where
  "update_where P f rows = map (\<lambda>r. if P r then f r else r) rows"

definition rows_where :: "('r \<Rightarrow> bool) \<Rightarrow> 'r list \<Rightarrow> nat" where
  "rows_where P rows = length (filter P rows)"

definition coalesce_str :: "string \<Rightarrow> string \<Rightarrow> string" where
  "coalesce_str new old = (if new = [] then old else new)"

definition coalesce_int :: "int \<Rightarrow> int \<Rightarrow> int" where
  "coalesce_int new old = (if new = 0 then old else new)"

definition waited_ms :: "run_row \<Rightarrow> int" where
  "waited_ms r = (if run_WaitingTriggerID r = [] then 0 else WaitedMS r)"

text \<open>A reference column holds nothing, or an identifier its table holds.\<close>

definition references :: "string \<Rightarrow> string list \<Rightarrow> bool" where
  "references x ids \<longleftrightarrow> x = [] \<or> x \<in> set ids"

subsection \<open>Runs\<close>

definition run_columns :: "store \<Rightarrow> run_row \<Rightarrow> run_row" where
  "run_columns s r = r\<lparr>run_PlaybookName := redact s (run_PlaybookName r), EndedAt := zero_time,
     CostUSD := 0, Tokens := 0, AgentSessionID := [], CredentialSource := [], run_Error := [],
     WaitedMS := waited_ms r\<rparr>"

definition CreateRun :: "time \<Rightarrow> run_row \<Rightarrow> store \<Rightarrow> unit st_result" where
  "CreateRun now run0 s =
     (let run = (if is_zero (StartedAt run0) then run0\<lparr>StartedAt := now\<rparr> else run0) in
      if run_ID run \<in> run_ID ` set (st_runs s) \<or>
         \<not> references (ParentRunID run) (map run_ID (st_runs s)) \<or>
         \<not> references (run_WaitingTriggerID run) (map wt_ID (st_waiting s)) \<or>
         \<not> references (run_DeliveryID run) (map dlv_ID (st_deliveries s))
      then (s, Inl (ConstraintFailed (run_ID run)))
      else
        let s1 = s\<lparr>st_runs := st_runs s @ [run_columns s run]\<rparr> in
        if run_WaitingTriggerID run \<noteq> [] then
          let live = (\<lambda>w. wt_ID w = run_WaitingTriggerID run \<and> wt_Outcome w = WaitWaiting) in
          if rows_where live (st_waiting s1) = 0
          then (s, Inl (WaitAlreadyEnded (run_ID run) (run_WaitingTriggerID run)))
          else (s1\<lparr>st_waiting := update_where live (\<lambda>w. w\<lparr>wt_Outcome := WaitRan,
                  OutcomeAt := StartedAt run, wt_RunID := run_ID run\<rparr>) (st_waiting s1)\<rparr>, Inr ())
        else (s1, Inr ()))"

definition finish_columns :: "store \<Rightarrow> run_row \<Rightarrow> run_row \<Rightarrow> run_row" where
  "finish_columns s run r = r\<lparr>run_Status := run_Status run, EndedAt := EndedAt run,
     run_Error := redact s (run_Error run),
     CostUSD := coalesce_int (CostUSD run) (CostUSD r), Tokens := coalesce_int (Tokens run) (Tokens r),
     AgentSessionID := coalesce_str (AgentSessionID run) (AgentSessionID r),
     CredentialSource := coalesce_str (CredentialSource run) (CredentialSource r),
     ReportRef := coalesce_str (ReportRef run) (ReportRef r),
     PromptRef := coalesce_str (PromptRef run) (PromptRef r),
     ResolvedPlaybookRef := coalesce_str (ResolvedPlaybookRef run) (ResolvedPlaybookRef r),
     run_WaitingTriggerID := coalesce_str (run_WaitingTriggerID run) (run_WaitingTriggerID r),
     WaitedMS := (if run_WaitingTriggerID run = [] then WaitedMS r else WaitedMS run),
     ClaimReach := coalesce_str (ClaimReach run) (ClaimReach r),
     ClaimToken := coalesce_int (ClaimToken run) (ClaimToken r)\<rparr>"

definition FinishRun :: "run_row \<Rightarrow> store \<Rightarrow> unit st_result" where
  "FinishRun run s =
     (if rows_where (\<lambda>r. run_ID r = run_ID run) (st_runs s) = 0 then (s, Inl (NotFound (run_ID run)))
      else if \<not> references (run_WaitingTriggerID run) (map wt_ID (st_waiting s))
      then (s, Inl (ConstraintFailed (run_ID run)))
      else (s\<lparr>st_runs := update_where (\<lambda>r. run_ID r = run_ID run) (finish_columns s run) (st_runs s)\<rparr>, Inr ()))"

definition GetRun :: "string \<Rightarrow> store \<Rightarrow> (store_error, run_row) result" where
  "GetRun id' s = (case find (\<lambda>r. run_ID r = id') (st_runs s) of
     None \<Rightarrow> Inl (NotFound id') | Some r \<Rightarrow> Inr r)"

definition RecordMissedOccurrence :: "string \<Rightarrow> time \<Rightarrow> string \<Rightarrow> store \<Rightarrow> store" where
  "RecordMissedOccurrence playbookName dueAt reason s =
     s\<lparr>st_missed := filter (\<lambda>(k, _). k \<noteq> (redact s playbookName, dueAt)) (st_missed s) @
         [((redact s playbookName, dueAt), redact s reason)]\<rparr>"

definition MarkRunningAsInterrupted :: "time \<Rightarrow> store \<Rightarrow> store \<times> nat" where
  "MarkRunningAsInterrupted now s =
     (let running = (\<lambda>r. run_Status r = StatusRunning) in
      (s\<lparr>st_runs := update_where running (\<lambda>r. r\<lparr>run_Status := StatusInterrupted, EndedAt := now,
          run_Error := ''the runtime stopped while this run was in flight''\<rparr>) (st_runs s)\<rparr>,
       rows_where running (st_runs s)))"

subsection \<open>Refusals\<close>

definition refusal_columns :: "store \<Rightarrow> string \<Rightarrow> refusal_row \<Rightarrow> refusal_row" where
  "refusal_columns s id' r = r\<lparr>rfl_ID := id', rfl_PlaybookName := redact s (rfl_PlaybookName r),
     rfl_Detail := redact s (rfl_Detail r)\<rparr>"

definition insertRefusal :: "string option \<Rightarrow> refusal_row \<Rightarrow> store \<Rightarrow> unit st_result" where
  "insertRefusal newID refusal s =
     (case (if rfl_ID refusal = [] then newID else Some (rfl_ID refusal)) of
        None \<Rightarrow> (s, Inl NoIdentifier)
      | Some id' \<Rightarrow>
          if is_zero (RefusedAt refusal) then (s, Inl (NoTime id'))
          else if id' \<in> rfl_ID ` set (st_refusals s) \<or>
                  \<not> references (rfl_DeliveryID refusal) (map dlv_ID (st_deliveries s))
          then (s, Inl (ConstraintFailed id'))
          else (s\<lparr>st_refusals := st_refusals s @ [refusal_columns s id' refusal]\<rparr>, Inr ()))"

definition RecordRefusal :: "string option \<Rightarrow> refusal_row \<Rightarrow> store \<Rightarrow> unit st_result" where
  "RecordRefusal newID refusal s = insertRefusal newID refusal s"

subsection \<open>Waiting triggers\<close>

text \<open>\<open>put\<close> files the values of the trigger as a blob and answers its reference.\<close>

definition AcceptWaiting ::
  "string option \<Rightarrow> (string \<Rightarrow> string gomap \<Rightarrow> (string, string) result) \<Rightarrow> waiting_row \<Rightarrow> string gomap \<Rightarrow>
   store \<Rightarrow> waiting_row st_result" where
  "AcceptWaiting newID put trigger0 vals s =
     (if is_zero (AcceptedAt trigger0) \<or> is_zero (ExpiresAt trigger0) then (s, Inl (NoTime []))
      else (case newID of
          None \<Rightarrow> (s, Inl NoIdentifier)
        | Some id' \<Rightarrow>
            let name = redact s (wt_PlaybookName trigger0);
                trigger1 = trigger0\<lparr>wt_ID := id', wt_Outcome := WaitWaiting, wt_PlaybookName := name\<rparr>
            in case (if vals = [] then Inr (wt_TriggerRef trigger1) else put id' vals) of
                 Inl e \<Rightarrow> (s, Inl (BlobFailed e))
               | Inr ref \<Rightarrow>
                   let trigger = trigger1\<lparr>wt_TriggerRef := ref\<rparr>;
                       live = (\<lambda>w. wt_PlaybookName w = name \<and> wt_Outcome w = WaitWaiting);
                       row = trigger\<lparr>wt_PlaybookPath := redact s (wt_PlaybookPath trigger),
                                wt_Instance := redact s (wt_Instance trigger),
                                OutcomeAt := zero_time, wt_RunID := []\<rparr>
                   in if list_ex live (st_waiting s) then (s, Inl (SlotFull (find live (st_waiting s))))
                      else if id' \<in> wt_ID ` set (st_waiting s) \<or>
                              \<not> references (wt_DeliveryID trigger) (map dlv_ID (st_deliveries s))
                      then (s, Inl (ConstraintFailed id'))
                      else (s\<lparr>st_waiting := st_waiting s @ [row]\<rparr>, Inr trigger)))"

record wait_end =
  we_Outcome :: wait_outcome
  we_At :: time
  we_RunID :: string
  we_Refusal :: "refusal_row option"

definition EndWait :: "string option \<Rightarrow> string \<Rightarrow> wait_end \<Rightarrow> store \<Rightarrow> bool st_result" where
  "EndWait newID id' end' s =
     (if we_Outcome end' = WaitWaiting \<or> is_zero (we_At end') then (s, Inl (NoOutcome id'))
      else if \<not> references (we_RunID end') (map run_ID (st_runs s)) then (s, Inl (ConstraintFailed id'))
      else
        let live = (\<lambda>w. wt_ID w = id' \<and> wt_Outcome w = WaitWaiting);
            s1 = s\<lparr>st_waiting := update_where live (\<lambda>w. w\<lparr>wt_Outcome := we_Outcome end',
                    OutcomeAt := we_At end', wt_RunID := we_RunID end'\<rparr>) (st_waiting s)\<rparr>
        in if rows_where live (st_waiting s) = 0 then (s, Inr False)
           else (case we_Refusal end' of
               None \<Rightarrow> (s1, Inr True)
             | Some refusal \<Rightarrow> (case insertRefusal newID refusal s1 of
                   (_, Inl e) \<Rightarrow> (s, Inl e)
                 | (s2, Inr _) \<Rightarrow> (s2, Inr True))))"

text \<open>Reading a row back takes its run from the run that names it when the row itself names none.\<close>

definition scan_waiting :: "store \<Rightarrow> waiting_row \<Rightarrow> waiting_row" where
  "scan_waiting s w =
     (if wt_RunID w \<noteq> [] then w
      else case find (\<lambda>r. run_WaitingTriggerID r = wt_ID w) (st_runs s) of
             None \<Rightarrow> w | Some r \<Rightarrow> w\<lparr>wt_RunID := run_ID r\<rparr>)"

definition StillWaiting :: "store \<Rightarrow> waiting_row list" where
  "StillWaiting s = map (scan_waiting s)
     (sort_key AcceptedAt (filter (\<lambda>w. wt_Outcome w = WaitWaiting) (st_waiting s)))"

definition GetWaitingTrigger :: "string \<Rightarrow> store \<Rightarrow> (store_error, waiting_row) result" where
  "GetWaitingTrigger id' s = (case find (\<lambda>w. wt_ID w = id') (st_waiting s) of
     None \<Rightarrow> Inl (NotFound id') | Some w \<Rightarrow> Inr (scan_waiting s w))"

subsection \<open>Ticks and rate windows\<close>

definition LastTick :: "string \<Rightarrow> store \<Rightarrow> (store_error, tick_row option) result" where
  "LastTick playbookName s = (case map_of (st_last_ticks s) playbookName of
     None \<Rightarrow> Inr None
   | Some tick \<Rightarrow> if is_zero (tick_DueAt tick) then Inl (NoReadableTick playbookName) else Inr (Some tick))"

definition SetLastTick :: "string \<Rightarrow> tick_row \<Rightarrow> store \<Rightarrow> unit st_result" where
  "SetLastTick playbookName tick s =
     (if is_zero (tick_DueAt tick) then (s, Inl (NoTime playbookName))
      else (s\<lparr>st_last_ticks := map_set playbookName (tick\<lparr>tick_Host := redact s (tick_Host tick),
              tick_Instance := redact s (tick_Instance tick)\<rparr>) (st_last_ticks s)\<rparr>, Inr ()))"

definition CountRateStarts :: "string \<Rightarrow> time \<Rightarrow> store \<Rightarrow> nat" where
  "CountRateStarts playbookName since s =
     rows_where (\<lambda>(name, _, started). name = redact s playbookName \<and> started \<ge> since) (st_rate_starts s)"

definition RecordRateStart :: "string \<Rightarrow> string \<Rightarrow> time \<Rightarrow> store \<Rightarrow> store" where
  "RecordRateStart playbookName runID startedAt s =
     s\<lparr>st_rate_starts := st_rate_starts s @ [(redact s playbookName, runID, startedAt)]\<rparr>"

subsection \<open>How a wait ends\<close>

text \<open>
  The invariant of the waiting triggers: identifiers are distinct, at most one row per playbook is
  live, and each row is accounted for once.  A live row has neither run nor refusal; a row that ran
  has the one run that names it; every other row has the one refusal that ended it.
\<close>

definition refusals_of :: "store \<Rightarrow> string \<Rightarrow> nat" where
  "refusals_of s w = rows_where (\<lambda>r. rfl_WaitingTriggerID r = w) (st_refusals s)"

definition runs_of :: "store \<Rightarrow> string \<Rightarrow> nat" where
  "runs_of s w = rows_where (\<lambda>r. run_WaitingTriggerID r = w) (st_runs s)"

definition accounted :: "store \<Rightarrow> waiting_row \<Rightarrow> bool" where
  "accounted s w \<longleftrightarrow> (case wt_Outcome w of
      WaitWaiting \<Rightarrow> refusals_of s (wt_ID w) = 0 \<and> runs_of s (wt_ID w) = 0
    | WaitRan \<Rightarrow> refusals_of s (wt_ID w) = 0 \<and> runs_of s (wt_ID w) = 1
    | _ \<Rightarrow> refusals_of s (wt_ID w) = 1 \<and> runs_of s (wt_ID w) = 0)"

definition one_live :: "waiting_row list \<Rightarrow> bool" where
  "one_live ws \<longleftrightarrow> distinct (map wt_PlaybookName (filter (\<lambda>w. wt_Outcome w = WaitWaiting) ws))"

definition waiting_inv :: "store \<Rightarrow> bool" where
  "waiting_inv s \<longleftrightarrow>
     distinct (map wt_ID (st_waiting s)) \<and> [] \<notin> wt_ID ` set (st_waiting s) \<and> one_live (st_waiting s) \<and>
     (\<forall>w \<in> set (st_waiting s). accounted s w) \<and>
     (\<forall>r \<in> set (st_refusals s). references (rfl_WaitingTriggerID r) (map wt_ID (st_waiting s))) \<and>
     (\<forall>r \<in> set (st_runs s). references (run_WaitingTriggerID r) (map wt_ID (st_waiting s)))"

text \<open>
  The steps the runtime takes on these tables.  A wait is ended by the guard or a reconciliation with
  the refusal that names it, or as ran for a run that names it; a trigger refused on arrival names no
  wait; a finished run names none either.
\<close>

inductive store_step :: "store \<Rightarrow> store \<Rightarrow> bool" where
  accept: "AcceptWaiting (Some i) put t vals s = (s', r) \<Longrightarrow> i \<noteq> [] \<Longrightarrow> store_step s s'"
| end_refused: "EndWait newID i \<lparr>we_Outcome = o', we_At = at, we_RunID = [], we_Refusal = Some rf\<rparr> s = (s', r) \<Longrightarrow>
    rfl_WaitingTriggerID rf = i \<Longrightarrow> o' \<noteq> WaitRan \<Longrightarrow> store_step s s'"
| end_ran: "EndWait newID i \<lparr>we_Outcome = WaitRan, we_At = at, we_RunID = run_ID rn, we_Refusal = None\<rparr> s = (s', r) \<Longrightarrow>
    rn \<in> set (st_runs s) \<Longrightarrow> run_WaitingTriggerID rn = i \<Longrightarrow> store_step s s'"
| refuse: "RecordRefusal newID rf s = (s', r) \<Longrightarrow> rfl_WaitingTriggerID rf = [] \<Longrightarrow> store_step s s'"
| create: "CreateRun now rn s = (s', r) \<Longrightarrow> store_step s s'"
| finish: "FinishRun rn s = (s', r) \<Longrightarrow> run_WaitingTriggerID rn = [] \<Longrightarrow> store_step s s'"
| interrupt: "MarkRunningAsInterrupted now s = (s', n) \<Longrightarrow> store_step s s'"
| tick: "SetLastTick name t s = (s', r) \<Longrightarrow> store_step s s'"
| rate: "RecordRateStart name i at s = s' \<Longrightarrow> store_step s s'"
| missed: "RecordMissedOccurrence name at why s = s' \<Longrightarrow> store_step s s'"

inductive_cases store_stepE: "store_step s s'"

text \<open>Facts of the statements.\<close>

lemma rows_where_append: "rows_where P (xs @ ys) = rows_where P xs + rows_where P ys"
  by (simp add: rows_where_def)

lemma rows_where_0: "rows_where P xs = 0 \<longleftrightarrow> (\<forall>x \<in> set xs. \<not> P x)"
  by (simp add: rows_where_def filter_empty_conv)

lemma rows_where_pos: "x \<in> set xs \<Longrightarrow> P x \<Longrightarrow> rows_where P xs \<noteq> 0"
  by (auto simp: rows_where_0)

lemma update_where_map: "(\<And>x. P x \<Longrightarrow> g (f x) = g x) \<Longrightarrow> map g (update_where P f xs) = map g xs"
  by (simp add: update_where_def)

lemma rows_where_update:
  "(\<And>x. P x \<Longrightarrow> Q (f x) = Q x) \<Longrightarrow> rows_where Q (update_where P f xs) = rows_where Q xs"
  by (induction xs) (auto simp: rows_where_def update_where_def)

lemma set_update_where: "set (update_where P f xs) = (\<lambda>x. if P x then f x else x) ` set xs"
  by (simp add: update_where_def)

text \<open>Ending one row of a table with distinct identifiers leaves at most the others live.\<close>

lemma one_live_update:
  assumes "one_live ws" "\<And>w. wt_PlaybookName (f w) = wt_PlaybookName w"
    and "\<And>w. wt_Outcome (f w) \<noteq> WaitWaiting"
  shows "one_live (update_where P f ws)"
  using assms(1)
proof (induction ws)
  case (Cons w ws)
  have sub: "set (filter (\<lambda>w. wt_Outcome w = WaitWaiting) (update_where P f ws))
      \<subseteq> set (filter (\<lambda>w. wt_Outcome w = WaitWaiting) ws)"
    using assms(3) by (auto simp: set_update_where)
  from Cons have "one_live ws" by (auto simp: one_live_def split: if_splits)
  with Cons.IH have ih: "one_live (update_where P f ws)" by simp
  show ?case
  proof (cases "P w \<or> wt_Outcome w \<noteq> WaitWaiting")
    case True
    with ih assms(3) show ?thesis by (auto simp: one_live_def update_where_def)
  next
    case False
    with Cons.prems sub ih show ?thesis by (auto simp: one_live_def update_where_def)
  qed
qed (simp add: one_live_def update_where_def)

lemma one_live_append:
  "one_live ws \<Longrightarrow> \<not> list_ex (\<lambda>w. wt_PlaybookName w = wt_PlaybookName x \<and> wt_Outcome w = WaitWaiting) ws \<Longrightarrow>
   one_live (ws @ [x])"
  by (auto simp: one_live_def list_ex_iff)

lemma distinct_filter_one:
  "distinct (map g xs) \<Longrightarrow> x \<in> set xs \<Longrightarrow> length (filter (\<lambda>v. g v = g x) xs) = 1"
proof (induction xs)
  case (Cons y ys)
  show ?case
  proof (cases "g y = g x")
    case True
    with Cons.prems have "\<forall>v \<in> set ys. g v \<noteq> g x" by (metis distinct.simps(2) image_eqI list.set_map list.simps(9))
    with True show ?thesis by (simp add: filter_empty_conv)
  qed (use Cons in auto)
qed simp

text \<open>Each statement against the invariant.\<close>

lemmas inv_defs = waiting_inv_def accounted_def refusals_of_def runs_of_def

lemma references_insert:
  assumes "\<forall>r \<in> set rs. references (g r) ids" "g ` set rs' \<subseteq> insert i (g ` set rs)" "references i ids"
  shows "\<forall>r \<in> set rs'. references (g r) ids"
proof
  fix r assume "r \<in> set rs'"
  with assms(2) have "g r = i \<or> g r \<in> g ` set rs" by blast
  with assms(1,3) show "references (g r) ids" by (elim disjE imageE) simp_all
qed

lemma waiting_inv_same:
  assumes "waiting_inv s" "st_waiting s' = st_waiting s"
    and "\<And>i. i \<noteq> [] \<Longrightarrow> refusals_of s' i = refusals_of s i" "\<And>i. i \<noteq> [] \<Longrightarrow> runs_of s' i = runs_of s i"
    and "rfl_WaitingTriggerID ` set (st_refusals s') \<subseteq> insert [] (rfl_WaitingTriggerID ` set (st_refusals s))"
    and "run_WaitingTriggerID ` set (st_runs s') \<subseteq> insert [] (run_WaitingTriggerID ` set (st_runs s))"
  shows "waiting_inv s'"
proof -
  have acc: "\<forall>w \<in> set (st_waiting s'). accounted s' w"
  proof
    fix w assume "w \<in> set (st_waiting s')"
    with assms(1,2) have w: "w \<in> set (st_waiting s)" "accounted s w" by (simp_all add: waiting_inv_def)
    with assms(1) have "wt_ID w \<noteq> []" unfolding waiting_inv_def by (metis image_eqI)
    with w(2) show "accounted s' w"
      unfolding accounted_def by (simp add: assms(3,4) cong: wait_outcome.case_cong)
  qed
  have refs: "\<forall>r \<in> set (st_refusals s'). references (rfl_WaitingTriggerID r) (map wt_ID (st_waiting s))"
    by (rule references_insert [OF _ assms(5)]) (use assms(1) in \<open>simp_all add: waiting_inv_def references_def\<close>)
  have runs: "\<forall>r \<in> set (st_runs s'). references (run_WaitingTriggerID r) (map wt_ID (st_waiting s))"
    by (rule references_insert [OF _ assms(6)]) (use assms(1) in \<open>simp_all add: waiting_inv_def references_def\<close>)
  show ?thesis using assms(1,2) acc refs runs by (simp add: waiting_inv_def)
qed

lemma waiting_inv_end:
  assumes inv: "waiting_inv s"
    and live: "rows_where (\<lambda>w. wt_ID w = i \<and> wt_Outcome w = WaitWaiting) (st_waiting s) \<noteq> 0"
    and W: "st_waiting s' = update_where (\<lambda>w. wt_ID w = i \<and> wt_Outcome w = WaitWaiting) f (st_waiting s)"
    and f: "\<And>w. wt_ID (f w) = wt_ID w" "\<And>w. wt_PlaybookName (f w) = wt_PlaybookName w"
      "\<And>w. wt_Outcome (f w) = o'" "o' \<noteq> WaitWaiting"
    and refs: "\<And>j. refusals_of s' j = refusals_of s j + (if j = i \<and> o' \<noteq> WaitRan then 1 else 0)"
    and runs: "\<And>j. runs_of s' j = runs_of s j + (if j = i \<and> o' = WaitRan then 1 else 0)"
    and rset: "rfl_WaitingTriggerID ` set (st_refusals s') \<subseteq> insert i (rfl_WaitingTriggerID ` set (st_refusals s))"
    and uset: "run_WaitingTriggerID ` set (st_runs s') \<subseteq> insert i (run_WaitingTriggerID ` set (st_runs s))"
  shows "waiting_inv s'"
proof -
  from live obtain v where v: "v \<in> set (st_waiting s)" "wt_ID v = i" "wt_Outcome v = WaitWaiting"
    by (auto simp: rows_where_0)
  have ids: "map wt_ID (st_waiting s') = map wt_ID (st_waiting s)"
    unfolding W by (rule update_where_map) (simp add: f)
  have dist: "distinct (map wt_ID (st_waiting s))" using inv by (simp add: waiting_inv_def)
  have only: "w = v" if "w \<in> set (st_waiting s)" "wt_ID w = i" for w
    using dist that v by (auto simp: distinct_map inj_on_def)
  have acc: "\<forall>w \<in> set (st_waiting s'). accounted s' w"
  proof
    fix w assume "w \<in> set (st_waiting s')"
    then obtain u where u: "u \<in> set (st_waiting s)"
      and w: "w = (if wt_ID u = i \<and> wt_Outcome u = WaitWaiting then f u else u)"
      unfolding W set_update_where by blast
    have "w = f v \<or> w = u \<and> wt_ID u \<noteq> i"
      using only [OF u] v w by (cases "wt_ID u = i") simp_all
    then consider "w = f v" | "w \<in> set (st_waiting s)" "wt_ID w \<noteq> i"
      using u by blast
    then show "accounted s' w"
    proof cases
      case 1
      have "accounted s v" using inv v by (simp add: waiting_inv_def)
      with v show ?thesis unfolding accounted_def 1 f refs runs
        using f(4) by (cases o') (auto simp: accounted_def)
    next
      case 2
      then have "accounted s w" using inv by (simp add: waiting_inv_def)
      with 2 show ?thesis by (simp add: accounted_def refs runs split: wait_outcome.splits)
    qed
  qed
  have ins: "i \<in> set (map wt_ID (st_waiting s))" using v by auto
  have r1: "\<forall>r \<in> set (st_refusals s'). references (rfl_WaitingTriggerID r) (map wt_ID (st_waiting s))"
    by (rule references_insert [OF _ rset]) (use inv ins in \<open>simp_all add: waiting_inv_def references_def\<close>)
  have r2: "\<forall>r \<in> set (st_runs s'). references (run_WaitingTriggerID r) (map wt_ID (st_waiting s))"
    by (rule references_insert [OF _ uset]) (use inv ins in \<open>simp_all add: waiting_inv_def references_def\<close>)
  have "one_live (st_waiting s')" unfolding W using inv f by (intro one_live_update) (simp_all add: waiting_inv_def)
  moreover have "wt_ID ` set (st_waiting s') = wt_ID ` set (st_waiting s)" using arg_cong [OF ids, of set] by simp
  moreover have "[] \<notin> wt_ID ` set (st_waiting s)" using inv unfolding waiting_inv_def by blast
  ultimately show ?thesis using dist acc r1 r2 unfolding waiting_inv_def ids by metis
qed

lemma insertRefusal_cases:
  "insertRefusal newID rf s = (s', r) \<Longrightarrow> (s' = s \<and> (\<exists>e. r = Inl e)) \<or>
     r = Inr () \<and> (\<exists>id'. s' = s\<lparr>st_refusals := st_refusals s @ [refusal_columns s id' rf]\<rparr>)"
  by (auto simp: insertRefusal_def split: option.splits if_splits)

lemma refusal_columns_wait: "rfl_WaitingTriggerID (refusal_columns s id' rf) = rfl_WaitingTriggerID rf"
  by (simp add: refusal_columns_def)

lemma RecordRefusal_keeps:
  assumes "RecordRefusal newID rf s = (s', r)" "rfl_WaitingTriggerID rf = []" "waiting_inv s"
  shows "waiting_inv s'"
proof -
  from assms(1) insertRefusal_cases consider "s' = s"
    | id' where "s' = s\<lparr>st_refusals := st_refusals s @ [refusal_columns s id' rf]\<rparr>"
    unfolding RecordRefusal_def by blast
  then show ?thesis
  proof cases
    case 2
    show ?thesis unfolding 2 by (rule waiting_inv_same [OF assms(3)])
      (use assms(2) in \<open>auto simp: refusals_of_def runs_of_def rows_where_def refusal_columns_wait\<close>)
  qed (use assms in simp)
qed

lemma EndWait_refused_keeps:
  assumes e: "EndWait newID i \<lparr>we_Outcome = o', we_At = at, we_RunID = rn, we_Refusal = Some rf\<rparr> s = (s', r)"
    and i: "rfl_WaitingTriggerID rf = i" and o': "o' \<noteq> WaitRan" and inv: "waiting_inv s"
  shows "waiting_inv s'"
proof (cases "s' = s")
  case False
  define f where "f = (\<lambda>w :: waiting_row. w\<lparr>wt_Outcome := o', OutcomeAt := at, wt_RunID := rn\<rparr>)"
  define s1 where "s1 = s\<lparr>st_waiting := update_where (\<lambda>w. wt_ID w = i \<and> wt_Outcome w = WaitWaiting) f (st_waiting s)\<rparr>"
  have live: "rows_where (\<lambda>w. wt_ID w = i \<and> wt_Outcome w = WaitWaiting) (st_waiting s) \<noteq> 0"
    and ow: "o' \<noteq> WaitWaiting" and ins: "\<exists>u. insertRefusal newID rf s1 = (s', Inr u)"
    using e False by (auto simp: EndWait_def Let_def s1_def f_def split: if_splits prod.splits sum.splits)
  from ins insertRefusal_cases obtain id' where s': "s' = s1\<lparr>st_refusals := st_refusals s1 @ [refusal_columns s1 id' rf]\<rparr>"
    by fast
  show ?thesis
    by (rule waiting_inv_end [where f = f and o' = o', OF inv live])
      (use o' ow i in \<open>auto simp: s' s1_def f_def refusals_of_def runs_of_def rows_where_def refusal_columns_wait\<close>)
qed (use inv in simp)

lemma EndWait_ran_keeps:
  assumes e: "EndWait newID i \<lparr>we_Outcome = WaitRan, we_At = at, we_RunID = n, we_Refusal = None\<rparr> s = (s', r)"
    and rn: "rn \<in> set (st_runs s)" "run_WaitingTriggerID rn = i" and inv: "waiting_inv s"
  shows "s' = s \<and> r \<noteq> Inr True"
proof -
  have "rows_where (\<lambda>w. wt_ID w = i \<and> wt_Outcome w = WaitWaiting) (st_waiting s) = 0"
  proof (rule ccontr)
    assume "\<not> ?thesis"
    then obtain w where w: "w \<in> set (st_waiting s)" "wt_ID w = i" "wt_Outcome w = WaitWaiting"
      by (auto simp: rows_where_0)
    with inv have "runs_of s i = 0" by (auto simp: waiting_inv_def accounted_def)
    with rn show False by (simp add: runs_of_def rows_where_0)
  qed
  with e show ?thesis by (auto simp: EndWait_def Let_def split: if_splits)
qed

lemma run_columns_wait: "run_WaitingTriggerID (run_columns s r) = run_WaitingTriggerID r"
  by (simp add: run_columns_def)

lemma CreateRun_keeps:
  assumes c: "CreateRun now rn s = (s', r)" and inv: "waiting_inv s"
  shows "waiting_inv s'"
proof (cases "s' = s")
  case False
  define run where "run = (if is_zero (StartedAt rn) then rn\<lparr>StartedAt := now\<rparr> else rn)"
  define i where "i = run_WaitingTriggerID run"
  define f where "f = (\<lambda>w :: waiting_row. w\<lparr>wt_Outcome := WaitRan, OutcomeAt := StartedAt run, wt_RunID := run_ID run\<rparr>)"
  define live where "live = (\<lambda>w :: waiting_row. wt_ID w = i \<and> wt_Outcome w = WaitWaiting)"
  have s': "s' = (if i = [] then s\<lparr>st_runs := st_runs s @ [run_columns s run]\<rparr>
      else s\<lparr>st_runs := st_runs s @ [run_columns s run], st_waiting := update_where live f (st_waiting s)\<rparr>)"
    and nz: "i \<noteq> [] \<Longrightarrow> rows_where live (st_waiting s) \<noteq> 0"
    using c False by (auto simp: CreateRun_def Let_def run_def [symmetric] i_def [symmetric]
        f_def [symmetric] live_def [symmetric] split: if_splits)
  have col: "run_WaitingTriggerID (run_columns s run) = i" by (simp add: run_columns_wait i_def)
  show ?thesis
  proof (cases "i = []")
    case True
    show ?thesis by (rule waiting_inv_same [OF inv])
      (use True col in \<open>auto simp: s' refusals_of_def runs_of_def rows_where_def\<close>)
  next
    case i: False
    show ?thesis
      by (rule waiting_inv_end [where f = f and o' = WaitRan, OF inv nz [OF i, unfolded live_def]])
        (use i col in \<open>auto simp: s' f_def live_def refusals_of_def runs_of_def rows_where_def\<close>)
  qed
qed (use inv in simp)

lemma FinishRun_keeps:
  assumes "FinishRun rn s = (s', r)" "run_WaitingTriggerID rn = []" "waiting_inv s"
  shows "waiting_inv s'"
proof (cases "s' = s")
  case False
  then have s': "s' = s\<lparr>st_runs := update_where (\<lambda>r. run_ID r = run_ID rn) (finish_columns s rn) (st_runs s)\<rparr>"
    using assms(1) by (auto simp: FinishRun_def split: if_splits)
  have w: "run_WaitingTriggerID (finish_columns s rn x) = run_WaitingTriggerID x" for x
    using assms(2) by (simp add: finish_columns_def coalesce_str_def)
  show ?thesis unfolding s'
    by (rule waiting_inv_same [OF assms(3)])
      (auto simp: refusals_of_def runs_of_def w rows_where_update set_update_where)
qed (use assms in simp)

lemma MarkRunningAsInterrupted_keeps:
  assumes "waiting_inv s"
  shows "waiting_inv (fst (MarkRunningAsInterrupted now s))"
  by (rule waiting_inv_same [OF assms])
    (auto simp: MarkRunningAsInterrupted_def Let_def refusals_of_def runs_of_def rows_where_update set_update_where)

lemma AcceptWaiting_cases:
  assumes "AcceptWaiting (Some i) put t vals s = (s', r)" "s' \<noteq> s"
  obtains row where "s' = s\<lparr>st_waiting := st_waiting s @ [row]\<rparr>" "wt_ID row = i" "wt_Outcome row = WaitWaiting"
    "\<not> list_ex (\<lambda>w. wt_PlaybookName w = wt_PlaybookName row \<and> wt_Outcome w = WaitWaiting) (st_waiting s)"
    "i \<notin> wt_ID ` set (st_waiting s)"
proof -
  define t1 where "t1 = t\<lparr>wt_ID := i, wt_Outcome := WaitWaiting, wt_PlaybookName := redact s (wt_PlaybookName t)\<rparr>"
  obtain ref where ref: "(if vals = [] then Inr (wt_TriggerRef t1) else put i vals) = Inr ref"
    using assms by (auto simp: AcceptWaiting_def Let_def t1_def split: if_splits sum.splits)
  define row where "row = t1\<lparr>wt_TriggerRef := ref, wt_PlaybookPath := redact s (wt_PlaybookPath t1),
    wt_Instance := redact s (wt_Instance t1), OutcomeAt := zero_time, wt_RunID := []\<rparr>"
  have "s' = s\<lparr>st_waiting := st_waiting s @ [row]\<rparr>"
    "\<not> list_ex (\<lambda>w. wt_PlaybookName w = wt_PlaybookName row \<and> wt_Outcome w = WaitWaiting) (st_waiting s)"
    "i \<notin> wt_ID ` set (st_waiting s)"
    using assms ref unfolding AcceptWaiting_def Let_def option.case t1_def [symmetric]
    by (simp_all add: row_def t1_def split: if_splits)
  moreover have "wt_ID row = i" "wt_Outcome row = WaitWaiting" by (simp_all add: row_def t1_def)
  ultimately show ?thesis using that by blast
qed

lemma AcceptWaiting_keeps:
  assumes "AcceptWaiting (Some i) put t vals s = (s', r)" "i \<noteq> []" and inv: "waiting_inv s"
  shows "waiting_inv s'"
proof (cases "s' = s")
  case False
  with assms(1) obtain row where row: "s' = s\<lparr>st_waiting := st_waiting s @ [row]\<rparr>" "wt_ID row = i" "wt_Outcome row = WaitWaiting"
    "\<not> list_ex (\<lambda>w. wt_PlaybookName w = wt_PlaybookName row \<and> wt_Outcome w = WaitWaiting) (st_waiting s)"
    "i \<notin> wt_ID ` set (st_waiting s)" by (rule AcceptWaiting_cases)
  have new: "refusals_of s i = 0" "runs_of s i = 0"
    using inv assms(2) row(5) by (auto simp: waiting_inv_def refusals_of_def runs_of_def rows_where_0 references_def)
  have same: "refusals_of s' = refusals_of s" "runs_of s' = runs_of s"
    by (simp_all add: row(1) refusals_of_def runs_of_def fun_eq_iff)
  have acc: "accounted s' = accounted s" unfolding accounted_def fun_eq_iff same by simp
  have "accounted s row" using new row(2,3) by (simp add: accounted_def)
  then have "\<forall>w \<in> set (st_waiting s'). accounted s' w"
    using inv unfolding acc by (simp add: row(1) waiting_inv_def)
  moreover have "one_live (st_waiting s')" using one_live_append row(4) inv by (simp add: row(1) waiting_inv_def)
  moreover have "distinct (map wt_ID (st_waiting s'))" "[] \<notin> wt_ID ` set (st_waiting s')"
    using inv row(2,5) assms(2) by (simp_all add: row(1) waiting_inv_def)
  moreover have "references x (map wt_ID (st_waiting s'))" if "references x (map wt_ID (st_waiting s))" for x
    using that by (auto simp: references_def row(1))
  ultimately show ?thesis using inv unfolding waiting_inv_def by (simp add: row(1))
qed (use inv in simp)

lemma untouched_keeps:
  assumes "waiting_inv s" "st_waiting s' = st_waiting s" "st_refusals s' = st_refusals s" "st_runs s' = st_runs s"
  shows "waiting_inv s'"
  by (rule waiting_inv_same [OF assms(1)]) (simp_all add: assms refusals_of_def runs_of_def subset_insertI)

lemma store_step_keeps: "store_step s s' \<Longrightarrow> waiting_inv s \<Longrightarrow> waiting_inv s'"
proof (induction rule: store_step.induct)
  case (end_ran newID i at rn s s' r)
  then show ?case using EndWait_ran_keeps by metis
next
  case (interrupt now s s' n)
  then show ?case using MarkRunningAsInterrupted_keeps [of s now] by simp
next
  case (tick name t s s' r)
  then show ?case by - (rule untouched_keeps [of s], auto simp: SetLastTick_def split: if_splits)
next
  case (rate name i at s s')
  then show ?case by - (rule untouched_keeps [of s], auto simp: RecordRateStart_def)
next
  case (missed name at why s s')
  then show ?case by - (rule untouched_keeps [of s], auto simp: RecordMissedOccurrence_def)
qed (simp_all add: AcceptWaiting_keeps EndWait_refused_keeps RecordRefusal_keeps CreateRun_keeps FinishRun_keeps)

lemma store_steps_keep: "store_step\<^sup>*\<^sup>* s s' \<Longrightarrow> waiting_inv s \<Longrightarrow> waiting_inv s'"
  by (induction rule: rtranclp_induct) (auto intro: store_step_keeps)

lemma update_where_kept: "w \<in> set ws \<Longrightarrow> \<not> P w \<Longrightarrow> w \<in> set (update_where P f ws)"
  by (force simp: set_update_where)

lemma ended_row_kept:
  assumes "store_step s s'" "w \<in> set (st_waiting s)" "wt_Outcome w \<noteq> WaitWaiting"
  shows "w \<in> set (st_waiting s')"
  using assms
proof cases
  case (accept i put t vals r)
  show ?thesis
  proof (cases "s' = s")
    case False
    with accept(1) obtain row where "s' = s\<lparr>st_waiting := st_waiting s @ [row]\<rparr>" by (rule AcceptWaiting_cases)
    then show ?thesis using assms(2) by simp
  qed (use assms in simp)
next
  case (end_refused newID i o' at rf r)
  have "st_waiting s' = st_waiting s \<or> (\<exists>f. st_waiting s' = update_where (\<lambda>w. wt_ID w = i \<and> wt_Outcome w = WaitWaiting) f (st_waiting s))"
    using end_refused(1) insertRefusal_cases [of newID rf]
    by (fastforce simp: EndWait_def Let_def split: if_splits prod.splits sum.splits)
  then show ?thesis using assms(2,3) update_where_kept by fastforce
next
  case (create now rn r)
  have "st_waiting s' = st_waiting s \<or> (\<exists>f. st_waiting s' = update_where (\<lambda>w. wt_ID w = run_WaitingTriggerID rn \<and> wt_Outcome w = WaitWaiting) f (st_waiting s))"
    using create by (fastforce simp: CreateRun_def Let_def split: if_splits)
  then show ?thesis using assms(2,3) update_where_kept by fastforce
next
  case (end_ran newID i at rn r)
  have "st_waiting s' = st_waiting s \<or> (\<exists>f. st_waiting s' = update_where (\<lambda>w. wt_ID w = i \<and> wt_Outcome w = WaitWaiting) f (st_waiting s))"
    using end_ran(1) by (fastforce simp: EndWait_def Let_def split: if_splits)
  then show ?thesis using assms(2,3) update_where_kept by fastforce
qed (auto simp: RecordRefusal_def FinishRun_def MarkRunningAsInterrupted_def SetLastTick_def RecordRateStart_def
    RecordMissedOccurrence_def Let_def dest!: insertRefusal_cases split: if_splits)

subsection \<open>Properties\<close>

text \<open>The tables of a fresh state directory.\<close>

definition empty_store :: "redactor option \<Rightarrow> store" where
  "empty_store rd = \<lparr>st_redactor = rd, st_runs = [], st_refusals = [], st_waiting = [], st_last_ticks = [],
     st_rate_starts = [], st_missed = [], st_deliveries = [], st_identities = [], st_handoffs = [],
     st_delivery_refusals = [], st_counts = []\<rparr>"

lemma empty_store_inv: "waiting_inv (empty_store rd)"
  by (simp add: empty_store_def waiting_inv_def one_live_def)

text \<open>
  C11. In every state the store's statements can reach from a fresh one, a trigger that was accepted
  to wait is accounted for exactly once: while it waits neither a run nor a refusal names it, and no
  other trigger of its playbook waits; once it ran exactly one run names it and no refusal does; and
  once it ended otherwise exactly one refusal names it and no run does.
\<close>

theorem every_wait_ends_once:
  assumes "store_step\<^sup>*\<^sup>* (empty_store rd) s" "w \<in> set (st_waiting s)"
  shows "(wt_Outcome w = WaitWaiting \<and> refusals_of s (wt_ID w) = 0 \<and> runs_of s (wt_ID w) = 0 \<and>
       length (filter (\<lambda>v. wt_Outcome v = WaitWaiting \<and> wt_PlaybookName v = wt_PlaybookName w) (st_waiting s)) = 1) \<or>
     (wt_Outcome w = WaitRan \<and> refusals_of s (wt_ID w) = 0 \<and> runs_of s (wt_ID w) = 1) \<or>
     (wt_Outcome w \<notin> {WaitWaiting, WaitRan} \<and> refusals_of s (wt_ID w) = 1 \<and> runs_of s (wt_ID w) = 0)"
proof -
  have inv: "waiting_inv s" using store_steps_keep [OF assms(1) empty_store_inv] .
  then have acc: "accounted s w" using assms(2) by (simp add: waiting_inv_def)
  have one: "length (filter (\<lambda>v. wt_Outcome v = WaitWaiting \<and> wt_PlaybookName v = wt_PlaybookName w) (st_waiting s)) = 1"
    if "wt_Outcome w = WaitWaiting"
  proof -
    define ls where "ls = filter (\<lambda>v. wt_Outcome v = WaitWaiting) (st_waiting s)"
    have "distinct (map wt_PlaybookName ls)" "w \<in> set ls"
      using inv that assms(2) by (auto simp: waiting_inv_def one_live_def ls_def)
    then have "length (filter (\<lambda>v. wt_PlaybookName v = wt_PlaybookName w) ls) = 1"
      by (rule distinct_filter_one)
    then show ?thesis by (simp add: ls_def conj_commute)
  qed
  show ?thesis
    by (cases "wt_Outcome w") (use acc one in \<open>simp_all add: accounted_def\<close>)
qed

definition demo_trigger :: waiting_row where
  "demo_trigger = \<lparr>wt_ID = [], wt_PlaybookName = ''triage'', wt_PlaybookPath = ''/p/triage.yaml'',
     wt_TriggerKind = TriggerManual, wt_TriggerRef = [], AcceptedAt = 10, ExpiresAt = 20, wt_Instance = ''i1'',
     wt_Outcome = WaitWaiting, OutcomeAt = zero_time, wt_RunID = [], wt_DeliveryID = []\<rparr>"

definition demo_run :: run_row where
  "demo_run = \<lparr>run_ID = ''r1'', run_PlaybookName = ''triage'', ResolvedPlaybookRef = [], ReportRef = [],
     PromptRef = [], run_TriggerKind = TriggerManual, ParentRunID = [], run_Status = StatusRunning,
     StartedAt = 15, EndedAt = zero_time, CostUSD = 0, Tokens = 0, AgentSessionID = [], CredentialSource = [],
     run_Error = [], run_WaitingTriggerID = ''w1'', WaitedMS = 5, ClaimReach = ''single-host'', ClaimToken = 0,
     run_DeliveryID = []\<rparr>"

definition demo_waiting :: store where
  "demo_waiting = fst (AcceptWaiting (Some ''w1'') (\<lambda>_ _. Inr []) demo_trigger [] (empty_store None))"

definition demo_ran :: store where
  "demo_ran = fst (CreateRun 15 demo_run demo_waiting)"

lemmas store_eval = empty_store_def demo_trigger_def demo_run_def demo_waiting_def demo_ran_def AcceptWaiting_def
  CreateRun_def is_zero_def zero_time_def references_def rows_where_def update_where_def run_columns_def waited_ms_def
  refusals_of_def runs_of_def Redact_def Let_def

lemma demo_ran_reached: "store_step\<^sup>*\<^sup>* (empty_store None) demo_ran"
proof (rule converse_rtranclp_into_rtranclp)
  show "store_step (empty_store None) demo_waiting"
    unfolding demo_waiting_def by (rule store_step.accept [OF prod.collapse [symmetric]]) simp
  show "store_step\<^sup>*\<^sup>* demo_waiting demo_ran"
    unfolding demo_ran_def by (rule r_into_rtranclp, rule store_step.create [OF prod.collapse [symmetric]])
qed

theorem every_wait_ends_once_witness:
  "wt_Outcome (st_waiting demo_ran ! 0) = WaitRan \<and> refusals_of demo_ran ''w1'' = 0 \<and> runs_of demo_ran ''w1'' = 1"
  using every_wait_ends_once [OF demo_ran_reached, of "st_waiting demo_ran ! 0"]
  by (simp add: store_eval)

text \<open>
  A wait that ended stays as it ended.  Whatever the store does later, its row is never changed
  again; in particular a second end of it, from a racing process or a reconciliation, answers that it
  ended nothing and leaves the tables alone, and no run can be recorded under it.
\<close>

theorem ended_wait_is_final:
  assumes "store_step\<^sup>*\<^sup>* s s'" "waiting_inv s" "w \<in> set (st_waiting s)" "wt_Outcome w \<noteq> WaitWaiting"
  shows "w \<in> set (st_waiting s') \<and>
     (\<forall>newID e. we_Outcome e \<noteq> WaitWaiting \<and> \<not> is_zero (we_At e) \<and> we_RunID e = [] \<longrightarrow>
        EndWait newID (wt_ID w) e s' = (s', Inr False)) \<and>
     (\<forall>now rn. run_WaitingTriggerID rn = wt_ID w \<longrightarrow> fst (CreateRun now rn s') = s' \<and> isl (snd (CreateRun now rn s')))"
proof -
  from assms(1) have w: "w \<in> set (st_waiting s')"
    by (induction rule: rtranclp_induct) (use assms(3,4) ended_row_kept in blast)+
  have inv: "waiting_inv s'" using store_steps_keep [OF assms(1,2)] .
  have none: "rows_where (\<lambda>v. wt_ID v = wt_ID w \<and> wt_Outcome v = WaitWaiting) (st_waiting s') = 0"
    using inv w assms(4) by (auto simp: waiting_inv_def rows_where_0 distinct_map inj_on_def)
  have "wt_ID w \<noteq> []" using inv w unfolding waiting_inv_def by (metis image_eqI)
  with w none show ?thesis
    by (auto simp: EndWait_def CreateRun_def Let_def references_def)
qed

theorem ended_wait_is_final_witness:
  "EndWait None ''w1'' \<lparr>we_Outcome = WaitDropped, we_At = 16, we_RunID = [], we_Refusal = None\<rparr> demo_ran = (demo_ran, Inr False)"
proof -
  have row: "st_waiting demo_ran ! 0 \<in> set (st_waiting demo_ran)" "wt_Outcome (st_waiting demo_ran ! 0) \<noteq> WaitWaiting"
    "wt_ID (st_waiting demo_ran ! 0) = ''w1''" by (simp_all add: store_eval)
  from ended_wait_is_final [OF rtranclp.rtrancl_refl store_steps_keep [OF demo_ran_reached empty_store_inv] row(1,2)]
  show ?thesis unfolding row(3) by (simp add: is_zero_def zero_time_def)
qed

end
