(* ===== verification/Deliveries.thy ===== *)
theory Deliveries
  imports Store
begin

text \<open>
  Webhook deliveries in the record store: \<open>accept.go\<close>, \<open>deliveries.go\<close> and \<open>delivery_refusals.go\<close>.
  \<open>Accept\<close> is one transaction: it answers the tables it leaves, which are those it met when it fails.
  The walk along superseded deliveries is a loop that ends only because a delivery supersedes an
  earlier one, so it is a partial function and its end is a theorem.  The digest, the identifiers and
  the blob store are parameters; a failed write of the database file is outside the model.
\<close>

subsection \<open>Reading and setting deliveries\<close>

definition GetDelivery :: "string \<Rightarrow> store \<Rightarrow> (store_error, delivery) result" where
  "GetDelivery id' s = (case find (\<lambda>d. dlv_ID d = id') (st_deliveries s) of
     None \<Rightarrow> Inl (NoDelivery id') | Some d \<Rightarrow> Inr d)"

definition handoffs_of :: "store \<Rightarrow> string \<Rightarrow> handoff list" where
  "handoffs_of s d = filter (\<lambda>h. ho_DeliveryID h = d) (st_handoffs s)"

definition set_handoff :: "string \<Rightarrow> string \<Rightarrow> handoff_state \<Rightarrow> time \<Rightarrow> store \<Rightarrow> store" where
  "set_handoff d p state at s = s\<lparr>st_handoffs :=
     update_where (\<lambda>h. ho_DeliveryID h = d \<and> ho_PlaybookName h = p) (\<lambda>h. h\<lparr>ho_State := state, DecidedAt := at\<rparr>)
       (st_handoffs s)\<rparr>"

definition SetHandOffState :: "string \<Rightarrow> string \<Rightarrow> handoff_state \<Rightarrow> time \<Rightarrow> store \<Rightarrow> unit st_result" where
  "SetHandOffState d p state decidedAt s =
     (if rows_where (\<lambda>h. ho_DeliveryID h = d \<and> ho_PlaybookName h = p) (st_handoffs s) = 0
      then (s, Inl (NoDelivery d)) else (set_handoff d p state decidedAt s, Inr ()))"

definition set_delivery :: "string \<Rightarrow> delivery_state \<Rightarrow> store \<Rightarrow> store" where
  "set_delivery d state s = s\<lparr>st_deliveries :=
     update_where (\<lambda>x. dlv_ID x = d) (\<lambda>x. x\<lparr>dlv_State := state\<rparr>) (st_deliveries s)\<rparr>"

definition SetDeliveryState :: "string \<Rightarrow> delivery_state \<Rightarrow> store \<Rightarrow> unit st_result" where
  "SetDeliveryState d state s =
     (if rows_where (\<lambda>x. dlv_ID x = d) (st_deliveries s) = 0 then (s, Inl (NotFound d))
      else (set_delivery d state s, Inr ()))"

subsection \<open>Reconciling one delivery\<close>

definition decidedElsewhere :: "store \<Rightarrow> string \<Rightarrow> string \<Rightarrow> handoff_state option" where
  "decidedElsewhere s d p =
     (if list_ex (\<lambda>r. run_DeliveryID r = d \<and> run_PlaybookName r = p) (st_runs s) then Some HandOffHandedOff
      else if list_ex (\<lambda>r. rfl_DeliveryID r = d \<and> rfl_PlaybookName r = p \<and> rfl_Mechanism r \<noteq> MechanismDropped)
        (st_refusals s) then Some HandOffRefused
      else if list_ex (\<lambda>r. dr_DeliveryID r = d \<and> dr_PlaybookName r = p) (st_delivery_refusals s)
      then Some HandOffRefused else None)"

definition drop_refusal :: "string \<Rightarrow> string \<Rightarrow> string \<Rightarrow> string \<Rightarrow> time \<Rightarrow> refusal_row" where
  "drop_refusal id' p waitingID d at = \<lparr>rfl_ID = id', rfl_PlaybookName = p, rfl_TriggerKind = TriggerWebhook,
     rfl_DueAt = zero_time, rfl_WaitingTriggerID = waitingID, rfl_Mechanism = MechanismDropped,
     rfl_Detail = ''delivery '' @ d @ '': accepting process ended before its wait resolved'',
     RefusedAt = at, rfl_DeliveryID = d\<rparr>"

definition reconcile_wait ::
  "(string \<Rightarrow> string option) \<Rightarrow> string \<Rightarrow> time \<Rightarrow> string \<Rightarrow> store \<Rightarrow> (store_error, store) result" where
  "reconcile_wait newRecordID d at p s =
     (case find (\<lambda>w. wt_DeliveryID w = d \<and> wt_PlaybookName w = p \<and> wt_Outcome w = WaitWaiting) (st_waiting s) of
        None \<Rightarrow> Inr s
      | Some w \<Rightarrow> (case newRecordID p of
            None \<Rightarrow> Inl NoIdentifier
          | Some id' \<Rightarrow>
              if id' \<in> rfl_ID ` set (st_refusals s) then Inl (ConstraintFailed id')
              else Inr (s\<lparr>st_waiting := update_where (\<lambda>x. wt_ID x = wt_ID w \<and> wt_Outcome x = WaitWaiting)
                       (\<lambda>x. x\<lparr>wt_Outcome := WaitDropped, OutcomeAt := at\<rparr>) (st_waiting s),
                     st_refusals := st_refusals s @ [drop_refusal id' p (wt_ID w) d at]\<rparr>)))"

primrec reconcile_loop ::
  "(string \<Rightarrow> string option) \<Rightarrow> string \<Rightarrow> time \<Rightarrow> string list \<Rightarrow> bool \<Rightarrow> store \<Rightarrow> (store_error, store \<times> bool) result" where
  "reconcile_loop newRecordID d at [] dropped s = Inr (s, dropped)"
| "reconcile_loop newRecordID d at (p # pending) dropped s =
     (case decidedElsewhere s d p of
        Some state \<Rightarrow> reconcile_loop newRecordID d at pending dropped (set_handoff d p state at s)
      | None \<Rightarrow> (case reconcile_wait newRecordID d at p s of
            Inl e \<Rightarrow> Inl e
          | Inr s' \<Rightarrow> reconcile_loop newRecordID d at pending True (set_handoff d p HandOffDropped at s')))"

definition pending_of :: "store \<Rightarrow> string \<Rightarrow> string list" where
  "pending_of s d = map ho_PlaybookName
     (filter (\<lambda>h. ho_State h = HandOffPending \<or> ho_State h = HandOffWaiting) (handoffs_of s d))"

definition reconcileDelivery ::
  "(string \<Rightarrow> string option) \<Rightarrow> string \<Rightarrow> time \<Rightarrow> store \<Rightarrow> (store_error, store) result" where
  "reconcileDelivery newRecordID d at s =
     (case reconcile_loop newRecordID d at (pending_of s d) False s of
        Inl e \<Rightarrow> Inl e
      | Inr (s', dropped) \<Rightarrow> Inr (set_delivery d (if dropped then DeliveryDropped else DeliveryHandedOff) s'))"

subsection \<open>Accepting a delivery\<close>

record accept_params =
  ap_Source :: string
  ap_Identity :: string
  ap_IdentityKind :: identity_kind
  ap_Body :: string
  ap_Peer :: string
  ap_ReceivedAt :: time
  ap_Instance :: string
  ReplayWindow :: duration
  ap_Playbooks :: "string list"

definition existingDelivery :: "string \<Rightarrow> string \<Rightarrow> store \<Rightarrow> (store_error, delivery option) result" where
  "existingDelivery source identity s =
     (case map_of (st_identities s) (source, identity) of
        None \<Rightarrow> Inr None
      | Some (d, acceptedAt) \<Rightarrow> (case find (\<lambda>x. dlv_ID x = d) (st_deliveries s) of
            None \<Rightarrow> Inl (NotFound d)
          | Some x \<Rightarrow> Inr (Some (x\<lparr>dlv_ReceivedAt := acceptedAt\<rparr>))))"

definition judge ::
  "(string \<Rightarrow> string option) \<Rightarrow> delivery \<Rightarrow> accept_params \<Rightarrow> (string \<Rightarrow> bool) option \<Rightarrow> store \<Rightarrow>
   (store_error, store \<times> bool \<times> string) result" where
  "judge newRecordID existing params alive s =
     (if time_sub (ap_ReceivedAt params) (dlv_ReceivedAt existing) \<ge> ReplayWindow params then Inr (s, True, [])
      else if dlv_State existing = DeliveryDropped then Inr (s, True, dlv_ID existing)
      else if dlv_State existing \<noteq> DeliveryAccepted \<and> dlv_State existing \<noteq> DeliveryWaiting then Inr (s, False, [])
      else if (case alive of None \<Rightarrow> True | Some f \<Rightarrow> f (dlv_Instance existing)) then Inr (s, False, [])
      else (case reconcileDelivery newRecordID (dlv_ID existing) (ap_ReceivedAt params) s of
          Inl e \<Rightarrow> Inl e
        | Inr s' \<Rightarrow> (case find (\<lambda>x. dlv_ID x = dlv_ID existing) (st_deliveries s') of
              None \<Rightarrow> Inl (NotFound (dlv_ID existing))
            | Some x \<Rightarrow> if dlv_State x = DeliveryDropped then Inr (s', True, dlv_ID existing)
                else Inr (s', False, []))))"

definition decided_of :: "store \<Rightarrow> string \<Rightarrow> string list" where
  "decided_of s d = map ho_PlaybookName
     (filter (\<lambda>h. ho_State h = HandOffHandedOff \<or> ho_State h = HandOffRefused) (handoffs_of s d))"

partial_function (option) decidedInChain ::
  "store \<Rightarrow> string \<Rightarrow> string list \<Rightarrow> (store_error, string list) result option" where
  "decidedInChain s d decided =
     (if d = [] then Some (Inr decided)
      else case find (\<lambda>x. dlv_ID x = d) (st_deliveries s) of
        None \<Rightarrow> Some (Inl (NotFound d))
      | Some x \<Rightarrow> decidedInChain s (Supersedes x) (decided @ decided_of s d))"

definition undecided_playbooks ::
  "store \<Rightarrow> string \<Rightarrow> string list \<Rightarrow> (store_error, string list) result option" where
  "undecided_playbooks s supersedes playbooks =
     (if supersedes = [] then Some (Inr playbooks)
      else map_option (map_sum id (\<lambda>decided. filter (\<lambda>name. name \<notin> set decided) playbooks))
             (decidedInChain s supersedes []))"

text \<open>The three inserts of a new delivery, in the transaction.\<close>

definition new_delivery :: "delivery \<Rightarrow> string list \<Rightarrow> store \<Rightarrow> (store_error, store) result" where
  "new_delivery d playbooks s =
     (if dlv_ID d \<in> dlv_ID ` set (st_deliveries s) \<or> \<not> references (Supersedes d) (map dlv_ID (st_deliveries s))
      then Inl (ConstraintFailed (dlv_ID d))
      else
        let names = map (redact s) playbooks;
            rows = map (\<lambda>p. \<lparr>ho_DeliveryID = dlv_ID d, ho_PlaybookName = p, ho_State = HandOffPending,
                      DecidedAt = zero_time\<rparr>) names
        in if \<not> distinct names \<or> list_ex (\<lambda>h. ho_DeliveryID h = dlv_ID d \<and> ho_PlaybookName h \<in> set names) (st_handoffs s)
           then Inl (ConstraintFailed (dlv_ID d))
           else Inr (s\<lparr>st_deliveries := st_deliveries s @ [d],
                  st_identities := map_set (dlv_Source d, dlv_Identity d) (dlv_ID d, dlv_ReceivedAt d) (st_identities s),
                  st_handoffs := st_handoffs s @ rows\<rparr>))"

definition accept_identity :: "(string \<Rightarrow> string) \<Rightarrow> accept_params \<Rightarrow> store \<Rightarrow> string \<times> identity_kind" where
  "accept_identity sha params s =
     (if ap_IdentityKind params = IdentityNone then (sha (ap_Body params), IdentityDigest)
      else (redact s (ap_Identity params), ap_IdentityKind params))"

definition Accept ::
  "(string \<Rightarrow> string) \<Rightarrow> string option \<Rightarrow> (string \<Rightarrow> string option) \<Rightarrow> (string \<Rightarrow> string \<Rightarrow> (string, string) result) \<Rightarrow>
   accept_params \<Rightarrow> (string \<Rightarrow> bool) option \<Rightarrow> store \<Rightarrow> (delivery \<times> bool) st_result option" where
  "Accept sha newID newRecordID put params alive s =
     (if is_zero (ap_ReceivedAt params) then Some (s, Inl (NoTime (ap_Source params)))
      else
        let (identity, kind) = accept_identity sha params s;
            source = redact s (ap_Source params);
            judged = (case existingDelivery source identity s of
                Inl e \<Rightarrow> Inl e
              | Inr None \<Rightarrow> Inr (s, True, [], None)
              | Inr (Some x) \<Rightarrow> map_sum id (\<lambda>(s1, isNew, supersedes). (s1, isNew, supersedes, Some x))
                  (judge newRecordID x params alive s))
        in case judged of
             Inl e \<Rightarrow> Some (s, Inl e)
           | Inr (s1, False, _, Some existing) \<Rightarrow>
               Some (s1\<lparr>st_deliveries := update_where (\<lambda>x. dlv_ID x = dlv_ID existing)
                       (\<lambda>x. x\<lparr>Repeats := Repeats x + 1\<rparr>) (st_deliveries s1)\<rparr>,
                     Inr (existing\<lparr>Repeats := Repeats existing + 1\<rparr>, False))
           | Inr (s1, _, supersedes, _) \<Rightarrow>
               (case undecided_playbooks s1 supersedes (ap_Playbooks params) of
                  None \<Rightarrow> None
                | Some (Inl e) \<Rightarrow> Some (s, Inl e)
                | Some (Inr playbooks) \<Rightarrow> (case newID of
                      None \<Rightarrow> Some (s, Inl NoIdentifier)
                    | Some deliveryID \<Rightarrow> (case put deliveryID (ap_Body params) of
                          Inl e \<Rightarrow> Some (s, Inl (BlobFailed e))
                        | Inr bodyRef \<Rightarrow>
                            let d = \<lparr>dlv_ID = deliveryID, dlv_Source = source, dlv_Identity = identity,
                                  dlv_IdentityKind = kind, dlv_ReceivedAt = ap_ReceivedAt params,
                                  dlv_Peer = redact s (ap_Peer params), dlv_BodyRef = bodyRef,
                                  BodySHA256 = sha (ap_Body params), Repeats = 0,
                                  dlv_Instance = redact s (ap_Instance params), Supersedes = supersedes,
                                  dlv_State = DeliveryAccepted\<rparr>
                            in (case new_delivery d playbooks s1 of
                                  Inl e \<Rightarrow> Some (s, Inl e)
                                | Inr s2 \<Rightarrow> Some (s2, Inr (d, True)))))))"

subsection \<open>Refused deliveries\<close>

definition AddDeliveryRefusal ::
  "string option \<Rightarrow> (string \<Rightarrow> string \<Rightarrow> (string, string) result) \<Rightarrow> delivery_refusal \<Rightarrow> string \<Rightarrow> store \<Rightarrow> string st_result" where
  "AddDeliveryRefusal newRecordID put refusal body s =
     (case (if dr_ID refusal = [] then newRecordID else Some (dr_ID refusal)) of
        None \<Rightarrow> (s, Inl NoIdentifier)
      | Some id' \<Rightarrow>
          if is_zero (dr_ReceivedAt refusal) then (s, Inl (NoTime id'))
          else (case (if body = [] then Inr (dr_BodyRef refusal) else put id' body) of
              Inl e \<Rightarrow> (s, Inl (BlobFailed e))
            | Inr ref \<Rightarrow>
                if id' \<in> dr_ID ` set (st_delivery_refusals s) \<or>
                   \<not> references (dr_DeliveryID refusal) (map dlv_ID (st_deliveries s))
                then (s, Inl (ConstraintFailed id'))
                else (s\<lparr>st_delivery_refusals := st_delivery_refusals s @ [refusal\<lparr>dr_ID := id',
                         dr_Source := redact s (dr_Source refusal), dr_ValueName := redact s (dr_ValueName refusal),
                         dr_PlaybookName := redact s (dr_PlaybookName refusal), dr_BodyRef := ref\<rparr>]\<rparr>, Inr id')))"

definition CountUnauthenticated :: "time \<Rightarrow> string \<Rightarrow> string \<Rightarrow> string \<Rightarrow> time \<Rightarrow> store \<Rightarrow> store" where
  "CountUnauthenticated interval reason bucket peer at s =
     (let key = (interval, reason, bucket) in
      s\<lparr>st_counts := (case map_of (st_counts s) key of
          None \<Rightarrow> st_counts s @ [(key, 1, peer, at)]
        | Some (n, _, _) \<Rightarrow> update_where (\<lambda>(k, _). k = key) (\<lambda>(k, _). (k, n + 1, peer, at)) (st_counts s))\<rparr>)"

subsection \<open>The chain of superseded deliveries\<close>

text \<open>
  A delivery supersedes only one the table already held, so the table read from its newest row back
  is a forest.  \<open>links\<close> is what the walk reads of it.
\<close>

definition links :: "store \<Rightarrow> (string \<times> string) list" where
  "links s = map (\<lambda>d. (dlv_ID d, Supersedes d)) (st_deliveries s)"

fun newest_first :: "(string \<times> string) list \<Rightarrow> bool" where
  "newest_first [] \<longleftrightarrow> True"
| "newest_first ((d, e) # ls) \<longleftrightarrow> newest_first ls \<and> (e = [] \<or> e \<in> fst ` set ls)"

definition deliveries_inv :: "store \<Rightarrow> bool" where
  "deliveries_inv s \<longleftrightarrow> newest_first (rev (links s)) \<and>
     (\<forall>(k, d, at) \<in> set (st_identities s). d \<in> fst ` set (links s)) \<and>
     (\<forall>h \<in> set (st_handoffs s). ho_DeliveryID h \<in> fst ` set (links s))"




lemma find_links:
  "map_of (links s) d = map_option Supersedes (find (\<lambda>x. dlv_ID x = d) (st_deliveries s))"
proof -
  have "map_of (map (\<lambda>d. (dlv_ID d, Supersedes d)) ds) d = map_option Supersedes (find (\<lambda>x. dlv_ID x = d) ds)" for ds
    by (induction ds) auto
  then show ?thesis by (simp add: links_def)
qed

lemma decidedInChain_ends:
  assumes "newest_first (rev pre)" "links s = pre @ post" "d = [] \<or> d \<in> fst ` set pre"
  shows "\<exists>ns. decidedInChain s d acc = Some (Inr ns)"
  using assms
proof (induction pre arbitrary: d acc post rule: rev_induct)
  case Nil
  then show ?case by (simp add: decidedInChain.simps)
next
  case (snoc l pre)
  obtain a b where l: "l = (a, b)" by (cases l)
  have nf: "newest_first (rev pre)" "b = [] \<or> b \<in> fst ` set pre" using snoc.prems(1) by (simp_all add: l)
  have links: "links s = pre @ (l # post)" using snoc.prems(2) by simp
  note ih = snoc.IH [OF nf(1) links]
  show ?case
  proof (cases "d = [] \<or> d \<in> fst ` set pre")
    case False
    then have "d = a" "map_of pre d = None" using snoc.prems(3) l by (auto simp: map_of_eq_None_iff)
    then have "map_of (links s) d = Some b" unfolding snoc.prems(2) l by (simp add: map_add_def)
    then obtain x where "find (\<lambda>x. dlv_ID x = d) (st_deliveries s) = Some x" "Supersedes x = b"
      unfolding find_links by auto
    then show ?thesis using ih [OF nf(2)] by (subst decidedInChain.simps) auto
  qed (rule ih)
qed


subsection \<open>What reconciling leaves\<close>

lemma set_handoff_keeps [simp]:
  "st_deliveries (set_handoff d p state at s) = st_deliveries s" "st_identities (set_handoff d p state at s) = st_identities s"
  "st_waiting (set_handoff d p state at s) = st_waiting s" "st_refusals (set_handoff d p state at s) = st_refusals s"
  "st_runs (set_handoff d p state at s) = st_runs s" "st_delivery_refusals (set_handoff d p state at s) = st_delivery_refusals s"
  "st_redactor (set_handoff d p state at s) = st_redactor s"
  "map ho_DeliveryID (st_handoffs (set_handoff d p state at s)) = map ho_DeliveryID (st_handoffs s)"
  by (simp_all add: set_handoff_def update_where_map)

lemma decidedElsewhere_cong:
  "st_runs s' = st_runs s \<Longrightarrow> st_refusals s' = st_refusals s \<Longrightarrow> st_delivery_refusals s' = st_delivery_refusals s \<Longrightarrow>
   decidedElsewhere s' d p = decidedElsewhere s d p"
  by (simp add: decidedElsewhere_def)

lemma reconcile_wait_keeps:
  assumes "reconcile_wait newRecordID d at p s = Inr s'"
  shows "st_deliveries s' = st_deliveries s" "st_identities s' = st_identities s" "st_handoffs s' = st_handoffs s"
    "st_redactor s' = st_redactor s" "decidedElsewhere s' d' q = decidedElsewhere s d' q"
  using assms by (auto simp: reconcile_wait_def decidedElsewhere_def drop_refusal_def split: option.splits if_splits)

lemma reconcile_wait_inv:
  assumes r: "reconcile_wait newRecordID d at p s = Inr s'" and inv: "waiting_inv s"
  shows "waiting_inv s'"
proof (cases "find (\<lambda>w. wt_DeliveryID w = d \<and> wt_PlaybookName w = p \<and> wt_Outcome w = WaitWaiting) (st_waiting s)")
  case (Some w)
  define f where "f = (\<lambda>x :: waiting_row. x\<lparr>wt_Outcome := WaitDropped, OutcomeAt := at\<rparr>)"
  have w: "w \<in> set (st_waiting s)" "wt_Outcome w = WaitWaiting"
    using Some by (auto simp: find_Some_iff)
  obtain id' where s': "s' = s\<lparr>st_waiting := update_where (\<lambda>x. wt_ID x = wt_ID w \<and> wt_Outcome x = WaitWaiting) f (st_waiting s),
      st_refusals := st_refusals s @ [drop_refusal id' p (wt_ID w) d at]\<rparr>"
    using r Some by (auto simp: reconcile_wait_def f_def split: option.splits if_splits)
  show ?thesis
    by (rule waiting_inv_end [where f = f and o' = WaitDropped and i = "wt_ID w", OF inv rows_where_pos [OF w(1)]])
      (use w(2) in \<open>auto simp: s' f_def drop_refusal_def refusals_of_def runs_of_def rows_where_def\<close>)
qed (use r inv in \<open>simp add: reconcile_wait_def\<close>)

lemma untouched_keeps_handoff: "waiting_inv s \<Longrightarrow> waiting_inv (set_handoff d p state at s)"
  by (rule untouched_keeps) simp_all

lemma reconcile_loop_keeps:
  "reconcile_loop newRecordID d at pending dropped s = Inr (s', dropped') \<Longrightarrow>
     st_deliveries s' = st_deliveries s \<and> st_identities s' = st_identities s \<and> st_redactor s' = st_redactor s \<and>
     map ho_DeliveryID (st_handoffs s') = map ho_DeliveryID (st_handoffs s) \<and>
     (dropped' \<longleftrightarrow> dropped \<or> (\<exists>p \<in> set pending. decidedElsewhere s d p = None)) \<and>
     (waiting_inv s \<longrightarrow> waiting_inv s')"
proof (induction pending arbitrary: dropped s)
  case (Cons p pending)
  show ?case
  proof (cases "decidedElsewhere s d p")
    case None
    with Cons.prems obtain s1 where s1: "reconcile_wait newRecordID d at p s = Inr s1"
      and l: "reconcile_loop newRecordID d at pending True (set_handoff d p HandOffDropped at s1) = Inr (s', dropped')"
      by (auto split: sum.splits)
    note k = reconcile_wait_keeps [OF s1]
    show ?thesis using Cons.IH [OF l] None k reconcile_wait_inv [OF s1] untouched_keeps_handoff by auto
  next
    case (Some state)
    with Cons.prems have l: "reconcile_loop newRecordID d at pending dropped (set_handoff d p state at s) = Inr (s', dropped')" by simp
    have "decidedElsewhere (set_handoff d p state at s) d q = decidedElsewhere s d q" for q
      by (rule decidedElsewhere_cong) simp_all
    then show ?thesis using Cons.IH [OF l] Some untouched_keeps_handoff by auto
  qed
qed simp

lemma reconcileDelivery_keeps:
  assumes "reconcileDelivery newRecordID d at s = Inr s'"
  shows "links s' = links s" "st_identities s' = st_identities s" "st_redactor s' = st_redactor s"
    "map ho_DeliveryID (st_handoffs s') = map ho_DeliveryID (st_handoffs s)" "waiting_inv s \<Longrightarrow> waiting_inv s'"
    "st_deliveries s' = update_where (\<lambda>x. dlv_ID x = d)
       (\<lambda>x. x\<lparr>dlv_State := if \<exists>p \<in> set (pending_of s d). decidedElsewhere s d p = None then DeliveryDropped else DeliveryHandedOff\<rparr>)
       (st_deliveries s)"
proof -
  obtain s1 dr where l: "reconcile_loop newRecordID d at (pending_of s d) False s = Inr (s1, dr)"
    and s': "s' = set_delivery d (if dr then DeliveryDropped else DeliveryHandedOff) s1"
    using assms by (auto simp: reconcileDelivery_def split: sum.splits)
  note k = reconcile_loop_keeps [OF l]
  show "st_identities s' = st_identities s" "st_redactor s' = st_redactor s"
    "map ho_DeliveryID (st_handoffs s') = map ho_DeliveryID (st_handoffs s)"
    using k by (simp_all add: s' set_delivery_def)
  show "links s' = links s" using k by (simp add: s' set_delivery_def links_def update_where_map)
  show "waiting_inv s \<Longrightarrow> waiting_inv s'"
    using k unfolding s' set_delivery_def by - (rule untouched_keeps [of s1], simp_all)
  show "st_deliveries s' = update_where (\<lambda>x. dlv_ID x = d)
       (\<lambda>x. x\<lparr>dlv_State := if \<exists>p \<in> set (pending_of s d). decidedElsewhere s d p = None then DeliveryDropped else DeliveryHandedOff\<rparr>)
       (st_deliveries s)"
    using k by (simp add: s' set_delivery_def)
qed

lemma find_update_where:
  "find (\<lambda>x. dlv_ID x = d) ds = Some x \<Longrightarrow> (\<And>y. dlv_ID (f y) = dlv_ID y) \<Longrightarrow>
   find (\<lambda>x. dlv_ID x = d) (update_where (\<lambda>x. dlv_ID x = d) f ds) = Some (f x)"
  by (induction ds) (auto simp: update_where_def split: if_splits)

subsection \<open>The decision of an acceptance\<close>

text \<open>When an identity the store holds is new again.\<close>

definition new_again :: "accept_params \<Rightarrow> (string \<Rightarrow> bool) option \<Rightarrow> store \<Rightarrow> delivery \<Rightarrow> bool" where
  "new_again params alive s x \<longleftrightarrow>
     time_sub (ap_ReceivedAt params) (dlv_ReceivedAt x) \<ge> ReplayWindow params \<or>
     dlv_State x = DeliveryDropped \<or>
     (dlv_State x \<in> {DeliveryAccepted, DeliveryWaiting} \<and> (\<exists>f. alive = Some f \<and> \<not> f (dlv_Instance x)) \<and>
      (\<exists>p \<in> set (pending_of s (dlv_ID x)). decidedElsewhere s (dlv_ID x) p = None))"

definition same_tables :: "store \<Rightarrow> store \<Rightarrow> bool" where
  "same_tables s s' \<longleftrightarrow> links s' = links s \<and> st_identities s' = st_identities s \<and> st_redactor s' = st_redactor s \<and>
     map ho_DeliveryID (st_handoffs s') = map ho_DeliveryID (st_handoffs s) \<and> (waiting_inv s \<longrightarrow> waiting_inv s')"

lemma same_tables_refl: "same_tables s s"
  by (simp add: same_tables_def)

lemma judge_spec:
  assumes j: "judge newRecordID x params alive s = Inr (s1, isNew, sps)"
    and x: "find (\<lambda>y. dlv_ID y = dlv_ID x) (st_deliveries s) = Some y"
  shows "(isNew \<longleftrightarrow> new_again params alive s x) \<and> sps \<in> {[], dlv_ID x} \<and> same_tables s s1"
proof -
  define stale where "stale \<longleftrightarrow> \<not> time_sub (ap_ReceivedAt params) (dlv_ReceivedAt x) \<ge> ReplayWindow params \<and>
    dlv_State x \<in> {DeliveryAccepted, DeliveryWaiting} \<and> (\<exists>f. alive = Some f \<and> \<not> f (dlv_Instance x))"
  show ?thesis
  proof (cases stale)
    case True
    then obtain s' where r: "reconcileDelivery newRecordID (dlv_ID x) (ap_ReceivedAt params) s = Inr s'"
      and s1: "s1 = s'" and rest: "case find (\<lambda>y. dlv_ID y = dlv_ID x) (st_deliveries s') of
         None \<Rightarrow> False | Some z \<Rightarrow> isNew = (dlv_State z = DeliveryDropped) \<and> sps \<in> {[], dlv_ID x}"
      using j by (auto simp: judge_def stale_def split: if_splits sum.splits option.splits)
    note k = reconcileDelivery_keeps [OF r]
    have "same_tables s s1" using k by (simp add: same_tables_def s1)
    moreover have "isNew \<longleftrightarrow> (\<exists>p \<in> set (pending_of s (dlv_ID x)). decidedElsewhere s (dlv_ID x) p = None)" "sps \<in> {[], dlv_ID x}"
      using rest unfolding k(6) by (simp_all add: find_update_where [OF x] split: if_splits)
    ultimately show ?thesis using True by (auto simp: new_again_def stale_def)
  next
    case False
    have "s1 = s \<and> sps \<in> {[], dlv_ID x} \<and> (isNew \<longleftrightarrow>
        time_sub (ap_ReceivedAt params) (dlv_ReceivedAt x) \<ge> ReplayWindow params \<or> dlv_State x = DeliveryDropped)"
      using j False by (auto simp: judge_def stale_def split: if_splits option.splits)
    then show ?thesis using False same_tables_refl by (auto simp: new_again_def stale_def)
  qed
qed

lemma existingDelivery_Some:
  "existingDelivery source identity s = Inr (Some x) \<Longrightarrow> \<exists>y. find (\<lambda>y. dlv_ID y = dlv_ID x) (st_deliveries s) = Some y"
  by (auto simp: existingDelivery_def find_Some_iff split: option.splits) force

lemma map_sum_Inr: "map_sum f g r = Inr y \<longleftrightarrow> (\<exists>z. r = Inr z \<and> g z = y)"
  by (cases r) auto

lemma Accept_cases:
  assumes "Accept sha newID newRecordID put params alive s = Some (s', Inr (d, isNew))"
    and "accept_identity sha params s = (identity, kind)"
  obtains
    (again) x s1 sps where "existingDelivery (redact s (ap_Source params)) identity s = Inr (Some x)"
      "judge newRecordID x params alive s = Inr (s1, False, sps)" "\<not> isNew"
      "s' = s1\<lparr>st_deliveries := update_where (\<lambda>y. dlv_ID y = dlv_ID x) (\<lambda>y. y\<lparr>Repeats := Repeats y + 1\<rparr>) (st_deliveries s1)\<rparr>"
      "d = x\<lparr>Repeats := Repeats x + 1\<rparr>"
  | (fresh) s1 playbooks where "isNew"
      "existingDelivery (redact s (ap_Source params)) identity s = Inr None \<and> s1 = s \<and> Supersedes d = [] \<or>
       (\<exists>x. existingDelivery (redact s (ap_Source params)) identity s = Inr (Some x) \<and>
            judge newRecordID x params alive s = Inr (s1, True, Supersedes d))"
      "undecided_playbooks s1 (Supersedes d) (ap_Playbooks params) = Some (Inr playbooks)"
      "new_delivery d playbooks s1 = Inr s'"
      "dlv_Source d = redact s (ap_Source params)" "dlv_Identity d = identity" "dlv_ReceivedAt d = ap_ReceivedAt params"
proof -
  let ?ex = "existingDelivery (redact s (ap_Source params)) identity s"
  define judged where "judged = (case ?ex of Inl e \<Rightarrow> Inl e | Inr None \<Rightarrow> Inr (s, True, [], None)
    | Inr (Some x) \<Rightarrow> map_sum id (\<lambda>(s1, isNew, supersedes). (s1, isNew, supersedes, Some x)) (judge newRecordID x params alive s))"
  from assms obtain s1 nw sps xo where j: "judged = Inr (s1, nw, sps, xo)"
    by (cases judged) (auto simp: Accept_def Let_def judged_def [symmetric] split: if_splits)
  then have j': "?ex = Inr None \<and> s1 = s \<and> sps = [] \<and> nw \<and> xo = None \<or>
      (\<exists>x. ?ex = Inr (Some x) \<and> xo = Some x \<and> judge newRecordID x params alive s = Inr (s1, nw, sps))"
    unfolding judged_def by (auto simp: map_sum_Inr split: sum.splits option.splits)
  show ?thesis
  proof (cases nw)
    case True
    have "isNew" "Supersedes d = sps" "dlv_Source d = redact s (ap_Source params)" "dlv_Identity d = identity"
      "dlv_ReceivedAt d = ap_ReceivedAt params"
      "\<exists>playbooks. undecided_playbooks s1 sps (ap_Playbooks params) = Some (Inr playbooks) \<and> new_delivery d playbooks s1 = Inr s'"
      using assms True j by (auto simp: Accept_def Let_def judged_def [symmetric] split: if_splits option.splits sum.splits)
    note d = this
    from d(6) obtain playbooks where pb: "undecided_playbooks s1 sps (ap_Playbooks params) = Some (Inr playbooks)"
      "new_delivery d playbooks s1 = Inr s'" by blast
    from j' True d(2) have "?ex = Inr None \<and> s1 = s \<and> Supersedes d = [] \<or>
       (\<exists>x. ?ex = Inr (Some x) \<and> judge newRecordID x params alive s = Inr (s1, True, Supersedes d))" by auto
    from fresh [OF d(1) this _ pb(2) d(3-5)] pb(1) d(2) show ?thesis by simp
  next
    case False
    with j' obtain x where x: "?ex = Inr (Some x)" "xo = Some x" "judge newRecordID x params alive s = Inr (s1, False, sps)" by auto
    then show ?thesis using assms False j
      by (intro again) (auto simp: Accept_def Let_def judged_def [symmetric] split: if_splits)
  qed
qed

lemma new_delivery_Inr:
  "new_delivery d playbooks s = Inr s' \<Longrightarrow>
     dlv_ID d \<notin> fst ` set (links s) \<and> (Supersedes d = [] \<or> Supersedes d \<in> fst ` set (links s)) \<and> distinct (map (redact s) playbooks) \<and>
     s' = s\<lparr>st_deliveries := st_deliveries s @ [d],
       st_identities := map_set (dlv_Source d, dlv_Identity d) (dlv_ID d, dlv_ReceivedAt d) (st_identities s),
       st_handoffs := st_handoffs s @ map (\<lambda>p. \<lparr>ho_DeliveryID = dlv_ID d, ho_PlaybookName = p, ho_State = HandOffPending,
         DecidedAt = zero_time\<rparr>) (map (redact s) playbooks)\<rparr>"
  by (auto simp: new_delivery_def Let_def references_def links_def image_image split: if_splits)

lemma deliveries_inv_alt:
  "deliveries_inv s \<longleftrightarrow> newest_first (rev (links s)) \<and> (\<forall>(k, d, at) \<in> set (st_identities s). d \<in> fst ` set (links s)) \<and>
     set (map ho_DeliveryID (st_handoffs s)) \<subseteq> fst ` set (links s)"
  by (auto simp: deliveries_inv_def)

lemma same_tables_inv: "same_tables s s' \<Longrightarrow> deliveries_inv s \<Longrightarrow> deliveries_inv s'"
  unfolding deliveries_inv_alt same_tables_def by (simp del: set_map)

lemma same_tables_repeat:
  "same_tables s s1 \<Longrightarrow>
   same_tables s (s1\<lparr>st_deliveries := update_where P (\<lambda>y. y\<lparr>Repeats := Repeats y + 1\<rparr>) (st_deliveries s1)\<rparr>)"
  unfolding same_tables_def
  by (auto simp: links_def update_where_map intro: untouched_keeps [of s1])

lemma set_map_set: "set (map_set k v m) \<subseteq> insert (k, v) (set m)"
  by (induction k v m rule: map_set.induct) auto

lemma new_delivery_inv:
  assumes n: "new_delivery d playbooks s = Inr s'" and inv: "deliveries_inv s"
  shows "deliveries_inv s'"
proof -
  from new_delivery_Inr [OF n] have s': "links s' = links s @ [(dlv_ID d, Supersedes d)]"
      "st_identities s' = map_set (dlv_Source d, dlv_Identity d) (dlv_ID d, dlv_ReceivedAt d) (st_identities s)"
      "set (map ho_DeliveryID (st_handoffs s')) \<subseteq> insert (dlv_ID d) (set (map ho_DeliveryID (st_handoffs s)))"
    and sps: "Supersedes d = [] \<or> Supersedes d \<in> fst ` set (links s)"
    by (auto simp: links_def)
  have "set (st_identities s') \<subseteq> insert ((dlv_Source d, dlv_Identity d), (dlv_ID d, dlv_ReceivedAt d)) (set (st_identities s))"
    unfolding s'(2) by (rule set_map_set)
  with inv have "\<forall>(k, d, at) \<in> set (st_identities s'). d \<in> fst ` set (links s')"
    unfolding deliveries_inv_alt s'(1) by auto
  moreover have "set (map ho_DeliveryID (st_handoffs s')) \<subseteq> fst ` set (links s')"
    using s'(3) inv unfolding deliveries_inv_alt s'(1) by (intro subset_trans [OF s'(3)]) auto
  ultimately show ?thesis using inv sps unfolding deliveries_inv_alt s'(1) by simp
qed

lemma undecided_playbooks_ends:
  assumes "deliveries_inv s" "d = [] \<or> d \<in> fst ` set (links s)"
  shows "\<exists>ps. undecided_playbooks s d playbooks = Some (Inr ps)"
  using decidedInChain_ends [of "links s" s "[]" d "[]"] assms
  by (auto simp: undecided_playbooks_def deliveries_inv_def)

lemma find_link: "find (\<lambda>x. dlv_ID x = d) (st_deliveries s) = Some y \<Longrightarrow> d \<in> fst ` set (links s)"
  by (auto simp: find_Some_iff links_def image_iff)

lemma fresh_same_tables:
  assumes "existingDelivery source identity s = Inr None \<and> s1 = s \<and> sps = [] \<or>
    (\<exists>x. existingDelivery source identity s = Inr (Some x) \<and> judge newRecordID x params alive s = Inr (s1, True, sps))"
  shows "same_tables s s1"
    and "case existingDelivery source identity s of Inr (Some x) \<Rightarrow> new_again params alive s x | _ \<Rightarrow> True"
proof -
  from assms consider "existingDelivery source identity s = Inr None" "s1 = s"
    | x where "existingDelivery source identity s = Inr (Some x)" "judge newRecordID x params alive s = Inr (s1, True, sps)" by blast
  then have "same_tables s s1 \<and> (case existingDelivery source identity s of Inr (Some x) \<Rightarrow> new_again params alive s x | _ \<Rightarrow> True)"
  proof cases
    case 2
    from existingDelivery_Some [OF 2(1)] obtain y where "find (\<lambda>y. dlv_ID y = dlv_ID x) (st_deliveries s) = Some y" by blast
    from judge_spec [OF 2(2) this] 2(1) show ?thesis by simp
  qed (simp add: same_tables_refl)
  then show "same_tables s s1"
    and "case existingDelivery source identity s of Inr (Some x) \<Rightarrow> new_again params alive s x | _ \<Rightarrow> True" by simp_all
qed

text \<open>
  What an acceptance decides.  An identity is new exactly when the store holds none, when the
  replay window has passed since it was last accepted, when the delivery it points at was dropped, or
  when that delivery is still in flight, the process that accepted it is gone and one of its hand-offs
  is decided nowhere.  A repeat adds no delivery, no hand-off and moves no identity; a new one is
  recorded once and takes the identity over.
\<close>

theorem Accept_decides_new:
  assumes "Accept sha newID newRecordID put params alive s = Some (s', Inr (d, isNew))"
    and "accept_identity sha params s = (identity, kind)"
  shows "(isNew \<longleftrightarrow> (case existingDelivery (redact s (ap_Source params)) identity s of
            Inr (Some x) \<Rightarrow> new_again params alive s x | _ \<Rightarrow> True)) \<and>
     (\<not> isNew \<longrightarrow> links s' = links s \<and> st_identities s' = st_identities s \<and>
        map ho_DeliveryID (st_handoffs s') = map ho_DeliveryID (st_handoffs s)) \<and>
     (isNew \<longrightarrow> links s' = links s @ [(dlv_ID d, Supersedes d)] \<and>
        map_of (st_identities s') (redact s (ap_Source params), identity) = Some (dlv_ID d, ap_ReceivedAt params))"
  using assms
proof (cases rule: Accept_cases)
  case (again x s1 sps)
  from existingDelivery_Some [OF again(1)] obtain y where "find (\<lambda>y. dlv_ID y = dlv_ID x) (st_deliveries s) = Some y" by blast
  note j = judge_spec [OF again(2) this]
  have "same_tables s s'" unfolding again(4) using j by (intro same_tables_repeat) simp
  then show ?thesis using again j by (auto simp: same_tables_def)
next
  case (fresh s1 playbooks)
  note old = fresh_same_tables [OF fresh(2)]
  have "links s' = links s1 @ [(dlv_ID d, Supersedes d)]"
    "map_of (st_identities s') (dlv_Source d, dlv_Identity d) = Some (dlv_ID d, dlv_ReceivedAt d)"
    using new_delivery_Inr [OF fresh(4)] by (auto simp: links_def)
  then show ?thesis using fresh(1,5,6,7) old by (auto simp: same_tables_def)
qed

text \<open>
  C26. An acceptance always ends.  In a store whose deliveries supersede only earlier ones the walk
  along superseded deliveries stops, so every acceptance answers; what it leaves is such a store
  again, and every trigger that waited is still accounted for exactly once.
\<close>

theorem Accept_returns:
  assumes "deliveries_inv s"
  shows "\<exists>s' r. Accept sha newID newRecordID put params alive s = Some (s', r) \<and> deliveries_inv s' \<and>
     (waiting_inv s \<longrightarrow> waiting_inv s')"
proof (cases "Accept sha newID newRecordID put params alive s")
  case None
  obtain identity kind where id': "accept_identity sha params s = (identity, kind)" by fastforce
  let ?ex = "existingDelivery (redact s (ap_Source params)) identity s"
  from None obtain s1 sps where un: "undecided_playbooks s1 sps (ap_Playbooks params) = None"
    and j: "?ex = Inr None \<and> s1 = s \<and> sps = [] \<or>
       (\<exists>x. ?ex = Inr (Some x) \<and> judge newRecordID x params alive s = Inr (s1, True, sps))"
    unfolding Accept_def Let_def id'
    by (auto simp: map_sum_Inr split: if_splits sum.splits option.splits bool.splits)
  have "deliveries_inv s1 \<and> (sps = [] \<or> sps \<in> fst ` set (links s1))"
  proof (cases "?ex = Inr None")
    case False
    then obtain x where x: "?ex = Inr (Some x)" "judge newRecordID x params alive s = Inr (s1, True, sps)" using j by blast
    from existingDelivery_Some [OF x(1)] obtain y where y: "find (\<lambda>y. dlv_ID y = dlv_ID x) (st_deliveries s) = Some y" by blast
    from judge_spec [OF x(2) y] find_link [OF y] assms show ?thesis
      by (auto simp: same_tables_def intro: same_tables_inv)
  qed (use j assms in auto)
  then have "undecided_playbooks s1 sps (ap_Playbooks params) \<noteq> None" using undecided_playbooks_ends by blast
  with un show ?thesis by simp
next
  case (Some res)
  obtain s' r where res: "res = (s', r)" by fastforce
  obtain identity kind where id': "accept_identity sha params s = (identity, kind)" by fastforce
  have "deliveries_inv s' \<and> (waiting_inv s \<longrightarrow> waiting_inv s')"
  proof (cases r)
    case (Inl e)
    with Some res have "s' = s"
      unfolding Accept_def Let_def id' by (auto split: if_splits sum.splits option.splits bool.splits)
    with assms show ?thesis by simp
  next
    case (Inr v)
    obtain d isNew where v: "v = (d, isNew)" by fastforce
    from Some [unfolded res Inr v] id' show ?thesis
    proof (cases rule: Accept_cases)
      case (again x s1 sps)
      from existingDelivery_Some [OF again(1)] obtain y where "find (\<lambda>y. dlv_ID y = dlv_ID x) (st_deliveries s) = Some y" by blast
      with judge_spec [OF again(2)] have "same_tables s s'" unfolding again(4) by (intro same_tables_repeat) simp
      then show ?thesis using assms same_tables_inv by (auto simp: same_tables_def)
    next
      case (fresh s1 playbooks)
      note s1 = fresh_same_tables(1) [OF fresh(2)]
      with new_delivery_inv [OF fresh(4)] same_tables_inv assms have "deliveries_inv s'" by blast
      moreover from new_delivery_Inr [OF fresh(4)] have "waiting_inv s1 \<Longrightarrow> waiting_inv s'"
        by - (rule untouched_keeps [of s1], auto)
      ultimately show ?thesis using s1 by (auto simp: same_tables_def)
    qed
  qed
  then show ?thesis using Some res by blast
qed





text \<open>The counting of a sequence of refused requests, and the row a request falls under.\<close>

definition counted :: "(time \<times> string \<times> string \<times> string \<times> time) list \<Rightarrow> store \<Rightarrow> store" where
  "counted reqs s = foldl (\<lambda>s (interval, reason, bucket, peer, at). CountUnauthenticated interval reason bucket peer at s) s reqs"

definition count_key :: "(time \<times> string \<times> string \<times> string \<times> time) \<Rightarrow> time \<times> string \<times> string" where
  "count_key = (\<lambda>(interval, reason, bucket, _, _). (interval, reason, bucket))"

text \<open>
  Refusals of unauthenticated requests are counted, never stored one by one: after any requests
  the table has one row for each interval, reason and bucket that occurred, and its count is the number
  of requests that were refused under it.
\<close>

theorem CountUnauthenticated_bounds_rows:
  "let s' = counted reqs (s\<lparr>st_counts := []\<rparr>) in
   distinct (map fst (st_counts s')) \<and> fst ` set (st_counts s') = count_key ` set reqs \<and>
   (\<forall>(k, n, _) \<in> set (st_counts s'). n = length (filter (\<lambda>r. count_key r = k) reqs))"
proof (induction reqs rule: rev_induct)
  case Nil
  then show ?case by (simp add: counted_def)
next
  case (snoc r reqs)
  obtain interval reason bucket peer at where r: "r = (interval, reason, bucket, peer, at)" by (cases r)
  define k where "k = (interval, reason, bucket)"
  define s0 where "s0 = counted reqs (s\<lparr>st_counts := []\<rparr>)"
  have kr: "count_key r = k" by (simp add: count_key_def r k_def)
  have ih: "distinct (map fst (st_counts s0))" "fst ` set (st_counts s0) = count_key ` set reqs"
    "\<And>k n v. (k, n, v) \<in> set (st_counts s0) \<Longrightarrow> n = length (filter (\<lambda>r. count_key r = k) reqs)"
    using snoc by (auto simp: s0_def Let_def)
  have s': "counted (reqs @ [r]) (s\<lparr>st_counts := []\<rparr>) = CountUnauthenticated interval reason bucket peer at s0"
    by (simp add: counted_def s0_def r)
  show ?case
  proof (cases "map_of (st_counts s0) k")
    case None
    then have new: "k \<notin> fst ` set (st_counts s0)" by (simp add: map_of_eq_None_iff)
    have cs: "st_counts (counted (reqs @ [r]) (s\<lparr>st_counts := []\<rparr>)) = st_counts s0 @ [(k, 1, peer, at)]"
      using None by (simp add: s' CountUnauthenticated_def k_def Let_def)
    have "filter (\<lambda>r. count_key r = k) reqs = []" using new unfolding ih(2) by (auto simp: filter_empty_conv)
    then show ?thesis using ih new kr unfolding Let_def cs by (force simp: image_iff)
  next
    case (Some v)
    then obtain n a b where v: "(k, n, a, b) \<in> set (st_counts s0)" "v = (n, a, b)"
      using map_of_SomeD by (metis prod_cases3)
    have cs: "st_counts (counted (reqs @ [r]) (s\<lparr>st_counts := []\<rparr>)) =
        update_where (\<lambda>(k', _). k' = k) (\<lambda>(k', _). (k', n + 1, peer, at)) (st_counts s0)"
      using Some v(2) by (simp add: s' CountUnauthenticated_def k_def Let_def)
    have keys: "map fst (st_counts (counted (reqs @ [r]) (s\<lparr>st_counts := []\<rparr>))) = map fst (st_counts s0)"
      unfolding cs by (rule update_where_map) auto
    have "k \<in> count_key ` set reqs" using v(1) ih(2) by (metis fst_conv image_eqI)
    moreover have "fst ` set (st_counts (counted (reqs @ [r]) (s\<lparr>st_counts := []\<rparr>))) = fst ` set (st_counts s0)"
      using arg_cong [OF keys, of set] by simp
    moreover have "\<forall>(k', n', _) \<in> set (st_counts (counted (reqs @ [r]) (s\<lparr>st_counts := []\<rparr>))). n' = length (filter (\<lambda>r. count_key r = k') (reqs @ [r]))"
      unfolding cs set_update_where using ih(3) [OF v(1)] ih(3) kr by (auto split: if_splits)
    ultimately show ?thesis using ih(1,2) keys kr unfolding Let_def by auto
  qed
qed

subsection \<open>Examples\<close>

text \<open>A dropped delivery of which one playbook was handed off and another was not, and its retry.\<close>

definition demo_delivery :: delivery where
  "demo_delivery = \<lparr>dlv_ID = ''d1'', dlv_Source = ''forge'', dlv_Identity = ''evt-1'', dlv_IdentityKind = IdentityDeclared,
     dlv_ReceivedAt = 10, dlv_Peer = ''::1'', dlv_BodyRef = ''d1/body'', BodySHA256 = ''h'', Repeats = 0,
     dlv_Instance = ''i1'', Supersedes = [], dlv_State = DeliveryDropped\<rparr>"

definition demo_dropped :: store where
  "demo_dropped = (empty_store None)\<lparr>st_deliveries := [demo_delivery],
     st_identities := [((''forge'', ''evt-1''), ''d1'', 10)],
     st_handoffs := [\<lparr>ho_DeliveryID = ''d1'', ho_PlaybookName = ''notify'', ho_State = HandOffHandedOff, DecidedAt = 11\<rparr>,
       \<lparr>ho_DeliveryID = ''d1'', ho_PlaybookName = ''triage'', ho_State = HandOffDropped, DecidedAt = 12\<rparr>]\<rparr>"

definition demo_params :: accept_params where
  "demo_params = \<lparr>ap_Source = ''forge'', ap_Identity = ''evt-1'', ap_IdentityKind = IdentityDeclared, ap_Body = ''x'',
     ap_Peer = ''::1'', ap_ReceivedAt = 20, ap_Instance = ''i2'', ReplayWindow = 100, ap_Playbooks = [''notify'', ''triage'']\<rparr>"

lemmas delivery_eval = demo_delivery_def demo_dropped_def demo_params_def empty_store_def accept_identity_def
  existingDelivery_def judge_def time_sub_def decided_of_def handoffs_of_def is_zero_def zero_time_def Redact_def

lemma demo_inv: "deliveries_inv demo_dropped"
  by (simp add: deliveries_inv_def links_def delivery_eval)

lemma demo_chain: "decidedInChain demo_dropped ''d1'' [] = Some (Inr [''notify''])"
  by (subst decidedInChain.simps, subst decidedInChain.simps) (simp add: delivery_eval)

lemma demo_undecided: "undecided_playbooks demo_dropped ''d1'' [''notify'', ''triage''] = Some (Inr [''triage''])"
  by (simp add: undecided_playbooks_def demo_chain)

definition demo_d2 :: delivery where
  "demo_d2 = demo_delivery\<lparr>dlv_ID := ''d2'', dlv_ReceivedAt := 20, dlv_BodyRef := ''d2/body'', dlv_Instance := ''i2'',
     Supersedes := ''d1'', dlv_State := DeliveryAccepted\<rparr>"

definition demo_after :: store where
  "demo_after = demo_dropped\<lparr>st_deliveries := [demo_delivery, demo_d2],
     st_identities := [((''forge'', ''evt-1''), ''d2'', 20)],
     st_handoffs := st_handoffs demo_dropped @
       [\<lparr>ho_DeliveryID = ''d2'', ho_PlaybookName = ''triage'', ho_State = HandOffPending, DecidedAt = zero_time\<rparr>]\<rparr>"

lemma demo_retry_accepted:
  "Accept (\<lambda>_. ''h'') (Some ''d2'') (\<lambda>_. None) (\<lambda>i _. Inr (i @ ''/body'')) demo_params None demo_dropped =
     Some (demo_after, Inr (demo_d2, True))"
proof -
  have ex: "existingDelivery ''forge'' ''evt-1'' demo_dropped = Inr (Some demo_delivery)" by (simp add: delivery_eval)
  have j: "judge (\<lambda>_. None) demo_delivery demo_params None demo_dropped = Inr (demo_dropped, True, ''d1'')" by (simp add: delivery_eval)
  have i: "accept_identity (\<lambda>_. ''h'') demo_params demo_dropped = (''evt-1'', IdentityDeclared)" by (simp add: delivery_eval)
  have p: "ap_Source demo_params = ''forge''" "ap_Playbooks demo_params = [''notify'', ''triage'']" "ap_Body demo_params = ''x''"
    "ap_ReceivedAt demo_params = 20" "ap_Peer demo_params = ''::1''" "ap_Instance demo_params = ''i2''" "st_redactor demo_dropped = None"
    by (simp_all add: delivery_eval)
  have r: "Redact None x = x" for x by (simp add: Redact_def)
  have n: "new_delivery demo_d2 [''triage''] demo_dropped = Inr demo_after"
    by (simp add: new_delivery_def demo_after_def demo_d2_def references_def delivery_eval)
  have d: "\<lparr>dlv_ID = ''d2'', dlv_Source = ''forge'', dlv_Identity = ''evt-1'', dlv_IdentityKind = IdentityDeclared,
     dlv_ReceivedAt = 20, dlv_Peer = ''::1'', dlv_BodyRef = ''d2/body'', BodySHA256 = ''h'', Repeats = 0,
     dlv_Instance = ''i2'', Supersedes = ''d1'', dlv_State = DeliveryAccepted\<rparr> = demo_d2"
    by (simp add: demo_d2_def demo_delivery_def)
  show ?thesis unfolding Accept_def Let_def i
    by (simp add: p r ex j demo_undecided is_zero_def zero_time_def d n)
qed

theorem Accept_decides_new_witness:
  "map_of (st_identities demo_after) (''forge'', ''evt-1'') = Some (''d2'', 20) \<and> links demo_after = [(''d1'', []), (''d2'', ''d1'')]"
  using Accept_decides_new [OF demo_retry_accepted, of "''evt-1''" IdentityDeclared]
  by (simp add: delivery_eval links_def demo_d2_def)

theorem Accept_returns_witness:
  "\<exists>s' r. Accept (\<lambda>_. ''h'') (Some ''d2'') (\<lambda>_. None) (\<lambda>i _. Inr (i @ ''/body'')) demo_params None demo_dropped = Some (s', r) \<and>
     deliveries_inv s'"
  using Accept_returns [OF demo_inv, of "\<lambda>_. ''h''" "Some ''d2''" "\<lambda>_. None" "\<lambda>i _. Inr (i @ ''/body'')" demo_params None] by blast


theorem CountUnauthenticated_bounds_rows_witness:
  "st_counts (counted [(0, ''sig'', ''forge'', ''a'', 1), (0, ''sig'', ''forge'', ''b'', 2)] (empty_store None)) =
     [((0, ''sig'', ''forge''), 2, ''b'', 2)]"
  using CountUnauthenticated_bounds_rows [of "[(0, ''sig'', ''forge'', ''a'', 1), (0, ''sig'', ''forge'', ''b'', 2)]" "empty_store None"]
  by (simp add: counted_def CountUnauthenticated_def empty_store_def count_key_def update_where_def)

end
