(* ===== verification/Sources.thy ===== *)
theory Sources
  imports Config Coordinator Redact
begin

text \<open>
  The catalogue of webhook senders: \<open>sources/sources.go\<close>.  The file and its JSON decoder are
  parameters: what reading answered, and the entries the decoder found or why it refused them.  The
  regular expressions of the file are written out as predicates on the bytes.
\<close>

subsection \<open>A source and how it is written\<close>

record source =
  src_Name :: string
  SignatureHeader :: string
  SignaturePrefix :: string
  src_Identity :: string
  src_ReplayWindow :: duration
  secretKey :: string

record source_entry =
  en_Secret :: string
  en_SignatureHeader :: string
  en_SignaturePrefix :: string
  en_Identity :: string
  en_ReplayWindow :: string

record catalog =
  cat_entries :: "source gomap"
  cat_cfg :: config

definition DefaultReplayWindow :: duration where "DefaultReplayWindow = 10 * minute"

text \<open>\<open>^[a-z0-9][a-z0-9-]*$\<close>\<close>

definition source_name :: "string \<Rightarrow> bool" where
  "source_name s = (case s of [] \<Rightarrow> False
     | c # cs \<Rightarrow> (is_lower c \<or> is_digit c) \<and> list_all (\<lambda>c. is_lower c \<or> is_digit c \<or> c = CHR ''-'') cs)"

definition headerName :: "string \<Rightarrow> bool" where
  "headerName s \<longleftrightarrow> s \<noteq> [] \<and> list_all (\<lambda>c. is_alnum c \<or> c \<in> set ''!#$%&*+.^_|~-'' \<or> c = CHR 0x27 \<or> c = CHR 0x60) s"

text \<open>\<open>^(/([^~/]|~[01])*)*$\<close>: a tilde is followed by a zero or a one, and the text starts with a slash.\<close>

fun pointer_tokens :: "string \<Rightarrow> bool" where
  "pointer_tokens [] = True"
| "pointer_tokens (c # cs) =
     (if c = CHR ''~'' then (case cs of [] \<Rightarrow> False | d # ds \<Rightarrow> (d = CHR ''0'' \<or> d = CHR ''1'') \<and> pointer_tokens ds)
      else pointer_tokens cs)"

definition jsonPointer :: "string \<Rightarrow> bool" where
  "jsonPointer s \<longleftrightarrow> s = [] \<or> hd s = CHR ''/'' \<and> pointer_tokens s"

definition controlChar :: "string \<Rightarrow> bool" where
  "controlChar s \<longleftrightarrow> list_ex (\<lambda>c. of_char c < (32 :: nat) \<or> of_char c = (127 :: nat)) s"

text \<open>\<open>^\$\{config\.([^{}.]+)\}$\<close>, with the key it captures.\<close>

definition secretReference :: "string \<Rightarrow> string option" where
  "secretReference s = (case cut_prefix s ''${config.'' of
     None \<Rightarrow> None
   | Some rest \<Rightarrow>
       if rest \<noteq> [] \<and> last rest = CHR ''}'' \<and> butlast rest \<noteq> [] \<and>
          list_all (\<lambda>c. c \<notin> set ''{}.'') (butlast rest)
       then Some (butlast rest) else None)"

datatype source_problem =
    NameNotASlug
  | HeaderMissing
  | HeaderInvalid string
  | SecretMissing
  | SecretNotAReference string
  | SecretNotConfigured string
  | SecretNotMarked string
  | IdentityControl string
  | IdentityNotAPointer string
  | WindowNotADuration string
  | WindowNotPositive string

definition resolve_header :: "source_entry \<Rightarrow> (source_problem, string) result" where
  "resolve_header e =
     (if en_SignatureHeader e = [] then Inl HeaderMissing
      else if \<not> headerName (en_SignatureHeader e) then Inl (HeaderInvalid (en_SignatureHeader e))
      else Inr (en_SignatureHeader e))"

definition resolve_secret :: "config \<Rightarrow> source_entry \<Rightarrow> (source_problem, string) result" where
  "resolve_secret cfg e =
     (if en_Secret e = [] then Inl SecretMissing
      else case secretReference (en_Secret e) of
        None \<Rightarrow> Inl (SecretNotAReference (en_Secret e))
      | Some key \<Rightarrow> (case config_Get cfg key of
            None \<Rightarrow> Inl (SecretNotConfigured key)
          | Some v \<Rightarrow> if \<not> cv_secret v then Inl (SecretNotMarked key) else Inr key))"

definition identity_problems :: "source_entry \<Rightarrow> source_problem list" where
  "identity_problems e =
     (if en_Identity e = [] then []
      else if controlChar (en_Identity e) then [IdentityControl (en_Identity e)]
      else if \<not> jsonPointer (en_Identity e) then [IdentityNotAPointer (en_Identity e)] else [])"

definition resolve_window :: "(string \<Rightarrow> duration option) \<Rightarrow> source_entry \<Rightarrow> (source_problem, duration) result" where
  "resolve_window parseDuration e =
     (if en_ReplayWindow e = [] then Inr DefaultReplayWindow
      else case parseDuration (en_ReplayWindow e) of
        None \<Rightarrow> Inl (WindowNotADuration (en_ReplayWindow e))
      | Some w \<Rightarrow> if w \<le> 0 then Inl (WindowNotPositive (en_ReplayWindow e)) else Inr w)"

definition problem_of :: "('e, 'a) result \<Rightarrow> 'e list" where
  "problem_of r = (case r of Inl e \<Rightarrow> [e] | Inr _ \<Rightarrow> [])"

definition value_of :: "'a \<Rightarrow> ('e, 'a) result \<Rightarrow> 'a" where
  "value_of d r = (case r of Inl _ \<Rightarrow> d | Inr a \<Rightarrow> a)"

definition entry_resolve ::
  "(string \<Rightarrow> duration option) \<Rightarrow> string \<Rightarrow> config \<Rightarrow> source_entry \<Rightarrow> source \<times> (string \<times> source_problem) list" where
  "entry_resolve parseDuration sourceName cfg e =
     (let header = resolve_header e; secret = resolve_secret cfg e; window = resolve_window parseDuration e in
      (\<lparr>src_Name = sourceName, SignatureHeader = value_of [] header, SignaturePrefix = en_SignaturePrefix e,
        src_Identity = en_Identity e, src_ReplayWindow = value_of DefaultReplayWindow window,
        secretKey = value_of [] secret\<rparr>,
       map (Pair sourceName) ((if source_name sourceName then [] else [NameNotASlug]) @ problem_of header @
         problem_of secret @ identity_problems e @ problem_of window)))"

subsection \<open>The catalogue\<close>

datatype catalog_file = NoFile | UnreadableFile string | FileData string

datatype catalog_error =
    ReadingCatalogue string
  | ParsingCatalogue string
  | CatalogueProblems "(string \<times> source_problem) list"

fun load_sources ::
  "(string \<Rightarrow> duration option) \<Rightarrow> config \<Rightarrow> source_entry gomap \<Rightarrow> string list \<Rightarrow>
   (string \<times> source_problem) list \<times> source gomap \<Rightarrow> (string \<times> source_problem) list \<times> source gomap" where
  "load_sources parseDuration cfg raw [] acc = acc"
| "load_sources parseDuration cfg raw (n # ns) (problems, entries) =
     (case entry_resolve parseDuration n cfg (the (map_of raw n)) of (resolved, found) \<Rightarrow>
        load_sources parseDuration cfg raw ns (problems @ found, map_set n resolved entries))"

definition sources_Load ::
  "(string \<Rightarrow> duration option) \<Rightarrow> (string \<Rightarrow> (string, source_entry gomap) result) \<Rightarrow> catalog_file \<Rightarrow> config \<Rightarrow>
   (catalog_error, catalog) result" where
  "sources_Load parseDuration decode file cfg = (case file of
     NoFile \<Rightarrow> Inr \<lparr>cat_entries = [], cat_cfg = cfg\<rparr>
   | UnreadableFile e \<Rightarrow> Inl (ReadingCatalogue e)
   | FileData data \<Rightarrow> (case decode data of
         Inl e \<Rightarrow> Inl (ParsingCatalogue e)
       | Inr raw \<Rightarrow> (case load_sources parseDuration cfg raw (sorted_keys raw) ([], []) of (problems, entries) \<Rightarrow>
           if problems \<noteq> [] then Inl (CatalogueProblems problems)
           else Inr \<lparr>cat_entries = entries, cat_cfg = cfg\<rparr>)))"

definition sources_Names :: "catalog \<Rightarrow> string list" where
  "sources_Names c = sorted_keys (cat_entries c)"

definition sources_Get :: "catalog \<Rightarrow> string \<Rightarrow> source option" where
  "sources_Get c sourceName = map_of (cat_entries c) sourceName"

definition sources_humanDuration :: "duration \<Rightarrow> string" where
  "sources_humanDuration d0 =
     (let d = duration_Round d0 second in
      if d \<le> 0 then ''0s''
      else concat (map (\<lambda>(count, unit'). if count > 0 then itoa (nat count) @ unit' else [])
        [(d div hour, ''h''), (d mod hour div minute, ''m''), (d mod minute div second, ''s'')]))"

definition Cells :: "catalog \<Rightarrow> string \<Rightarrow> string list option" where
  "Cells c sourceName = (case map_of (cat_entries c) sourceName of
     None \<Rightarrow> None
   | Some s \<Rightarrow> Some [''header '' @ SignatureHeader s,
       ''identity '' @ (if src_Identity s = [] then ''digest of the body'' else src_Identity s),
       ''window '' @ sources_humanDuration (src_ReplayWindow s)])"

datatype secret_error = NotInCatalogue string | NoLongerConfigured string string

definition source_Secret :: "catalog \<Rightarrow> string \<Rightarrow> (secret_error, string) result" where
  "source_Secret c sourceName = (case map_of (cat_entries c) sourceName of
     None \<Rightarrow> Inl (NotInCatalogue sourceName)
   | Some s \<Rightarrow> (case config_Get (cat_cfg c) (secretKey s) of
         None \<Rightarrow> Inl (NoLongerConfigured sourceName (secretKey s))
       | Some v \<Rightarrow> Inr (cv_value v)))"

subsection \<open>Facts\<close>

text \<open>The type of a source of a loaded catalogue.\<close>

definition source_ok :: "config \<Rightarrow> string \<Rightarrow> source \<Rightarrow> bool" where
  "source_ok cfg n s \<longleftrightarrow> src_Name s = n \<and> source_name n \<and> headerName (SignatureHeader s) \<and>
     (src_Identity s = [] \<or> jsonPointer (src_Identity s) \<and> \<not> controlChar (src_Identity s)) \<and>
     0 < src_ReplayWindow s \<and> (\<exists>v. config_Get cfg (secretKey s) = Some v \<and> cv_secret v)"

definition entry_ok :: "(string \<Rightarrow> duration option) \<Rightarrow> config \<Rightarrow> string \<Rightarrow> source_entry \<Rightarrow> bool" where
  "entry_ok parseDuration cfg n e \<longleftrightarrow> source_name n \<and> headerName (en_SignatureHeader e) \<and>
     (\<exists>key v. secretReference (en_Secret e) = Some key \<and> config_Get cfg key = Some v \<and> cv_secret v) \<and>
     (en_Identity e = [] \<or> jsonPointer (en_Identity e) \<and> \<not> controlChar (en_Identity e)) \<and>
     (en_ReplayWindow e = [] \<or> (\<exists>w. parseDuration (en_ReplayWindow e) = Some w \<and> 0 < w))"

lemma DefaultReplayWindow_pos: "0 < DefaultReplayWindow"
  by (simp add: DefaultReplayWindow_def)

lemma secretReference_empty [simp]: "secretReference [] = None"
  by (simp add: secretReference_def cut_prefix_def has_prefix_def)

lemma entry_resolve_ok:
  "snd (entry_resolve parseDuration n cfg e) = [] \<longleftrightarrow> entry_ok parseDuration cfg n e"
proof -
  have h: "problem_of (resolve_header e) = [] \<longleftrightarrow> headerName (en_SignatureHeader e)"
    by (simp add: problem_of_def resolve_header_def headerName_def)
  have s: "problem_of (resolve_secret cfg e) = [] \<longleftrightarrow>
      (\<exists>key v. secretReference (en_Secret e) = Some key \<and> config_Get cfg key = Some v \<and> cv_secret v)"
    by (auto simp: problem_of_def resolve_secret_def split: option.splits)
  have i: "identity_problems e = [] \<longleftrightarrow> en_Identity e = [] \<or> jsonPointer (en_Identity e) \<and> \<not> controlChar (en_Identity e)"
    by (simp add: identity_problems_def)
  have w: "problem_of (resolve_window parseDuration e) = [] \<longleftrightarrow>
      en_ReplayWindow e = [] \<or> (\<exists>w. parseDuration (en_ReplayWindow e) = Some w \<and> 0 < w)"
    by (auto simp: problem_of_def resolve_window_def split: option.splits)
  show ?thesis by (simp add: entry_resolve_def Let_def h s i w entry_ok_def)
qed

lemma resolved_source_ok:
  assumes "entry_ok parseDuration cfg n e"
  shows "source_ok cfg n (fst (entry_resolve parseDuration n cfg e))"
proof -
  have "resolve_header e = Inr (en_SignatureHeader e)" using assms by (auto simp: entry_ok_def resolve_header_def headerName_def)
  moreover obtain key v where key: "secretReference (en_Secret e) = Some key" "config_Get cfg key = Some v" "cv_secret v"
    using assms by (auto simp: entry_ok_def)
  moreover have "resolve_secret cfg e = Inr key" using key by (auto simp: resolve_secret_def)
  moreover have "\<exists>w. resolve_window parseDuration e = Inr w \<and> 0 < w"
  proof (cases "en_ReplayWindow e = []")
    case True
    then show ?thesis using DefaultReplayWindow_pos by (simp add: resolve_window_def)
  next
    case False
    then obtain w where "parseDuration (en_ReplayWindow e) = Some w" "0 < w" using assms by (auto simp: entry_ok_def)
    then show ?thesis using False by (simp add: resolve_window_def)
  qed
  ultimately show ?thesis
    using assms by (auto simp: entry_resolve_def Let_def source_ok_def value_of_def entry_ok_def)
qed

lemma load_sources_problems:
  "fst (load_sources parseDuration cfg raw ns (ps, es)) =
     ps @ concat (map (\<lambda>n. snd (entry_resolve parseDuration n cfg (the (map_of raw n)))) ns)"
  by (induction ns arbitrary: ps es) (simp_all split: prod.splits)

lemma load_sources_entries:
  "map_of (snd (load_sources parseDuration cfg raw ns (ps, es))) m =
     (if m \<in> set ns then Some (fst (entry_resolve parseDuration m cfg (the (map_of raw m)))) else map_of es m)"
  by (induction ns arbitrary: ps es) (auto split: prod.splits)

text \<open>What a load answers, in one rule.\<close>

lemma sources_Load_data:
  assumes "decode data = Inr raw"
  shows "sources_Load parseDuration decode (FileData data) cfg =
     (if \<forall>n \<in> set (sorted_keys raw). entry_ok parseDuration cfg n (the (map_of raw n))
      then Inr \<lparr>cat_entries = snd (load_sources parseDuration cfg raw (sorted_keys raw) ([], [])), cat_cfg = cfg\<rparr>
      else Inl (CatalogueProblems (concat (map (\<lambda>n. snd (entry_resolve parseDuration n cfg (the (map_of raw n)))) (sorted_keys raw)))))"
proof -
  let ?r = "load_sources parseDuration cfg raw (sorted_keys raw) ([], [])"
  have "fst ?r = [] \<longleftrightarrow> (\<forall>n \<in> set (sorted_keys raw). entry_ok parseDuration cfg n (the (map_of raw n)))"
    unfolding load_sources_problems by (auto simp: concat_eq_Nil_conv entry_resolve_ok)
  then show ?thesis
    unfolding sources_Load_def catalog_file.case assms sum.case
    using load_sources_problems [of parseDuration cfg raw "sorted_keys raw" "[]" "[]"] by (cases ?r) simp
qed

subsection \<open>Properties\<close>

lemma sources_Load_cases:
  assumes "sources_Load parseDuration decode file cfg = Inr c"
  obtains "file = NoFile" "c = \<lparr>cat_entries = [], cat_cfg = cfg\<rparr>"
  | data raw where "file = FileData data" "decode data = Inr raw" "cat_cfg c = cfg"
      "\<forall>n \<in> set (sorted_keys raw). entry_ok parseDuration cfg n (the (map_of raw n))"
      "\<And>n. map_of (cat_entries c) n = (if n \<in> set (sorted_keys raw)
         then Some (fst (entry_resolve parseDuration n cfg (the (map_of raw n)))) else None)"
proof (cases "file")
  case NoFile
  then show ?thesis using assms that(1) by (simp add: sources_Load_def)
next
  case (UnreadableFile e)
  then show ?thesis using assms by (simp add: sources_Load_def)
next
  case (FileData data)
  then obtain raw where raw: "decode data = Inr raw" using assms by (auto simp: sources_Load_def split: sum.splits)
  have all: "\<forall>n \<in> set (sorted_keys raw). entry_ok parseDuration cfg n (the (map_of raw n))"
    and c: "c = \<lparr>cat_entries = snd (load_sources parseDuration cfg raw (sorted_keys raw) ([], [])), cat_cfg = cfg\<rparr>"
    using assms unfolding FileData sources_Load_data [of decode, OF raw] by (auto split: if_splits)
  show ?thesis
    by (rule that(2) [OF FileData raw _ all]) (simp_all add: c load_sources_entries del: set_sorted_keys)
qed

text \<open>
  The type of a catalogue.  Every source of a catalogue that loads is well formed: a slug of a name
  that is also its key, a valid header field name, an identity that is absent or a JSON Pointer
  without control characters, a replay window above zero, and a secret that names a configured value
  marked secret.  So resolving the secret of a source of the catalogue cannot fail, and what it
  resolves to is one of the values the redactor removes from the record, unless it is empty.
\<close>

theorem sources_Load_well_formed:
  assumes "sources_Load parseDuration decode file cfg = Inr c" "sources_Get c n = Some s"
  shows "source_ok cfg n s \<and> (\<exists>v. source_Secret c n = Inr v \<and> (v = [] \<or> v \<in> set (Secrets cfg)))"
  using assms(1)
proof (cases rule: sources_Load_cases)
  case 1
  then show ?thesis using assms(2) by (simp add: sources_Get_def)
next
  case (2 data raw)
  then have n: "n \<in> set (sorted_keys raw)" "s = fst (entry_resolve parseDuration n cfg (the (map_of raw n)))"
    using assms(2) by (auto simp: sources_Get_def split: if_splits)
  then have ok: "source_ok cfg n s" using resolved_source_ok 2(4) by blast
  then obtain v where v: "config_Get cfg (secretKey s) = Some v" "cv_secret v" by (auto simp: source_ok_def)
  have "source_Secret c n = Inr (cv_value v)"
    using assms(2) v(1) 2(3) by (simp add: source_Secret_def sources_Get_def)
  moreover have "cv_value v = [] \<or> cv_value v \<in> set (Secrets cfg)"
  proof (cases "cv_value v = []")
    case False
    have "secretKey s \<in> set (Keys cfg)" using v(1) by (auto simp: Keys_def config_Get_def sorted_keys_dom simp del: set_sorted_keys)
    then show ?thesis using v False by (force simp: Secrets_def config_Get_def)
  qed simp
  ultimately show ?thesis using ok by blast
qed

text \<open>
  A catalogue is refused as a whole and completely: a decoded file loads exactly when every entry is
  well formed, a catalogue that loads holds exactly the entries written, and a refused one reports
  for every entry that is not well formed at least one problem, under its name.
\<close>

theorem sources_Load_decides:
  assumes "decode data = Inr raw"
  shows "case sources_Load parseDuration decode (FileData data) cfg of
     Inr c \<Rightarrow> set (sources_Names c) = set (sorted_keys raw) \<and>
       (\<forall>n \<in> set (sorted_keys raw). entry_ok parseDuration cfg n (the (map_of raw n)))
   | Inl e \<Rightarrow> \<exists>ps. e = CatalogueProblems ps \<and>
       fst ` set ps = {n \<in> set (sorted_keys raw). \<not> entry_ok parseDuration cfg n (the (map_of raw n))} \<and> ps \<noteq> []"
proof -
  let ?bad = "concat (map (\<lambda>n. snd (entry_resolve parseDuration n cfg (the (map_of raw n)))) (sorted_keys raw))"
  have names: "fst ` set (snd (entry_resolve parseDuration n cfg e)) = (if entry_ok parseDuration cfg n e then {} else {n})" for n e
  proof (cases "entry_ok parseDuration cfg n e")
    case True
    then show ?thesis using entry_resolve_ok [of parseDuration n cfg e] by simp
  next
    case False
    then have "snd (entry_resolve parseDuration n cfg e) \<noteq> []" using entry_resolve_ok [of parseDuration n cfg e] by simp
    moreover have "fst ` set (snd (entry_resolve parseDuration n cfg e)) \<subseteq> {n}" by (auto simp: entry_resolve_def Let_def)
    ultimately show ?thesis using False subset_singletonD by (metis (full_types) image_is_empty set_empty)
  qed
  have img: "fst ` set ?bad = {n \<in> set (sorted_keys raw). \<not> entry_ok parseDuration cfg n (the (map_of raw n))}"
    unfolding set_concat image_UN set_map using names by (auto simp del: set_sorted_keys)
  show ?thesis
  proof (cases "\<forall>n \<in> set (sorted_keys raw). entry_ok parseDuration cfg n (the (map_of raw n))")
    case True
    have "set (sources_Names \<lparr>cat_entries = snd (load_sources parseDuration cfg raw (sorted_keys raw) ([], [])), cat_cfg = cfg\<rparr>) =
        set (sorted_keys raw)"
      by (auto simp: sources_Names_def sorted_keys_dom dom_def load_sources_entries simp del: set_sorted_keys split: if_splits)
    then show ?thesis unfolding sources_Load_data [of decode, OF assms] using True by (simp del: set_sorted_keys)
  next
    case False
    then have "?bad \<noteq> []" using img by (metis (mono_tags, lifting) empty_set image_empty mem_Collect_eq empty_iff)
    then show ?thesis unfolding sources_Load_data [of decode, OF assms] if_not_P [OF False] sum.case using img by blast
  qed
qed

text \<open>
  The copy of the duration layout in this package says what the guard's says.
\<close>

lemma sources_humanDuration_eq: "sources_humanDuration d = HumanDuration d"
  by (simp add: sources_humanDuration_def HumanDuration_def duration_part_def Let_def)

text \<open>A catalogue of one sender.\<close>

definition demo_source_config :: config where
  "demo_source_config = \<lparr>stateDir = ''/s'', cfg_values = [(''hook'', \<lparr>cv_value = ''k'', cv_secret = True\<rparr>)]\<rparr>"

definition demo_entry :: source_entry where
  "demo_entry = \<lparr>en_Secret = ''${config.hook}'', en_SignatureHeader = ''X-Sig'', en_SignaturePrefix = ''sha256='',
     en_Identity = ''/id'', en_ReplayWindow = []\<rparr>"

definition demo_catalog :: catalog where
  "demo_catalog = \<lparr>cat_entries = [(''ci'', \<lparr>src_Name = ''ci'', SignatureHeader = ''X-Sig'', SignaturePrefix = ''sha256='',
     src_Identity = ''/id'', src_ReplayWindow = DefaultReplayWindow, secretKey = ''hook''\<rparr>)], cat_cfg = demo_source_config\<rparr>"

lemma demo_sources_load:
  "sources_Load (\<lambda>_. None) (\<lambda>_. Inr [(''ci'', demo_entry)]) (FileData []) demo_source_config = Inr demo_catalog"
  by code_simp

theorem sources_Load_well_formed_witness: "source_ok demo_source_config ''ci'' (the (sources_Get demo_catalog ''ci''))"
proof -
  have "sources_Get demo_catalog ''ci'' = Some (the (sources_Get demo_catalog ''ci''))" by (simp add: demo_catalog_def sources_Get_def)
  then show ?thesis using sources_Load_well_formed [OF demo_sources_load] by blast
qed

theorem sources_Load_decides_witness:
  "set (sources_Names demo_catalog) = {''ci''} \<and> entry_ok (\<lambda>_. None) demo_source_config ''ci'' demo_entry"
proof -
  have keys: "sorted_keys [(''ci'', demo_entry)] = [''ci'']" by code_simp
  show ?thesis
    using sources_Load_decides [of "\<lambda>_. Inr [(''ci'', demo_entry)]" "[]" "[(''ci'', demo_entry)]" "\<lambda>_. None" demo_source_config]
    unfolding demo_sources_load keys by simp
qed

end
