(* ===== verification/Ingress.thy ===== *)
theory Ingress
  imports Deliveries Sources Playbook
begin

text \<open>
  The webhook listener: \<open>ingress/ingress.go\<close>, \<open>handoff.go\<close>, \<open>identity.go\<close>, \<open>signature.go\<close> and \<open>limits.go\<close>.
  A request is its path, method, header fields, body and peer; the answer is a status and a text.
  The keyed hash, the digest, the JSON decoder, the compiler of patterns, the blob store, the clock
  and the dispatcher behind the package's own interface are parameters.  The acceptance runs beside
  the handler: whether it completes within the durable step is a parameter too, and the hand-off
  follows the acceptance, not the answer.
\<close>

subsection \<open>Options\<close>

definition DefaultHeaderTimeout :: duration where "DefaultHeaderTimeout = 10 * second"
definition DefaultRequestTimeout :: duration where "DefaultRequestTimeout = 15 * second"
definition DefaultDurableStep :: duration where "DefaultDurableStep = 5 * second"
definition DefaultAnswerTimeout :: duration where "DefaultAnswerTimeout = 25 * second"
definition DefaultMaxHeaderBytes :: int where "DefaultMaxHeaderBytes = 16 * 1024"

record ingress_options =
  HeaderTimeout :: duration
  RequestTimeout :: duration
  AnswerTimeout :: duration
  MaxHeaderBytes :: int
  DurableStep :: duration

definition DefaultOptions :: ingress_options where
  "DefaultOptions = \<lparr>HeaderTimeout = DefaultHeaderTimeout, RequestTimeout = DefaultRequestTimeout,
     AnswerTimeout = DefaultAnswerTimeout, MaxHeaderBytes = DefaultMaxHeaderBytes, DurableStep = DefaultDurableStep\<rparr>"

record http_server =
  sv_Addr :: string
  sv_ReadHeaderTimeout :: duration
  sv_ReadTimeout :: duration
  sv_WriteTimeout :: duration
  sv_MaxHeaderBytes :: int

definition NewServer :: "string \<Rightarrow> ingress_options \<Rightarrow> http_server" where
  "NewServer addr opts = \<lparr>sv_Addr = addr, sv_ReadHeaderTimeout = HeaderTimeout opts, sv_ReadTimeout = RequestTimeout opts,
     sv_WriteTimeout = AnswerTimeout opts, sv_MaxHeaderBytes = MaxHeaderBytes opts\<rparr>"

subsection \<open>The signature\<close>

text \<open>\<open>hex.DecodeString\<close>: nothing for an odd length or a byte that is no digit.\<close>

definition hex_digit :: "char \<Rightarrow> nat option" where
  "hex_digit c = (let n = of_char c in
     if 48 \<le> n \<and> n \<le> 57 then Some (n - 48)
     else if 97 \<le> n \<and> n \<le> 102 then Some (n - 87)
     else if 65 \<le> n \<and> n \<le> 70 then Some (n - 55) else None)"

fun hex_decode :: "string \<Rightarrow> string option" where
  "hex_decode [] = Some []"
| "hex_decode [c] = None"
| "hex_decode (c # d # cs) = (case (hex_digit c, hex_digit d) of
     (Some h, Some l) \<Rightarrow> map_option (Cons (char_of (16 * h + l))) (hex_decode cs)
   | _ \<Rightarrow> None)"

definition sha256_Size :: nat where "sha256_Size = 32"

definition offeredSignature :: "(string \<Rightarrow> string list) \<Rightarrow> source \<Rightarrow> string" where
  "offeredSignature header src =
     (let buffer = replicate sha256_Size (CHR 0x00) in
      case header (SignatureHeader src) of
        [v] \<Rightarrow> (case cut_prefix v (SignaturePrefix src) of
            None \<Rightarrow> buffer
          | Some value \<Rightarrow> (case hex_decode value of
                None \<Rightarrow> buffer
              | Some decoded \<Rightarrow> if length decoded \<noteq> sha256_Size then buffer else decoded))
      | _ \<Rightarrow> buffer)"

definition VerifySignature :: "(string \<Rightarrow> string \<Rightarrow> string) \<Rightarrow> (string \<Rightarrow> string list) \<Rightarrow> source \<Rightarrow> string \<Rightarrow> string \<Rightarrow> bool" where
  "VerifySignature mac header src secret body \<longleftrightarrow> mac secret body = offeredSignature header src"

subsection \<open>The identity\<close>

datatype identity_outcome = IdentityFound string identity_kind | IdentityMissing | IdentityNotSingle

definition Identity :: "(string \<Rightarrow> string) \<Rightarrow> (string \<Rightarrow> json option) \<Rightarrow> source \<Rightarrow> string \<Rightarrow> identity_outcome" where
  "Identity sha decode src body =
     (if src_Identity src = [] then IdentityFound (sha body) IdentityDigest
      else
        let value = AtPointer (case decode body of None \<Rightarrow> JNull | Some d \<Rightarrow> d) (src_Identity src) in
        if value = JNull then IdentityMissing
        else case SingleValue value of
          None \<Rightarrow> IdentityNotSingle
        | Some s \<Rightarrow> IdentityFound s IdentityDeclared)"

subsection \<open>The handler\<close>

record ingress_env =
  ie_sha :: "string \<Rightarrow> string"
  ie_mac :: "string \<Rightarrow> string \<Rightarrow> string"
  ie_decode :: "string \<Rightarrow> json option"
  ie_compile :: re_compile
  ie_get :: "string \<Rightarrow> (string, string) result"
  ie_put :: "string \<Rightarrow> string \<Rightarrow> (string, string) result"
  ie_deliveryID :: "string option"
  ie_recordID :: "string \<Rightarrow> string option"
  ie_wall :: time
  ie_now :: "string \<Rightarrow> nat \<Rightarrow> time"
  ie_dispatch :: "playbook \<Rightarrow> delivery \<Rightarrow> string gomap \<Rightarrow> store \<Rightarrow> store \<times> handoff_state"
  ie_alive :: "(string \<Rightarrow> bool) option"
  ie_within :: "duration \<Rightarrow> bool"

record handler =
  hd_Sources :: catalog
  hd_Secret :: "string \<Rightarrow> (secret_error, string) result"
  hd_Loaded :: "playbook list"
  hd_Instance :: string
  hd_Options :: ingress_options

record http_req =
  hr_Path :: string
  hr_Method :: string
  hr_Header :: "string \<Rightarrow> string list"
  hr_Body :: "(string, string) result"
  hr_RemoteAddr :: string

record http_resp =
  hp_Status :: nat
  hp_Text :: string

definition routePrefix :: string where "routePrefix = ''/hooks/''"

definition writeNotFound :: http_resp where "writeNotFound = \<lparr>hp_Status = 404, hp_Text = ''not found''\<rparr>"
definition writeRefused :: http_resp where "writeRefused = \<lparr>hp_Status = 403, hp_Text = ''refused''\<rparr>"
definition writeBadRequest :: "string \<Rightarrow> http_resp" where
  "writeBadRequest reason = \<lparr>hp_Status = 400, hp_Text = ''refused: '' @ reason\<rparr>"
definition writeAccepted :: http_resp where "writeAccepted = \<lparr>hp_Status = 202, hp_Text = ''accepted''\<rparr>"
definition writeNotAccepted :: http_resp where "writeNotAccepted = \<lparr>hp_Status = 503, hp_Text = ''not accepted; retry''\<rparr>"

definition durableStep :: "handler \<Rightarrow> duration" where
  "durableStep h = (if DurableStep (hd_Options h) > 0 then DurableStep (hd_Options h) else DefaultDurableStep)"

definition boundPlaybookNames :: "playbook list \<Rightarrow> string \<Rightarrow> string list" where
  "boundPlaybookNames loaded sourceName =
     map pb_Name (filter (\<lambda>b. trig_Type (pb_Trigger b) = ''webhook'' \<and> trig_Source (pb_Trigger b) = sourceName) loaded)"

text \<open>\<open>net.SplitHostPort\<close>, for its host.\<close>

definition before_last :: "char \<Rightarrow> string \<Rightarrow> string" where
  "before_last c s = rev (drop 1 (dropWhile (\<lambda>x. x \<noteq> c) (rev s)))"

definition SplitHost :: "string \<Rightarrow> string option" where
  "SplitHost s =
     (if CHR '':'' \<notin> set s then None
      else if hd s = CHR ''['' then
        (case str_index s '']'' of
           None \<Rightarrow> None
         | Some e \<Rightarrow>
             if e + 1 \<noteq> length (before_last (CHR '':'') s) then None
             else if CHR ''['' \<in> set (tl s) \<or> CHR '']'' \<in> set (drop (e + 1) s) then None
             else Some (take (e - 1) (tl s)))
      else
        let host = before_last (CHR '':'') s in
        if CHR '':'' \<in> set host \<or> CHR ''['' \<in> set s \<or> CHR '']'' \<in> set s then None else Some host)"

definition peerOf :: "http_req \<Rightarrow> string" where
  "peerOf r = (case SplitHost (hr_RemoteAddr r) of None \<Rightarrow> hr_RemoteAddr r | Some host \<Rightarrow> host)"

subsection \<open>The hand-off\<close>

definition reasonOf :: "value_refusal_kind \<Rightarrow> string" where
  "reasonOf kind = (case kind of ValueAbsent \<Rightarrow> ''value_absent'' | ValueNotSingle \<Rightarrow> ''value_not_single''
     | ValueTooLong \<Rightarrow> ''value_too_long'' | ValueLeadingDash \<Rightarrow> ''value_leading_dash'' | ValueNoMatch \<Rightarrow> ''value_no_match'')"

text \<open>What one playbook's hand-off does: the store, the decided state and an error.\<close>

definition hand_one :: "ingress_env \<Rightarrow> delivery \<Rightarrow> string \<Rightarrow> playbook \<Rightarrow> store \<Rightarrow> store \<times> (store_error, handoff_state) result" where
  "hand_one env d body book s =
     (case Check (ie_compile env) book (Extract (ie_decode env) (pb_Trigger book) body) of
        Inl refusals \<Rightarrow>
          (case AddDeliveryRefusal (ie_recordID env (pb_Name book)) (ie_put env)
                  \<lparr>dr_ID = [], dr_Source = dlv_Source d, dr_Reason = reasonOf (ref_Kind (hd refusals)),
                   dr_ValueName = ref_Name (hd refusals), dr_PlaybookName = pb_Name book, dr_DeliveryID = dlv_ID d,
                   dr_ReceivedAt = ie_now env (pb_Name book) 0, dr_Peer = dlv_Peer d, dr_BodyRef = []\<rparr> [] s of
             (s1, Inl e) \<Rightarrow> (s1, Inl e)
           | (s1, Inr _) \<Rightarrow>
               (case SetHandOffState (dlv_ID d) (pb_Name book) HandOffRefused (ie_now env (pb_Name book) 1) s1 of
                  (s2, Inl e) \<Rightarrow> (s2, Inl e) | (s2, Inr _) \<Rightarrow> (s2, Inr HandOffRefused)))
      | Inr checked \<Rightarrow>
          (case ie_dispatch env book d checked s of (s1, state) \<Rightarrow>
             (case SetHandOffState (dlv_ID d) (pb_Name book) state
                     (if state = HandOffWaiting then zero_time else ie_now env (pb_Name book) 0) s1 of
                (s2, Inl e) \<Rightarrow> (s2, Inl e) | (s2, Inr _) \<Rightarrow> (s2, Inr state))))"

definition handed :: "delivery \<Rightarrow> string list \<Rightarrow> playbook \<Rightarrow> bool" where
  "handed d pending book \<longleftrightarrow> trig_Type (pb_Trigger book) = ''webhook'' \<and> trig_Source (pb_Trigger book) = dlv_Source d \<and>
     pb_Name book \<in> set pending"

fun handoff_loop ::
  "ingress_env \<Rightarrow> delivery \<Rightarrow> string \<Rightarrow> string list \<Rightarrow> playbook list \<Rightarrow> store \<Rightarrow> handoff_state gomap \<Rightarrow>
   store \<times> (store_error, handoff_state gomap) result" where
  "handoff_loop env d body pending [] s states = (s, Inr states)"
| "handoff_loop env d body pending (book # books) s states =
     (if \<not> handed d pending book then handoff_loop env d body pending books s states
      else case hand_one env d body book s of
        (s1, Inl e) \<Rightarrow> (s1, Inl e)
      | (s1, Inr state) \<Rightarrow> handoff_loop env d body pending books s1 (map_set (pb_Name book) state states))"

text \<open>The states of a map, in whatever order the map is walked.\<close>

definition finish_state :: "handoff_state list \<Rightarrow> delivery_state" where
  "finish_state states = fold (\<lambda>h state. case h of
       HandOffDropped \<Rightarrow> DeliveryDropped
     | HandOffHandedOff \<Rightarrow> state
     | HandOffRefused \<Rightarrow> state
     | _ \<Rightarrow> if state \<noteq> DeliveryDropped then DeliveryWaiting else state) states DeliveryHandedOff"

definition finishDelivery :: "string \<Rightarrow> handoff_state gomap \<Rightarrow> store \<Rightarrow> unit st_result" where
  "finishDelivery d states s =
     SetDeliveryState d (if states = [] then DeliveryUnbound else finish_state (map snd states)) s"

definition HandOffsOf :: "string \<Rightarrow> store \<Rightarrow> handoff list" where
  "HandOffsOf d s = sort_key ho_PlaybookName (handoffs_of s d)"

definition HandOff :: "ingress_env \<Rightarrow> playbook list \<Rightarrow> delivery \<Rightarrow> store \<Rightarrow> store \<times> store_error option" where
  "HandOff env loaded d s =
     (case ie_get env (dlv_BodyRef d) of
        Inl e \<Rightarrow> (s, Some (BlobFailed e))
      | Inr body \<Rightarrow>
          let handoffs = HandOffsOf (dlv_ID d) s;
              states = fold (\<lambda>h. map_set (ho_PlaybookName h) (ho_State h)) handoffs [];
              pending = map ho_PlaybookName (filter (\<lambda>h. ho_State h = HandOffPending) handoffs)
          in (case handoff_loop env d body pending loaded s states of
                (s1, Inl e) \<Rightarrow> (s1, Some e)
              | (s1, Inr states1) \<Rightarrow> (case finishDelivery (dlv_ID d) states1 s1 of
                    (s2, Inl e) \<Rightarrow> (s2, Some e) | (s2, Inr _) \<Rightarrow> (s2, None))))"

subsection \<open>Accepting and answering\<close>

text \<open>
  An acceptance that never returns leaves the handler to its timer.  The answer does not wait for the
  hand-off, and the hand-off does not wait for the answer.
\<close>

definition ingress_accept ::
  "ingress_env \<Rightarrow> handler \<Rightarrow> http_req \<Rightarrow> string \<Rightarrow> string \<Rightarrow> identity_kind \<Rightarrow> string \<Rightarrow> source \<Rightarrow> store \<Rightarrow> store \<times> http_resp" where
  "ingress_accept env h r sourceName identity kind body src s =
     (case Accept (ie_sha env) (ie_deliveryID env) (ie_recordID env) (ie_put env)
             \<lparr>ap_Source = sourceName, ap_Identity = identity, ap_IdentityKind = kind, ap_Body = body, ap_Peer = peerOf r,
              ap_ReceivedAt = ie_wall env, ap_Instance = hd_Instance h, ReplayWindow = src_ReplayWindow src,
              ap_Playbooks = boundPlaybookNames (hd_Loaded h) sourceName\<rparr> (ie_alive env) s of
        None \<Rightarrow> (s, writeNotAccepted)
      | Some (s1, Inl e) \<Rightarrow> (s1, writeNotAccepted)
      | Some (s1, Inr (d, isNew)) \<Rightarrow>
          (if isNew then fst (HandOff env (hd_Loaded h) d s1) else s1,
           if ie_within env (durableStep h) then writeAccepted else writeNotAccepted))"

definition ServeHTTP :: "ingress_env \<Rightarrow> handler \<Rightarrow> http_req \<Rightarrow> store \<Rightarrow> store \<times> http_resp" where
  "ServeHTTP env h r s =
     (case cut_prefix (hr_Path r) routePrefix of
        None \<Rightarrow> (s, writeNotFound)
      | Some sourceName \<Rightarrow>
          if sourceName = [] \<or> str_contains sourceName ''/'' then (s, writeNotFound)
          else if hr_Method r \<noteq> ''POST'' then (s, writeNotFound)
          else (case sources_Get (hd_Sources h) sourceName of
              None \<Rightarrow> (s, writeRefused)
            | Some src \<Rightarrow> (case hd_Secret h sourceName of
                  Inl _ \<Rightarrow> (s, writeRefused)
                | Inr secret \<Rightarrow> (case hr_Body r of
                      Inl _ \<Rightarrow> (s, writeRefused)
                    | Inr body \<Rightarrow>
                        if \<not> VerifySignature (ie_mac env) (hr_Header r) src secret body then (s, writeRefused)
                        else (case Identity (ie_sha env) (ie_decode env) src body of
                            IdentityFound identity kind \<Rightarrow> ingress_accept env h r sourceName identity kind body src s
                          | outcome \<Rightarrow>
                              let reason = (if outcome = IdentityNotSingle then ''identity_not_single'' else ''identity_absent'') in
                              (case AddDeliveryRefusal (ie_recordID env []) (ie_put env)
                                      \<lparr>dr_ID = [], dr_Source = sourceName, dr_Reason = reason, dr_ValueName = [],
                                       dr_PlaybookName = [], dr_DeliveryID = [], dr_ReceivedAt = ie_wall env,
                                       dr_Peer = peerOf r, dr_BodyRef = []\<rparr> body s of
                                 (s1, Inl _) \<Rightarrow> (s1, writeNotAccepted)
                               | (s1, Inr _) \<Rightarrow> (s1, writeBadRequest reason)))))))"

subsection \<open>Facts of the signature\<close>

text \<open>What \<open>hex.EncodeToString\<close> writes is decoded back.\<close>

definition hex_char :: "nat \<Rightarrow> char" where
  "hex_char n = (if n < 10 then char_of (n + 48) else char_of (n + 87))"

definition hex_encode :: "string \<Rightarrow> string" where
  "hex_encode s = concat (map (\<lambda>c. [hex_char (of_char c div 16), hex_char (of_char c mod 16)]) s)"

lemma hex_digit_char: "n < 16 \<Longrightarrow> hex_digit (hex_char n) = Some n"
  by (auto simp: hex_digit_def hex_char_def Let_def of_char_of)

lemma hex_decode_encode: "hex_decode (hex_encode s) = Some s"
proof (induction s)
  case (Cons c s)
  have "of_char c < (256 :: nat)" by simp
  then have "of_char c div 16 < (16 :: nat)" "of_char c mod 16 < (16 :: nat)" by linarith simp
  then have "hex_digit (hex_char (of_char c div 16)) = Some (of_char c div 16)" "hex_digit (hex_char (of_char c mod 16)) = Some (of_char c mod 16)"
    by (simp_all only: hex_digit_char)
  then show ?case using Cons by (simp add: hex_encode_def)
qed (simp add: hex_encode_def)

lemma offeredSignature_cases:
  obtains "offeredSignature header src = replicate sha256_Size (CHR 0x00)"
  | val where "header (SignatureHeader src) = [SignaturePrefix src @ val]" "hex_decode val = Some (offeredSignature header src)"
proof (cases "\<exists>v. header (SignatureHeader src) = [v]")
  case False
  then have "offeredSignature header src = replicate sha256_Size (CHR 0x00)"
    unfolding offeredSignature_def Let_def by (auto split: list.splits)
  then show ?thesis using that(1) by blast
next
  case True
  then obtain v where v: "header (SignatureHeader src) = [v]" by blast
  show ?thesis
  proof (cases "cut_prefix v (SignaturePrefix src)")
    case None
    then show ?thesis using that(1) v by (simp add: offeredSignature_def Let_def)
  next
    case (Some val)
    then have "v = SignaturePrefix src @ val"
      by (auto simp: cut_prefix_def has_prefix_def split: if_splits) (metis append_take_drop_id)
    moreover have "offeredSignature header src = replicate sha256_Size (CHR 0x00) \<or> hex_decode val = Some (offeredSignature header src)"
      using v Some by (auto simp: offeredSignature_def Let_def split: option.splits)
    ultimately show ?thesis using that v by blast
  qed
qed

subsection \<open>Facts of the hand-off\<close>

definition state_of :: "store \<Rightarrow> string \<Rightarrow> string \<Rightarrow> handoff_state option" where
  "state_of s d p = map_option ho_State (find (\<lambda>h. ho_DeliveryID h = d \<and> ho_PlaybookName h = p) (st_handoffs s))"

lemma state_of_set_handoff:
  "state_of (set_handoff d p st at s) d' q = (if d' = d \<and> q = p then map_option (\<lambda>_. st) (state_of s d p) else state_of s d' q)"
proof -
  have "map_option ho_State (find (\<lambda>h. ho_DeliveryID h = d' \<and> ho_PlaybookName h = q)
      (map (\<lambda>h. if ho_DeliveryID h = d \<and> ho_PlaybookName h = p then h\<lparr>ho_State := st, DecidedAt := at\<rparr> else h) hs)) =
    (if d' = d \<and> q = p then map_option (\<lambda>_. st) (map_option ho_State (find (\<lambda>h. ho_DeliveryID h = d \<and> ho_PlaybookName h = p) hs))
     else map_option ho_State (find (\<lambda>h. ho_DeliveryID h = d' \<and> ho_PlaybookName h = q) hs))" for hs
    by (induction hs) auto
  from this [of "st_handoffs s"] show ?thesis by (auto simp: state_of_def set_handoff_def update_where_def)
qed





definition dispatch_frame :: "ingress_env \<Rightarrow> bool" where
  "dispatch_frame env \<longleftrightarrow> (\<forall>book d values s. let s1 = fst (ie_dispatch env book d values s) in
     st_handoffs s1 = st_handoffs s \<and> map dlv_ID (st_deliveries s1) = map dlv_ID (st_deliveries s) \<and>
     st_delivery_refusals s1 = st_delivery_refusals s \<and> st_redactor s1 = st_redactor s \<and> st_identities s1 = st_identities s)"

text \<open>What one playbook's hand-off decided.\<close>

definition decided_as :: "ingress_env \<Rightarrow> delivery \<Rightarrow> string \<Rightarrow> playbook \<Rightarrow> store \<Rightarrow> handoff_state \<Rightarrow> bool" where
  "decided_as env d body book s' state \<longleftrightarrow>
     (case Check (ie_compile env) book (Extract (ie_decode env) (pb_Trigger book) body) of
        Inl refusals \<Rightarrow> state = HandOffRefused \<and>
          (\<exists>r \<in> set (st_delivery_refusals s'). dr_DeliveryID r = dlv_ID d \<and> dr_PlaybookName r = redact s' (pb_Name book) \<and>
             dr_Reason r = reasonOf (ref_Kind (hd refusals)))
      | Inr checked \<Rightarrow> \<exists>s1. state = snd (ie_dispatch env book d checked s1))"

definition handoff_frame :: "store \<Rightarrow> store \<Rightarrow> bool" where
  "handoff_frame s s' \<longleftrightarrow> st_redactor s' = st_redactor s \<and> map dlv_ID (st_deliveries s') = map dlv_ID (st_deliveries s) \<and>
     st_identities s' = st_identities s \<and> set (st_delivery_refusals s) \<subseteq> set (st_delivery_refusals s')"

lemma handoff_frame_trans: "handoff_frame s s1 \<Longrightarrow> handoff_frame s1 s2 \<Longrightarrow> handoff_frame s s2"
  by (auto simp: handoff_frame_def)

lemma decided_as_mono: "decided_as env d body book s state \<Longrightarrow> handoff_frame s s' \<Longrightarrow> decided_as env d body book s' state"
  by (force simp: decided_as_def handoff_frame_def split: sum.splits)

lemma SetHandOffState_cases:
  assumes "SetHandOffState d p st at s = (s', Inr u)"
  shows "s' = set_handoff d p st at s" "state_of s d p \<noteq> None"
  using assms by (auto simp: SetHandOffState_def rows_where_0 state_of_def find_None_iff split: if_splits)

lemma set_handoff_frame: "handoff_frame s (set_handoff d p st at s)"
  by (simp add: handoff_frame_def)

lemma hand_one_decides:
  assumes "hand_one env d body book s = (s', Inr state)" "dispatch_frame env"
  shows "handoff_frame s s' \<and> decided_as env d body book s' state \<and>
    (\<forall>e q. state_of s' e q = (if e = dlv_ID d \<and> q = pb_Name book then Some state else state_of s e q))"
proof (cases "Check (ie_compile env) book (Extract (ie_decode env) (pb_Trigger book) body)")
  case (Inl refusals)
  let ?row = "\<lparr>dr_ID = [], dr_Source = dlv_Source d, dr_Reason = reasonOf (ref_Kind (hd refusals)),
     dr_ValueName = ref_Name (hd refusals), dr_PlaybookName = pb_Name book, dr_DeliveryID = dlv_ID d,
     dr_ReceivedAt = ie_now env (pb_Name book) 0, dr_Peer = dlv_Peer d, dr_BodyRef = []\<rparr>"
  obtain s1 r where a: "AddDeliveryRefusal (ie_recordID env (pb_Name book)) (ie_put env) ?row [] s = (s1, r)" by fastforce
  then obtain i where r: "r = Inr i" using assms(1) Inl by (cases r) (simp_all add: hand_one_def)
  obtain s2 u where b: "SetHandOffState (dlv_ID d) (pb_Name book) HandOffRefused (ie_now env (pb_Name book) 1) s1 = (s2, u)" by fastforce
  then have u: "u = Inr ()" "s2 = s'" "state = HandOffRefused"
    using assms(1) Inl a r by (auto simp: hand_one_def split: sum.splits)
  have s1: "handoff_frame s s1" "st_handoffs s1 = st_handoffs s"
     "\<exists>x \<in> set (st_delivery_refusals s1). dr_DeliveryID x = dlv_ID d \<and> dr_PlaybookName x = redact s1 (pb_Name book) \<and>
        dr_Reason x = reasonOf (ref_Kind (hd refusals))"
    using a r by (auto simp: AddDeliveryRefusal_def handoff_frame_def split: option.splits if_splits)
  note set' = SetHandOffState_cases [OF b [unfolded u]]
  have "decided_as env d body book s1 HandOffRefused" using s1(3) by (simp add: decided_as_def Inl)
  then have "decided_as env d body book s' state" using decided_as_mono set'(1) set_handoff_frame u by blast
  moreover have "state_of s1 = state_of s" using s1(2) by (intro ext) (simp add: state_of_def)
  ultimately show ?thesis using set' s1(1) set_handoff_frame handoff_frame_trans u(3) by (auto simp: state_of_set_handoff)
next
  case (Inr checked)
  obtain s1 st where a: "ie_dispatch env book d checked s = (s1, st)" by fastforce
  obtain s2 u where b: "SetHandOffState (dlv_ID d) (pb_Name book) st
     (if st = HandOffWaiting then zero_time else ie_now env (pb_Name book) 0) s1 = (s2, u)" by fastforce
  then have u: "u = Inr ()" "s2 = s'" "state = st"
    using assms(1) Inr a by (auto simp: hand_one_def split: sum.splits)
  have fr: "st_handoffs s1 = st_handoffs s" "handoff_frame s s1"
    using assms(2) a unfolding dispatch_frame_def Let_def handoff_frame_def by (metis fst_conv order_refl)+
  note set' = SetHandOffState_cases [OF b [unfolded u(1,2)]]
  have "decided_as env d body book s' state" unfolding decided_as_def Inr u(3) using a by (auto intro: exI [of _ s])
  moreover have "state_of s1 = state_of s" using fr by (intro ext) (simp add: state_of_def)
  ultimately show ?thesis using set' fr(2) set_handoff_frame handoff_frame_trans u(3) by (auto simp: state_of_set_handoff)
qed





subsection \<open>Properties\<close>

text \<open>
  A request is authentic only if exactly one value of the declared header field carries, after the
  declared prefix, the hexadecimal digits of the keyed hash of the exact body under the source's
  secret; a sender that writes them so is accepted.  (The one exception the code leaves is a hash of
  thirty-two zero bytes, which any unsigned request would match.)
\<close>

theorem VerifySignature_exact:
  assumes "length (mac secret body) = sha256_Size" "mac secret body \<noteq> replicate sha256_Size (CHR 0x00)"
  shows "(VerifySignature mac header src secret body \<longleftrightarrow>
      (\<exists>digits. header (SignatureHeader src) = [SignaturePrefix src @ digits] \<and> hex_decode digits = Some (mac secret body))) \<and>
    (header (SignatureHeader src) = [SignaturePrefix src @ hex_encode (mac secret body)] \<longrightarrow>
       VerifySignature mac header src secret body)"
proof -
  have offered: "offeredSignature header src = mac secret body"
    if "header (SignatureHeader src) = [SignaturePrefix src @ digits]" "hex_decode digits = Some (mac secret body)" for digits
    using that assms(1) by (simp add: offeredSignature_def cut_prefix_def has_prefix_def Let_def)
  have "\<exists>digits. header (SignatureHeader src) = [SignaturePrefix src @ digits] \<and> hex_decode digits = Some (mac secret body)"
    if "VerifySignature mac header src secret body"
    using that assms(2) by (cases rule: offeredSignature_cases [of header src]) (auto simp: VerifySignature_def)
  then show ?thesis using offered hex_decode_encode unfolding VerifySignature_def by metis
qed


text \<open>Whether or not a hand-off fails on the way, it forgets no delivery and no refusal.\<close>

lemma hand_one_frame:
  assumes "hand_one env d body book s = (s', r)" "dispatch_frame env"
  shows "handoff_frame s s'"
proof (cases r)
  case (Inr st)
  then show ?thesis using hand_one_decides assms by blast
next
  case (Inl e)
  have add: "handoff_frame t (fst (AddDeliveryRefusal i put row b t))" for i put row b t
    by (auto simp: AddDeliveryRefusal_def handoff_frame_def split: option.splits sum.splits)
  have set': "handoff_frame t (fst (SetHandOffState i p st at t))" for i p st at t
    by (simp add: SetHandOffState_def set_handoff_frame) (simp add: handoff_frame_def)
  have disp: "handoff_frame t (fst (ie_dispatch env b x v t))" for b x v t
    using assms(2) by (simp add: dispatch_frame_def Let_def handoff_frame_def)
  show ?thesis
  proof (cases "Check (ie_compile env) book (Extract (ie_decode env) (pb_Trigger book) body)")
    case (Inl refusals)
    obtain s1 r1 where a: "AddDeliveryRefusal (ie_recordID env (pb_Name book)) (ie_put env)
       \<lparr>dr_ID = [], dr_Source = dlv_Source d, dr_Reason = reasonOf (ref_Kind (hd refusals)),
        dr_ValueName = ref_Name (hd refusals), dr_PlaybookName = pb_Name book, dr_DeliveryID = dlv_ID d,
        dr_ReceivedAt = ie_now env (pb_Name book) 0, dr_Peer = dlv_Peer d, dr_BodyRef = []\<rparr> [] s = (s1, r1)" by fastforce
    obtain s2 r2 where b: "SetHandOffState (dlv_ID d) (pb_Name book) HandOffRefused (ie_now env (pb_Name book) 1) s1 = (s2, r2)" by fastforce
    have "handoff_frame s s1" "handoff_frame s1 s2" using add set' a b by (metis fst_conv)+
    moreover have "s' = s1 \<or> s' = s2" using assms(1) Inl a b by (auto simp: hand_one_def split: sum.splits)
    ultimately show ?thesis using handoff_frame_trans by blast
  next
    case (Inr checked)
    obtain s1 st where a: "ie_dispatch env book d checked s = (s1, st)" by fastforce
    obtain s2 r2 where b: "SetHandOffState (dlv_ID d) (pb_Name book) st
       (if st = HandOffWaiting then zero_time else ie_now env (pb_Name book) 0) s1 = (s2, r2)" by fastforce
    have "handoff_frame s s1" "handoff_frame s1 s2" using disp set' a b by (metis fst_conv)+
    moreover have "s' = s2" using assms(1) Inr a b by (auto simp: hand_one_def split: sum.splits)
    ultimately show ?thesis using handoff_frame_trans by blast
  qed
qed

lemma handoff_loop_frame:
  "handoff_loop env d body pending books s states = (s', r) \<Longrightarrow> dispatch_frame env \<Longrightarrow> handoff_frame s s'"
proof (induction books arbitrary: s states)
  case Nil
  then show ?case by (simp add: handoff_frame_def)
next
  case (Cons b books)
  obtain s1 o' where h: "hand_one env d body b s = (s1, o')" by fastforce
  have one: "handoff_frame s s1" by (rule hand_one_frame [OF h Cons.prems(2)])
  show ?case
  proof (cases "handed d pending b")
    case False
    then show ?thesis using Cons by simp
  next
    case True
    show ?thesis
    proof (cases o')
      case (Inl e)
      then show ?thesis using Cons.prems(1) True h one by simp
    next
      case (Inr st)
      then show ?thesis using Cons.prems True h one Cons.IH [of s1] handoff_frame_trans by auto
    qed
  qed
qed

lemma finishDelivery_frame: "handoff_frame s (fst (finishDelivery d states s))"
  by (auto simp: finishDelivery_def SetDeliveryState_def set_delivery_def handoff_frame_def update_where_def)

lemma HandOff_frame: "dispatch_frame env \<Longrightarrow> handoff_frame s (fst (HandOff env loaded d s))"
proof -
  assume fr: "dispatch_frame env"
  have refl: "handoff_frame s s" by (simp add: handoff_frame_def)
  show ?thesis
  proof (cases "ie_get env (dlv_BodyRef d)")
    case (Inl e)
    then show ?thesis using refl by (simp add: HandOff_def)
  next
    case (Inr body)
    obtain s1 r where l: "handoff_loop env d body (map ho_PlaybookName (filter (\<lambda>h. ho_State h = HandOffPending) (HandOffsOf (dlv_ID d) s)))
       loaded s (fold (\<lambda>h. map_set (ho_PlaybookName h) (ho_State h)) (HandOffsOf (dlv_ID d) s) []) = (s1, r)" by fastforce
    have 1: "handoff_frame s s1" by (rule handoff_loop_frame [OF l fr])
    show ?thesis
    proof (cases r)
      case (Inl e)
      then show ?thesis using Inr l 1 by (simp add: HandOff_def Let_def)
    next
      case ok: (Inr states1)
      have "fst (HandOff env loaded d s) = fst (finishDelivery (dlv_ID d) states1 s1)"
        using Inr l ok by (simp add: HandOff_def Let_def split: prod.splits sum.splits)
      then show ?thesis using 1 finishDelivery_frame handoff_frame_trans by metis
    qed
  qed
qed

text \<open>An acceptance that answers a delivery remembers its identity.\<close>

lemma existing_remembered:
  "existingDelivery src i s = Inr (Some x) \<Longrightarrow> map_of (st_identities s) (src, i) = Some (dlv_ID x, dlv_ReceivedAt x) \<and>
     dlv_ID x \<in> dlv_ID ` set (st_deliveries s)"
  by (auto simp: existingDelivery_def split: option.splits dest!: find_SomeD)

lemma Accept_remembers:
  assumes "Accept sha newID newRecordID put params alive s = Some (s', Inr (d, isNew))"
    and "accept_identity sha params s = (identity, kind)"
  shows "\<exists>at. map_of (st_identities s') (redact s (ap_Source params), identity) = Some (dlv_ID d, at)"
    and "dlv_ID d \<in> dlv_ID ` set (st_deliveries s')"
proof -
  have lk: "dlv_ID ` set (st_deliveries t) = fst ` set (links t)" for t by (simp add: links_def image_image)
  have "(\<exists>at. map_of (st_identities s') (redact s (ap_Source params), identity) = Some (dlv_ID d, at)) \<and> dlv_ID d \<in> dlv_ID ` set (st_deliveries s')"
    using assms
  proof (cases rule: Accept_cases)
    case (again x s1 sps)
    from existingDelivery_Some [OF again(1)] obtain y where "find (\<lambda>y. dlv_ID y = dlv_ID x) (st_deliveries s) = Some y" by blast
    note j = judge_spec [OF again(2) this]
    have "same_tables s s'" unfolding again(4) using j by (intro same_tables_repeat) simp
    then show ?thesis using existing_remembered [OF again(1)] again(5) unfolding same_tables_def lk by auto
  next
    case (fresh s1 playbooks)
    then show ?thesis using new_delivery_Inr [OF fresh(4)] by auto
  qed
  then show "\<exists>at. map_of (st_identities s') (redact s (ap_Source params), identity) = Some (dlv_ID d, at)"
    "dlv_ID d \<in> dlv_ID ` set (st_deliveries s')" by blast+
qed

text \<open>
  A delivery that is answered \<open>202 accepted\<close> is in the record: its identity is remembered for its
  source and names a delivery of the table, whatever the hand-off that follows does.
\<close>

theorem accepted_is_recorded:
  assumes "ServeHTTP env h r s = (s', writeAccepted)" "dispatch_frame env"
  shows "\<exists>n src body i kind d at. hr_Path r = routePrefix @ n \<and> sources_Get (hd_Sources h) n = Some src \<and> hr_Body r = Inr body \<and>
     Identity (ie_sha env) (ie_decode env) src body = IdentityFound i kind \<and>
     map_of (st_identities s') (redact s n, if kind = IdentityNone then ie_sha env body else redact s i) = Some (d, at) \<and>
     d \<in> dlv_ID ` set (st_deliveries s')"
proof -
  have cut: "p = routePrefix @ n" if "cut_prefix p routePrefix = Some n" for p n
    using that by (auto simp: cut_prefix_def has_prefix_def split: if_splits) (metis append_take_drop_id)
  have other: "writeAccepted \<noteq> writeNotFound" "writeAccepted \<noteq> writeRefused" "writeAccepted \<noteq> writeNotAccepted"
    "writeAccepted \<noteq> writeBadRequest x" "writeBadRequest x \<noteq> writeAccepted" for x
    by (simp_all add: writeAccepted_def writeNotFound_def writeRefused_def writeNotAccepted_def writeBadRequest_def)
  obtain n src body i kind where q: "cut_prefix (hr_Path r) routePrefix = Some n" "sources_Get (hd_Sources h) n = Some src"
    "hr_Body r = Inr body" "Identity (ie_sha env) (ie_decode env) src body = IdentityFound i kind"
    "ingress_accept env h r n i kind body src s = (s', writeAccepted)"
    using assms(1) other unfolding ServeHTTP_def Let_def
    by (auto split: option.splits if_splits sum.splits identity_outcome.splits prod.splits)
  let ?params = "\<lparr>ap_Source = n, ap_Identity = i, ap_IdentityKind = kind, ap_Body = body, ap_Peer = peerOf r,
     ap_ReceivedAt = ie_wall env, ap_Instance = hd_Instance h, ReplayWindow = src_ReplayWindow src,
     ap_Playbooks = boundPlaybookNames (hd_Loaded h) n\<rparr>"
  obtain s1 d isNew where A: "Accept (ie_sha env) (ie_deliveryID env) (ie_recordID env) (ie_put env) ?params (ie_alive env) s = Some (s1, Inr (d, isNew))"
    "s' = (if isNew then fst (HandOff env (hd_Loaded h) d s1) else s1)"
    using q(5) other unfolding ingress_accept_def by (auto split: option.splits sum.splits prod.splits if_splits)
  obtain identity k where id': "accept_identity (ie_sha env) ?params s = (identity, k)" by fastforce
  have idv: "identity = (if kind = IdentityNone then ie_sha env body else redact s i)" using id' by (auto simp: accept_identity_def split: if_splits)
  note rem = Accept_remembers [OF A(1) id']
  have fr: "handoff_frame s1 s'" using HandOff_frame [OF assms(2)] A(2) by (auto simp: handoff_frame_def)
  have "set (map dlv_ID (st_deliveries s')) = set (map dlv_ID (st_deliveries s1))" using fr by (simp only: handoff_frame_def)
  then have "dlv_ID d \<in> dlv_ID ` set (st_deliveries s')" using rem(2) by simp
  moreover have "\<exists>at. map_of (st_identities s') (redact s n, identity) = Some (dlv_ID d, at)" using rem(1) fr by (simp add: handoff_frame_def)
  ultimately show ?thesis using q(2-4) cut [OF q(1)] unfolding idv by blast
qed


subsection \<open>A delivery\<close>

definition demo_hook_book :: playbook where
  "demo_hook_book = \<lparr>pb_Name = ''triage'', Description = [], pb_Trigger = \<lparr>trig_Type = ''webhook'', Schedule = [], trig_Source = ''ci'',
     Values = []\<rparr>, Gather = [], pb_Agent = \<lparr>Model = [], PromptFile = [], Restricted = None, Tools = [], MCP = [], Allow = [],
     OutputSchema = YNil, agent_Timeout = [], Extra = []\<rparr>, Sinks = [], pb_Guard = None, Retrieve = [], pb_Path = []\<rparr>"

definition demo_mac :: string where "demo_mac = replicate 32 (CHR ''m'')"

definition demo_source :: source where
  "demo_source = \<lparr>src_Name = ''ci'', SignatureHeader = ''X-Sig'', SignaturePrefix = ''sha256='', src_Identity = [],
     src_ReplayWindow = DefaultReplayWindow, secretKey = ''hook''\<rparr>"

definition demo_ingress :: ingress_env where
  "demo_ingress = \<lparr>ie_sha = (\<lambda>_. ''ab''), ie_mac = (\<lambda>_ _. demo_mac), ie_decode = (\<lambda>_. None), ie_compile = (\<lambda>_. None),
     ie_get = (\<lambda>_. Inr ''{}''), ie_put = (\<lambda>_ _. Inr ''d1/body''), ie_deliveryID = Some ''d1'', ie_recordID = Some, ie_wall = 9,
     ie_now = (\<lambda>_ _. 9), ie_dispatch = (\<lambda>_ _ _ s. (s, HandOffHandedOff)), ie_alive = None, ie_within = (\<lambda>_. True)\<rparr>"

definition demo_handler :: handler where
  "demo_handler = \<lparr>hd_Sources = \<lparr>cat_entries = [(''ci'', demo_source)], cat_cfg = demo_source_config\<rparr>, hd_Secret = (\<lambda>_. Inr ''k''),
     hd_Loaded = [demo_hook_book], hd_Instance = ''i1'', hd_Options = DefaultOptions\<rparr>"

definition demo_hook :: http_req where
  "demo_hook = \<lparr>hr_Path = ''/hooks/ci'', hr_Method = ''POST'', hr_Header = (\<lambda>_. [''sha256='' @ hex_encode demo_mac]),
     hr_Body = Inr ''{}'', hr_RemoteAddr = ''10.0.0.1:80''\<rparr>"

definition demo_served :: "store \<times> http_resp" where
  "demo_served = ServeHTTP demo_ingress demo_handler demo_hook (empty_store None)"

lemma demo_offered: "offeredSignature (\<lambda>_. [''sha256='' @ hex_encode demo_mac]) demo_source = demo_mac"
proof -
  have "cut_prefix (''sha256='' @ hex_encode demo_mac) (SignaturePrefix demo_source) = Some (hex_encode demo_mac)"
    by (simp add: demo_source_def cut_prefix_def has_prefix_def)
  then show ?thesis unfolding offeredSignature_def Let_def by (simp add: hex_decode_encode) (simp add: demo_mac_def sha256_Size_def)
qed

lemma demo_frame: "dispatch_frame demo_ingress"
  by (simp add: dispatch_frame_def demo_ingress_def)

lemma demo_route: "cut_prefix ''/hooks/ci'' routePrefix = Some ''ci'' \<and> \<not> str_contains ''ci'' ''/''"
  by (simp add: routePrefix_def cut_prefix_def has_prefix_def str_contains_def)

definition demo_delivery :: delivery where
  "demo_delivery = \<lparr>dlv_ID = ''d1'', dlv_Source = ''ci'', dlv_Identity = ''ab'', dlv_IdentityKind = IdentityDigest, dlv_ReceivedAt = 9,
     dlv_Peer = peerOf demo_hook, dlv_BodyRef = ''d1/body'', BodySHA256 = ''ab'', Repeats = 0, dlv_Instance = ''i1'', Supersedes = [],
     dlv_State = DeliveryAccepted\<rparr>"

definition demo_accepted :: store where
  "demo_accepted = (empty_store None)\<lparr>st_deliveries := [demo_delivery], st_identities := [((''ci'', ''ab''), ''d1'', 9)],
     st_handoffs := [\<lparr>ho_DeliveryID = ''d1'', ho_PlaybookName = ''triage'', ho_State = HandOffPending, DecidedAt = zero_time\<rparr>]\<rparr>"

lemma demo_accepts:
  "ingress_accept demo_ingress demo_handler demo_hook ''ci'' ''ab'' IdentityDigest ''{}'' demo_source (empty_store None) =
     (fst (HandOff demo_ingress [demo_hook_book] demo_delivery demo_accepted), writeAccepted)"
  by (simp add: ingress_accept_def Accept_def accept_identity_def demo_ingress_def demo_handler_def boundPlaybookNames_def demo_hook_book_def
      Let_def existingDelivery_def empty_store_def undecided_playbooks_def new_delivery_def references_def is_zero_def zero_time_def
      demo_delivery_def demo_accepted_def Redact_def)

lemma demo_served_is: "demo_served = (fst (HandOff demo_ingress [demo_hook_book] demo_delivery demo_accepted), writeAccepted)"
proof -
  have id': "Identity (ie_sha demo_ingress) (ie_decode demo_ingress) demo_source ''{}'' = IdentityFound ''ab'' IdentityDigest"
    by (simp add: Identity_def demo_source_def demo_ingress_def)
  have "VerifySignature (ie_mac demo_ingress) (hr_Header demo_hook) demo_source ''k'' ''{}''"
    using demo_offered by (simp add: VerifySignature_def demo_ingress_def demo_hook_def)
  then show ?thesis
    unfolding demo_served_def ServeHTTP_def using demo_route demo_accepts id'
    by (simp add: demo_hook_def demo_handler_def sources_Get_def)
qed

theorem VerifySignature_exact_witness: "VerifySignature (\<lambda>_ _. demo_mac) (\<lambda>_. [''sha256='' @ hex_encode demo_mac]) demo_source ''k'' ''{}''"
  using VerifySignature_exact [of "\<lambda>_ _. demo_mac" "''k''" "''{}''" "\<lambda>_. [''sha256='' @ hex_encode demo_mac]" demo_source]
  by (simp add: demo_mac_def demo_source_def sha256_Size_def hex_decode_encode)


theorem accepted_is_recorded_witness: "\<exists>d. d \<in> dlv_ID ` set (st_deliveries (fst demo_served))"
  using accepted_is_recorded [OF demo_served_is [unfolded demo_served_def] demo_frame] unfolding demo_served_is fst_conv by blast


end
