(* ===== verification/Agent.thy ===== *)
theory Agent
  imports Playbook Filepath
begin

text \<open>
  The agent stage: \<open>stage/agent/argv.go\<close>, \<open>receipt.go\<close>, \<open>stream.go\<close>, \<open>toolcalls.go\<close>, \<open>agent.go\<close>,
  \<open>startup.go\<close> and \<open>validate.go\<close>.  The child process is a parameter: a function of the argument
  vector, the prompt and the environment to the lines it wrote and how it ended.  The JSON decoders of
  an event and of a message, the JSON encoder and the schema library are parameters too.
\<close>

subsection \<open>The argument vector\<close>

record agent_declaration =
  de_Model :: string
  de_Restricted :: bool
  de_Tools :: "string list"
  de_MCPServers :: "string list"
  de_Allow :: "string list"
  de_OutputSchema :: yaml

definition declarationOf :: "playbook \<Rightarrow> agent_declaration" where
  "declarationOf book = \<lparr>de_Model = Model (pb_Agent book), de_Restricted = IsRestricted (pb_Agent book),
     de_Tools = Tools (pb_Agent book), de_MCPServers = MCP (pb_Agent book), de_Allow = Allow (pb_Agent book),
     de_OutputSchema = OutputSchema (pb_Agent book)\<rparr>"

definition flagPrint :: string where "flagPrint = ''--print''"
definition flagVerbose :: string where "flagVerbose = ''--verbose''"
definition flagOutputFormat :: string where "flagOutputFormat = ''--output-format''"
definition flagRestricted :: string where "flagRestricted = ''--restricted''"
definition flagTools :: string where "flagTools = ''--tools''"
definition flagAllowedTools :: string where "flagAllowedTools = ''--allowedTools''"
definition flagMCPConfig :: string where "flagMCPConfig = ''--mcp-config''"
definition flagStrictMCP :: string where "flagStrictMCP = ''--strict-mcp-config''"
definition flagSettingSources :: string where "flagSettingSources = ''--setting-sources''"
definition flagJSONSchema :: string where "flagJSONSchema = ''--json-schema''"
definition flagModel :: string where "flagModel = ''--model''"


datatype argv_error = SeparatorInEntry string | EntryLooksLikeAFlag string | SchemaNotEncodable string

fun entry_problem :: "string list \<Rightarrow> argv_error option" where
  "entry_problem [] = None"
| "entry_problem (e # es) =
     (if str_contains e '','' then Some (SeparatorInEntry e)
      else if has_prefix e ''-'' then Some (EntryLooksLikeAFlag e) else entry_problem es)"

definition BuildArgs :: "(yaml \<Rightarrow> (string, string) result) \<Rightarrow> agent_declaration \<Rightarrow> string \<Rightarrow> (argv_error, string list) result" where
  "BuildArgs marshal decl mcpConfigPath =
     (case entry_problem (de_Tools decl @ de_Allow decl) of
        Some e \<Rightarrow> Inl e
      | None \<Rightarrow>
          let args = [flagPrint, flagVerbose, flagOutputFormat, ''stream-json'', flagSettingSources, [], flagStrictMCP,
                 flagMCPConfig, mcpConfigPath] @
               flagTools # (if de_Tools decl = [] then [[]] else de_Tools decl) @
               (if de_Restricted decl then [flagRestricted] else []) @
               (if de_Allow decl \<noteq> [] then flagAllowedTools # de_Allow decl else []) @
               (if de_Model decl \<noteq> [] then [flagModel, de_Model decl] else [])
          in if de_OutputSchema decl = YNil then Inr args
             else (case marshal (de_OutputSchema decl) of
                 Inl e \<Rightarrow> Inl (SchemaNotEncodable e)
               | Inr schema \<Rightarrow> Inr (args @ [flagJSONSchema, schema])))"

text \<open>The strict configuration: its file and what is written there.\<close>

definition WriteMCPConfig ::
  "(string gomap \<Rightarrow> (string, string) result) \<Rightarrow> (string \<Rightarrow> string option) \<Rightarrow> string \<Rightarrow> string gomap \<Rightarrow> (string, string \<times> string) result" where
  "WriteMCPConfig encode fault dir servers = (case encode servers of
     Inl e \<Rightarrow> Inl (''encoding the MCP configuration: '' @ e)
   | Inr document \<Rightarrow> (let path = path_Join [dir, ''mcp.json''] in
       case fault path of Some e \<Rightarrow> Inl (''writing the MCP configuration: '' @ e) | None \<Rightarrow> Inr (path, document)))"

subsection \<open>The stream\<close>

record usage =
  us_Input :: int
  us_Output :: int
  us_CacheRead :: int
  us_CacheCreation :: int

definition Usage_Total :: "usage \<Rightarrow> int" where
  "Usage_Total u = wrap64 (wrap64 (wrap64 (us_Input u + us_Output u) + us_CacheRead u) + us_CacheCreation u)"

record agent_event =
  ae_Type :: string
  ae_Subtype :: string
  ae_SessionID :: string
  ae_APIKeySource :: string
  ae_MCPServers :: "string list"
  ae_Tools :: "string list"
  ae_TotalCost :: int
  ae_Usage :: usage
  ae_DurationMS :: int
  ae_IsError :: bool
  ae_APIErrorStatus :: string
  ae_Result :: string
  ae_StructuredOutput :: string
  ae_Message :: string
  ae_PermissionDenials :: "(string \<times> string) list"

subsection \<open>The receipt\<close>

definition structuredOutputTool :: string where "structuredOutputTool = ''StructuredOutput''"

definition mcpToolsIn :: "string list \<Rightarrow> string list" where
  "mcpToolsIn allow = filter (\<lambda>e. has_prefix e ''mcp__'' \<and> str_count e ''__'' \<ge> 2) allow"

datatype receipt_error = ReceiptMismatch "string list" "string list"

definition CheckReceipt :: "agent_declaration \<Rightarrow> agent_event \<Rightarrow> receipt_error option" where
  "CheckReceipt decl e =
     (let structured = (if de_OutputSchema decl \<noteq> YNil then [structuredOutputTool] else []);
          declaredTools = set (de_Tools decl) \<union> set (mcpToolsIn (de_Allow decl)) \<union> set structured;
          extraTools = filter (\<lambda>t. t \<notin> declaredTools) (ae_Tools e);
          extraServers = filter (\<lambda>s. s \<notin> set (de_MCPServers decl)) (ae_MCPServers e)
      in if ae_Type e \<noteq> ''system'' \<or> ae_Subtype e \<noteq> ''init'' then None
         else if extraTools = [] \<and> extraServers = [] then None
         else Some (ReceiptMismatch (sort extraTools) (sort extraServers)))"

subsection \<open>Tool calls\<close>

record call =
  call_ID :: string
  call_Name :: string
  call_Input :: string
  call_Output :: string
  call_StartedAt :: time
  call_Outcome :: string

record content_block =
  cb_Type :: string
  cb_ID :: string
  cb_Name :: string
  cb_Input :: string
  cb_ToolUseID :: string
  cb_Content :: string
  cb_IsError :: bool

record collector =
  co_calls :: "call list"
  co_byID :: "nat gomap"

definition newCollector :: collector where "newCollector = \<lparr>co_calls = [], co_byID = []\<rparr>"

text \<open>Writing at an index past the end would end the process; the step says so.\<close>

definition observe_block :: "time \<Rightarrow> content_block \<Rightarrow> collector \<Rightarrow> collector option" where
  "observe_block at b c =
     (if cb_Type b = ''tool_use'' then
        Some \<lparr>co_calls = co_calls c @ [\<lparr>call_ID = cb_ID b, call_Name = cb_Name b, call_Input = cb_Input b, call_Output = [],
            call_StartedAt = at, call_Outcome = ''ok''\<rparr>],
          co_byID = map_set (cb_ID b) (length (co_calls c)) (co_byID c)\<rparr>
      else if cb_Type b = ''tool_result'' then
        (case map_of (co_byID c) (cb_ToolUseID b) of
           None \<Rightarrow> Some c
         | Some i \<Rightarrow>
             if i < length (co_calls c)
             then Some (c\<lparr>co_calls := (co_calls c)[i := (co_calls c ! i)\<lparr>call_Output := cb_Content b,
                 call_Outcome := (if cb_IsError b then ''error'' else call_Outcome (co_calls c ! i))\<rparr>]\<rparr>)
             else None)
      else Some c)"

fun observe_blocks :: "time \<Rightarrow> content_block list \<Rightarrow> collector \<Rightarrow> collector option" where
  "observe_blocks at [] c = Some c"
| "observe_blocks at (b # bs) c = (case observe_block at b c of None \<Rightarrow> None | Some c' \<Rightarrow> observe_blocks at bs c')"

definition observe :: "(string \<Rightarrow> content_block list option) \<Rightarrow> string \<Rightarrow> time \<Rightarrow> collector \<Rightarrow> collector option" where
  "observe decode raw at c =
     (if raw = [] then Some c else case decode raw of None \<Rightarrow> Some c | Some bs \<Rightarrow> observe_blocks at bs c)"

subsection \<open>Decoding\<close>

record stream =
  str_Init :: "agent_event option"
  str_Result :: "agent_event option"
  str_calls :: collector
  str_Events :: nat
  str_Undecoded :: nat
  str_Raw :: string

definition no_stream :: stream where
  "no_stream = \<lparr>str_Init = None, str_Result = None, str_calls = newCollector, str_Events = 0, str_Undecoded = 0, str_Raw = []\<rparr>"

record decoders =
  dc_event :: "string \<Rightarrow> agent_event option"
  dc_message :: "string \<Rightarrow> content_block list option"
  dc_clock :: "nat \<Rightarrow> time"

definition keep_event :: "agent_event \<Rightarrow> stream \<Rightarrow> stream" where
  "keep_event e s =
     (if ae_Type e = ''system'' \<and> ae_Subtype e = ''init'' \<and> str_Init s = None then s\<lparr>str_Init := Some e\<rparr>
      else if ae_Type e = ''result'' then s\<lparr>str_Result := Some e\<rparr> else s)"

datatype 'e decode_end = Decoded | ScanFailed string | RefusedByCallback 'e | Panicked

definition observe_event :: "decoders \<Rightarrow> agent_event \<Rightarrow> nat \<Rightarrow> collector \<Rightarrow> collector option" where
  "observe_event dc e n c = (if ae_Type e = ''assistant'' \<or> ae_Type e = ''user''
     then observe (dc_message dc) (ae_Message e) (dc_clock dc n) c else Some c)"

text \<open>
  One line after another, until the callback refuses or the lines end; \<open>scanErr\<close> is what ended the
  scanner early, a line longer than \<open>maxLine\<close> included.
\<close>

fun Decode :: "decoders \<Rightarrow> (agent_event \<Rightarrow> 'e option) \<Rightarrow> string option \<Rightarrow> string list \<Rightarrow> stream \<Rightarrow> stream \<times> 'e decode_end" where
  "Decode dc onEvent scanErr [] s = (s, case scanErr of None \<Rightarrow> Decoded | Some e \<Rightarrow> ScanFailed e)"
| "Decode dc onEvent scanErr (line # lines) s0 =
     (let s = s0\<lparr>str_Raw := str_Raw s0 @ line @ [CHR 0x0A]\<rparr> in
      case dc_event dc line of
        None \<Rightarrow> Decode dc onEvent scanErr lines (s\<lparr>str_Undecoded := str_Undecoded s + 1\<rparr>)
      | Some e \<Rightarrow>
          (case observe_event dc e (str_Events s) (str_calls s) of
             None \<Rightarrow> (s, Panicked)
           | Some calls \<Rightarrow>
               let s1 = keep_event e (s\<lparr>str_Events := str_Events s + 1, str_calls := calls\<rparr>) in
               (case onEvent e of
                  Some err \<Rightarrow> (s1, RefusedByCallback err)
                | None \<Rightarrow> Decode dc onEvent scanErr lines s1)))"

definition Elapsed :: "stream \<Rightarrow> duration" where
  "Elapsed s = (case str_Result s of None \<Rightarrow> 0 | Some e \<Rightarrow> wrap64 (ae_DurationMS e * 1000000))"

subsection \<open>One stage\<close>

datatype wait_end = WaitOk | WaitExit int | WaitOther string

record child_run =
  ch_start :: "string option"
  ch_lines :: "string list"
  ch_scan :: "string option"
  ch_deadline :: bool
  ch_wait :: wait_end
  ch_Stderr :: string

record agent_env =
  ag_decoders :: decoders
  ag_marshal :: "yaml \<Rightarrow> (string, string) result"
  ag_encode :: "string gomap \<Rightarrow> (string, string) result"
  ag_fault :: "string \<Rightarrow> string option"
  ag_child :: "string list \<Rightarrow> string \<Rightarrow> duration \<Rightarrow> child_run"

record agent_outcome =
  oc_Stream :: stream
  oc_TimedOut :: bool
  oc_ExitCode :: int
  oc_Stderr :: string
  oc_Aborted :: "receipt_error option"
  oc_DecodeErr :: "string option"
  oc_ArgvUsed :: "string list"

datatype agent_error = ConfigFailed string | ArgvRefused argv_error | NotStarted string | WaitFailed string | AgentPanicked

definition stage_limit :: "duration \<Rightarrow> duration" where
  "stage_limit timeout = (if timeout \<le> 0 then DefaultTimeout else timeout)"

definition run_end :: "child_run \<Rightarrow> string list \<Rightarrow> stream \<Rightarrow> receipt_error decode_end \<Rightarrow> (agent_error, agent_outcome) result" where
  "run_end child args str end' =
     (let o0 = \<lparr>oc_Stream = str, oc_TimedOut = False, oc_ExitCode = 0, oc_Stderr = ch_Stderr child,
            oc_Aborted = (case end' of RefusedByCallback e \<Rightarrow> Some e | _ \<Rightarrow> None),
            oc_DecodeErr = (case end' of ScanFailed e \<Rightarrow> Some e | _ \<Rightarrow> None), oc_ArgvUsed = args\<rparr>
      in if end' = Panicked then Inl AgentPanicked
         else if ch_deadline child then Inr (o0\<lparr>oc_TimedOut := True\<rparr>)
         else (case ch_wait child of
             WaitOk \<Rightarrow> Inr o0
           | WaitExit n \<Rightarrow> Inr (o0\<lparr>oc_ExitCode := n\<rparr>)
           | WaitOther e \<Rightarrow> if oc_Aborted o0 \<noteq> None \<or> oc_DecodeErr o0 \<noteq> None
               then Inr (o0\<lparr>oc_ExitCode := -1\<rparr>) else Inl (WaitFailed e)))"

definition agent_Run ::
  "agent_env \<Rightarrow> agent_declaration \<Rightarrow> (agent_event \<Rightarrow> receipt_error option) \<Rightarrow> string \<Rightarrow> string \<Rightarrow> duration \<Rightarrow> string gomap \<Rightarrow>
   (agent_error, agent_outcome) result" where
  "agent_Run env decl onEvent workDir prompt timeout servers =
     (case WriteMCPConfig (ag_encode env) (ag_fault env) workDir servers of
        Inl e \<Rightarrow> Inl (ConfigFailed e)
      | Inr (mcpConfig, _) \<Rightarrow> (case BuildArgs (ag_marshal env) decl mcpConfig of
            Inl e \<Rightarrow> Inl (ArgvRefused e)
          | Inr args \<Rightarrow>
              let child = ag_child env args prompt (stage_limit timeout) in
              (case ch_start child of
                 Some e \<Rightarrow> Inl (NotStarted e)
               | None \<Rightarrow>
                   (case Decode (ag_decoders env) onEvent (ch_scan child) (ch_lines child) no_stream of
                      (str, end') \<Rightarrow> run_end child args str end'))))"

definition emptyJSON :: "string \<Rightarrow> bool" where
  "emptyJSON raw \<longleftrightarrow> trim_space raw = [] \<or> trim_space raw = ''null''"

definition outcome_Report :: "agent_outcome \<Rightarrow> string option" where
  "outcome_Report oc = (case str_Result (oc_Stream oc) of
     None \<Rightarrow> None
   | Some e \<Rightarrow> Some (if \<not> emptyJSON (ae_StructuredOutput e) then ae_StructuredOutput e else ae_Result e))"

subsection \<open>Validating a report\<close>

text \<open>
  \<open>compile\<close> stands for the schema library: why a schema does not compile, or how a document read from
  the bytes fails it.
\<close>

datatype report_error = BadSchema string | NothingAnswered | NotJSON string | Invalid string

definition ValidateReport ::
  "(yaml \<Rightarrow> (string, 'd \<Rightarrow> string option) result) \<Rightarrow> (string \<Rightarrow> (string, 'd) result) \<Rightarrow> string \<Rightarrow> yaml \<Rightarrow> report_error option" where
  "ValidateReport compile unmarshal report schema =
     (if schema = YNil then None
      else case compile schema of
        Inl e \<Rightarrow> Some (BadSchema e)
      | Inr validate \<Rightarrow>
          if trim_space report = [] then Some NothingAnswered
          else (case unmarshal report of
              Inl e \<Rightarrow> Some (NotJSON e)
            | Inr document \<Rightarrow> map_option Invalid (validate document)))"

subsection \<open>Startup\<close>

definition VersionFloor :: string where "VersionFloor = ''2.1.261''"

fun first_field :: "string \<Rightarrow> string" where
  "first_field [] = []"
| "first_field (c # cs) = (if lead_space wide_spaces (c # cs) > 0 then [] else c # first_field cs)"

definition Version :: "(string, string) result \<Rightarrow> (string, string) result" where
  "Version out = (case out of
     Inl e \<Rightarrow> Inl (''asking for its version: '' @ e)
   | Inr text \<Rightarrow> if trim_space text = [] then Inl ''reported no version'' else Inr (first_field (trim_space text)))"

fun all_numbers :: "string list \<Rightarrow> int list option" where
  "all_numbers [] = Some []"
| "all_numbers (f # fs) = (case atoi f of None \<Rightarrow> None | Some n \<Rightarrow> map_option (Cons n) (all_numbers fs))"

definition version_parts :: "string \<Rightarrow> int list option" where
  "version_parts version = all_numbers (str_split (cut_before (cut_before version ''-'') ''+'') ''.'')"

definition at2 :: "int list \<Rightarrow> nat \<Rightarrow> int" where
  "at2 values at = (if at < length values then values ! at else 0)"

fun below_from :: "int list \<Rightarrow> int list \<Rightarrow> nat list \<Rightarrow> bool" where
  "below_from got want [] = False"
| "below_from got want (at # ats) = (if at2 got at \<noteq> at2 want at then at2 got at < at2 want at else below_from got want ats)"

definition isBelow :: "string \<Rightarrow> string \<Rightarrow> bool option" where
  "isBelow version floor = (case version_parts version of
     None \<Rightarrow> None
   | Some got \<Rightarrow> (case version_parts floor of
         None \<Rightarrow> None
       | Some want \<Rightarrow> Some (below_from got want [0..<max (length got) (length want)])))"

datatype startup_error =
    NotAVersion
  | BelowVersionFloor string
  | NoVersion string
  | ProbeFailed agent_error
  | StartupTimedOut
  | NoStartupEvent
  | NoTerminalEvent
  | NoCredential
  | StartupStatus string

definition RefuseBelowFloor :: "string \<Rightarrow> startup_error option" where
  "RefuseBelowFloor version = (case isBelow version VersionFloor of
     None \<Rightarrow> Some NotAVersion | Some True \<Rightarrow> Some (BelowVersionFloor version) | Some False \<Rightarrow> None)"

definition CheckVersion :: "(string, string) result \<Rightarrow> (startup_error, string) result" where
  "CheckVersion out = (case Version out of
     Inl e \<Rightarrow> Inl (NoVersion e)
   | Inr version \<Rightarrow> (case RefuseBelowFloor version of Some e \<Rightarrow> Inl e | None \<Rightarrow> Inr version))"

definition CredentialProbeTimeout :: duration where "CredentialProbeTimeout = 60 * second"

definition SourceNotNamed :: string where "SourceNotNamed = ''not named by the agent''"

definition trim_quotes :: "string \<Rightarrow> string" where
  "trim_quotes s = rev (dropWhile (\<lambda>c. c = CHR 0x22) (rev (dropWhile (\<lambda>c. c = CHR 0x22) s)))"

definition VerifyCredential :: "agent_env \<Rightarrow> string \<Rightarrow> duration \<Rightarrow> (startup_error, string) result" where
  "VerifyCredential env workDir within0 =
     (let within = (if within0 \<le> 0 then CredentialProbeTimeout else within0) in
      case agent_Run env \<lparr>de_Model = [], de_Restricted = True, de_Tools = [], de_MCPServers = [], de_Allow = [], de_OutputSchema = YNil\<rparr>
             (\<lambda>_. None) workDir ''hello'' within [] of
        Inl e \<Rightarrow> Inl (ProbeFailed e)
      | Inr oc \<Rightarrow>
          if oc_TimedOut oc then Inl StartupTimedOut
          else (case str_Init (oc_Stream oc) of
              None \<Rightarrow> Inl NoStartupEvent
            | Some init \<Rightarrow> (case str_Result (oc_Stream oc) of
                  None \<Rightarrow> Inl NoTerminalEvent
                | Some result \<Rightarrow>
                    if ae_IsError result then
                      let status = trim_quotes (ae_APIErrorStatus result) in
                      if status = [] \<or> status = ''null'' \<or> status = ''401'' then Inl NoCredential else Inl (StartupStatus status)
                    else if ae_APIKeySource init = [] \<or> ae_APIKeySource init = ''none'' then Inr SourceNotNamed
                    else Inr (ae_APIKeySource init))))"

subsection \<open>Facts of the argument vector\<close>








subsection \<open>Facts of the receipt\<close>

definition within_bound :: "agent_declaration \<Rightarrow> agent_event \<Rightarrow> bool" where
  "within_bound decl e \<longleftrightarrow> set (ae_MCPServers e) \<subseteq> set (de_MCPServers decl) \<and>
     set (ae_Tools e) \<subseteq> set (de_Tools decl) \<union> {t \<in> set (de_Allow decl). has_prefix t ''mcp__'' \<and> str_count t ''__'' \<ge> 2} \<union>
       (if de_OutputSchema decl \<noteq> YNil then {structuredOutputTool} else {})"

lemma CheckReceipt_None:
  "CheckReceipt decl e = None \<longleftrightarrow> \<not> (ae_Type e = ''system'' \<and> ae_Subtype e = ''init'') \<or> within_bound decl e"
  by (auto simp: CheckReceipt_def Let_def within_bound_def mcpToolsIn_def filter_empty_conv)

lemma keep_event_same [simp]:
  "str_Raw (keep_event e s) = str_Raw s" "str_calls (keep_event e s) = str_calls s" "str_Events (keep_event e s) = str_Events s"
  "str_Undecoded (keep_event e s) = str_Undecoded s"
  by (simp_all add: keep_event_def)

lemma Decode_event:
  assumes "dc_event dc line = Some e" "observe_event dc e (str_Events s) (str_calls s) = Some k"
  shows "Decode dc onEvent scanErr (line # lines) s =
    (let s1 = keep_event e (s\<lparr>str_Raw := str_Raw s @ line @ [CHR 0x0A], str_Events := str_Events s + 1, str_calls := k\<rparr>) in
     case onEvent e of Some err \<Rightarrow> (s1, RefusedByCallback err) | None \<Rightarrow> Decode dc onEvent scanErr lines s1)"
  using assms by (cases "onEvent e") (simp_all add: Let_def)

lemma Decode_stops:
  assumes "Decode dc onEvent scanErr lines s = (s', end')"
  shows "(end' = Decoded \<or> (\<exists>e. end' = ScanFailed e) \<longrightarrow> (\<forall>line \<in> set lines. \<forall>e. dc_event dc line = Some e \<longrightarrow> onEvent e = None)) \<and>
    (\<forall>err. end' = RefusedByCallback err \<longrightarrow> (\<exists>pre line post e. lines = pre @ line # post \<and> dc_event dc line = Some e \<and> onEvent e = Some err \<and>
       (\<forall>l \<in> set pre. \<forall>e. dc_event dc l = Some e \<longrightarrow> onEvent e = None) \<and>
       str_Raw s' = str_Raw s @ concat (map (\<lambda>l. l @ [CHR 0x0A]) (pre @ [line]))))"
  using assms
proof (induction lines arbitrary: s)
  case Nil
  then show ?case by (auto split: option.splits)
next
  case (Cons line lines)
  show ?case
  proof (cases "dc_event dc line")
    case None
    let ?s = "s\<lparr>str_Raw := str_Raw s @ line @ [CHR 0x0A], str_Undecoded := str_Undecoded s + 1\<rparr>"
    have r: "Decode dc onEvent scanErr lines ?s = (s', end')" using Cons.prems None by simp
    note ih = Cons.IH [OF r]
    have "\<exists>pre l post e. line # lines = pre @ l # post \<and> dc_event dc l = Some e \<and> onEvent e = Some err \<and>
       (\<forall>l \<in> set pre. \<forall>e. dc_event dc l = Some e \<longrightarrow> onEvent e = None) \<and>
       str_Raw s' = str_Raw s @ concat (map (\<lambda>l. l @ [CHR 0x0A]) (pre @ [l]))" if "end' = RefusedByCallback err" for err
    proof -
      from ih that obtain pre l post e where "lines = pre @ l # post" "dc_event dc l = Some e" "onEvent e = Some err"
        "\<forall>l \<in> set pre. \<forall>e. dc_event dc l = Some e \<longrightarrow> onEvent e = None"
        "str_Raw s' = str_Raw ?s @ concat (map (\<lambda>l. l @ [CHR 0x0A]) (pre @ [l]))" by blast
      then show ?thesis using None by (intro exI [of _ "line # pre"] exI [of _ l] exI [of _ post] exI [of _ e]) simp
    qed
    then show ?thesis using ih None by auto
  next
    case (Some e)
    show ?thesis
    proof (cases "observe_event dc e (str_Events s) (str_calls s)")
      case None
      then have "end' = Panicked" using Cons.prems Some by (simp add: Let_def)
      then show ?thesis by simp
    next
      case c: (Some k)
      let ?s1 = "keep_event e (s\<lparr>str_Raw := str_Raw s @ line @ [CHR 0x0A], str_Events := str_Events s + 1, str_calls := k\<rparr>)"
      note step = Decode_event [OF Some c, of onEvent scanErr lines, unfolded Let_def]
      show ?thesis
      proof (cases "onEvent e")
        case (Some err)
        then have "s' = ?s1" "end' = RefusedByCallback err" using Cons.prems step by simp_all
        moreover from this have "\<exists>pre l post e. line # lines = pre @ l # post \<and> dc_event dc l = Some e \<and> onEvent e = Some err \<and>
           (\<forall>l \<in> set pre. \<forall>e. dc_event dc l = Some e \<longrightarrow> onEvent e = None) \<and>
           str_Raw s' = str_Raw s @ concat (map (\<lambda>l. l @ [CHR 0x0A]) (pre @ [l]))"
          using Some \<open>dc_event dc line = Some e\<close>
          by (intro exI [of _ "[]"] exI [of _ line] exI [of _ lines] exI [of _ e]) simp
        ultimately show ?thesis by simp
      next
        case None
        then have r: "Decode dc onEvent scanErr lines ?s1 = (s', end')" using Cons.prems step by simp
        note ih = Cons.IH [OF r]
        have "\<exists>pre l post e. line # lines = pre @ l # post \<and> dc_event dc l = Some e \<and> onEvent e = Some err \<and>
           (\<forall>l \<in> set pre. \<forall>e. dc_event dc l = Some e \<longrightarrow> onEvent e = None) \<and>
           str_Raw s' = str_Raw s @ concat (map (\<lambda>l. l @ [CHR 0x0A]) (pre @ [l]))" if "end' = RefusedByCallback err" for err
        proof -
          from ih that obtain pre l post e' where "lines = pre @ l # post" "dc_event dc l = Some e'" "onEvent e' = Some err"
            "\<forall>l \<in> set pre. \<forall>e. dc_event dc l = Some e \<longrightarrow> onEvent e = None"
            "str_Raw s' = str_Raw ?s1 @ concat (map (\<lambda>l. l @ [CHR 0x0A]) (pre @ [l]))" by blast
          then show ?thesis using None \<open>dc_event dc line = Some e\<close>
            by (intro exI [of _ "line # pre"] exI [of _ l] exI [of _ post] exI [of _ e']) simp
        qed
        then show ?thesis using ih None \<open>dc_event dc line = Some e\<close> by auto
      qed
    qed
  qed
qed



subsection \<open>Facts of the tool calls\<close>

text \<open>
  What a transcript means for the calls, with no index: a \<open>tool_use\<close> block opens a call, a
  \<open>tool_result\<close> block answers the latest call opened under its id, and any other block is nothing.
\<close>

definition opened :: "time \<Rightarrow> content_block \<Rightarrow> call" where
  "opened at b = \<lparr>call_ID = cb_ID b, call_Name = cb_Name b, call_Input = cb_Input b, call_Output = [], call_StartedAt = at, call_Outcome = ''ok''\<rparr>"

definition answered :: "content_block \<Rightarrow> call \<Rightarrow> call" where
  "answered b c = c\<lparr>call_Output := cb_Content b, call_Outcome := (if cb_IsError b then ''error'' else call_Outcome c)\<rparr>"

fun answer_newest :: "content_block \<Rightarrow> call list \<Rightarrow> call list" where
  "answer_newest b [] = []"
| "answer_newest b (c # cs) = (if call_ID c = cb_ToolUseID b then answered b c # cs else c # answer_newest b cs)"

definition block_calls :: "time \<Rightarrow> content_block \<Rightarrow> call list \<Rightarrow> call list" where
  "block_calls at b calls =
     (if cb_Type b = ''tool_use'' then calls @ [opened at b]
      else if cb_Type b = ''tool_result'' then rev (answer_newest b (rev calls)) else calls)"

definition event_blocks :: "decoders \<Rightarrow> agent_event \<Rightarrow> content_block list" where
  "event_blocks dc e = (if (ae_Type e = ''assistant'' \<or> ae_Type e = ''user'') \<and> ae_Message e \<noteq> []
     then case_option [] id (dc_message dc (ae_Message e)) else [])"

fun transcript_calls :: "decoders \<Rightarrow> nat \<Rightarrow> agent_event list \<Rightarrow> call list \<Rightarrow> call list" where
  "transcript_calls dc n [] calls = calls"
| "transcript_calls dc n (e # es) calls = transcript_calls dc (Suc n) es (fold (block_calls (dc_clock dc n)) (event_blocks dc e) calls)"

definition newest :: "call list \<Rightarrow> string \<Rightarrow> nat \<Rightarrow> bool" where
  "newest calls key i \<longleftrightarrow> i < length calls \<and> call_ID (calls ! i) = key \<and> (\<forall>j. i < j \<and> j < length calls \<longrightarrow> call_ID (calls ! j) \<noteq> key)"

definition collector_ok :: "collector \<Rightarrow> bool" where
  "collector_ok c \<longleftrightarrow> (\<forall>key i. map_of (co_byID c) key = Some i \<longleftrightarrow> newest (co_calls c) key i)"

lemma newest_snoc: "newest (cs @ [c]) key i \<longleftrightarrow> (if call_ID c = key then i = length cs else newest cs key i)"
proof (cases "i < length cs")
  case True
  let ?other = "\<lambda>j. call_ID ((cs @ [c]) ! j) \<noteq> key"
  have "(\<forall>j. i < j \<and> j < Suc (length cs) \<longrightarrow> ?other j) \<longleftrightarrow> (\<forall>j. i < j \<and> j < length cs \<longrightarrow> ?other j) \<and> ?other (length cs)"
    using True less_Suc_eq by blast
  moreover have "(\<forall>j. i < j \<and> j < length cs \<longrightarrow> ?other j) \<longleftrightarrow> (\<forall>j. i < j \<and> j < length cs \<longrightarrow> call_ID (cs ! j) \<noteq> key)"
    by (simp add: nth_append)
  ultimately show ?thesis using True by (simp add: newest_def nth_append)
next
  case False
  then show ?thesis by (cases "i = length cs") (auto simp: newest_def)
qed

lemma answer_newest_rev: "newest calls (cb_ToolUseID b) i \<Longrightarrow> rev (answer_newest b (rev calls)) = calls[i := answered b (calls ! i)]"
proof (induction calls rule: rev_induct)
  case Nil
  then show ?case by (simp add: newest_def)
next
  case (snoc c cs)
  show ?case
  proof (cases "call_ID c = cb_ToolUseID b")
    case True
    then show ?thesis using snoc.prems by (simp add: newest_snoc)
  next
    case False
    then have n: "newest cs (cb_ToolUseID b) i" using snoc.prems by (simp add: newest_snoc)
    then have "i < length cs" by (simp add: newest_def)
    then show ?thesis using False snoc.IH [OF n] by (simp add: list_update_append nth_append)
  qed
qed

lemma answer_newest_absent: "(\<And>i. \<not> newest calls (cb_ToolUseID b) i) \<Longrightarrow> answer_newest b (rev calls) = rev calls"
proof (induction calls rule: rev_induct)
  case (snoc c cs)
  have "call_ID c \<noteq> cb_ToolUseID b" using snoc.prems [of "length cs"] by (auto simp: newest_snoc)
  moreover from this have "\<not> newest cs (cb_ToolUseID b) i" for i using snoc.prems [of i] by (simp add: newest_snoc)
  ultimately show ?case using snoc.IH by simp
qed simp

lemma newest_update:
  assumes "i < length calls"
  shows "newest (calls[i := answered b (calls ! i)]) key j = newest calls key j"
proof -
  have "call_ID (calls[i := answered b (calls ! i)] ! k) = call_ID (calls ! k)" for k
    using assms by (cases "i = k") (simp_all add: answered_def)
  then show ?thesis by (simp add: newest_def)
qed

lemma collector_ok_new [simp]: "collector_ok newCollector"
  by (simp add: collector_ok_def newCollector_def newest_def)

lemma observe_block_refines:
  assumes "collector_ok c"
  shows "\<exists>c'. observe_block at b c = Some c' \<and> collector_ok c' \<and> co_calls c' = block_calls at b (co_calls c)"
proof (cases "cb_Type b = ''tool_result''")
  case result: True
  show ?thesis
  proof (cases "map_of (co_byID c) (cb_ToolUseID b)")
    case None
    then have "\<not> newest (co_calls c) (cb_ToolUseID b) i" for i using assms by (metis collector_ok_def option.distinct(1))
    then show ?thesis using result None assms by (simp add: observe_block_def block_calls_def answer_newest_absent)
  next
    case (Some i)
    then have n: "newest (co_calls c) (cb_ToolUseID b) i" using assms by (simp add: collector_ok_def)
    then have i: "i < length (co_calls c)" by (simp add: newest_def)
    have "block_calls at b (co_calls c) = (co_calls c)[i := answered b (co_calls c ! i)]"
      using result by (simp add: block_calls_def answer_newest_rev [OF n])
    moreover have "observe_block at b c = Some (c\<lparr>co_calls := (co_calls c)[i := answered b (co_calls c ! i)]\<rparr>)"
      using result Some i by (simp add: observe_block_def answered_def)
    ultimately show ?thesis using i assms by (simp add: collector_ok_def newest_update)
  qed
next
  case False
  then show ?thesis using assms
    by (auto simp: observe_block_def block_calls_def opened_def collector_ok_def newest_snoc)
qed

lemma observe_blocks_refines:
  "collector_ok c \<Longrightarrow> \<exists>c'. observe_blocks at bs c = Some c' \<and> collector_ok c' \<and> co_calls c' = fold (block_calls at) bs (co_calls c)"
proof (induction bs arbitrary: c)
  case (Cons b bs)
  from observe_block_refines [OF Cons.prems, of at b] obtain c1 where
    "observe_block at b c = Some c1" "collector_ok c1" "co_calls c1 = block_calls at b (co_calls c)" by blast
  with Cons.IH [of c1] show ?case by simp
qed simp

lemma observe_event_refines:
  assumes "collector_ok c"
  shows "\<exists>c'. observe_event dc e n c = Some c' \<and> collector_ok c' \<and> co_calls c' = fold (block_calls (dc_clock dc n)) (event_blocks dc e) (co_calls c)"
  using observe_blocks_refines [OF assms, of "dc_clock dc n" "the (dc_message dc (ae_Message e))"] assms
  by (cases "dc_message dc (ae_Message e)") (auto simp: observe_event_def observe_def event_blocks_def)

lemma Decode_calls:
  assumes "Decode dc onEvent scanErr lines s = (s', end')" "collector_ok (str_calls s)"
  shows "end' \<noteq> Panicked \<and> collector_ok (str_calls s') \<and>
    (\<exists>read rest. lines = read @ rest \<and> ((\<nexists>err. end' = RefusedByCallback err) \<longrightarrow> rest = []) \<and>
       co_calls (str_calls s') = transcript_calls dc (str_Events s) (List.map_filter (dc_event dc) read) (co_calls (str_calls s)))"
  using assms
proof (induction lines arbitrary: s)
  case Nil
  then show ?case by (auto simp: List.map_filter_def split: option.splits)
next
  case (Cons line lines)
  show ?case
  proof (cases "dc_event dc line")
    case None
    let ?s = "s\<lparr>str_Raw := str_Raw s @ line @ [CHR 0x0A], str_Undecoded := str_Undecoded s + 1\<rparr>"
    have "Decode dc onEvent scanErr lines ?s = (s', end')" "collector_ok (str_calls ?s)" using Cons.prems None by simp_all
    from Cons.IH [OF this] obtain read rest where "lines = read @ rest" "(\<nexists>err. end' = RefusedByCallback err) \<longrightarrow> rest = []"
      "co_calls (str_calls s') = transcript_calls dc (str_Events s) (List.map_filter (dc_event dc) read) (co_calls (str_calls s))"
      "end' \<noteq> Panicked" "collector_ok (str_calls s')" by auto
    then show ?thesis using None by (intro conjI exI [of _ "line # read"] exI [of _ rest]) (auto simp: map_filter_simps)
  next
    case (Some e)
    from observe_event_refines [OF Cons.prems(2)] obtain k where
      k: "observe_event dc e (str_Events s) (str_calls s) = Some k" "collector_ok k"
        "co_calls k = fold (block_calls (dc_clock dc (str_Events s))) (event_blocks dc e) (co_calls (str_calls s))" by blast
    let ?s1 = "keep_event e (s\<lparr>str_Raw := str_Raw s @ line @ [CHR 0x0A], str_Events := str_Events s + 1, str_calls := k\<rparr>)"
    note step = Decode_event [OF Some k(1), of onEvent scanErr lines, unfolded Let_def]
    show ?thesis
    proof (cases "onEvent e")
      case None
      then have "Decode dc onEvent scanErr lines ?s1 = (s', end')" "collector_ok (str_calls ?s1)" using Cons.prems step k by simp_all
      from Cons.IH [OF this] obtain read rest where "lines = read @ rest" "(\<nexists>err. end' = RefusedByCallback err) \<longrightarrow> rest = []"
        "co_calls (str_calls s') = transcript_calls dc (Suc (str_Events s)) (List.map_filter (dc_event dc) read) (co_calls k)"
        "end' \<noteq> Panicked" "collector_ok (str_calls s')" by auto
      then show ?thesis using Some k(3) by (intro conjI exI [of _ "line # read"] exI [of _ rest]) (auto simp: map_filter_simps)
    next
      case err: (Some err)
      then have "s' = ?s1" "end' = RefusedByCallback err" using Cons.prems step by simp_all
      then show ?thesis using Some k by (intro conjI exI [of _ "[line]"] exI [of _ lines]) (auto simp: map_filter_simps)
    qed
  qed
qed


lemma agent_Run_Inr:
  assumes "agent_Run env decl onEvent workDir prompt timeout servers = Inr oc"
  obtains path args child end' where "BuildArgs (ag_marshal env) decl path = Inr args" "path = path_Join [workDir, ''mcp.json'']"
    "child = ag_child env args prompt (stage_limit timeout)" "ch_start child = None"
    "Decode (ag_decoders env) onEvent (ch_scan child) (ch_lines child) no_stream = (oc_Stream oc, end')"
    "oc_Aborted oc = (case end' of RefusedByCallback e \<Rightarrow> Some e | _ \<Rightarrow> None)"
    "oc_DecodeErr oc = (case end' of ScanFailed e \<Rightarrow> Some e | _ \<Rightarrow> None)" "oc_ArgvUsed oc = args"
proof -
  from assms obtain path document where w: "WriteMCPConfig (ag_encode env) (ag_fault env) workDir servers = Inr (path, document)"
    by (auto simp: agent_Run_def split: sum.splits)
  from assms w obtain args where a: "BuildArgs (ag_marshal env) decl path = Inr args"
    by (auto simp: agent_Run_def split: sum.splits)
  define child where "child = ag_child env args prompt (stage_limit timeout)"
  obtain str end' where d: "Decode (ag_decoders env) onEvent (ch_scan child) (ch_lines child) no_stream = (str, end')" by fastforce
  have s: "ch_start child = None" using assms w a by (auto simp: agent_Run_def Let_def child_def split: option.splits)
  have p: "path = path_Join [workDir, ''mcp.json'']" using w by (auto simp: WriteMCPConfig_def Let_def split: sum.splits option.splits)
  have "run_end child args str end' = Inr oc" using assms w a s d unfolding agent_Run_def Let_def child_def by simp
  then have "oc_Stream oc = str \<and> oc_Aborted oc = (case end' of RefusedByCallback e \<Rightarrow> Some e | _ \<Rightarrow> None) \<and>
      oc_DecodeErr oc = (case end' of ScanFailed e \<Rightarrow> Some e | _ \<Rightarrow> None) \<and> oc_ArgvUsed oc = args"
    unfolding run_end_def Let_def by (auto split: if_splits wait_end.splits)
  with that [OF a p child_def s] d show thesis by blast
qed

lemma declared_init_only: "Decode dc onEvent scanErr lines s = (s', end') \<Longrightarrow>
    str_Init s' \<noteq> str_Init s \<Longrightarrow> \<exists>line \<in> set lines. \<exists>e. dc_event dc line = Some e \<and> ae_Type e = ''system'' \<and> ae_Subtype e = ''init'' \<and> str_Init s' = Some e"
proof (induction lines arbitrary: s)
  case (Cons line lines)
  show ?case
  proof (cases "dc_event dc line")
    case None
    let ?s = "s\<lparr>str_Raw := str_Raw s @ line @ [CHR 0x0A], str_Undecoded := str_Undecoded s + 1\<rparr>"
    have "Decode dc onEvent scanErr lines ?s = (s', end')" "str_Init s' \<noteq> str_Init ?s" using Cons.prems None by simp_all
    from Cons.IH [OF this] show ?thesis by auto
  next
    case (Some e)
    show ?thesis
    proof (cases "observe_event dc e (str_Events s) (str_calls s)")
      case None
      then show ?thesis using Cons.prems Some by (auto simp: Let_def)
    next
      case k: (Some k)
      let ?s1 = "keep_event e (s\<lparr>str_Raw := str_Raw s @ line @ [CHR 0x0A], str_Events := str_Events s + 1, str_calls := k\<rparr>)"
      note step = Decode_event [OF Some k, of onEvent scanErr lines, unfolded Let_def]
      have one: "str_Init ?s1 = str_Init s \<or> (ae_Type e = ''system'' \<and> ae_Subtype e = ''init'' \<and> str_Init ?s1 = Some e)"
        by (simp add: keep_event_def)
      show ?thesis
      proof (cases "str_Init s' = str_Init ?s1")
        case True
        with one Cons.prems(2) Some show ?thesis by auto
      next
        case False
        then have "onEvent e = None" using Cons.prems(1) step by (auto split: option.splits)
        then have "Decode dc onEvent scanErr lines ?s1 = (s', end')" using Cons.prems(1) step by simp
        from Cons.IH [OF this False] show ?thesis by auto
      qed
    qed
  qed
qed (auto split: option.splits)

subsection \<open>Properties\<close>


text \<open>
  A receipt that never came is not missed.  When the child wrote no start-up event that decodes,
  the stage is not aborted, whatever the rest of its output: nothing compares what the agent received
  with what the playbook declared.
\<close>

theorem missing_receipt_is_accepted:
  assumes "agent_Run env decl (CheckReceipt decl) workDir prompt timeout servers = Inr oc"
    and "\<And>args p t line e. line \<in> set (ch_lines (ag_child env args p t)) \<Longrightarrow> dc_event (ag_decoders env) line = Some e \<Longrightarrow>
      \<not> (ae_Type e = ''system'' \<and> ae_Subtype e = ''init'')"
  shows "oc_Aborted oc = None \<and> str_Init (oc_Stream oc) = None"
proof -
  from assms(1) obtain args child end' where c: "child = ag_child env args prompt (stage_limit timeout)"
    and d: "Decode (ag_decoders env) (CheckReceipt decl) (ch_scan child) (ch_lines child) no_stream = (oc_Stream oc, end')"
    and ab: "oc_Aborted oc = (case end' of RefusedByCallback e \<Rightarrow> Some e | _ \<Rightarrow> None)"
    by (rule agent_Run_Inr)
  have none: "CheckReceipt decl e = None" if "line \<in> set (ch_lines child)" "dc_event (ag_decoders env) line = Some e" for line e
    using assms(2) that unfolding c CheckReceipt_None by blast
  have "end' \<noteq> RefusedByCallback err" for err
  proof
    assume "end' = RefusedByCallback err"
    with Decode_stops [OF d] obtain pre line post e where "ch_lines child = pre @ line # post" "dc_event (ag_decoders env) line = Some e"
      "CheckReceipt decl e = Some err" by blast
    with none [of line e] show False by simp
  qed
  then have "oc_Aborted oc = None" using ab by (cases end') auto
  moreover have "str_Init (oc_Stream oc) = None"
  proof (rule ccontr)
    assume "str_Init (oc_Stream oc) \<noteq> None"
    then have "str_Init (oc_Stream oc) \<noteq> str_Init no_stream" by (simp add: no_stream_def)
    from declared_init_only [OF d this] assms(2) show False unfolding c by blast
  qed
  ultimately show ?thesis by blast
qed

text \<open>
  C36. The calls of the record are the transcript's.  Decoding never ends the process; the calls it
  keeps are those the lines it read open, in their order, each with the answer given under its id to the
  latest call opened under it, and it reads every line unless the callback refuses.
\<close>

theorem tool_calls_are_the_transcript:
  assumes "Decode dc onEvent scanErr lines no_stream = (s', end')"
  shows "end' \<noteq> Panicked \<and>
    (\<exists>read rest. lines = read @ rest \<and> ((\<nexists>err. end' = RefusedByCallback err) \<longrightarrow> rest = []) \<and>
       co_calls (str_calls s') = transcript_calls dc 0 (List.map_filter (dc_event dc) read) [])"
proof -
  have "collector_ok (str_calls no_stream)" by (simp add: no_stream_def)
  from Decode_calls [OF assms this] show ?thesis by (simp add: no_stream_def newCollector_def)
qed


subsection \<open>Versions\<close>

lemma below_from_upt:
  "below_from got want [m..<n] \<longleftrightarrow> (\<exists>i. m \<le> i \<and> i < n \<and> at2 got i < at2 want i \<and> (\<forall>j. m \<le> j \<and> j < i \<longrightarrow> at2 got j = at2 want j))"
proof (induction "n - m" arbitrary: m)
  case (Suc k)
  then have m: "m < n" by simp
  from Suc have ih: "below_from got want [Suc m..<n] \<longleftrightarrow>
      (\<exists>i. Suc m \<le> i \<and> i < n \<and> at2 got i < at2 want i \<and> (\<forall>j. Suc m \<le> j \<and> j < i \<longrightarrow> at2 got j = at2 want j))" by simp
  show ?case
  proof (cases "at2 got m = at2 want m")
    case True
    have "(\<exists>i. m \<le> i \<and> i < n \<and> at2 got i < at2 want i \<and> (\<forall>j. m \<le> j \<and> j < i \<longrightarrow> at2 got j = at2 want j)) \<longleftrightarrow>
        (\<exists>i. Suc m \<le> i \<and> i < n \<and> at2 got i < at2 want i \<and> (\<forall>j. Suc m \<le> j \<and> j < i \<longrightarrow> at2 got j = at2 want j))"
      using True by (metis Suc_le_eq le_neq_implies_less less_imp_le less_irrefl)
    then show ?thesis using True m ih by (simp add: upt_conv_Cons)
  next
    case False
    have "i = m" if "m \<le> i" "\<forall>j. m \<le> j \<and> j < i \<longrightarrow> at2 got j = at2 want j" for i
      using False that by (metis le_neq_implies_less le_refl)
    then show ?thesis using False m by (auto simp: upt_conv_Cons)
  qed
qed simp

text \<open>
  The version floor is the numeric order.  A version and a floor that both read as dotted numbers
  compare by their first component that differs, a missing one counting as zero, and what follows a
  dash or a plus does not count; the stage starts only at a version that reads and is not below the floor.
\<close>

theorem version_floor_is_numeric:
  assumes "CheckVersion out = Inr version"
  shows "\<exists>got want. version_parts version = Some got \<and> version_parts VersionFloor = Some want \<and>
    (\<forall>i. (\<forall>j < i. at2 got j = at2 want j) \<longrightarrow> at2 got i \<ge> at2 want i)"
proof -
  have b: "isBelow version VersionFloor = Some False"
    using assms by (auto simp: CheckVersion_def RefuseBelowFloor_def split: sum.splits option.splits bool.splits)
  then obtain got want where v: "version_parts version = Some got" "version_parts VersionFloor = Some want"
    "\<not> below_from got want [0..<max (length got) (length want)]" by (auto simp: isBelow_def split: option.splits)
  have "at2 got i \<ge> at2 want i" if "\<forall>j < i. at2 got j = at2 want j" for i
  proof (cases "i < max (length got) (length want)")
    case True
    with v(3) that show ?thesis unfolding below_from_upt by (meson not_le zero_le)
  next
    case False
    then show ?thesis by (simp add: at2_def less_max_iff_disj)
  qed
  with v show ?thesis by blast
qed


subsection \<open>A stage that ran\<close>

definition demo_event :: "string \<Rightarrow> string \<Rightarrow> string list \<Rightarrow> string \<Rightarrow> agent_event" where
  "demo_event kind sub tools message = \<lparr>ae_Type = kind, ae_Subtype = sub, ae_SessionID = ''s1'', ae_APIKeySource = ''user'', ae_MCPServers = [],
     ae_Tools = tools, ae_TotalCost = 0, ae_Usage = \<lparr>us_Input = 1, us_Output = 2, us_CacheRead = 0, us_CacheCreation = 0\<rparr>,
     ae_DurationMS = 5, ae_IsError = False, ae_APIErrorStatus = [], ae_Result = ''done'', ae_StructuredOutput = [],
     ae_Message = message, ae_PermissionDenials = []\<rparr>"

definition demo_block :: "string \<Rightarrow> content_block" where
  "demo_block kind = \<lparr>cb_Type = kind, cb_ID = ''t1'', cb_Name = ''Read'', cb_Input = ''{}'', cb_ToolUseID = ''t1'', cb_Content = ''seen'', cb_IsError = False\<rparr>"

definition demo_decoders :: decoders where
  "demo_decoders = \<lparr>dc_event = (\<lambda>line. if line = ''init'' then Some (demo_event ''system'' ''init'' [''Read''] [])
       else if line = ''wide'' then Some (demo_event ''system'' ''init'' [''Bash''] [])
       else if line = ''ask'' then Some (demo_event ''assistant'' [] [] ''use'')
       else if line = ''answer'' then Some (demo_event ''user'' [] [] ''result'')
       else if line = ''end'' then Some (demo_event ''result'' [] [] []) else None),
     dc_message = (\<lambda>m. if m = ''use'' then Some [demo_block ''tool_use''] else if m = ''result'' then Some [demo_block ''tool_result''] else None),
     dc_clock = int\<rparr>"

definition demo_agent :: "string list \<Rightarrow> agent_env" where
  "demo_agent lines = \<lparr>ag_decoders = demo_decoders, ag_marshal = (\<lambda>_. Inr ''{}''), ag_encode = (\<lambda>_. Inr ''{}''), ag_fault = (\<lambda>_. None),
     ag_child = (\<lambda>_ _ _. \<lparr>ch_start = None, ch_lines = lines, ch_scan = None, ch_deadline = False, ch_wait = WaitOk, ch_Stderr = []\<rparr>)\<rparr>"

definition demo_declaration :: agent_declaration where
  "demo_declaration = \<lparr>de_Model = ''m'', de_Restricted = True, de_Tools = [''Read''], de_MCPServers = [], de_Allow = [''mcp__docs__find''], de_OutputSchema = YNil\<rparr>"

definition demo_stage_run :: "string list \<Rightarrow> (agent_error, agent_outcome) result" where
  "demo_stage_run lines = agent_Run (demo_agent lines) demo_declaration (CheckReceipt demo_declaration) ''/w'' ''look'' 0 []"


lemma demo_stage_ran:
  "\<not> isl (demo_stage_run [''init'', ''ask'', ''answer'', ''end'']) \<and> \<not> isl (demo_stage_run [''noise'', ''wide'', ''end'']) \<and> \<not> isl (demo_stage_run [''noise'', ''end''])"
  by code_simp


theorem missing_receipt_is_accepted_witness:
  "oc_Aborted (projr (demo_stage_run [''noise'', ''end''])) = None \<and> str_Init (oc_Stream (projr (demo_stage_run [''noise'', ''end'']))) = None \<and>
   outcome_Report (projr (demo_stage_run [''noise'', ''end''])) = Some ''done''"
proof -
  have r: "outcome_Report (projr (demo_stage_run [''noise'', ''end''])) = Some ''done''" by code_simp
  have "agent_Run (demo_agent [''noise'', ''end'']) demo_declaration (CheckReceipt demo_declaration) ''/w'' ''look'' 0 [] =
      Inr (projr (demo_stage_run [''noise'', ''end'']))" using demo_stage_ran by (simp add: demo_stage_run_def)
  note ran = this
  have "\<not> (ae_Type e = ''system'' \<and> ae_Subtype e = ''init'')"
    if "line \<in> set (ch_lines (ag_child (demo_agent [''noise'', ''end'']) args p t))"
      "dc_event (ag_decoders (demo_agent [''noise'', ''end''])) line = Some e" for args p t line e
    using that by (auto simp: demo_agent_def demo_decoders_def demo_event_def)
  from missing_receipt_is_accepted [OF ran this] r show ?thesis by simp
qed

definition demo_decoded :: "stream \<times> string decode_end" where
  "demo_decoded = Decode demo_decoders (\<lambda>_. None) None [''init'', ''ask'', ''answer'', ''end''] no_stream"

theorem tool_calls_are_the_transcript_witness:
  "co_calls (str_calls (fst demo_decoded)) =
     [\<lparr>call_ID = ''t1'', call_Name = ''Read'', call_Input = ''{}'', call_Output = ''seen'', call_StartedAt = 1, call_Outcome = ''ok''\<rparr>] \<and>
   (\<exists>read rest. [''init'', ''ask'', ''answer'', ''end''] = read @ rest \<and>
     co_calls (str_calls (fst demo_decoded)) = transcript_calls demo_decoders 0 (List.map_filter (dc_event demo_decoders) read) [])"
proof -
  have c: "co_calls (str_calls (fst demo_decoded)) =
     [\<lparr>call_ID = ''t1'', call_Name = ''Read'', call_Input = ''{}'', call_Output = ''seen'', call_StartedAt = 1, call_Outcome = ''ok''\<rparr>]" by code_simp
  have "Decode demo_decoders (\<lambda>_. None) None [''init'', ''ask'', ''answer'', ''end''] no_stream = (fst demo_decoded, snd demo_decoded)"
    unfolding demo_decoded_def by (rule surjective_pairing)
  from tool_calls_are_the_transcript [OF this] c show ?thesis by blast
qed

theorem version_floor_is_numeric_witness:
  "\<exists>got. version_parts ''2.2.0-rc1'' = Some got \<and> (\<forall>j < 1. at2 got j = at2 [2, 1, 261] j) \<and> at2 got 1 \<ge> 1"
proof -
  have v: "version_parts ''2.2.0-rc1'' = Some [2, 2, 0]" by code_simp
  have f: "version_parts VersionFloor = Some [2, 1, 261]" by code_simp
  have "CheckVersion (Inr ''2.2.0-rc1'') = Inr ''2.2.0-rc1''" by code_simp
  from version_floor_is_numeric [OF this] v f have "\<forall>i. (\<forall>j < i. at2 [2, 2, 0] j = at2 [2, 1, 261] j) \<longrightarrow> at2 [2, 2, 0] i \<ge> at2 [2, 1, 261] i" by simp
  then have "(\<forall>j < 1. at2 [2, 2, 0] j = at2 [2, 1, 261] j) \<longrightarrow> at2 [2, 2, 0] 1 \<ge> at2 [2, 1, 261] 1" by blast
  then show ?thesis using v by (simp add: at2_def)
qed

end
