(* ===== verification/Guard_Config.thy ===== *)
theory Guard_Config
  imports Coordinator Config
begin

text \<open>
  What a deployment declares about coordination: \<open>guard/config.go\<close>.  The JSON decoder, the parser of
  durations and the configuration's interpolation are parameters.  A duration is a signed 64-bit count
  of nanoseconds; the sum that \<open>Check\<close> compares wraps as Go's does.
\<close>

record tls_files =
  CA :: string
  Cert :: string
  Key :: string

record etcd_config =
  Endpoints :: "string list"
  Prefix :: string
  Username :: string
  Password :: string
  TLS :: "tls_files option"

record guard_config =
  Etcd :: "etcd_config option"
  ClaimExpiry :: duration
  RenewEvery :: duration
  RenewBound :: duration
  StopBound :: duration
  DecisionBound :: duration

definition MarginFloor :: duration where "MarginFloor = 2 * second"

definition CoordinationFile :: string where "CoordinationFile = ''coordination.json''"

definition DefaultConfig :: guard_config where
  "DefaultConfig = \<lparr>Etcd = None, ClaimExpiry = 30 * second, RenewEvery = 5 * second, RenewBound = 4 * second,
     StopBound = 10 * second, DecisionBound = 5 * second\<rparr>"

record etcd_document =
  ed_Endpoints :: "string list"
  ed_Prefix :: string
  ed_Username :: string
  ed_Password :: string
  ed_TLS :: "tls_files option"

record coord_document =
  cd_Etcd :: "etcd_document option"
  cd_ClaimExpiry :: string
  cd_RenewEvery :: string
  cd_RenewBound :: string
  cd_StopBound :: string
  cd_DecisionBound :: string

datatype config_problem =
    NotDuration string string
  | NotPositive string duration
  | NoEndpoints
  | LiteralCredential string
  | CredentialUnresolved string string
  | SumExceeds duration
  | BoundNotBelow
  | NotWholeSeconds

text \<open>One declared duration: a problem, or what the field becomes.\<close>

definition declared_duration :: "(string \<Rightarrow> duration option) \<Rightarrow> string \<Rightarrow> string \<Rightarrow> duration \<Rightarrow> config_problem list \<times> duration" where
  "declared_duration parse field text current =
     (if text = [] then ([], current)
      else case parse text of
        None \<Rightarrow> ([NotDuration field text], current)
      | Some v \<Rightarrow> if v \<le> 0 then ([NotPositive field v], current) else ([], v))"

definition credential_reference :: "string \<Rightarrow> bool" where
  "credential_reference s \<longleftrightarrow> (case cut_prefix s ''${config.'' of None \<Rightarrow> False
     | Some r \<Rightarrow> r \<noteq> [] \<and> last r = CHR ''}'' \<and> validKey (butlast r))"

definition credential :: "(string \<Rightarrow> (string, string) result) \<Rightarrow> string \<Rightarrow> string \<Rightarrow> config_problem list \<times> string" where
  "credential resolve' field text =
     (if text = [] then ([], [])
      else if \<not> credential_reference text then ([LiteralCredential field], [])
      else case resolve' text of Inl e \<Rightarrow> ([CredentialUnresolved field e], []) | Inr v \<Rightarrow> ([], v))"

definition etcd_document_config ::
  "(string \<Rightarrow> (string, string) result) \<Rightarrow> etcd_document \<Rightarrow> config_problem list \<times> etcd_config" where
  "etcd_document_config resolve' d =
     (let user = credential resolve' ''etcd.username'' (ed_Username d);
          pass = credential resolve' ''etcd.password'' (ed_Password d)
      in ((if ed_Endpoints d = [] then [NoEndpoints] else []) @ fst user @ fst pass,
          \<lparr>Endpoints = ed_Endpoints d, Prefix = ed_Prefix d, Username = snd user, Password = snd pass, TLS = ed_TLS d\<rparr>))"

definition document_config ::
  "(string \<Rightarrow> duration option) \<Rightarrow> (string \<Rightarrow> (string, string) result) \<Rightarrow> coord_document \<Rightarrow>
   (config_problem list, guard_config) result" where
  "document_config parse resolve' d =
     (let cfg = DefaultConfig;
          expiry = declared_duration parse ''claim_expiry'' (cd_ClaimExpiry d) (ClaimExpiry cfg);
          every = declared_duration parse ''renew_every'' (cd_RenewEvery d) (RenewEvery cfg);
          rbound = declared_duration parse ''renew_bound'' (cd_RenewBound d) (RenewBound cfg);
          sbound = declared_duration parse ''stop_bound'' (cd_StopBound d) (StopBound cfg);
          dbound = declared_duration parse ''decision_bound'' (cd_DecisionBound d) (DecisionBound cfg);
          etcd = map_option (etcd_document_config resolve') (cd_Etcd d);
          problems = fst expiry @ fst every @ fst rbound @ fst sbound @ fst dbound @
            (case etcd of None \<Rightarrow> [] | Some e \<Rightarrow> fst e)
      in if problems \<noteq> [] then Inl problems
         else Inr \<lparr>Etcd = map_option snd etcd, ClaimExpiry = snd expiry, RenewEvery = snd every, RenewBound = snd rbound,
           StopBound = snd sbound, DecisionBound = snd dbound\<rparr>)"

definition config_Check :: "guard_config \<Rightarrow> config_problem list" where
  "config_Check c =
     (let sum' = wrap64 (wrap64 (wrap64 (RenewEvery c + RenewBound c) + StopBound c) + MarginFloor) in
      (if sum' > ClaimExpiry c then [SumExceeds sum'] else []) @
      (if RenewBound c \<ge> RenewEvery c then [BoundNotBelow] else []) @
      (if ClaimExpiry c mod second \<noteq> 0 then [NotWholeSeconds] else []))"

datatype load_config_error =
    ReadingCoordination os_error
  | DecodingCoordination string
  | RefusedCoordination "config_problem list"

definition LoadConfig ::
  "(string \<Rightarrow> (os_error, string) result) \<Rightarrow> (string \<Rightarrow> (string, coord_document) result) \<Rightarrow> (string \<Rightarrow> duration option) \<Rightarrow>
   (string \<Rightarrow> (string, string) result) \<Rightarrow> string \<Rightarrow> (load_config_error, guard_config \<times> bool) result" where
  "LoadConfig read decode parse resolve' stateDir' =
     (case read (stateDir' @ ''/'' @ CoordinationFile) of
        Inl ErrNotExist \<Rightarrow> Inr (DefaultConfig, False)
      | Inl e \<Rightarrow> Inl (ReadingCoordination e)
      | Inr data' \<Rightarrow> (case decode data' of
            Inl e \<Rightarrow> Inl (DecodingCoordination e)
          | Inr declared \<Rightarrow> (case document_config parse resolve' declared of
                Inl ps \<Rightarrow> Inl (RefusedCoordination ps)
              | Inr cfg \<Rightarrow> if config_Check cfg \<noteq> [] then Inl (RefusedCoordination (config_Check cfg)) else Inr (cfg, True))))"

subsection \<open>Facts\<close>

lemma declared_duration_pos: "declared_duration parse field text d = ([], v) \<Longrightarrow> 0 < d \<Longrightarrow> 0 < v"
  by (auto simp: declared_duration_def split: if_splits option.splits)

lemma document_config_pos:
  assumes "document_config parse resolve' d = Inr cfg"
  shows "0 < ClaimExpiry cfg \<and> 0 < RenewEvery cfg \<and> 0 < RenewBound cfg \<and> 0 < StopBound cfg \<and> 0 < DecisionBound cfg"
proof -
  have pos: "0 < snd (declared_duration parse fld s c)"
    if "fst (declared_duration parse fld s c) = []" "0 < c" for fld s and c :: duration
    using declared_duration_pos [of parse fld s c "snd (declared_duration parse fld s c)"] that by (metis prod.collapse)
  show ?thesis using assms
    by (auto simp: document_config_def Let_def DefaultConfig_def split: if_splits intro!: pos)
qed

lemma wrap_sum:
  assumes "0 < a" "0 < b" "0 < c" "a < 2 ^ 60" "b < 2 ^ 60" "c < 2 ^ 60"
  shows "wrap64 (wrap64 (wrap64 (a + b) + c) + MarginFloor) = a + b + c + MarginFloor"
  using assms by (simp add: wrap64_id in_int64_def MarginFloor_def)

lemma DefaultConfig_ok: "config_Check DefaultConfig = []"
  by (simp add: config_Check_def DefaultConfig_def MarginFloor_def wrap64_def)

subsection \<open>Properties\<close>

text \<open>
  A coordination configuration that is loaded holds together.  Every duration is positive, the
  renewal bound is below the interval, the expiry is a whole number of seconds, and, for durations of
  less than \<open>2 ^ 60\<close> nanoseconds (some thirty-six years), one renewal interval, one bounded attempt, the
  stop bound and the margin fit within the expiry.  A credential is always the value of a reference.
\<close>

theorem LoadConfig_holds_together:
  assumes "LoadConfig read decode parse resolve' dir = Inr (cfg, configured)"
  shows "0 < ClaimExpiry cfg \<and> 0 < RenewEvery cfg \<and> 0 < RenewBound cfg \<and> 0 < StopBound cfg \<and> 0 < DecisionBound cfg \<and>
     RenewBound cfg < RenewEvery cfg \<and> ClaimExpiry cfg mod second = 0 \<and>
     (RenewEvery cfg < 2 ^ 60 \<and> RenewBound cfg < 2 ^ 60 \<and> StopBound cfg < 2 ^ 60 \<longrightarrow>
        RenewEvery cfg + RenewBound cfg + StopBound cfg + MarginFloor \<le> ClaimExpiry cfg)"
proof (cases "configured")
  case True
  then obtain d where d: "document_config parse resolve' d = Inr cfg" and c: "config_Check cfg = []"
    using assms by (auto simp: LoadConfig_def split: sum.splits os_error.splits if_splits)
  note pos = document_config_pos [OF d]
  have fit: "wrap64 (wrap64 (wrap64 (RenewEvery cfg + RenewBound cfg) + StopBound cfg) + MarginFloor) \<le> ClaimExpiry cfg"
    "RenewBound cfg < RenewEvery cfg" "ClaimExpiry cfg mod second = 0"
    using c by (auto simp: config_Check_def Let_def split: if_splits)
  show ?thesis using pos fit wrap_sum [of "RenewEvery cfg" "RenewBound cfg" "StopBound cfg"] by auto
next
  case False
  then have "cfg = DefaultConfig"
    using assms by (auto simp: LoadConfig_def split: sum.splits os_error.splits if_splits)
  then show ?thesis by (simp add: DefaultConfig_def MarginFloor_def)
qed

theorem LoadConfig_holds_together_witness:
  "LoadConfig (\<lambda>_. Inl ErrNotExist) (\<lambda>_. Inl []) (\<lambda>_. None) Inr ''/s'' = Inr (DefaultConfig, False) \<and>
   RenewEvery DefaultConfig + RenewBound DefaultConfig + StopBound DefaultConfig + MarginFloor \<le> ClaimExpiry DefaultConfig"
proof -
  have l: "LoadConfig (\<lambda>_. Inl ErrNotExist) (\<lambda>_. Inl []) (\<lambda>_. None) Inr ''/s'' = Inr (DefaultConfig, False)"
    by (simp add: LoadConfig_def)
  from LoadConfig_holds_together [OF l] l show ?thesis by (simp add: DefaultConfig_def)
qed

text \<open>
  The check of the sum can be passed by overflow.  With a renewal interval and a stop bound near
  the largest duration the sum wraps below zero, and a claim expiry far shorter than the terms it has to
  cover is accepted.
\<close>

theorem config_Check_overflow:
  "let c = \<lparr>Etcd = None, ClaimExpiry = 30 * second, RenewEvery = 2 ^ 62, RenewBound = 4 * second, StopBound = 2 ^ 62,
       DecisionBound = 5 * second\<rparr>
   in config_Check c = [] \<and> in_int64 (RenewEvery c) \<and> in_int64 (StopBound c) \<and>
      RenewEvery c + RenewBound c + StopBound c + MarginFloor > ClaimExpiry c"
  by (simp add: config_Check_def wrap64_def MarginFloor_def in_int64_def Let_def)

end
