(* ===== verification/Hold.thy ===== *)
theory Hold
  imports Guard_Config
begin

text \<open>
  Holding a claim while a run goes on: \<open>guard/holder.go\<close>, with the readings of \<open>guard/clock.go\<close> it
  measures on.  The renewal loop is a function of what each round meets: the readings of the monotonic
  clock, whether the run ended first, and what the renewal answered.  How late a timer, a bounded call
  or the loop itself may be is the parameter \<open>late\<close> of the predicate \<open>timely\<close>.
\<close>

subsection \<open>Monotonic readings\<close>

type_synonym instant = int

definition Instant_Add :: "instant \<Rightarrow> duration \<Rightarrow> instant" where
  "Instant_Add i d = i + d"

definition Instant_Sub :: "instant \<Rightarrow> instant \<Rightarrow> duration" where
  "Instant_Sub i j = i - j"

definition Instant_Before :: "instant \<Rightarrow> instant \<Rightarrow> bool" where
  "Instant_Before i j \<longleftrightarrow> i < j"

lemmas instant_defs = Instant_Add_def Instant_Sub_def Instant_Before_def

subsection \<open>The hold\<close>

text \<open>What the hold does to the world outside it.\<close>

datatype hold_effect = CancelRun | StartEnforcing | ExitProcess int

definition StopBoundExceeded :: int where "StopBoundExceeded = 3"

record 'c hold =
  h_claim :: "'c option"
  h_sent :: instant
  h_over :: bool
  h_stopped :: bool
  h_reason :: string
  h_effects :: "hold_effect list"

text \<open>The new hold, and whether its renewal loop was started.\<close>

definition Guard_Hold :: "('c \<Rightarrow> duration) \<Rightarrow> 'c option \<Rightarrow> instant \<Rightarrow> 'c hold \<times> bool" where
  "Guard_Hold expiry claim sent =
     (\<lparr>h_claim = claim, h_sent = sent, h_over = False, h_stopped = False, h_reason = [], h_effects = []\<rparr>,
      case claim of None \<Rightarrow> False | Some c \<Rightarrow> expiry c \<noteq> 0)"

definition Hold_Done :: "'c hold \<Rightarrow> 'c hold" where
  "Hold_Done h = h\<lparr>h_over := True\<rparr>"

definition decideToStop :: "string \<Rightarrow> 'c hold \<Rightarrow> 'c hold" where
  "decideToStop why h = (if h_stopped h then h
     else h\<lparr>h_stopped := True, h_reason := why, h_effects := h_effects h @ [CancelRun, StartEnforcing]\<rparr>)"

definition Hold_Fence :: "(coord_error \<Rightarrow> string) \<Rightarrow> ('c \<Rightarrow> coord_error option) \<Rightarrow> 'c hold \<Rightarrow> 'c hold \<times> coord_error option" where
  "Hold_Fence message fence h =
     (case h_claim h of
        None \<Rightarrow> (h, None)
      | Some c \<Rightarrow> (case fence c of
            None \<Rightarrow> (h, None)
          | Some e \<Rightarrow> (decideToStop (''the claim could not be fenced: '' @ message e) h, Some e)))"

text \<open>\<open>enforce\<close> ends the process if its timer fires before the run is over.\<close>

definition enforce :: "bool \<Rightarrow> 'c hold \<Rightarrow> 'c hold" where
  "enforce overFirst h = (if overFirst then h else h\<lparr>h_effects := h_effects h @ [ExitProcess StopBoundExceeded]\<rparr>)"

definition StopDeadline :: "guard_config \<Rightarrow> instant \<Rightarrow> duration \<Rightarrow> instant" where
  "StopDeadline c sent expiry = Instant_Add sent (expiry - StopBound c - MarginFloor)"

subsection \<open>The renewal loop\<close>

text \<open>
  One round: the reading at the top of the loop, whether \<open>over\<close> was closed before the timer fired,
  the reading when the timer had fired and the attempt was sent, and the attempt's answer with the
  reading at which it came back.
\<close>

record hold_round =
  hr_now :: instant
  hr_over :: bool
  hr_fired :: instant
  hr_outcome :: "coord_error option"
  hr_answered :: instant

text \<open>How the loop ended: not yet, because the run was over, or by a stop decision at an instant.\<close>

datatype renewing = Renewing instant instant | RunOver | Decided instant string

definition renew_wait :: "guard_config \<Rightarrow> instant \<Rightarrow> instant \<Rightarrow> instant \<Rightarrow> duration" where
  "renew_wait cfg deadline attempt now =
     min (Instant_Sub (Instant_Add attempt (RenewEvery cfg)) now) (Instant_Sub deadline now)"

fun renew :: "(coord_error \<Rightarrow> string) \<Rightarrow> guard_config \<Rightarrow> duration \<Rightarrow> instant \<Rightarrow> instant \<Rightarrow> hold_round list \<Rightarrow> renewing" where
  "renew message cfg expiry sent attempt [] = Renewing sent attempt"
| "renew message cfg expiry sent attempt (r # rs) =
     (let deadline = StopDeadline cfg sent expiry in
      if \<not> Instant_Before (hr_now r) deadline
      then Decided (hr_now r) ''the claim could not be renewed in time to prove it is still held''
      else if hr_over r then RunOver
      else (case hr_outcome r of
          None \<Rightarrow> renew message cfg expiry (hr_fired r) (hr_fired r) rs
        | Some (Lost why) \<Rightarrow> Decided (hr_answered r) (''the claim is gone: '' @ message (Lost why))
        | Some _ \<Rightarrow> renew message cfg expiry sent (hr_fired r) rs))"

text \<open>
  A machine on which nothing is more than \<open>late\<close> late: the loop comes round, the timer it set fires,
  and a bounded attempt returns, each within \<open>late\<close> of its time.  The list is judged along the loop,
  \<open>at\<close> being the reading at which the loop came round.
\<close>

fun timely :: "duration \<Rightarrow> guard_config \<Rightarrow> duration \<Rightarrow> instant \<Rightarrow> instant \<Rightarrow> instant \<Rightarrow> hold_round list \<Rightarrow> bool" where
  "timely late cfg expiry sent attempt at [] \<longleftrightarrow> True"
| "timely late cfg expiry sent attempt at (r # rs) \<longleftrightarrow>
     (let wait = max 0 (renew_wait cfg (StopDeadline cfg sent expiry) attempt (hr_now r)) in
      at \<le> hr_now r \<and> hr_now r \<le> at + late \<and>
      hr_now r + wait \<le> hr_fired r \<and> hr_fired r \<le> hr_now r + wait + late \<and>
      hr_fired r \<le> hr_answered r \<and> hr_answered r \<le> hr_fired r + RenewBound cfg + late \<and>
      timely late cfg expiry (if hr_outcome r = None then hr_fired r else sent) (hr_fired r) (hr_answered r) rs)"

text \<open>The instant the claim was last proven held at, once the loop has been through the rounds.\<close>

fun proven :: "guard_config \<Rightarrow> duration \<Rightarrow> instant \<Rightarrow> hold_round list \<Rightarrow> instant" where
  "proven cfg expiry sent [] = sent"
| "proven cfg expiry sent (r # rs) =
     (if \<not> Instant_Before (hr_now r) (StopDeadline cfg sent expiry) \<or> hr_over r then sent
      else case hr_outcome r of
          None \<Rightarrow> proven cfg expiry (hr_fired r) rs
        | Some (Lost _) \<Rightarrow> sent
        | Some _ \<Rightarrow> proven cfg expiry sent rs)"

subsection \<open>Facts\<close>

lemma decideToStop_once: "decideToStop why (decideToStop first h) = decideToStop first h"
  by (simp add: decideToStop_def)

lemma StopDeadline_le: "StopDeadline cfg sent expiry + StopBound cfg + MarginFloor = sent + expiry"
  by (simp add: StopDeadline_def instant_defs)

text \<open>
  A decision comes at most one bounded attempt and three latenesses after the deadline, or after the
  loop was started when that is later.
\<close>

lemma renew_decided_by:
  assumes "renew message cfg expiry sent attempt rs = Decided d why" "timely late cfg expiry sent attempt at rs"
    and "at \<le> StopDeadline cfg sent expiry + RenewBound cfg + 2 * late" "0 \<le> late" "0 \<le> RenewBound cfg"
    and exp: "0 \<le> expiry - StopBound cfg - MarginFloor"
  shows "d \<le> StopDeadline cfg (proven cfg expiry sent rs) expiry + RenewBound cfg + 3 * late"
  using assms(1-3)
proof (induction rs arbitrary: sent attempt at)
  case (Cons r rs)
  let ?D = "StopDeadline cfg sent expiry"
  show ?case
  proof (cases "Instant_Before (hr_now r) ?D")
    case False
    with Cons.prems show ?thesis by (auto simp: Let_def)
  next
    case True
    then have now: "hr_now r < ?D" by (simp add: instant_defs)
    have over: "\<not> hr_over r" using Cons.prems(1) True by (auto simp: Let_def)
    have fired: "hr_now r \<le> hr_fired r" "hr_fired r \<le> ?D + late" "hr_answered r \<le> hr_fired r + RenewBound cfg + late"
      using Cons.prems(2) now by (auto simp: Let_def renew_wait_def instant_defs)
    show ?thesis
    proof (cases "hr_outcome r")
      case None
      have "renew message cfg expiry (hr_fired r) (hr_fired r) rs = Decided d why"
        "timely late cfg expiry (hr_fired r) (hr_fired r) (hr_answered r) rs"
        using Cons.prems True over None by (auto simp: Let_def)
      moreover have "hr_answered r \<le> StopDeadline cfg (hr_fired r) expiry + RenewBound cfg + 2 * late"
        using fired(3) exp assms(4) by (simp add: StopDeadline_def instant_defs)
      ultimately show ?thesis using Cons.IH True over None by simp
    next
      case (Some e)
      show ?thesis
      proof (cases "\<exists>w. e = Lost w")
        case True2: True
        then have "d = hr_answered r" using Cons.prems(1) True over Some by (auto simp: Let_def)
        then show ?thesis using fired True over Some True2 assms(4) by auto
      next
        case False
        then have "renew message cfg expiry sent (hr_fired r) rs = Decided d why"
          "timely late cfg expiry sent (hr_fired r) (hr_answered r) rs"
          "proven cfg expiry sent (r # rs) = proven cfg expiry sent rs"
          using Cons.prems True over Some by (auto simp: Let_def split: coord_error.splits)
        moreover have "hr_answered r \<le> ?D + RenewBound cfg + 2 * late" using fired by simp
        ultimately show ?thesis using Cons.IH by simp
      qed
    qed
  qed
qed simp

text \<open>A round whose renewal fails moves the loop on by a renewal interval, or to its deadline.\<close>

lemma renew_decides:
  assumes "timely late cfg expiry sent attempt at rs" "\<forall>r \<in> set rs. \<not> hr_over r \<and> hr_outcome r \<noteq> None"
    and "0 < RenewEvery cfg" "at \<ge> attempt"
    and "StopDeadline cfg sent expiry < attempt + int n * RenewEvery cfg" "n + 1 < length rs"
  shows "\<exists>d why. renew message cfg expiry sent attempt rs = Decided d why"
  using assms
proof (induction rs arbitrary: attempt at n)
  case (Cons r rs)
  let ?D = "StopDeadline cfg sent expiry"
  obtain e where e: "hr_outcome r = Some e" using Cons.prems(2) by auto
  consider "\<not> Instant_Before (hr_now r) ?D" | "\<exists>w. e = Lost w"
    | "Instant_Before (hr_now r) ?D" "\<nexists>w. e = Lost w" by blast
  then show ?case
  proof cases
    case 3
    then have now: "hr_now r < ?D" by (simp add: instant_defs)
    have step: "renew message cfg expiry sent attempt (r # rs) = renew message cfg expiry sent (hr_fired r) rs"
      using 3 Cons.prems(2) e by (auto simp: Let_def split: coord_error.splits)
    have t: "timely late cfg expiry sent (hr_fired r) (hr_answered r) rs" "hr_fired r \<le> hr_answered r"
      using Cons.prems(1) e by (auto simp: Let_def)
    have fired: "hr_fired r \<ge> ?D \<or> hr_fired r \<ge> attempt + RenewEvery cfg"
      using Cons.prems(1) now by (auto simp: Let_def renew_wait_def instant_defs)
    show ?thesis
    proof (cases "hr_fired r \<ge> ?D")
      case True
      obtain r2 rs2 where rs: "rs = r2 # rs2" using Cons.prems(6) by (cases rs) auto
      have "\<not> Instant_Before (hr_now r2) ?D" using t True rs by (auto simp: Let_def instant_defs)
      then have "\<exists>d why. renew message cfg expiry sent (hr_fired r) rs = Decided d why" by (simp add: rs)
      then show ?thesis unfolding step .
    next
      case False
      then have f: "hr_fired r \<ge> attempt + RenewEvery cfg" "hr_fired r < ?D" using fired by auto
      then obtain m where n: "n = Suc m" using Cons.prems(3,5) by (cases n) auto
      have "?D < hr_fired r + int m * RenewEvery cfg" using Cons.prems(5) f n by (simp add: algebra_simps)
      then have "\<exists>d why. renew message cfg expiry sent (hr_fired r) rs = Decided d why"
        using Cons.IH [OF t(1) _ Cons.prems(3) t(2)] Cons.prems(2,6) n by simp
      then show ?thesis unfolding step .
    qed
  qed (use Cons.prems(2) e in \<open>auto simp: Let_def\<close>)
qed simp

subsection \<open>Properties\<close>

text \<open>
  C33. A run stopped by its hold is stopped within a bounded delay of its deadline.  On a machine where
  nothing is more than \<open>late\<close> late, the stop decision and the stop bound that follows it end no later
  than the claim's own expiry, measured from the last renewal that succeeded, plus whatever one bounded
  attempt and three latenesses exceed the margin floor by.  When those fit the margin the run is over
  before its claim can lapse.
\<close>

theorem Hold_stop_is_bounded:
  assumes "renew message cfg expiry sent sent rs = Decided d why" "timely late cfg expiry sent sent at rs"
    and "at \<le> StopDeadline cfg sent expiry" "0 \<le> late" "0 \<le> RenewBound cfg"
    and "StopBound cfg + MarginFloor \<le> expiry"
  shows "d + StopBound cfg \<le> proven cfg expiry sent rs + expiry + (RenewBound cfg + 3 * late - MarginFloor) \<and>
     (RenewBound cfg + 3 * late \<le> MarginFloor \<longrightarrow> d + StopBound cfg \<le> proven cfg expiry sent rs + expiry)"
proof -
  have "d \<le> StopDeadline cfg (proven cfg expiry sent rs) expiry + RenewBound cfg + 3 * late"
    by (rule renew_decided_by [OF assms(1,2)]) (use assms(3-6) in simp_all)
  then show ?thesis using StopDeadline_le [of cfg "proven cfg expiry sent rs" expiry] by linarith
qed

text \<open>A backend that answers nothing: each attempt hangs for its whole bound.\<close>

definition hanging :: "duration \<Rightarrow> instant \<Rightarrow> instant \<Rightarrow> hold_round" where
  "hanging bound' now fired = \<lparr>hr_now = now, hr_over = False, hr_fired = fired,
     hr_outcome = Some (Unavailable ''context canceled''), hr_answered = fired + bound'\<rparr>"

definition quick_config :: guard_config where
  "quick_config = DefaultConfig\<lparr>RenewBound := 1 * second, ClaimExpiry := 24 * second\<rparr>"

definition quick_rounds :: "hold_round list" where
  "quick_rounds = [hanging second 0 (5 * second), hanging second (6 * second) (10 * second),
     hanging second (11 * second) (12 * second), hanging second (13 * second) (13 * second)]"

lemmas hold_eval = Let_def renew_wait_def StopDeadline_def instant_defs MarginFloor_def DefaultConfig_def hanging_def

theorem Hold_stop_is_bounded_witness:
  "renew (\<lambda>_. []) quick_config (24 * second) 0 0 quick_rounds =
     Decided (13 * second) ''the claim could not be renewed in time to prove it is still held'' \<and>
   13 * second + StopBound quick_config \<le> proven quick_config (24 * second) 0 quick_rounds + 24 * second"
proof -
  have r: "renew (\<lambda>_. []) quick_config (24 * second) 0 0 quick_rounds =
      Decided (13 * second) ''the claim could not be renewed in time to prove it is still held''"
    by (simp add: quick_config_def quick_rounds_def hold_eval)
  have t: "timely 0 quick_config (24 * second) 0 0 0 quick_rounds"
    by (simp add: quick_config_def quick_rounds_def hold_eval)
  show ?thesis using r Hold_stop_is_bounded [OF r t] by (simp add: quick_config_def hold_eval)
qed

text \<open>
  A claim that is never renewed again stops its run.  If every attempt from some point on fails,
  for whatever reason, and the run goes on, the loop reaches a stop decision within as many rounds as
  there are renewal intervals before the deadline, and two more.
\<close>

theorem Hold_decides_eventually:
  assumes "timely late cfg expiry sent sent at rs" "sent \<le> at" "0 < RenewEvery cfg"
    and "list_all (\<lambda>r. \<not> hr_over r \<and> hr_outcome r \<noteq> None) rs"
    and "nat ((expiry - StopBound cfg - MarginFloor) div RenewEvery cfg) + 2 < length rs"
  shows "\<exists>d why. renew message cfg expiry sent sent rs = Decided d why"
proof -
  define x where "x = expiry - StopBound cfg - MarginFloor"
  define n where "n = nat (x div RenewEvery cfg) + 1"
  have "x = x div RenewEvery cfg * RenewEvery cfg + x mod RenewEvery cfg" by simp
  also have "\<dots> < (x div RenewEvery cfg + 1) * RenewEvery cfg"
    using assms(3) pos_mod_bound [of "RenewEvery cfg" x] unfolding distrib_right by linarith
  also have "\<dots> \<le> int n * RenewEvery cfg" using assms(3) by (intro mult_right_mono) (auto simp: n_def)
  finally have "StopDeadline cfg sent expiry < sent + int n * RenewEvery cfg"
    by (simp add: StopDeadline_def instant_defs x_def)
  then show ?thesis using assms by (intro renew_decides [where n = n and late = late and at = at]) (auto simp: list_all_iff n_def x_def)
qed

theorem Hold_decides_eventually_witness:
  "\<exists>d why. renew (\<lambda>_. []) (quick_config\<lparr>RenewEvery := 10 * second\<rparr>) (24 * second) 0 0
     [hanging second 0 (10 * second), hanging second (11 * second) (12 * second),
      hanging second (13 * second) (13 * second), hanging second (14 * second) (14 * second)] = Decided d why"
  by (rule Hold_decides_eventually [where late = 0 and at = 0]) (simp_all add: quick_config_def hold_eval)

text \<open>
  A run can outlive its claim.  The loop sends an attempt at the deadline itself, and an attempt
  may take the whole renewal bound, which the deadline leaves no room for.  With the default durations
  and a claim of twenty-seven seconds, which the configuration's check accepts, and a backend that
  stopped answering, the stop is decided nineteen seconds after the last proof although every timer
  fires on time, and the stop bound that starts then ends two seconds after the claim lapsed.
\<close>

theorem claim_can_lapse_before_the_stop:
  "let cfg = DefaultConfig\<lparr>ClaimExpiry := 27 * second\<rparr>; expiry = 27 * second;
       rs = [hanging (4 * second) 0 (5 * second), hanging (4 * second) (9 * second) (10 * second),
             hanging (4 * second) (14 * second) (15 * second), hanging (4 * second) (19 * second) (19 * second)]
   in config_Check cfg = [] \<and> timely 0 cfg expiry 0 0 0 rs \<and>
      renew (\<lambda>_. []) cfg expiry 0 0 rs =
        Decided (19 * second) ''the claim could not be renewed in time to prove it is still held'' \<and>
      proven cfg expiry 0 rs = 0 \<and> 19 * second + StopBound cfg > 0 + expiry"
  by (simp add: hold_eval config_Check_def wrap64_def)

end
