(* ===== verification/Instance.thy ===== *)
theory Instance
  imports Store
begin

text \<open>
  The processes of a host and the reconciliation of what they left waiting: \<open>guard/instance.go\<close>.  The
  instances directory is a map from an identifier to its lock file, which a process may hold; a file
  that cannot be examined is marked so.  The kernel releases the lock of a process that dies, which is
  the only way \<open>inst_locked\<close> becomes false without \<open>Close\<close>.
\<close>

subsection \<open>Instance locks\<close>

record instance_file =
  inst_locked :: bool
  inst_opens :: bool

type_synonym instances = "instance_file gomap"

definition instancePattern :: "string \<Rightarrow> bool" where
  "instancePattern s \<longleftrightarrow> (case s of [] \<Rightarrow> False
     | c # cs \<Rightarrow> is_alnum c \<and> length cs \<le> 63 \<and> list_all (\<lambda>c. is_alnum c \<or> c = CHR ''_'' \<or> c = CHR ''-'') cs)"

datatype instance_error = BadInstance string | InstancesDirFailed string | OpeningInstance string | LockingInstance string

definition HoldInstance :: "string option \<Rightarrow> string \<Rightarrow> instances \<Rightarrow> instances \<times> (instance_error, string) result" where
  "HoldInstance mkdir id' fs =
     (if \<not> instancePattern id' then (fs, Inl (BadInstance id'))
      else case mkdir of
        Some why \<Rightarrow> (fs, Inl (InstancesDirFailed why))
      | None \<Rightarrow> (case map_of fs id' of
            None \<Rightarrow> (map_set id' \<lparr>inst_locked = True, inst_opens = True\<rparr> fs, Inr id')
          | Some f \<Rightarrow> if \<not> inst_opens f then (fs, Inl (OpeningInstance id'))
              else if inst_locked f then (fs, Inl (LockingInstance id'))
              else (map_set id' (f\<lparr>inst_locked := True\<rparr>) fs, Inr id')))"

definition Instance_Close :: "string \<Rightarrow> instances \<Rightarrow> instances" where
  "Instance_Close id' fs = map_del id' fs"

definition alive :: "string \<Rightarrow> instances \<Rightarrow> instances \<times> bool" where
  "alive id' fs =
     (if \<not> instancePattern id' then (fs, False)
      else case map_of fs id' of
        None \<Rightarrow> (fs, False)
      | Some f \<Rightarrow> if \<not> inst_opens f then (fs, True)
          else if inst_locked f then (fs, True)
          else (map_del id' fs, False))"

subsection \<open>Reconciliation\<close>

text \<open>
  What a reconciliation meets from outside: for each trigger it visits the wall reading, the
  identifier drawn for the refusal, and what other processes did to the record just before.
\<close>

record reconcile_env =
  re_wall :: "string \<Rightarrow> time"
  re_newID :: "string \<Rightarrow> string option"
  re_others :: "string \<Rightarrow> store \<Rightarrow> store"
  re_format :: "time \<Rightarrow> string"

definition dropped_refusal :: "reconcile_env \<Rightarrow> waiting_row \<Rightarrow> refusal_row" where
  "dropped_refusal env w = \<lparr>rfl_ID = [], rfl_PlaybookName = wt_PlaybookName w, rfl_TriggerKind = wt_TriggerKind w,
     rfl_DueAt = zero_time, rfl_WaitingTriggerID = wt_ID w, rfl_Mechanism = MechanismDropped,
     rfl_Detail = ''trigger '' @ wt_ID w @ '' accepted at '' @ re_format env (AcceptedAt w) @ ''; process '' @ wt_Instance w @
       '' ended before it ran'',
     RefusedAt = re_wall env (wt_ID w), rfl_DeliveryID = []\<rparr>"

fun reconcile_loop ::
  "reconcile_env \<Rightarrow> waiting_row list \<Rightarrow> nat \<Rightarrow> instances \<Rightarrow> store \<Rightarrow> instances \<times> store \<times> nat \<times> store_error option" where
  "reconcile_loop env [] dropped fs s = (fs, s, dropped, None)"
| "reconcile_loop env (w # ws) dropped fs s0 =
     (let s = re_others env (wt_ID w) s0; at = re_wall env (wt_ID w) in
      if wt_RunID w \<noteq> [] then
        (case EndWait (re_newID env (wt_ID w)) (wt_ID w)
                \<lparr>we_Outcome = WaitRan, we_At = at, we_RunID = wt_RunID w, we_Refusal = None\<rparr> s of
           (s', Inl e) \<Rightarrow> (fs, s', dropped, Some e)
         | (s', Inr _) \<Rightarrow> reconcile_loop env ws dropped fs s')
      else (case alive (wt_Instance w) fs of
          (fs', True) \<Rightarrow> reconcile_loop env ws dropped fs' s
        | (fs', False) \<Rightarrow>
            (case EndWait (re_newID env (wt_ID w)) (wt_ID w)
                    \<lparr>we_Outcome = WaitDropped, we_At = at, we_RunID = [], we_Refusal = Some (dropped_refusal env w)\<rparr> s of
               (s', Inl e) \<Rightarrow> (fs', s', dropped, Some e)
             | (s', Inr ended) \<Rightarrow> reconcile_loop env ws (dropped + (if ended then 1 else 0)) fs' s')))"

definition Reconcile :: "reconcile_env \<Rightarrow> instances \<Rightarrow> store \<Rightarrow> instances \<times> store \<times> nat \<times> store_error option" where
  "Reconcile env fs s = reconcile_loop env (StillWaiting s) 0 fs s"

text \<open>A process that a waiting trigger names is gone.\<close>

definition gone :: "instances \<Rightarrow> string \<Rightarrow> bool" where
  "gone fs i \<longleftrightarrow> \<not> snd (alive i fs)"

subsection \<open>Facts\<close>

text \<open>Looking at one process changes what is known of no other.\<close>

lemma alive_stable: "snd (alive j (fst (alive i fs))) = snd (alive j fs)"
  by (auto simp: alive_def split: option.splits)

lemma alive_live_file: "map_of fs i = Some f \<Longrightarrow> inst_locked f \<Longrightarrow> alive j fs = (fs', r) \<Longrightarrow> map_of fs' i = Some f"
  by (auto simp: alive_def split: option.splits if_splits)

text \<open>
  A row that waits names no run, neither in its own column nor through a run: the store's steps keep
  it so, and with it the branch of \<open>Reconcile\<close> that records such a row as ran is never taken.
\<close>

definition live_unnamed :: "store \<Rightarrow> bool" where
  "live_unnamed s \<longleftrightarrow> (\<forall>w \<in> set (st_waiting s). wt_Outcome w = WaitWaiting \<longrightarrow> wt_RunID w = [])"

lemma update_where_unnamed:
  "live_unnamed s \<Longrightarrow> (\<And>w. wt_Outcome (f w) \<noteq> WaitWaiting) \<Longrightarrow>
     \<forall>w \<in> set (update_where P f (st_waiting s)). wt_Outcome w = WaitWaiting \<longrightarrow> wt_RunID w = []"
  by (auto simp: live_unnamed_def set_update_where)

lemma EndWait_waiting:
  assumes "EndWait newID i e s = (s', r)"
  shows "st_waiting s' = st_waiting s \<or> we_Outcome e \<noteq> WaitWaiting \<and>
     st_waiting s' = update_where (\<lambda>w. wt_ID w = i \<and> wt_Outcome w = WaitWaiting)
       (\<lambda>w. w\<lparr>wt_Outcome := we_Outcome e, OutcomeAt := we_At e, wt_RunID := we_RunID e\<rparr>) (st_waiting s)"
  using assms insertRefusal_cases
  by (fastforce simp: EndWait_def Let_def split: if_splits option.splits prod.splits sum.splits)

lemma EndWait_unnamed: "EndWait newID i e s = (s', r) \<Longrightarrow> live_unnamed s \<Longrightarrow> live_unnamed s'"
  using EndWait_waiting [of newID i e s s' r]
  by (auto simp: live_unnamed_def set_update_where)

lemma CreateRun_unnamed: "CreateRun now rn s = (s', r) \<Longrightarrow> live_unnamed s \<Longrightarrow> live_unnamed s'"
  by (auto simp: CreateRun_def live_unnamed_def Let_def set_update_where split: if_splits)

lemma AcceptWaiting_unnamed: "AcceptWaiting newID put t vals s = (s', r) \<Longrightarrow> live_unnamed s \<Longrightarrow> live_unnamed s'"
  by (auto simp: AcceptWaiting_def live_unnamed_def Let_def split: if_splits option.splits sum.splits)

lemma store_step_unnamed: "store_step s s' \<Longrightarrow> live_unnamed s \<Longrightarrow> live_unnamed s'"
proof (induction rule: store_step.induct)
  case (refuse newID rf s s' r)
  then show ?case using insertRefusal_cases [of newID rf s s' r] by (auto simp: RecordRefusal_def live_unnamed_def)
qed (auto simp: FinishRun_def MarkRunningAsInterrupted_def SetLastTick_def RecordRateStart_def
    RecordMissedOccurrence_def Let_def live_unnamed_def [of "_\<lparr>st_runs := _\<rparr>"] live_unnamed_def [of "_\<lparr>st_last_ticks := _\<rparr>"]
    live_unnamed_def [of "_\<lparr>st_rate_starts := _\<rparr>"] live_unnamed_def [of "_\<lparr>st_missed := _\<rparr>"] live_unnamed_def [symmetric]
    split: if_splits intro: EndWait_unnamed CreateRun_unnamed AcceptWaiting_unnamed)

lemma store_steps_unnamed: "store_step\<^sup>*\<^sup>* s s' \<Longrightarrow> live_unnamed s \<Longrightarrow> live_unnamed s'"
  by (induction rule: rtranclp_induct) (auto intro: store_step_unnamed)

text \<open>Rows are never deleted, and a row that ended stays so.\<close>

definition ended_wait :: "store \<Rightarrow> string \<Rightarrow> bool" where
  "ended_wait s i \<longleftrightarrow> (\<exists>w \<in> set (st_waiting s). wt_ID w = i \<and> wt_Outcome w \<noteq> WaitWaiting)"

lemma ended_wait_kept: "store_step\<^sup>*\<^sup>* s s' \<Longrightarrow> ended_wait s i \<Longrightarrow> ended_wait s' i"
proof (induction rule: rtranclp_induct)
  case (step y z)
  then obtain w where "w \<in> set (st_waiting y)" "wt_ID w = i" "wt_Outcome w \<noteq> WaitWaiting" by (auto simp: ended_wait_def)
  then show ?case using ended_row_kept [OF step.hyps(2)] by (auto simp: ended_wait_def)
qed

lemma update_where_ids:
  assumes "\<And>w. wt_ID (f w) = wt_ID w"
  shows "wt_ID ` set (update_where P f ws) = wt_ID ` set ws"
proof -
  have "map wt_ID (update_where P f ws) = map wt_ID ws" by (simp add: update_where_map assms)
  from arg_cong [OF this, of set] show ?thesis by simp
qed

lemma EndWait_ids: "EndWait newID i e s = (s', r) \<Longrightarrow> wt_ID ` set (st_waiting s') = wt_ID ` set (st_waiting s)"
  by (drule EndWait_waiting) (elim disjE conjE, simp_all add: update_where_ids)

lemma store_step_ids: "store_step s s' \<Longrightarrow> wt_ID ` set (st_waiting s) \<subseteq> wt_ID ` set (st_waiting s')"
proof (induction rule: store_step.induct)
  case (accept i put t vals s s' r)
  then show ?case by (auto simp: AcceptWaiting_def Let_def split: if_splits option.splits sum.splits)
next
  case (refuse newID rf s s' r)
  then show ?case using insertRefusal_cases [of newID rf s s' r] by (auto simp: RecordRefusal_def)
next
  case (create now rn s s' r)
  then show ?case by (auto simp: CreateRun_def Let_def update_where_ids split: if_splits)
qed (auto simp: FinishRun_def MarkRunningAsInterrupted_def SetLastTick_def RecordRateStart_def
    RecordMissedOccurrence_def Let_def dest!: EndWait_ids split: if_splits)

lemma store_steps_ids: "store_step\<^sup>*\<^sup>* s s' \<Longrightarrow> wt_ID ` set (st_waiting s) \<subseteq> wt_ID ` set (st_waiting s')"
  by (induction rule: rtranclp_induct) (use store_step_ids in blast)+

lemma update_where_ends:
  assumes "\<And>w. wt_ID (f w) = wt_ID w" "\<And>w. wt_Outcome (f w) \<noteq> WaitWaiting" "w \<in> set ws" "wt_ID w = i"
  shows "\<exists>v \<in> set (update_where (\<lambda>w. wt_ID w = i \<and> wt_Outcome w = WaitWaiting) f ws). wt_ID v = i \<and> wt_Outcome v \<noteq> WaitWaiting"
proof -
  let ?g = "\<lambda>x. if wt_ID x = i \<and> wt_Outcome x = WaitWaiting then f x else x"
  have "?g w \<in> set (update_where (\<lambda>w. wt_ID w = i \<and> wt_Outcome w = WaitWaiting) f ws)"
    unfolding set_update_where using assms(3) by (rule imageI)
  moreover have "wt_ID (?g w) = i" "wt_Outcome (?g w) \<noteq> WaitWaiting" using assms(1,2,4) by auto
  ultimately show ?thesis by blast
qed

text \<open>An \<open>EndWait\<close> that does not fail leaves the row ended, whoever ended it.\<close>

lemma EndWait_ends:
  assumes "EndWait newID i e s = (s', Inr b)" "i \<in> wt_ID ` set (st_waiting s)"
  shows "ended_wait s' i"
proof (cases "rows_where (\<lambda>w. wt_ID w = i \<and> wt_Outcome w = WaitWaiting) (st_waiting s) = 0")
  case True
  then have "s' = s" using assms(1) by (auto simp: EndWait_def Let_def split: if_splits)
  with True assms(2) show ?thesis by (auto simp: rows_where_0 ended_wait_def)
next
  case False
  have o: "we_Outcome e \<noteq> WaitWaiting" using assms(1) by (auto simp: EndWait_def split: if_splits)
  have "st_waiting s' = update_where (\<lambda>w. wt_ID w = i \<and> wt_Outcome w = WaitWaiting)
       (\<lambda>w. w\<lparr>wt_Outcome := we_Outcome e, OutcomeAt := we_At e, wt_RunID := we_RunID e\<rparr>) (st_waiting s)"
    using assms(1) False insertRefusal_cases
    by (fastforce simp: EndWait_def Let_def split: if_splits option.splits prod.splits sum.splits)
  then show ?thesis unfolding ended_wait_def using assms(2) o by (auto intro!: update_where_ends)
qed

text \<open>What one visit of the loop does.\<close>

definition quiet :: "reconcile_env \<Rightarrow> bool" where
  "quiet env \<longleftrightarrow> re_others env = (\<lambda>_ s. s)"

definition others_step :: "reconcile_env \<Rightarrow> bool" where
  "others_step env \<longleftrightarrow> (\<forall>i s. store_step\<^sup>*\<^sup>* s (re_others env i s))"

lemma quiet_others: "quiet env \<Longrightarrow> others_step env"
  by (simp add: quiet_def others_step_def)

lemma drop_step:
  assumes "EndWait newID (wt_ID w) \<lparr>we_Outcome = WaitDropped, we_At = at, we_RunID = [], we_Refusal = Some (dropped_refusal env w)\<rparr> s = (s', r)"
  shows "store_step s s'"
  using assms by (rule store_step.end_refused) (simp_all add: dropped_refusal_def)

lemma reconcile_loop_steps:
  "others_step env \<Longrightarrow> \<forall>w \<in> set ws. wt_RunID w = [] \<Longrightarrow> reconcile_loop env ws n fs s = (fs', s', m, e) \<Longrightarrow> store_step\<^sup>*\<^sup>* s s'"
proof (induction env ws n fs s rule: reconcile_loop.induct)
  case (2 env w ws n fs s0)
  have o: "store_step\<^sup>*\<^sup>* s0 (re_others env (wt_ID w) s0)" using 2 by (simp add: others_step_def)
  obtain fs1 a where a: "alive (wt_Instance w) fs = (fs1, a)" by fastforce
  have r: "wt_RunID w = []" using 2 by simp
  show ?case
  proof (cases a)
    case True
    then have "store_step\<^sup>*\<^sup>* (re_others env (wt_ID w) s0) s'" using 2 a r by (simp add: Let_def)
    with o show ?thesis by (rule rtranclp_trans)
  next
    case False
    obtain s1 b where b: "EndWait (re_newID env (wt_ID w)) (wt_ID w) \<lparr>we_Outcome = WaitDropped, we_At = re_wall env (wt_ID w),
        we_RunID = [], we_Refusal = Some (dropped_refusal env w)\<rparr> (re_others env (wt_ID w) s0) = (s1, b)" by fastforce
    have "store_step\<^sup>*\<^sup>* s0 s1" using o drop_step [OF b] by simp
    moreover have "store_step\<^sup>*\<^sup>* s1 s'" using 2 a b r False by (cases b) (simp_all add: Let_def)
    ultimately show ?thesis by (rule rtranclp_trans)
  qed
qed simp

lemma reconcile_loop_ends:
  "others_step env \<Longrightarrow> \<forall>w \<in> set ws. wt_RunID w = [] \<and> wt_ID w \<in> wt_ID ` set (st_waiting s) \<Longrightarrow>
   reconcile_loop env ws n fs s = (fs', s', m, None) \<Longrightarrow> w \<in> set ws \<Longrightarrow> gone fs (wt_Instance w) \<Longrightarrow> ended_wait s' (wt_ID w)"
proof (induction ws arbitrary: n fs s w)
  case (Cons v ws n fs s0)
  let ?s = "re_others env (wt_ID v) s0"
  have o: "store_step\<^sup>*\<^sup>* s0 ?s" using Cons.prems(1) by (simp add: others_step_def)
  obtain fs1 a where a: "alive (wt_Instance v) fs = (fs1, a)" by fastforce
  have r: "wt_RunID v = []" using Cons.prems(2) by simp
  have gone1: "gone fs1 i = gone fs i" for i using alive_stable [of i "wt_Instance v" fs] a by (simp add: gone_def)
  have ids: "\<forall>w \<in> set ws. wt_RunID w = [] \<and> wt_ID w \<in> wt_ID ` set (st_waiting s1)" if "store_step\<^sup>*\<^sup>* s0 s1" for s1
    using store_steps_ids [OF that] Cons.prems(2) by auto
  show ?case
  proof (cases a)
    case True
    then have w: "w \<in> set ws" using Cons.prems(4,5) a by (auto simp: gone_def)
    have "reconcile_loop env ws n fs1 ?s = (fs', s', m, None)" using Cons.prems(3) a r True by (simp add: Let_def)
    then show ?thesis using Cons.IH [OF Cons.prems(1) ids [OF o] _ w] Cons.prems(5) gone1 by blast
  next
    case False
    obtain s1 b where b: "EndWait (re_newID env (wt_ID v)) (wt_ID v) \<lparr>we_Outcome = WaitDropped, we_At = re_wall env (wt_ID v),
        we_RunID = [], we_Refusal = Some (dropped_refusal env v)\<rparr> ?s = (s1, b)" by fastforce
    obtain ended where e: "b = Inr ended" using Cons.prems(3) a b r False by (cases b) (auto simp: Let_def)
    have s1: "store_step\<^sup>*\<^sup>* s0 s1" using o drop_step [OF b] by simp
    have rest: "reconcile_loop env ws (n + (if ended then 1 else 0)) fs1 s1 = (fs', s', m, None)"
      using Cons.prems(3) a b r e False by (simp add: Let_def)
    show ?thesis
    proof (cases "w \<in> set ws")
      case True
      then show ?thesis using Cons.IH [OF Cons.prems(1) ids [OF s1] rest] Cons.prems(5) gone1 by blast
    next
      case w: False
      then have "w = v" using Cons.prems(4) by simp
      moreover have "wt_ID v \<in> wt_ID ` set (st_waiting ?s)" using store_steps_ids [OF o] Cons.prems(2) by auto
      ultimately have "ended_wait s1 (wt_ID w)" using EndWait_ends b e by blast
      moreover have "store_step\<^sup>*\<^sup>* s1 s'" using reconcile_loop_steps [OF Cons.prems(1) _ rest] ids [OF s1] by blast
      ultimately show ?thesis using ended_wait_kept by blast
    qed
  qed
qed simp

text \<open>Undisturbed, the loop leaves alone every row it has no reason to end.\<close>

lemma EndWait_keeps_row:
  "EndWait newID i e s = (s', r) \<Longrightarrow> w \<in> set (st_waiting s) \<Longrightarrow> wt_ID w \<noteq> i \<Longrightarrow> w \<in> set (st_waiting s')"
  using EndWait_waiting [of newID i e s s' r] update_where_kept by fastforce

lemma reconcile_loop_spares:
  "quiet env \<Longrightarrow> \<forall>v \<in> set ws. wt_RunID v = [] \<and> (wt_ID v = wt_ID w \<longrightarrow> wt_Instance v = wt_Instance w) \<Longrightarrow>
   reconcile_loop env ws n fs s = (fs', s', m, e) \<Longrightarrow> w \<in> set (st_waiting s) \<Longrightarrow> \<not> gone fs (wt_Instance w) \<Longrightarrow>
   w \<in> set (st_waiting s')"
proof (induction ws arbitrary: n fs s)
  case (Cons v ws n fs s)
  obtain fs1 a where a: "alive (wt_Instance v) fs = (fs1, a)" by fastforce
  have r: "wt_RunID v = []" "re_others env (wt_ID v) s = s" using Cons.prems by (simp_all add: quiet_def)
  have gone1: "\<not> gone fs1 (wt_Instance w)"
    using alive_stable [of "wt_Instance w" "wt_Instance v" fs] a Cons.prems(5) by (simp add: gone_def)
  have sub: "\<forall>v \<in> set ws. wt_RunID v = [] \<and> (wt_ID v = wt_ID w \<longrightarrow> wt_Instance v = wt_Instance w)"
    using Cons.prems(2) by simp
  show ?case
  proof (cases a)
    case True
    then have rest: "reconcile_loop env ws n fs1 s = (fs', s', m, e)" using Cons.prems(3) a r by (simp add: Let_def)
    show ?thesis by (rule Cons.IH [OF Cons.prems(1) sub rest Cons.prems(4) gone1])
  next
    case False
    then have "wt_Instance v \<noteq> wt_Instance w" using Cons.prems(5) a by (auto simp: gone_def)
    then have ne: "wt_ID w \<noteq> wt_ID v" using Cons.prems(2) by (metis list.set_intros(1))
    obtain s1 b where b: "EndWait (re_newID env (wt_ID v)) (wt_ID v) \<lparr>we_Outcome = WaitDropped, we_At = re_wall env (wt_ID v),
        we_RunID = [], we_Refusal = Some (dropped_refusal env v)\<rparr> s = (s1, b)" by fastforce
    have w1: "w \<in> set (st_waiting s1)" using EndWait_keeps_row [OF b Cons.prems(4) ne] .
    show ?thesis
    proof (cases b)
      case (Inl x)
      then have "s' = s1" using Cons.prems(3) a b r False by (simp add: Let_def)
      then show ?thesis using w1 by simp
    next
      case (Inr ended)
      then have rest: "reconcile_loop env ws (n + (if ended then 1 else 0)) fs1 s1 = (fs', s', m, e)"
        using Cons.prems(3) a b r False by (simp add: Let_def)
      show ?thesis by (rule Cons.IH [OF Cons.prems(1) sub rest w1 gone1])
    qed
  qed
qed simp

text \<open>What a reconciliation reads of a row that waits: the row itself.\<close>

lemma StillWaiting_rows:
  assumes "waiting_inv s" "live_unnamed s"
  shows "set (StillWaiting s) = {w \<in> set (st_waiting s). wt_Outcome w = WaitWaiting}"
proof -
  have "scan_waiting s w = w" if w: "w \<in> set (st_waiting s)" "wt_Outcome w = WaitWaiting" for w
  proof -
    have "accounted s w" using assms(1) w by (simp add: waiting_inv_def)
    then have "find (\<lambda>r. run_WaitingTriggerID r = wt_ID w) (st_runs s) = None"
      using w by (auto simp: accounted_def runs_of_def rows_where_0 find_None_iff)
    moreover have "wt_RunID w = []" using assms(2) w by (simp add: live_unnamed_def)
    ultimately show ?thesis by (simp add: scan_waiting_def)
  qed
  then have "scan_waiting s ` {w \<in> set (st_waiting s). wt_Outcome w = WaitWaiting} =
      (\<lambda>w. w) ` {w \<in> set (st_waiting s). wt_Outcome w = WaitWaiting}"
    by (intro image_cong refl) (elim CollectE conjE, assumption)
  then show ?thesis by (simp add: StillWaiting_def)
qed

lemma Reconcile_steps:
  assumes "Reconcile env fs s = (fs', s', n, e)" "waiting_inv s" "live_unnamed s" "others_step env"
  shows "store_step\<^sup>*\<^sup>* s s'"
proof -
  have "\<forall>w \<in> set (StillWaiting s). wt_RunID w = []"
    using assms(3) by (auto simp: StillWaiting_rows [OF assms(2,3)] live_unnamed_def)
  then show ?thesis using reconcile_loop_steps assms unfolding Reconcile_def by blast
qed

subsection \<open>Properties\<close>

text \<open>
  A reconciliation that completes has ended every waiting trigger whose process is gone, each with
  the refusal that says so, and, when nobody else touches the record meanwhile, no other: a trigger
  whose process still holds its lock, or whose lock file cannot be examined, keeps waiting.  Whatever
  it does, and even if it stops half way, is a sequence of the store's own steps, so that every wait
  still ends once.
\<close>

theorem Reconcile_drops_the_gone:
  assumes "Reconcile env fs s = (fs', s', n, e)" "waiting_inv s" "live_unnamed s" "others_step env"
    and "w \<in> set (st_waiting s)" "wt_Outcome w = WaitWaiting"
  shows "store_step\<^sup>*\<^sup>* s s' \<and> waiting_inv s' \<and>
     (e = None \<and> gone fs (wt_Instance w) \<longrightarrow> (\<exists>v \<in> set (st_waiting s'). wt_ID v = wt_ID w \<and> wt_Outcome v \<noteq> WaitWaiting)) \<and>
     (quiet env \<and> \<not> gone fs (wt_Instance w) \<longrightarrow> w \<in> set (st_waiting s'))"
proof -
  have rows: "set (StillWaiting s) = {w \<in> set (st_waiting s). wt_Outcome w = WaitWaiting}"
    by (rule StillWaiting_rows [OF assms(2,3)])
  have unnamed: "\<forall>v \<in> set (StillWaiting s). wt_RunID v = []" using assms(3) unfolding rows by (auto simp: live_unnamed_def)
  have loop: "reconcile_loop env (StillWaiting s) 0 fs s = (fs', s', n, e)" using assms(1) by (simp add: Reconcile_def)
  have steps: "store_step\<^sup>*\<^sup>* s s'" by (rule Reconcile_steps [OF assms(1-4)])
  have "\<exists>v \<in> set (st_waiting s'). wt_ID v = wt_ID w \<and> wt_Outcome v \<noteq> WaitWaiting"
    if "e = None" "gone fs (wt_Instance w)"
    using reconcile_loop_ends [OF assms(4) _ loop [unfolded that(1)] _ that(2)] unnamed assms(5,6)
    unfolding rows ended_wait_def by auto
  moreover have "w \<in> set (st_waiting s')" if q: "quiet env" "\<not> gone fs (wt_Instance w)"
  proof (rule reconcile_loop_spares [OF q(1) _ loop assms(5) q(2)])
    have "wt_Instance v = wt_Instance w" if "v \<in> set (st_waiting s)" "wt_ID v = wt_ID w" for v
      using assms(2,5) that by (auto simp: waiting_inv_def distinct_map inj_on_def)
    then show "\<forall>v \<in> set (StillWaiting s). wt_RunID v = [] \<and> (wt_ID v = wt_ID w \<longrightarrow> wt_Instance v = wt_Instance w)"
      using unnamed by (simp add: rows)
  qed
  ultimately show ?thesis using steps store_steps_keep [OF steps assms(2)] by blast
qed

definition demo_reconcile :: reconcile_env where
  "demo_reconcile = \<lparr>re_wall = (\<lambda>_. 30), re_newID = (\<lambda>_. Some ''f1''), re_others = (\<lambda>_ s. s), re_format = (\<lambda>_. [])\<rparr>"

lemma demo_waiting_inv: "waiting_inv demo_waiting" "live_unnamed demo_waiting"
proof -
  have "store_step (empty_store None) demo_waiting"
    unfolding demo_waiting_def by (rule store_step.accept [OF prod.collapse [symmetric]]) simp
  then show "waiting_inv demo_waiting" using store_step_keeps empty_store_inv by blast
  show "live_unnamed demo_waiting" by (simp add: live_unnamed_def store_eval)
qed

theorem Reconcile_drops_the_gone_witness:
  "Reconcile demo_reconcile [] demo_waiting = ([], fst (snd (Reconcile demo_reconcile [] demo_waiting)), 1, None) \<and>
   (\<exists>v \<in> set (st_waiting (fst (snd (Reconcile demo_reconcile [] demo_waiting)))). wt_ID v = ''w1'' \<and> wt_Outcome v \<noteq> WaitWaiting)"
proof -
  have r: "Reconcile demo_reconcile [] demo_waiting = ([], fst (snd (Reconcile demo_reconcile [] demo_waiting)), 1, None)"
    by (simp add: Reconcile_def demo_reconcile_def store_eval StillWaiting_def scan_waiting_def alive_def instancePattern_def
        EndWait_def insertRefusal_def dropped_refusal_def is_alnum_def is_lower_def is_digit_def is_upper_def)
  have w: "st_waiting demo_waiting ! 0 \<in> set (st_waiting demo_waiting)" "wt_Outcome (st_waiting demo_waiting ! 0) = WaitWaiting"
    "wt_ID (st_waiting demo_waiting ! 0) = ''w1''" by (simp_all add: store_eval)
  have "others_step demo_reconcile" by (simp add: others_step_def demo_reconcile_def)
  from Reconcile_drops_the_gone [OF r demo_waiting_inv this w(1,2)] r w(3) show ?thesis
    by (simp add: gone_def alive_def)
qed

end
