(* ===== verification/Guard.thy ===== *)
theory Guard
  imports Hold Instance Playbook Filepath
begin

text \<open>
  The admission of a trigger: \<open>guard/guard.go\<close>, \<open>guard/wait.go\<close> and \<open>guard/stamp.go\<close>.  The record is
  the store of theory \<open>Store\<close>; the coordinator, the clock, the file system and the load gate are what
  an admission meets, given to it as its environment, one entry for the decision and one for every
  round of a wait.  Other processes may change the record at any round.
\<close>

subsection \<open>Requests\<close>

record wait_slot =
  slot_Instance :: string
  slot_mints :: bool

record guard =
  g_Config :: guard_config
  g_Host :: string
  g_Instance :: string
  g_Backend :: string
  g_Slot :: "wait_slot option"
  g_parse :: "string \<Rightarrow> duration option"
  g_rfc3339 :: "time \<Rightarrow> string"

record request =
  rq_RunID :: string
  rq_Kind :: trigger_kind
  rq_DueAt :: time
  rq_Values :: "string gomap"

record 'c admitted =
  ad_Claim :: 'c
  ad_RunID :: string
  ad_Book :: playbook
  ad_WaitingTriggerID :: string
  ad_Waited :: duration
  ad_sent :: instant

definition rateOf :: "guard \<Rightarrow> playbook \<Rightarrow> trigger_kind \<Rightarrow> rate_limit option" where
  "rateOf g book kind =
     (if kind \<noteq> TriggerSchedule \<and> kind \<noteq> TriggerManual then None
      else case pb_Guard book of
        None \<Rightarrow> None
      | Some d \<Rightarrow> (case guard_Rate d of
            None \<Rightarrow> None
          | Some r \<Rightarrow> (case PerDuration (g_parse g) r of
                Inl _ \<Rightarrow> None
              | Inr per \<Rightarrow> Some \<lparr>Runs = rate_Runs r, Per = per\<rparr>)))"

definition kindOf :: "trigger_kind \<Rightarrow> claim_kind" where
  "kindOf kind = (if kind = TriggerSchedule then KindSchedule else KindManual)"

definition dueOf :: "request \<Rightarrow> time" where
  "dueOf req = (if rq_Kind req \<noteq> TriggerSchedule then zero_time else rq_DueAt req)"

definition ask :: "guard \<Rightarrow> playbook \<Rightarrow> request \<Rightarrow> acquire_request" where
  "ask g book req = \<lparr>Name = pb_Name book,
     Holder = \<lparr>Host = g_Host g, Instance = g_Instance g, RunID = rq_RunID req\<rparr>,
     Expiry = ClaimExpiry (g_Config g), Rate = rateOf g book (rq_Kind req),
     Trigger = \<lparr>Kind = kindOf (rq_Kind req), DueAt = dueOf req\<rparr>\<rparr>"

subsection \<open>Refusals\<close>

text \<open>
  The errors an admission can end with.  \<open>StillHeld\<close> is the wait that has not ended, \<open>WaitEnded\<close> a
  wait ended by its expiry or its file, \<open>OtherError\<close> any error the contract does not name.
\<close>

datatype guard_error = StillHeld | WaitEnded mechanism string | Coord coord_error | OtherError string

definition mechanismOf :: "guard_error \<Rightarrow> mechanism" where
  "mechanismOf e = (case e of
     Coord c \<Rightarrow> if is_held c then MechanismClaimHeld
       else (case c of TickRan _ _ \<Rightarrow> MechanismTickAlreadyRan | RateLimited _ \<Rightarrow> MechanismRateLimited
                     | _ \<Rightarrow> MechanismBackendUnavailable)
   | _ \<Rightarrow> MechanismBackendUnavailable)"

definition mechanism_text :: "mechanism \<Rightarrow> string" where
  "mechanism_text m = (case m of
     MechanismClaimHeld \<Rightarrow> ''claim_held'' | MechanismTickAlreadyRan \<Rightarrow> ''tick_already_ran''
   | MechanismWaitingSlotFull \<Rightarrow> ''waiting_slot_full'' | MechanismWaitExpired \<Rightarrow> ''wait_expired''
   | MechanismRateLimited \<Rightarrow> ''rate_limited'' | MechanismBackendUnavailable \<Rightarrow> ''backend_unavailable''
   | MechanismPlaybookChanged \<Rightarrow> ''playbook_changed'' | MechanismDropped \<Rightarrow> ''dropped'')"

definition error_text :: "guard \<Rightarrow> guard_error \<Rightarrow> string" where
  "error_text g e = (case e of
     StillHeld \<Rightarrow> ''the claim is still held''
   | WaitEnded m d \<Rightarrow> mechanism_text m @ '': '' @ d
   | Coord c \<Rightarrow> coord_error_text (g_rfc3339 g) c
   | OtherError d \<Rightarrow> d)"

definition detail :: "guard \<Rightarrow> guard_error \<Rightarrow> string" where
  "detail g e = (if g_Backend g = [] \<or> mechanismOf e \<noteq> MechanismBackendUnavailable then error_text g e
     else g_Backend g @ '': '' @ error_text g e)"

definition waits :: "trigger_kind \<Rightarrow> coord_error \<Rightarrow> bool" where
  "waits kind e \<longleftrightarrow> kind = TriggerManual \<and> is_held e"

text \<open>How an admission ended.  \<open>OnGoing\<close> is a wait whose rounds have not all been met yet.\<close>

datatype 'c admission =
    Admitted "'c admitted"
  | Refused mechanism string
  | AdmitFailed string
  | Stopping
  | OnGoing

definition recordRefusal :: "string option \<Rightarrow> refusal_row \<Rightarrow> store \<Rightarrow> store \<times> 'c admission" where
  "recordRefusal newID refusal s =
     (fst (RecordRefusal newID refusal s), Refused (rfl_Mechanism refusal) (rfl_Detail refusal))"

definition refuse :: "guard \<Rightarrow> string option \<Rightarrow> time \<Rightarrow> string \<Rightarrow> request \<Rightarrow> guard_error \<Rightarrow> store \<Rightarrow> store \<times> 'c admission" where
  "refuse g newID wall name req e s =
     recordRefusal newID \<lparr>rfl_ID = [], rfl_PlaybookName = name, rfl_TriggerKind = rq_Kind req, rfl_DueAt = dueOf req,
       rfl_WaitingTriggerID = [], rfl_Mechanism = mechanismOf e, rfl_Detail = detail g e, RefusedAt = wall,
       rfl_DeliveryID = []\<rparr> s"

subsection \<open>The stamp of a directory\<close>

record file_stamp =
  fs_modified :: int
  fs_size :: int
  fs_inode :: nat

type_synonym directory_stamp = "file_stamp gomap"

record stat_entry =
  se_name :: string
  se_isDir :: bool
  se_info :: "(os_error, file_stamp) result"

fun stamp_loop :: "stat_entry list \<Rightarrow> directory_stamp \<Rightarrow> (os_error, directory_stamp) result" where
  "stamp_loop [] stamp = Inr stamp"
| "stamp_loop (e # es) stamp =
     (let ext = path_Ext (se_name e) in
      if se_isDir e \<or> (ext \<noteq> ''.yaml'' \<and> ext \<noteq> ''.yml'') then stamp_loop es stamp
      else case se_info e of
        Inl ErrNotExist \<Rightarrow> stamp_loop es stamp
      | Inl err \<Rightarrow> Inl err
      | Inr file \<Rightarrow> stamp_loop es (map_set (se_name e) file stamp))"

definition stampOf :: "(os_error, stat_entry list) result \<Rightarrow> (os_error, directory_stamp) result" where
  "stampOf entries = (case entries of Inl e \<Rightarrow> Inl e | Inr es \<Rightarrow> stamp_loop es [])"

definition stamp_equal :: "directory_stamp \<Rightarrow> directory_stamp \<Rightarrow> bool" where
  "stamp_equal s other \<longleftrightarrow> length s = length other \<and> list_all (\<lambda>(k, v). map_of other k = Some v) s"

definition os_error_text :: "os_error \<Rightarrow> string" where
  "os_error_text e = (case e of ErrNotExist \<Rightarrow> ''file does not exist'' | OsError d \<Rightarrow> d)"

definition oneLine :: "string \<Rightarrow> string" where
  "oneLine message =
     str_join (filter (\<lambda>l. l \<noteq> []) (map trim_space (str_split message [CHR 0x0A]))) ''; ''"

subsection \<open>Waiting\<close>

record waiting_trigger =
  wt_book :: playbook
  wt_req :: request
  wt_expiry :: duration
  wt_accepted :: instant
  wt_row :: waiting_row
  wt_edited :: "playbook option"
  wt_stamp :: directory_stamp

text \<open>
  What one round of a wait meets, in the order the code reads it: the clock, the end of the watch and
  whether its own bound or the process's end caused it, the clock, an identifier, the clock, the
  directory, the load gate, the coordinator, the clock, the directory again, and, when the wait ends,
  whether the process is stopping, the wall clock and an identifier.
\<close>

record 'c wait_round =
  wr_now :: instant
  wr_released :: "coord_error option"
  wr_watched :: bool
  wr_live :: bool
  wr_then :: instant
  wr_runID :: "(string, string) result"
  wr_sent :: instant
  wr_entries :: "(os_error, stat_entry list) result"
  wr_reload :: "(string, playbook) result"
  wr_acquire :: "acquire_request \<Rightarrow> (coord_error, 'c) result"
  wr_after :: instant
  wr_entries2 :: "(os_error, stat_entry list) result"
  wr_stopping :: bool
  wr_wall :: time
  wr_newID :: "string option"
  wr_others :: "store \<Rightarrow> store"

text \<open>What a wait does outside the record: it asks for the claim, and it may give it back.\<close>

datatype 'c guard_event = Asked acquire_request instant | GaveBack 'c

text \<open>A name between double quotes: what the verb \<open>%q\<close> writes of one that needs no escape.\<close>

definition quote :: "string \<Rightarrow> string" where
  "quote name = [CHR 0x22] @ name @ [CHR 0x22]"

definition remaining :: "waiting_trigger \<Rightarrow> instant \<Rightarrow> duration" where
  "remaining w now = wt_expiry w - Instant_Sub now (wt_accepted w)"

definition reread :: "waiting_trigger \<Rightarrow> 'c wait_round \<Rightarrow> waiting_trigger \<times> (guard_error, playbook) result" where
  "reread w r =
     (let path = pb_Path (wt_book w);
          cannot = (\<lambda>why. (w, Inl (WaitEnded MechanismPlaybookChanged (path @ '' cannot be loaded now: '' @ oneLine why)))) in
      case stampOf (wr_entries r) of
        Inl e \<Rightarrow> cannot (os_error_text e)
      | Inr stamp \<Rightarrow>
          let read = (case wr_reload r of
                Inl e \<Rightarrow> cannot e
              | Inr edited \<Rightarrow>
                  if pb_Name edited \<noteq> pb_Name (wt_book w)
                  then (w, Inl (WaitEnded MechanismPlaybookChanged (path @ '' now declares '' @ quote (pb_Name edited) @ '', not '' @ quote (pb_Name (wt_book w)))))
                  else (w\<lparr>wt_edited := Some edited, wt_stamp := stamp\<rparr>, Inr edited))
          in case wt_edited w of
               Some edited \<Rightarrow> if stamp_equal stamp (wt_stamp w) then (w, Inr edited) else read
             | None \<Rightarrow> read)"

definition changed :: "waiting_trigger \<Rightarrow> 'c wait_round \<Rightarrow> bool" where
  "changed w r \<longleftrightarrow> (case stampOf (wr_entries2 r) of Inl _ \<Rightarrow> True | Inr stamp \<Rightarrow> \<not> stamp_equal stamp (wt_stamp w))"

definition readThenClaim ::
  "guard \<Rightarrow> waiting_trigger \<Rightarrow> request \<Rightarrow> 'c wait_round \<Rightarrow>
   waiting_trigger \<times> 'c guard_event list \<times> (guard_error, 'c \<times> playbook) result" where
  "readThenClaim g w req r = (case reread w r of
     (w', Inl e) \<Rightarrow> (w', [], Inl e)
   | (w', Inr edited) \<Rightarrow> (w', [Asked (ask g edited req) (wr_sent r)],
       case wr_acquire r (ask g edited req) of Inl e \<Rightarrow> Inl (Coord e) | Inr claim \<Rightarrow> Inr (claim, edited)))"

definition guard_try ::
  "guard \<Rightarrow> wait_slot \<Rightarrow> waiting_trigger \<Rightarrow> 'c wait_round \<Rightarrow>
   waiting_trigger \<times> 'c guard_event list \<times> (guard_error, 'c admitted) result" where
  "guard_try g slot w r =
     (if remaining w (wr_now r) \<le> 0
      then (w, [], Inl (WaitEnded MechanismWaitExpired
        (''waited the '' @ HumanDuration (wt_expiry w) @ '' '' @ pb_Name (wt_book w) @ '' allows, and its claim was still held'')))
      else if remaining w (wr_then r) \<le> 0 \<or> (wr_released r \<noteq> None \<and> wr_watched r \<and> wr_live r) then (w, [], Inl StillHeld)
      else case wr_released r of
        Some e \<Rightarrow> (w, [], Inl (Coord e))
      | None \<Rightarrow> (case (if slot_mints slot then wr_runID r else Inr (rq_RunID (wt_req w))) of
            Inl e \<Rightarrow> (w, [], Inl (OtherError e))
          | Inr runID \<Rightarrow>
              let req = (wt_req w)\<lparr>rq_RunID := runID\<rparr> in
              (case readThenClaim g w req r of
                 (w', ev, Inl (Coord e)) \<Rightarrow> (w', ev, Inl (if is_held e then StillHeld else Coord e))
               | (w', ev, Inl e) \<Rightarrow> (w', ev, Inl e)
               | (w', ev, Inr (claim, edited)) \<Rightarrow>
                   if changed w' r then (w', ev @ [GaveBack claim], Inl StillHeld)
                   else (w', ev, Inr \<lparr>ad_Claim = claim, ad_RunID = runID, ad_Book = edited,
                     ad_WaitingTriggerID = wt_ID (wt_row w), ad_Waited = Instant_Sub (wr_after r) (wt_accepted w),
                     ad_sent = wr_sent r\<rparr>))))"

text \<open>A wait's outcome is the refusal's mechanism, written in the waiting row's own vocabulary.\<close>

definition WaitOutcome :: "mechanism \<Rightarrow> wait_outcome" where
  "WaitOutcome m = (case m of
     MechanismWaitExpired \<Rightarrow> WaitExpired | MechanismRateLimited \<Rightarrow> WaitRateLimited
   | MechanismPlaybookChanged \<Rightarrow> WaitPlaybookChanged | MechanismBackendUnavailable \<Rightarrow> WaitBackendUnavailable
   | MechanismDropped \<Rightarrow> WaitDropped | _ \<Rightarrow> WaitOther m)"

definition endWait :: "guard \<Rightarrow> string option \<Rightarrow> time \<Rightarrow> waiting_trigger \<Rightarrow> guard_error \<Rightarrow> store \<Rightarrow> store \<times> 'c admission" where
  "endWait g newID wall w e s =
     (let refusal = \<lparr>rfl_ID = [], rfl_PlaybookName = pb_Name (wt_book w), rfl_TriggerKind = rq_Kind (wt_req w),
            rfl_DueAt = zero_time, rfl_WaitingTriggerID = wt_ID (wt_row w),
            rfl_Mechanism = (case e of WaitEnded m _ \<Rightarrow> m | _ \<Rightarrow> mechanismOf e),
            rfl_Detail = (case e of WaitEnded _ d \<Rightarrow> d | _ \<Rightarrow> detail g e), RefusedAt = wall, rfl_DeliveryID = []\<rparr>
      in (fst (EndWait newID (wt_ID (wt_row w)) \<lparr>we_Outcome = WaitOutcome (rfl_Mechanism refusal), we_At = wall,
                 we_RunID = [], we_Refusal = Some refusal\<rparr> s),
          Refused (rfl_Mechanism refusal) (rfl_Detail refusal)))"

fun await ::
  "guard \<Rightarrow> wait_slot \<Rightarrow> waiting_trigger \<Rightarrow> 'c wait_round list \<Rightarrow> store \<Rightarrow> store \<times> 'c guard_event list \<times> 'c admission" where
  "await g slot w [] s = (s, [], OnGoing)"
| "await g slot w (r # rs) s0 =
     (let s = wr_others r s0 in
      case guard_try g slot w r of
        (w', ev, Inr adm) \<Rightarrow> (s, ev, Admitted adm)
      | (w', ev, Inl StillHeld) \<Rightarrow> (case await g slot w' rs s of (s', ev', res) \<Rightarrow> (s', ev @ ev', res))
      | (w', ev, Inl e) \<Rightarrow>
          if wr_stopping r then (s, ev, Stopping)
          else (case endWait g (wr_newID r) (wr_wall r) w' e s of (s', res) \<Rightarrow> (s', ev, res)))"

subsection \<open>Admission\<close>

text \<open>What the decision meets, and what accepting a trigger to wait does.\<close>

record 'c admit_env =
  ae_sent :: instant
  ae_acquire :: "acquire_request \<Rightarrow> (coord_error, 'c) result"
  ae_wall :: time
  ae_newID :: "string option"
  ae_reconcile :: reconcile_env
  ae_accepted :: instant
  ae_acceptedAt :: time
  ae_triggerID :: "string option"
  ae_put :: "string \<Rightarrow> string gomap \<Rightarrow> (string, string) result"
  ae_rounds :: "'c wait_round list"

record world =
  w_store :: store
  w_instances :: instances

definition slot_full_detail :: "guard \<Rightarrow> waiting_row option \<Rightarrow> string" where
  "slot_full_detail g row = (case row of
     None \<Rightarrow> ''a trigger is already waiting''
   | Some w \<Rightarrow> if is_zero (AcceptedAt w) then ''a trigger is already waiting''
       else ''a trigger accepted at '' @ g_rfc3339 g (AcceptedAt w) @ '' is already waiting'')"

definition guard_accept ::
  "guard \<Rightarrow> wait_slot \<Rightarrow> 'c admit_env \<Rightarrow> playbook \<Rightarrow> request \<Rightarrow> duration \<Rightarrow> world \<Rightarrow>
   world \<times> ('c admission, waiting_trigger) result" where
  "guard_accept g slot env book req expiry x =
     (case Reconcile (ae_reconcile env) (w_instances x) (w_store x) of
        (fs, s, _, _) \<Rightarrow>
          let x1 = \<lparr>w_store = s, w_instances = fs\<rparr>;
              trigger = \<lparr>wt_ID = [], wt_PlaybookName = pb_Name book, wt_PlaybookPath = pb_Path book,
                wt_TriggerKind = rq_Kind req, wt_TriggerRef = [], AcceptedAt = ae_acceptedAt env,
                ExpiresAt = ae_acceptedAt env + expiry, wt_Instance = slot_Instance slot, wt_Outcome = WaitWaiting,
                OutcomeAt = zero_time, wt_RunID = [], wt_DeliveryID = []\<rparr>
          in (case AcceptWaiting (ae_triggerID env) (ae_put env) trigger (rq_Values req) s of
                (s', Inl (SlotFull row)) \<Rightarrow>
                  (case recordRefusal (ae_newID env) \<lparr>rfl_ID = [], rfl_PlaybookName = pb_Name book,
                          rfl_TriggerKind = rq_Kind req, rfl_DueAt = zero_time, rfl_WaitingTriggerID = [],
                          rfl_Mechanism = MechanismWaitingSlotFull, rfl_Detail = slot_full_detail g row,
                          RefusedAt = ae_wall env, rfl_DeliveryID = []\<rparr> s' of
                     (s2, res) \<Rightarrow> (x1\<lparr>w_store := s2\<rparr>, Inl res))
              | (s', Inl _) \<Rightarrow> (x1\<lparr>w_store := s'\<rparr>, Inl (AdmitFailed (''accepting a trigger of '' @ pb_Name book @ '' to wait'')))
              | (s', Inr row) \<Rightarrow> (x1\<lparr>w_store := s'\<rparr>, Inr \<lparr>wt_book = book, wt_req = req, wt_expiry = expiry,
                    wt_accepted = ae_accepted env, wt_row = row, wt_edited = None, wt_stamp = []\<rparr>)))"

definition guard_wait ::
  "guard \<Rightarrow> wait_slot \<Rightarrow> 'c admit_env \<Rightarrow> playbook \<Rightarrow> request \<Rightarrow> world \<Rightarrow> world \<times> 'c guard_event list \<times> 'c admission" where
  "guard_wait g slot env book req x =
     (case WaitFor (g_parse g) book of
        Inl _ \<Rightarrow> (x, [], AdmitFailed ''guard.wait is not a duration'')
      | Inr expiry \<Rightarrow> (case guard_accept g slot env book req expiry x of
            (x1, Inl res) \<Rightarrow> (x1, [], res)
          | (x1, Inr w) \<Rightarrow> (case await g slot w (ae_rounds env) (w_store x1) of
                (s, ev, res) \<Rightarrow> (x1\<lparr>w_store := s\<rparr>, ev, res))))"

definition Admit ::
  "guard \<Rightarrow> 'c admit_env \<Rightarrow> playbook \<Rightarrow> request \<Rightarrow> world \<Rightarrow> world \<times> 'c guard_event list \<times> 'c admission" where
  "Admit g env book req x =
     (let asked = Asked (ask g book req) (ae_sent env) in
      case ae_acquire env (ask g book req) of
        Inr claim \<Rightarrow> (x, [asked], Admitted \<lparr>ad_Claim = claim, ad_RunID = rq_RunID req, ad_Book = book,
          ad_WaitingTriggerID = [], ad_Waited = 0, ad_sent = ae_sent env\<rparr>)
      | Inl e \<Rightarrow>
          let refused = (case refuse g (ae_newID env) (ae_wall env) (pb_Name book) req (Coord e) (w_store x) of
                (s, res) \<Rightarrow> (x\<lparr>w_store := s\<rparr>, [asked], res)) in
          (case g_Slot g of
             None \<Rightarrow> refused
           | Some slot \<Rightarrow> if waits (rq_Kind req) e
               then (case guard_wait g slot env book req x of (x', ev, res) \<Rightarrow> (x', asked # ev, res))
               else refused))"

subsection \<open>What an admission does to the record\<close>







text \<open>A round either goes on, admits, or ends the wait.\<close>

lemma await_cases:
  assumes "await g slot w (r # rs) s = (s', ev, res)"
  obtains (admitted) w1 adm where "guard_try g slot w r = (w1, ev, Inr adm)" "s' = wr_others r s" "res = Admitted adm"
  | (held) w1 ev1 ev2 where "guard_try g slot w r = (w1, ev1, Inl StillHeld)"
      "await g slot w1 rs (wr_others r s) = (s', ev2, res)" "ev = ev1 @ ev2"
  | (stopping) w1 e where "guard_try g slot w r = (w1, ev, Inl e)" "s' = wr_others r s" "res = Stopping"
  | (ended) w1 e where "guard_try g slot w r = (w1, ev, Inl e)" "e \<noteq> StillHeld"
      "(s', res) = endWait g (wr_newID r) (wr_wall r) w1 e (wr_others r s)"
proof -
  obtain w1 ev1 o1 where t: "guard_try g slot w r = (w1, ev1, o1)" by (cases "guard_try g slot w r")
  show ?thesis
  proof (cases o1)
    case (Inr adm)
    then show ?thesis using assms t admitted by (simp add: Let_def)
  next
    case (Inl e)
    obtain s2 ev2 r2 where a: "await g slot w1 rs (wr_others r s) = (s2, ev2, r2)" by (cases "await g slot w1 rs (wr_others r s)")
    obtain s3 r3 where b: "endWait g (wr_newID r) (wr_wall r) w1 e (wr_others r s) = (s3, r3 :: 'a admission)" by fastforce
    consider "e = StillHeld" | "e \<noteq> StillHeld" "wr_stopping r" | "e \<noteq> StillHeld" "\<not> wr_stopping r" by blast
    then show ?thesis
    proof cases
      case 1
      then show ?thesis using assms t Inl a held by (simp add: Let_def)
    next
      case 2
      then have "s' = wr_others r s" "ev = ev1" "res = Stopping"
        using assms t Inl by (cases e; simp add: Let_def)+
      then show ?thesis using stopping t Inl by blast
    next
      case 3
      then have "s' = s3" "ev = ev1" "res = r3"
        using assms t Inl b by (cases e; simp add: Let_def)+
      then show ?thesis using ended t Inl b 3(1) by metis
    qed
  qed
qed






subsection \<open>What a wait asks for, and when\<close>

text \<open>The playbook a wait keeps is one the load gate answered, under the name and the stamp it was read at.\<close>

definition edited_ok :: "waiting_trigger \<Rightarrow> 'c wait_round list \<Rightarrow> bool" where
  "edited_ok w seen \<longleftrightarrow> (\<forall>b. wt_edited w = Some b \<longrightarrow> pb_Name b = pb_Name (wt_book w) \<and>
     (\<exists>r \<in> set seen. wr_reload r = Inr b \<and> stampOf (wr_entries r) = Inr (wt_stamp w)))"

definition same_wait :: "waiting_trigger \<Rightarrow> waiting_trigger \<Rightarrow> bool" where
  "same_wait w w' \<longleftrightarrow> wt_book w' = wt_book w \<and> wt_req w' = wt_req w \<and> wt_expiry w' = wt_expiry w \<and>
     wt_accepted w' = wt_accepted w \<and> wt_row w' = wt_row w"

lemma edited_ok_more: "edited_ok w seen \<Longrightarrow> edited_ok w (seen @ rs)"
  unfolding edited_ok_def set_append by blast

lemma edited_okD:
  "edited_ok w seen \<Longrightarrow> wt_edited w = Some b \<Longrightarrow> pb_Name b = pb_Name (wt_book w) \<and>
     (\<exists>r \<in> set seen. wr_reload r = Inr b \<and> stampOf (wr_entries r) = Inr (wt_stamp w))"
  unfolding edited_ok_def by blast

lemma reread_spec:
  assumes "reread w r = (w', res)" "edited_ok w seen"
  shows "same_wait w w' \<and> edited_ok w' (seen @ [r]) \<and> (\<forall>b. res = Inr b \<longrightarrow> wt_edited w' = Some b)"
proof -
  have more: "edited_ok w (seen @ [r])" using edited_ok_more [OF assms(2)] .
  consider "w' = w" "isl res" | b where "w' = w" "res = Inr b" "wt_edited w = Some b"
    | b st where "w' = w\<lparr>wt_edited := Some b, wt_stamp := st\<rparr>" "res = Inr b" "pb_Name b = pb_Name (wt_book w)"
        "wr_reload r = Inr b" "stampOf (wr_entries r) = Inr st"
    using assms(1) unfolding reread_def Let_def by (auto split: sum.splits option.splits if_splits)
  then show ?thesis
  proof cases
    case 1
    then show ?thesis using more by (auto simp: same_wait_def)
  next
    case 2
    then show ?thesis using more by (simp add: same_wait_def)
  next
    case 3
    then show ?thesis by (simp add: same_wait_def edited_ok_def)
  qed
qed

text \<open>A round that did not come to asking, one whose read ended the wait, and one that asked.\<close>

lemma guard_try_cases:
  assumes "guard_try g slot w r = (w', ev, res)"
  obtains (early) "w' = w" "ev = []" "isl res"
  | (unread) e where "reread w r = (w', Inl e)" "ev = []" "isl res"
  | (asked) b runID where "reread w r = (w', Inr b)" "remaining w (wr_then r) > 0"
      "set ev \<subseteq> insert (Asked (ask g b ((wt_req w)\<lparr>rq_RunID := runID\<rparr>)) (wr_sent r)) (range GaveBack)"
      "\<And>adm. res = Inr adm \<Longrightarrow> \<not> changed w' r \<and> ad_Book adm = b \<and> ad_RunID adm = runID \<and> ad_sent adm = wr_sent r \<and>
         ad_WaitingTriggerID adm = wt_ID (wt_row w) \<and>
         wr_acquire r (ask g b ((wt_req w)\<lparr>rq_RunID := runID\<rparr>)) = Inr (ad_Claim adm)"
proof (cases "remaining w (wr_now r) \<le> 0 \<or> remaining w (wr_then r) \<le> 0 \<or> wr_released r \<noteq> None")
  case True
  then have "w' = w \<and> ev = [] \<and> isl res"
    using assms by (auto simp: guard_try_def split: if_splits option.splits)
  then show ?thesis using early by blast
next
  case go: False
  define mint where "mint = (if slot_mints slot then wr_runID r else Inr (rq_RunID (wt_req w)))"
  show ?thesis
  proof (cases mint)
    case (Inl e)
    then have "w' = w \<and> ev = [] \<and> isl res" using assms go by (auto simp: guard_try_def mint_def [symmetric])
    then show ?thesis using early by blast
  next
    case runID: (Inr runID)
    define req where "req = (wt_req w)\<lparr>rq_RunID := runID\<rparr>"
    obtain w1 rr where re: "reread w r = (w1, rr)" by fastforce
    show ?thesis
    proof (cases rr)
      case (Inl e)
      then have "w' = w1 \<and> ev = [] \<and> isl res"
        using assms go runID re
        by (cases e) (auto simp: guard_try_def readThenClaim_def mint_def [symmetric] req_def [symmetric] Let_def)
      then show ?thesis using unread re Inl by blast
    next
      case (Inr b)
      have r: "(w', ev, res) = (case wr_acquire r (ask g b req) of
          Inl e \<Rightarrow> (w1, [Asked (ask g b req) (wr_sent r)], Inl (if is_held e then StillHeld else Coord e))
        | Inr c \<Rightarrow> if changed w1 r then (w1, [Asked (ask g b req) (wr_sent r), GaveBack c], Inl StillHeld)
            else (w1, [Asked (ask g b req) (wr_sent r)], Inr \<lparr>ad_Claim = c, ad_RunID = runID, ad_Book = b,
                     ad_WaitingTriggerID = wt_ID (wt_row w), ad_Waited = Instant_Sub (wr_after r) (wt_accepted w),
                     ad_sent = wr_sent r\<rparr>))"
        using assms go runID re Inr
        by (cases "wr_acquire r (ask g b req)")
          (auto simp: guard_try_def readThenClaim_def mint_def [symmetric] req_def [symmetric] Let_def)
      have w': "w' = w1" using r by (simp split: sum.splits if_splits)
      show ?thesis
      proof (rule asked [of b runID])
        show "reread w r = (w', Inr b)" using re Inr w' by simp
        show "remaining w (wr_then r) > 0" using go by simp
        show "set ev \<subseteq> insert (Asked (ask g b ((wt_req w)\<lparr>rq_RunID := runID\<rparr>)) (wr_sent r)) (range GaveBack)"
          using r unfolding req_def by (auto split: sum.splits if_splits)
        show "\<not> changed w' r \<and> ad_Book adm = b \<and> ad_RunID adm = runID \<and> ad_sent adm = wr_sent r \<and>
           ad_WaitingTriggerID adm = wt_ID (wt_row w) \<and>
           wr_acquire r (ask g b ((wt_req w)\<lparr>rq_RunID := runID\<rparr>)) = Inr (ad_Claim adm)" if "res = Inr adm" for adm
          using r that unfolding req_def by (auto split: sum.splits if_splits)
      qed
    qed
  qed
qed

lemma guard_try_keeps:
  fixes r :: "'c wait_round" and seen :: "'c wait_round list"
  assumes "guard_try g slot w r = (w', ev, res)" "edited_ok w seen"
  shows "same_wait w w' \<and> edited_ok w' (seen @ [r])"
  using assms(1)
proof (cases rule: guard_try_cases)
  case early
  then show ?thesis using edited_ok_more [OF assms(2)] by (simp add: same_wait_def)
qed (use reread_spec [OF _ assms(2)] in blast)+

lemma guard_try_asks:
  fixes r :: "'c wait_round" and seen :: "'c wait_round list"
  assumes "guard_try g slot w r = (w', ev, res)" "edited_ok w seen" "Asked q t \<in> set ev"
  shows "t = wr_sent r \<and> Name q = pb_Name (wt_book w) \<and> remaining w (wr_then r) > 0"
  using assms(1)
proof (cases rule: guard_try_cases)
  case (asked b runID)
  have "pb_Name b = pb_Name (wt_book w)"
    using reread_spec [OF asked(1) assms(2)] edited_okD by (metis same_wait_def)
  then show ?thesis using asked(2,3) assms(3) by (auto simp: ask_def)
qed (use assms(3) in simp_all)

lemma guard_try_admits:
  fixes r :: "'c wait_round" and seen :: "'c wait_round list"
  assumes "guard_try g slot w r = (w', ev, Inr adm)" "edited_ok w seen"
  shows "\<exists>r' \<in> set (seen @ [r]). \<exists>st st2. wr_reload r' = Inr (ad_Book adm) \<and> stampOf (wr_entries r') = Inr st \<and>
      stampOf (wr_entries2 r) = Inr st2 \<and> stamp_equal st2 st \<and> pb_Name (ad_Book adm) = pb_Name (wt_book w) \<and>
      wr_acquire r (ask g (ad_Book adm) ((wt_req w)\<lparr>rq_RunID := ad_RunID adm\<rparr>)) = Inr (ad_Claim adm) \<and>
      ad_sent adm = wr_sent r \<and> ad_WaitingTriggerID adm = wt_ID (wt_row w) \<and> remaining w (wr_then r) > 0"
  using assms(1)
proof (cases rule: guard_try_cases)
  case (asked b runID)
  note a = asked(4) [OF refl]
  have spec: "same_wait w w'" "edited_ok w' (seen @ [r])" "wt_edited w' = Some b"
    using reread_spec [OF asked(1) assms(2)] by auto
  then obtain r' where r': "r' \<in> set (seen @ [r])" "wr_reload r' = Inr b" "stampOf (wr_entries r') = Inr (wt_stamp w')"
      "pb_Name b = pb_Name (wt_book w)"
    using edited_okD [OF spec(2,3)] unfolding same_wait_def by metis
  obtain st2 where "stampOf (wr_entries2 r) = Inr st2" "stamp_equal st2 (wt_stamp w')"
    using a by (auto simp: changed_def split: sum.splits)
  then show ?thesis using r' a asked(2) by blast
qed simp_all

lemma await_asks:
  fixes rs :: "'c wait_round list"
  assumes "await g slot w rs s = (s', ev, res)" "edited_ok w (seen :: 'c wait_round list)" "Asked q t \<in> set ev"
  shows "Name q = pb_Name (wt_book w) \<and> (\<exists>r \<in> set rs. t = wr_sent r \<and> remaining w (wr_then r) > 0)"
  using assms
proof (induction rs arbitrary: w s ev seen)
  case (Cons r rs)
  from Cons.prems(1) show ?case
  proof (cases rule: await_cases)
    case (held w1 ev1 ev2)
    have keeps: "same_wait w w1" "edited_ok w1 (seen @ [r])" using guard_try_keeps [OF held(1) Cons.prems(2)] by auto
    show ?thesis
    proof (cases "Asked q t \<in> set ev1")
      case True
      then show ?thesis using guard_try_asks [OF held(1) Cons.prems(2)] by auto
    next
      case False
      then have "Asked q t \<in> set ev2" using held(3) Cons.prems(3) by simp
      from Cons.IH [OF held(2) keeps(2) this] keeps(1) show ?thesis by (auto simp: same_wait_def remaining_def)
    qed
  qed (use guard_try_asks [OF _ Cons.prems(2) Cons.prems(3)] in auto)
qed simp

text \<open>What an admission out of a wait rests on, with the rounds met so far.\<close>

definition admitted_on :: "guard \<Rightarrow> waiting_trigger \<Rightarrow> 'c admitted \<Rightarrow> 'c wait_round \<Rightarrow> 'c wait_round \<Rightarrow> bool" where
  "admitted_on g w adm r' r \<longleftrightarrow>
     (\<exists>st st2. wr_reload r' = Inr (ad_Book adm) \<and> stampOf (wr_entries r') = Inr st \<and>
        stampOf (wr_entries2 r) = Inr st2 \<and> stamp_equal st2 st) \<and>
     pb_Name (ad_Book adm) = pb_Name (wt_book w) \<and>
     wr_acquire r (ask g (ad_Book adm) ((wt_req w)\<lparr>rq_RunID := ad_RunID adm\<rparr>)) = Inr (ad_Claim adm) \<and>
     ad_sent adm = wr_sent r \<and> ad_WaitingTriggerID adm = wt_ID (wt_row w) \<and> remaining w (wr_then r) > 0"

lemma await_admits:
  fixes rs :: "'c wait_round list"
  assumes "await g slot w rs s = (s', ev, Admitted adm)" "edited_ok w (seen :: 'c wait_round list)"
  shows "\<exists>r \<in> set rs. \<exists>r' \<in> set (seen @ rs). admitted_on g w adm r' r"
  using assms
proof (induction rs arbitrary: w s ev seen)
  case (Cons r rs)
  from Cons.prems(1) show ?case
  proof (cases rule: await_cases)
    case (admitted w1 adm1)
    then show ?thesis using guard_try_admits [OF _ Cons.prems(2), of g slot r w1 ev adm] unfolding admitted_on_def by fastforce
  next
    case (held w1 ev1 ev2)
    have keeps: "same_wait w w1" "edited_ok w1 (seen @ [r])" using guard_try_keeps [OF held(1) Cons.prems(2)] by auto
    have "admitted_on g w1 adm = admitted_on g w adm"
      using keeps(1) by (simp add: fun_eq_iff admitted_on_def same_wait_def remaining_def)
    then show ?thesis using Cons.IH [OF held(2) keeps(2)] by auto
  next
    case (ended w1 e)
    then show ?thesis by (simp add: endWait_def Let_def)
  qed simp
qed simp

lemma guard_accept_new:
  "guard_accept g slot env book req expiry x = (x', Inr w) \<Longrightarrow>
     wt_book w = book \<and> wt_req w = req \<and> wt_expiry w = expiry \<and> wt_accepted w = ae_accepted env \<and> wt_edited w = None"
  by (auto simp: guard_accept_def Let_def recordRefusal_def split: prod.splits sum.splits store_error.splits)

lemma guard_accept_no_admission: "guard_accept g slot env book req expiry x = (x', Inl res) \<Longrightarrow> res \<noteq> Admitted adm"
  by (auto simp: guard_accept_def Let_def recordRefusal_def split: prod.splits sum.splits store_error.splits)

lemma guard_wait_cases:
  assumes "guard_wait g slot env book req x = (x', ev, res)"
  obtains (unwaited) "ev = []" "\<And>adm. res \<noteq> Admitted adm"
  | (waited) expiry x1 w s where "WaitFor (g_parse g) book = Inr expiry" "guard_accept g slot env book req expiry x = (x1, Inr w)"
      "await g slot w (ae_rounds env) (w_store x1) = (s, ev, res)"
proof (cases "WaitFor (g_parse g) book")
  case (Inl e)
  then have "ev = []" "res = AdmitFailed ''guard.wait is not a duration''" using assms by (auto simp: guard_wait_def)
  then show ?thesis using unwaited by blast
next
  case (Inr expiry)
  obtain x1 a where ac: "guard_accept g slot env book req expiry x = (x1, a)" by fastforce
  show ?thesis
  proof (cases a)
    case (Inl r)
    then show ?thesis using assms Inr ac unwaited guard_accept_no_admission by (fastforce simp: guard_wait_def)
  next
    case w: (Inr w)
    obtain s ev' r where aw: "await g slot w (ae_rounds env) (w_store x1) = (s, ev', r)" by (cases "await g slot w (ae_rounds env) (w_store x1)")
    show ?thesis by (rule waited [OF Inr]) (use assms Inr ac w aw in \<open>auto simp: guard_wait_def\<close>)
  qed
qed

lemma Admit_cases:
  assumes "Admit g env book req x = (x', ev, res)"
  obtains (at_once) claim where "ev = [Asked (ask g book req) (ae_sent env)]" "ae_acquire env (ask g book req) = Inr claim"
      "x' = x" "res = Admitted \<lparr>ad_Claim = claim, ad_RunID = rq_RunID req, ad_Book = book,
          ad_WaitingTriggerID = [], ad_Waited = 0, ad_sent = ae_sent env\<rparr>"
  | (refused) e where "ev = [Asked (ask g book req) (ae_sent env)]" "ae_acquire env (ask g book req) = Inl e"
      "res = Refused (mechanismOf (Coord e)) (detail g (Coord e))"
  | (waiting) e slot ev' where "ev = Asked (ask g book req) (ae_sent env) # ev'" "ae_acquire env (ask g book req) = Inl e"
      "is_held e" "rq_Kind req = TriggerManual" "guard_wait g slot env book req x = (x', ev', res)"
proof (cases "ae_acquire env (ask g book req)")
  case (Inr claim)
  then show ?thesis using assms by (intro at_once) (auto simp: Admit_def Let_def)
next
  case (Inl e)
  show ?thesis
  proof (cases "\<exists>slot. g_Slot g = Some slot \<and> waits (rq_Kind req) e")
    case True
    then obtain slot where slot: "g_Slot g = Some slot" "waits (rq_Kind req) e" by blast
    obtain x1 ev1 r1 where w: "guard_wait g slot env book req x = (x1, ev1, r1)" by (cases "guard_wait g slot env book req x")
    show ?thesis by (rule waiting [OF _ Inl]) (use assms Inl slot w in \<open>auto simp: Admit_def Let_def waits_def\<close>)
  next
    case False
    then have "ev = [Asked (ask g book req) (ae_sent env)]" "res = Refused (mechanismOf (Coord e)) (detail g (Coord e))"
      using assms Inl by (auto simp: Admit_def Let_def refuse_def recordRefusal_def split: option.splits)
    then show ?thesis using refused Inl by blast
  qed
qed

subsection \<open>Properties\<close>


text \<open>
  C32. A trigger that waits asks for its claim only under the name it arrived with, and only in a round
  whose last look at the clock, after the watch returned, was within the time it may wait.  If it is
  admitted, the claim was granted to a request for the playbook it will run; that playbook is what the
  load gate answered; and the playbook directory, looked at again once the claim was granted, had not
  changed since it was read.  A trigger admitted at once runs the playbook it came with.
\<close>

theorem Admit_runs_what_was_read:
  assumes "Admit g env book req x = (x', ev, Admitted adm)"
  shows "(ad_Book adm = book \<and> ad_WaitingTriggerID adm = [] \<and> ae_acquire env (ask g book req) = Inr (ad_Claim adm)) \<or>
     (\<exists>expiry r r' st st2. WaitFor (g_parse g) book = Inr expiry \<and> r \<in> set (ae_rounds env) \<and> r' \<in> set (ae_rounds env) \<and>
        (\<forall>q t. Asked q t \<in> set (tl ev) \<longrightarrow> Name q = pb_Name book \<and>
           (\<exists>v \<in> set (ae_rounds env). t = wr_sent v \<and> wr_then v - ae_accepted env < expiry)) \<and>
        wr_then r - ae_accepted env < expiry \<and> ad_sent adm = wr_sent r \<and>
        pb_Name (ad_Book adm) = pb_Name book \<and> wr_reload r' = Inr (ad_Book adm) \<and>
        wr_acquire r (ask g (ad_Book adm) (req\<lparr>rq_RunID := ad_RunID adm\<rparr>)) = Inr (ad_Claim adm) \<and>
        stampOf (wr_entries r') = Inr st \<and> stampOf (wr_entries2 r) = Inr st2 \<and> stamp_equal st2 st)"
  using assms
proof (cases rule: Admit_cases)
  case (waiting e slot ev')
  from waiting(5) show ?thesis
  proof (cases rule: guard_wait_cases)
    case (waited expiry x1 w s)
    note new = guard_accept_new [OF waited(2)]
    have ok: "edited_ok w ([] :: 'a wait_round list)" using new by (simp add: edited_ok_def)
    have rem: "remaining w t > 0 \<longleftrightarrow> t - ae_accepted env < expiry" for t
      using new by (auto simp: remaining_def instant_defs)
    have asks: "\<forall>q t. Asked q t \<in> set (tl ev) \<longrightarrow> Name q = pb_Name book \<and>
        (\<exists>v \<in> set (ae_rounds env). t = wr_sent v \<and> wr_then v - ae_accepted env < expiry)"
      using await_asks [OF waited(3) ok] new waiting(1) unfolding rem by auto
    obtain r r' where r: "r \<in> set (ae_rounds env)" "r' \<in> set (ae_rounds env)" "admitted_on g w adm r' r"
      using await_admits [OF waited(3) ok] by auto
    then show ?thesis using asks waited(1) new unfolding admitted_on_def rem by blast
  qed blast
qed simp_all

text \<open>A wait that was admitted in its second round, on a playbook edited meanwhile.\<close>

definition demo_book :: playbook where
  "demo_book = \<lparr>pb_Name = ''triage'', Description = [], pb_Trigger = \<lparr>trig_Type = ''manual'', Schedule = [], trig_Source = [],
     Values = []\<rparr>, Gather = [], pb_Agent = \<lparr>Model = [], PromptFile = [], Restricted = None, Tools = [], MCP = [], Allow = [],
     OutputSchema = YNil, agent_Timeout = [], Extra = []\<rparr>, Sinks = [], pb_Guard = None, Retrieve = [], pb_Path = ''/p/triage.yaml''\<rparr>"

definition demo_guard :: guard where
  "demo_guard = \<lparr>g_Config = DefaultConfig, g_Host = ''a'', g_Instance = ''i1'', g_Backend = [],
     g_Slot = Some \<lparr>slot_Instance = ''i1'', slot_mints = False\<rparr>, g_parse = (\<lambda>_. None), g_rfc3339 = (\<lambda>_. [])\<rparr>"

definition demo_request :: request where
  "demo_request = \<lparr>rq_RunID = ''r1'', rq_Kind = TriggerManual, rq_DueAt = zero_time, rq_Values = []\<rparr>"

definition demo_round :: "instant \<Rightarrow> (coord_error, nat) result \<Rightarrow> nat wait_round" where
  "demo_round at answer = \<lparr>wr_now = at, wr_released = None, wr_watched = False, wr_live = True, wr_then = at, wr_runID = Inl [],
     wr_sent = at, wr_entries = Inr [], wr_reload = Inr (demo_book\<lparr>Description := ''edited''\<rparr>), wr_acquire = (\<lambda>_. answer), wr_after = at,
     wr_entries2 = Inr [], wr_stopping = False, wr_wall = 50, wr_newID = Some ''f1'', wr_others = (\<lambda>s. s)\<rparr>"

definition demo_env :: "nat admit_env" where
  "demo_env = \<lparr>ae_sent = 0, ae_acquire = (\<lambda>_. Inl (AlreadyRunning None)), ae_wall = 10, ae_newID = Some ''f0'',
     ae_reconcile = \<lparr>re_wall = (\<lambda>_. 10), re_newID = (\<lambda>_. None), re_others = (\<lambda>_ s. s), re_format = (\<lambda>_. [])\<rparr>,
     ae_accepted = 1, ae_acceptedAt = 10, ae_triggerID = Some ''w1'', ae_put = (\<lambda>_ _. Inr []),
     ae_rounds = [demo_round 5 (Inl (AlreadyRunning None)), demo_round 7 (Inr 42)]\<rparr>"

definition demo_world :: world where
  "demo_world = \<lparr>w_store = empty_store None, w_instances = []\<rparr>"

lemmas guard_eval = demo_guard_def demo_request_def demo_env_def demo_world_def demo_round_def Admit_def guard_wait_def
  guard_accept_def WaitFor_def DefaultWait_def demo_book_def waits_def Let_def Reconcile_def StillWaiting_def
  AcceptWaiting_def empty_store_def is_zero_def zero_time_def references_def Redact_def guard_try_def remaining_def
  instant_defs readThenClaim_def reread_def stampOf_def changed_def stamp_equal_def ask_def rateOf_def kindOf_def dueOf_def

definition demo_admitted :: "nat admitted" where
  "demo_admitted = \<lparr>ad_Claim = 42, ad_RunID = ''r1'', ad_Book = demo_book\<lparr>Description := ''edited''\<rparr>,
     ad_WaitingTriggerID = ''w1'', ad_Waited = 6, ad_sent = 7\<rparr>"

lemma demo_admits: "\<exists>x ev. Admit demo_guard demo_env demo_book demo_request demo_world = (x, ev, Admitted demo_admitted)"
  by (simp add: guard_eval demo_admitted_def)



theorem Admit_runs_what_was_read_witness:
  "ad_WaitingTriggerID demo_admitted \<noteq> [] \<and> pb_Name (ad_Book demo_admitted) = pb_Name demo_book \<and>
   (\<exists>r' \<in> set (ae_rounds demo_env). wr_reload r' = Inr (ad_Book demo_admitted))"
proof -
  obtain x ev where a: "Admit demo_guard demo_env demo_book demo_request demo_world = (x, ev, Admitted demo_admitted)"
    using demo_admits by blast
  have w: "ad_WaitingTriggerID demo_admitted \<noteq> []" by (simp add: demo_admitted_def)
  from Admit_runs_what_was_read [OF a] w show ?thesis by blast
qed

end
