(* ===== verification/Sink.thy ===== *)
theory Sink
  imports Gate
begin

text \<open>
  The sinks, the only code that touches anything outside a run's working directory: \<open>sink.go\<close>,
  \<open>build.go\<close>, \<open>webhook.go\<close>, \<open>discord.go\<close>, \<open>slack.go\<close> and \<open>github.go\<close> of \<open>runtime/internal/sink\<close>.  The network is
  the list of answers it will give and the list of requests that were sent; encoding, decoding and
  building a request are parameters.
\<close>

subsection \<open>Deliveries and outcomes\<close>

datatype sink_status = SinkDelivered | SinkCreated | SinkSkipped | SinkCapped | SinkFailed

record sink_delivery =
  sd_PlaybookName :: string
  sd_RunID :: string
  sd_Report :: string
  sd_Failure :: "string option"

text \<open>A status that was not set, the empty string of the code, is \<open>None\<close>.\<close>

record sink_outcome =
  so_Sink :: string
  so_Status :: "sink_status option"
  so_Created :: nat
  so_Skipped :: nat
  so_Detail :: string

definition no_outcome :: sink_outcome where
  "no_outcome = \<lparr>so_Sink = [], so_Status = None, so_Created = 0, so_Skipped = 0, so_Detail = []\<rparr>"

record github =
  gh_repo :: string
  gh_token :: string
  gh_label :: string
  gh_cap :: int
  gh_capSet :: bool
  gh_api :: string

record webhook_sink =
  wh_name :: string
  wh_url :: string
  wh_textField :: string

datatype built_sink = Messaging webhook_sink | GitHub github

definition sink_Name :: "built_sink \<Rightarrow> string" where
  "sink_Name s = (case s of Messaging w \<Rightarrow> wh_name w | GitHub _ \<Rightarrow> ''github'')"

definition sink_Creates :: "built_sink \<Rightarrow> bool" where
  "sink_Creates s = (case s of Messaging _ \<Rightarrow> False | GitHub _ \<Rightarrow> True)"

definition sink_Cap :: "built_sink \<Rightarrow> int \<times> bool" where
  "sink_Cap s = (case s of Messaging _ \<Rightarrow> (0, False) | GitHub g \<Rightarrow> (gh_cap g, gh_capSet g))"

subsection \<open>Building\<close>

record sink_declaration =
  decl_Type :: string
  decl_Config :: "yaml gomap option"

record build_options =
  bo_Interpolate :: "string \<Rightarrow> (string, string) result"
  bo_RefusePayloadReference :: bool
  bo_int_of_float :: "string \<Rightarrow> int"

datatype build_problem =
    NamesNoType
  | NotAMapping
  | PayloadReference string string
  | UnknownType
  | NoField string
  | Unresolved string
  | NotARepo string
  | ResolvesToNothing string
  | LabelNotString
  | LabelFromTrigger string
  | LabelComma string
  | NoCap "int option"

definition CheckCap :: "built_sink \<Rightarrow> build_problem option" where
  "CheckCap one =
     (if \<not> sink_Creates one then None
      else case sink_Cap one of (ceiling, declared) \<Rightarrow>
        if \<not> declared then Some (NoCap None)
        else if ceiling \<le> 0 then Some (NoCap (Some ceiling))
        else None)"

definition sink_Types :: "string list" where
  "sink_Types = sort [''discord'', ''slack'', ''github'']"

definition CreatingTypes :: "string list" where
  "CreatingTypes = [''github'']"

definition Marker :: string where "Marker = ''gronin''"

definition DefaultGitHubAPI :: string where "DefaultGitHubAPI = ''https://api.github.com''"

definition NewDiscord :: "string \<Rightarrow> built_sink" where
  "NewDiscord url = Messaging \<lparr>wh_name = ''discord'', wh_url = url, wh_textField = ''content''\<rparr>"

definition NewSlack :: "string \<Rightarrow> built_sink" where
  "NewSlack url = Messaging \<lparr>wh_name = ''slack'', wh_url = url, wh_textField = ''text''\<rparr>"

definition NewGitHub :: "string \<Rightarrow> string \<Rightarrow> string \<Rightarrow> int \<Rightarrow> bool \<Rightarrow> string \<Rightarrow> built_sink" where
  "NewGitHub repo token label ceiling capSet api =
     GitHub \<lparr>gh_repo = repo, gh_token = token, gh_label = (if label = [] then Marker else label), gh_cap = ceiling,
       gh_capSet = capSet, gh_api = (if api = [] then DefaultGitHubAPI else api)\<rparr>"

text \<open>One half of \<open>repoName\<close>: a name that begins and ends with a letter or a digit.\<close>

definition repo_half :: "string \<Rightarrow> bool" where
  "repo_half s \<longleftrightarrow> s \<noteq> [] \<and> is_alnum (hd s) \<and> is_alnum (last s) \<and>
     list_all (\<lambda>c. is_alnum c \<or> c = CHR ''.'' \<or> c = CHR ''_'' \<or> c = CHR ''-'') s"

definition repoName :: "string \<Rightarrow> bool" where
  "repoName s \<longleftrightarrow> (case str_cut s ''/'' of None \<Rightarrow> False | Some (owner, name) \<Rightarrow> repo_half owner \<and> repo_half name)"

definition config_string :: "yaml gomap \<Rightarrow> string \<Rightarrow> string option" where
  "config_string c key = (case map_of c key of Some (YString s) \<Rightarrow> Some s | _ \<Rightarrow> None)"

definition capOf :: "build_options \<Rightarrow> yaml gomap \<Rightarrow> int \<times> bool" where
  "capOf opts c = (case map_of c ''cap'' of
     Some (YInt i) \<Rightarrow> (i, True) | Some (YFloat x) \<Rightarrow> (bo_int_of_float opts x, True) | _ \<Rightarrow> (0, False))"

definition resolved :: "build_options \<Rightarrow> yaml gomap \<Rightarrow> string \<Rightarrow> (build_problem, string) result" where
  "resolved opts c key = (case config_string c key of
     None \<Rightarrow> Inl (NoField key)
   | Some raw \<Rightarrow> if raw = [] then Inl (NoField key)
       else (case bo_Interpolate opts raw of Inl e \<Rightarrow> Inl (Unresolved e) | Inr v \<Rightarrow> Inr v))"

definition webhookURL :: "build_options \<Rightarrow> yaml gomap \<Rightarrow> (build_problem, string) result" where
  "webhookURL opts c = (case config_string c ''webhook'' of
     None \<Rightarrow> Inl (NoField ''webhook'')
   | Some raw \<Rightarrow> if raw = [] then Inl (NoField ''webhook'')
       else (case bo_Interpolate opts raw of
           Inl e \<Rightarrow> Inl (Unresolved e)
         | Inr v \<Rightarrow> if v = [] then Inl (ResolvesToNothing ''webhook'') else Inr v))"

definition stringAt :: "yaml gomap \<Rightarrow> string \<Rightarrow> string" where
  "stringAt c key = (case config_string c key of None \<Rightarrow> [] | Some s \<Rightarrow> s)"

definition github_token :: "build_options \<Rightarrow> yaml gomap \<Rightarrow> (build_problem, string) result" where
  "github_token opts c = (case map_of c ''token'' of
     None \<Rightarrow> Inr []
   | Some _ \<Rightarrow> (case resolved opts c ''token'' of
         Inl e \<Rightarrow> Inl e
       | Inr token \<Rightarrow> if token = [] then Inl (ResolvesToNothing ''token'') else Inr token))"

definition github_label :: "build_options \<Rightarrow> yaml gomap \<Rightarrow> (build_problem, string) result" where
  "github_label opts c = (case map_of c ''label'' of
     None \<Rightarrow> Inr Marker
   | Some raw \<Rightarrow> (case raw of
         YString text \<Rightarrow>
           if str_contains text ''${trigger.'' then Inl (LabelFromTrigger text)
           else (case bo_Interpolate opts text of
               Inl e \<Rightarrow> Inl (Unresolved e)
             | Inr label \<Rightarrow>
                 if trim_space label = [] then Inl (ResolvesToNothing ''label'')
                 else if str_contains label '','' then Inl (LabelComma label)
                 else Inr label)
       | _ \<Rightarrow> Inl LabelNotString))"

definition buildGitHub :: "build_options \<Rightarrow> yaml gomap \<Rightarrow> (build_problem, built_sink) result" where
  "buildGitHub opts c =
     (case resolved opts c ''repo'' of
        Inl e \<Rightarrow> Inl e
      | Inr repo \<Rightarrow>
          if \<not> repoName repo then Inl (NotARepo repo)
          else (case github_token opts c of
              Inl e \<Rightarrow> Inl e
            | Inr token \<Rightarrow> (case github_label opts c of
                  Inl e \<Rightarrow> Inl e
                | Inr label \<Rightarrow> (case capOf opts c of (ceiling, declared) \<Rightarrow>
                    if declared \<and> ceiling \<le> 0 then Inl (NoCap (Some ceiling))
                    else (case bo_Interpolate opts (stringAt c ''api'') of
                        Inl e \<Rightarrow> Inl (Unresolved e)
                      | Inr api \<Rightarrow> Inr (NewGitHub repo token label ceiling declared api))))))"

definition buildOne :: "build_options \<Rightarrow> string \<Rightarrow> yaml gomap \<Rightarrow> (build_problem, built_sink) result" where
  "buildOne opts type' c =
     (if type' = ''discord'' then (case webhookURL opts c of Inl e \<Rightarrow> Inl e | Inr url \<Rightarrow> Inr (NewDiscord url))
      else if type' = ''slack'' then (case webhookURL opts c of Inl e \<Rightarrow> Inl e | Inr url \<Rightarrow> Inr (NewSlack url))
      else if type' = ''github'' then buildGitHub opts c
      else Inl UnknownType)"

text \<open>
  The first field that holds a payload reference.  The type switch has a case for \<open>map[string]any\<close> and
  none for the named type a nested mapping decodes into, so \<open>YSink\<close> is among the values it passes over.
\<close>

fun first_some :: "'a option list \<Rightarrow> 'a option" where
  "first_some [] = None"
| "first_some (None # xs) = first_some xs"
| "first_some (Some x # xs) = Some x"

function triggerReferenceIn :: "string \<Rightarrow> yaml \<Rightarrow> (string \<times> string) option" where
  "triggerReferenceIn field (YString s) = (case triggerReference s of [] \<Rightarrow> None | name # _ \<Rightarrow> Some (field, name))"
| "triggerReferenceIn field (YMap m) =
     first_some (map snd (sort_key fst (map (\<lambda>(key, v). (key, triggerReferenceIn (field @ ''.'' @ key) v)) m)))"
| "triggerReferenceIn field (YList xs) =
     first_some (map (\<lambda>(at, v). triggerReferenceIn (indexed field at) v) (enumerate 0 xs))"
| "triggerReferenceIn field (YSink m) = None"
| "triggerReferenceIn field YNil = None"
| "triggerReferenceIn field (YInt i) = None"
| "triggerReferenceIn field (YFloat x) = None"
| "triggerReferenceIn field (YBool b) = None"
  by pat_completeness auto

termination triggerReferenceIn
  by (relation "measure (\<lambda>(_, v). size v)") (auto dest: size_enumerate_yaml size_pair_yaml)

definition build_at :: "build_options \<Rightarrow> sink_declaration \<Rightarrow> (build_problem, built_sink) result" where
  "build_at opts decl =
     (if decl_Type decl = [] then Inl NamesNoType
      else case decl_Config decl of
        None \<Rightarrow> Inl NotAMapping
      | Some c \<Rightarrow>
          (case (if bo_RefusePayloadReference opts then triggerReferenceIn (decl_Type decl) (YMap c) else None) of
             Some (field, name) \<Rightarrow> Inl (PayloadReference field name)
           | None \<Rightarrow> (case buildOne opts (decl_Type decl) c of
                 Inl e \<Rightarrow> Inl e
               | Inr built \<Rightarrow> (case CheckCap built of Some e \<Rightarrow> Inl e | None \<Rightarrow> Inr built))))"

fun Build_loop :: "build_options \<Rightarrow> nat \<Rightarrow> sink_declaration list \<Rightarrow> built_sink list \<times> (nat \<times> build_problem) list" where
  "Build_loop opts at [] = ([], [])"
| "Build_loop opts at (d # ds) = (case Build_loop opts (Suc at) ds of (sinks, problems) \<Rightarrow>
     (case build_at opts d of Inl e \<Rightarrow> (sinks, (at, e) # problems) | Inr built \<Rightarrow> (built # sinks, problems)))"

definition Build :: "build_options \<Rightarrow> sink_declaration list \<Rightarrow> built_sink list \<times> (nat \<times> build_problem) list" where
  "Build opts declared = Build_loop opts 0 declared"

subsection \<open>The network\<close>

record http_request =
  hq_method :: string
  hq_url :: string
  hq_body :: "string option"
  hq_auth :: string

datatype http_answer = HttpFailed | HttpUnreadable nat string | HttpAnswer nat string

record net =
  net_answers :: "http_answer list"
  net_sent :: "http_request list"

text \<open>One exchange: the next answer, or a failure when there is none left.\<close>

definition exchange :: "http_request \<Rightarrow> net \<Rightarrow> net \<times> http_answer" where
  "exchange q n = (case net_answers n of
     [] \<Rightarrow> (n\<lparr>net_sent := net_sent n @ [q]\<rparr>, HttpFailed)
   | a # as \<Rightarrow> (n\<lparr>net_answers := as, net_sent := net_sent n @ [q]\<rparr>, a))"

text \<open>Encoding, decoding and what building a request checks of its address.\<close>

record sink_env =
  sv_bad_url :: "string \<Rightarrow> string option"
  sv_message_body :: "string \<Rightarrow> string \<Rightarrow> string"
  sv_issue_body :: "string \<Rightarrow> string \<Rightarrow> string list \<Rightarrow> string"
  sv_findings :: "string \<Rightarrow> (string, (string \<times> string) list) result"
  sv_issues :: "string \<Rightarrow> string list option"
  sv_escape :: "string \<Rightarrow> string"

definition success :: "nat \<Rightarrow> bool" where
  "success code \<longleftrightarrow> 200 \<le> code \<and> code < 300"

subsection \<open>Messaging sinks\<close>

definition maxMessage :: nat where "maxMessage = 1800"

fun rune_cut :: "string \<Rightarrow> nat \<Rightarrow> nat" where
  "rune_cut s 0 = 0"
| "rune_cut s (Suc n) = (if rune_start (s ! Suc n) then Suc n else rune_cut s n)"

text \<open>The bytes of the ellipsis and of the dash, which the code writes in UTF-8.\<close>

definition ellipsis :: string where "ellipsis = [CHR 0xE2, CHR 0x80, CHR 0xA6]"
definition em_dash :: string where "em_dash = [CHR 0xE2, CHR 0x80, CHR 0x94]"

definition truncated_note :: string where
  "truncated_note = [CHR 0x0A] @ ellipsis @ '' truncated; the full report is in the run record.''"

definition truncate_message :: "string \<Rightarrow> string" where
  "truncate_message s = (if length s \<le> maxMessage then s else take (rune_cut s maxMessage) s @ truncated_note)"

definition message :: "sink_delivery \<Rightarrow> string" where
  "message d =
     (let head = sd_PlaybookName d @ '' '' @ em_dash @ '' run '' @ sd_RunID d @ [CHR 0x0A] in
      case sd_Failure d of
        Some why \<Rightarrow> truncate_message (head @ [CHR 0x0A] @ ''The run produced no usable report:'' @ [CHR 0x0A] @ why)
      | None \<Rightarrow> truncate_message (head @ [CHR 0x0A] @ sd_Report d))"

text \<open>The body of the answer is read and discarded; only the status counts.\<close>

definition webhook_settle :: "webhook_sink \<Rightarrow> nat \<Rightarrow> sink_outcome \<times> string option" where
  "webhook_settle w code =
     (if \<not> success code
      then (no_outcome\<lparr>so_Detail := ''HTTP '' @ itoa code\<rparr>, Some (wh_name w @ '' refused the message with HTTP '' @ itoa code))
      else (no_outcome\<lparr>so_Status := Some SinkDelivered\<rparr>, None))"

definition webhook_Deliver ::
  "sink_env \<Rightarrow> webhook_sink \<Rightarrow> sink_delivery \<Rightarrow> net \<Rightarrow> net \<times> sink_outcome \<times> string option" where
  "webhook_Deliver env w d n =
     (case sv_bad_url env (wh_url w) of
        Some e \<Rightarrow> (n, no_outcome, Some (''building the request: '' @ e))
      | None \<Rightarrow>
          (case exchange \<lparr>hq_method = ''POST'', hq_url = wh_url w,
                   hq_body = Some (sv_message_body env (wh_textField w) (message d)), hq_auth = []\<rparr> n of
             (n', HttpAnswer code _) \<Rightarrow> (n', webhook_settle w code)
           | (n', HttpUnreadable code _) \<Rightarrow> (n', webhook_settle w code)
           | (n', HttpFailed) \<Rightarrow> (n', no_outcome, Some (''posting to '' @ wh_name w @ '': the request failed''))))"

subsection \<open>The issue sink\<close>

definition github_do ::
  "sink_env \<Rightarrow> github \<Rightarrow> string \<Rightarrow> string \<Rightarrow> string option \<Rightarrow> net \<Rightarrow> net \<times> (string, string) result" where
  "github_do env g method endpoint body n =
     (case sv_bad_url env endpoint of
        Some e \<Rightarrow> (n, Inl (''building the request: '' @ e))
      | None \<Rightarrow>
          (case exchange \<lparr>hq_method = method, hq_url = endpoint, hq_body = body,
                   hq_auth = (if gh_token g \<noteq> [] then ''Bearer '' @ gh_token g else [])\<rparr> n of
             (n', HttpFailed) \<Rightarrow> (n', Inl ''the request to GitHub failed'')
           | (n', HttpUnreadable _ e) \<Rightarrow> (n', Inl (''reading GitHub'' @ [CHR 0x27] @ ''s answer: '' @ e))
           | (n', HttpAnswer code answer) \<Rightarrow>
               if \<not> success code then (n', Inl (''GitHub answered HTTP '' @ itoa code)) else (n', Inr answer)))"

record open_set =
  os_count :: nat
  os_titles :: "string list"

definition perPage :: nat where "perPage = 100"
definition maxPages :: nat where "maxPages = 20"

definition issues_endpoint :: "sink_env \<Rightarrow> github \<Rightarrow> nat \<Rightarrow> string" where
  "issues_endpoint env g page = gh_api g @ ''/repos/'' @ gh_repo g @ ''/issues?state=open&labels='' @
     sv_escape env (gh_label g) @ ''&per_page='' @ itoa perPage @ ''&page='' @ itoa page"

text \<open>The walk over the pages; \<open>left\<close> counts the pages it may still ask for.\<close>

fun open_pages :: "sink_env \<Rightarrow> github \<Rightarrow> nat \<Rightarrow> nat \<Rightarrow> open_set \<Rightarrow> net \<Rightarrow> net \<times> (string, open_set) result" where
  "open_pages env g page 0 opened n =
     (n, Inl (''more open issues than this sink will count: more than '' @ itoa ((maxPages + 1) * perPage) @
        '' are open, so the cap cannot be checked''))"
| "open_pages env g page (Suc left) opened n =
     (case github_do env g ''GET'' (issues_endpoint env g page) None n of
        (n', Inl e) \<Rightarrow> (n', Inl e)
      | (n', Inr body) \<Rightarrow> (case sv_issues env body of
            None \<Rightarrow> (n', Inl ''listing open issues: the answer was not a list of issues'')
          | Some titles \<Rightarrow>
              let opened' = \<lparr>os_count = os_count opened + length titles, os_titles = os_titles opened @ titles\<rparr> in
              if length titles < perPage then (n', Inr opened') else open_pages env g (page + 1) left opened' n'))"

definition openIssues :: "sink_env \<Rightarrow> github \<Rightarrow> net \<Rightarrow> net \<times> (string, open_set) result" where
  "openIssues env g n = open_pages env g 1 (maxPages + 1) \<lparr>os_count = 0, os_titles = []\<rparr> n"

definition issue_text :: "string \<Rightarrow> sink_delivery \<Rightarrow> string" where
  "issue_text body d = body @ [CHR 0x0A, CHR 0x0A] @ ''---'' @ [CHR 0x0A] @ ''Opened by the playbook `'' @ sd_PlaybookName d @
     ''`, run `'' @ sd_RunID d @ ''`.''"

definition create_issue ::
  "sink_env \<Rightarrow> github \<Rightarrow> string \<Rightarrow> string \<Rightarrow> sink_delivery \<Rightarrow> net \<Rightarrow> net \<times> string option" where
  "create_issue env g title body d n =
     (case github_do env g ''POST'' (gh_api g @ ''/repos/'' @ gh_repo g @ ''/issues'')
             (Some (sv_issue_body env title (issue_text body d) [gh_label g])) n of
        (n', Inl e) \<Rightarrow> (n', Some e) | (n', Inr _) \<Rightarrow> (n', None))"

record creating =
  cr_created :: nat
  cr_skipped :: nat
  cr_details :: "string list"
  cr_capped :: bool
  cr_titles :: "string list"

text \<open>
  The loop over the findings.  It answers what it counted and whether a creation failed, which ends
  the loop.
\<close>

fun create_loop ::
  "sink_env \<Rightarrow> github \<Rightarrow> sink_delivery \<Rightarrow> int \<Rightarrow> (string \<times> string) list \<Rightarrow> creating \<Rightarrow> net \<Rightarrow> net \<times> creating \<times> bool" where
  "create_loop env g d room [] c n = (n, c, False)"
| "create_loop env g d room ((raw, body) # items) c n =
     (let title = trim_space raw in
      if title = [] then create_loop env g d room items
        (c\<lparr>cr_skipped := cr_skipped c + 1, cr_details := cr_details c @ [''a finding with no title'']\<rparr>) n
      else if title \<in> set (cr_titles c) then create_loop env g d room items
        (c\<lparr>cr_skipped := cr_skipped c + 1, cr_details := cr_details c @ [[CHR 0x22] @ title @ [CHR 0x22] @ '' is already open'']\<rparr>) n
      else if int (cr_created c) \<ge> room then create_loop env g d room items
        (c\<lparr>cr_skipped := cr_skipped c + 1, cr_capped := True\<rparr>) n
      else (case create_issue env g title body d n of
          (n', Some e) \<Rightarrow> (n', c\<lparr>cr_details := cr_details c @ [[CHR 0x22] @ title @ [CHR 0x22] @ '' failed: '' @ e]\<rparr>, True)
        | (n', None) \<Rightarrow> create_loop env g d room items
            (c\<lparr>cr_created := cr_created c + 1, cr_titles := cr_titles c @ [title]\<rparr>) n'))"

definition github_Deliver ::
  "sink_env \<Rightarrow> github \<Rightarrow> sink_delivery \<Rightarrow> net \<Rightarrow> net \<times> sink_outcome \<times> string option" where
  "github_Deliver env g d n =
     (case sd_Failure d of
        Some why \<Rightarrow> (n, no_outcome\<lparr>so_Status := Some SinkSkipped, so_Detail := ''no report: '' @ why\<rparr>, None)
      | None \<Rightarrow> (case sv_findings env (sd_Report d) of
            Inl e \<Rightarrow> (n, no_outcome, Some (''the report is not a shape this sink can create from: '' @ e))
          | Inr findings \<Rightarrow>
              if findings = [] then (n, no_outcome\<lparr>so_Status := Some SinkSkipped, so_Detail := ''the report holds no findings''\<rparr>, None)
              else (case openIssues env g n of
                  (n1, Inl e) \<Rightarrow> (n1, no_outcome, Some e)
                | (n1, Inr opened) \<Rightarrow>
                    let room = gh_cap g - int (os_count opened) in
                    if room \<le> 0
                    then (n1, no_outcome\<lparr>so_Status := Some SinkCapped, so_Skipped := length findings,
                            so_Detail := itoa (os_count opened) @ '' issue(s) already open against a cap of '' @ itoa (nat (gh_cap g))\<rparr>, None)
                    else (case create_loop env g d room findings
                            \<lparr>cr_created = 0, cr_skipped = 0, cr_details = [], cr_capped = False, cr_titles = os_titles opened\<rparr> n1 of
                        (n2, c, True) \<Rightarrow> (n2, no_outcome\<lparr>so_Status := Some SinkFailed, so_Created := cr_created c,
                            so_Skipped := length findings - cr_created c, so_Detail := str_join (cr_details c) ''; ''\<rparr>, None)
                      | (n2, c, False) \<Rightarrow> (n2, no_outcome\<lparr>so_Status := Some (if cr_created c = 0 then SinkSkipped else SinkCreated),
                            so_Created := cr_created c, so_Skipped := cr_skipped c,
                            so_Detail := str_join (if cr_capped c then cr_details c @ [''stopped at the cap of '' @ itoa (nat (gh_cap g))] else cr_details c) ''; ''\<rparr>, None)))))"

subsection \<open>All of them\<close>

definition sink_Deliver :: "sink_env \<Rightarrow> built_sink \<Rightarrow> sink_delivery \<Rightarrow> net \<Rightarrow> net \<times> sink_outcome \<times> string option" where
  "sink_Deliver env s d n = (case s of Messaging w \<Rightarrow> webhook_Deliver env w d n | GitHub g \<Rightarrow> github_Deliver env g d n)"

definition settle_outcome :: "built_sink \<Rightarrow> sink_outcome \<Rightarrow> string option \<Rightarrow> sink_outcome" where
  "settle_outcome one outcome0 err =
     (let outcome = outcome0\<lparr>so_Sink := sink_Name one\<rparr>;
          outcome1 = (case err of
            None \<Rightarrow> outcome
          | Some e \<Rightarrow> outcome\<lparr>so_Status := Some SinkFailed,
              so_Detail := (if so_Detail outcome = [] then e else so_Detail outcome @ '': '' @ e)\<rparr>)
      in if so_Status outcome1 = None then outcome1\<lparr>so_Status := Some SinkSkipped\<rparr> else outcome1)"

text \<open>The gate is asked before each sink and may change its own state.\<close>

fun DeliverAll ::
  "sink_env \<Rightarrow> ('g \<Rightarrow> 'g \<times> 'e option) \<Rightarrow> built_sink list \<Rightarrow> sink_delivery \<Rightarrow> 'g \<Rightarrow> net \<Rightarrow> 'g \<times> net \<times> sink_outcome list \<times> 'e option" where
  "DeliverAll env gate [] d h n = (h, n, [], None)"
| "DeliverAll env gate (one # sinks) d h n =
     (case gate h of
        (h', Some e) \<Rightarrow> (h', n, [], Some e)
      | (h', None) \<Rightarrow> (case sink_Deliver env one d n of (n', outcome, err) \<Rightarrow>
          (case DeliverAll env gate sinks d h' n' of (h2, n2, outcomes, e) \<Rightarrow>
             (h2, n2, settle_outcome one outcome err # outcomes, e))))"

subsection \<open>Facts\<close>

text \<open>The requests that create.\<close>

definition posts :: "net \<Rightarrow> nat" where
  "posts n = length (filter (\<lambda>q. hq_method q = ''POST'') (net_sent n))"









text \<open>What building keeps: the order and number of the declarations, and the checks on each sink.\<close>

definition sink_checked :: "built_sink \<Rightarrow> bool" where
  "sink_checked s = (case s of
     Messaging w \<Rightarrow> wh_name w = ''discord'' \<or> wh_name w = ''slack''
   | GitHub g \<Rightarrow> gh_capSet g \<and> gh_cap g > 0 \<and> repoName (gh_repo g) \<and> gh_label g \<noteq> [] \<and> \<not> str_contains (gh_label g) '','')"

lemma github_label_ok:
  assumes "github_label opts c = Inr label"
  shows "label \<noteq> [] \<and> \<not> str_contains label '',''"
proof -
  have "label = Marker \<or> trim_space label \<noteq> [] \<and> \<not> str_contains label '',''"
    using assms by (auto simp: github_label_def split: option.splits yaml.splits sum.splits if_splits)
  moreover have "trim_space ([] :: string) = []" by (simp add: trim_space_def trim_left_space_def trim_right_space_def)
  moreover have "Marker \<noteq> []" "\<not> str_contains Marker '',''" by (simp_all add: Marker_def str_contains_def has_prefix_def)
  ultimately show ?thesis by auto
qed

lemma build_at_checked:
  assumes "build_at opts d = Inr s"
  shows "sink_checked s"
proof -
  obtain c where c: "buildOne opts (decl_Type d) c = Inr s" "CheckCap s = None"
    using assms by (auto simp: build_at_def split: if_splits option.splits sum.splits)
  show ?thesis
  proof (cases s)
    case (Messaging w)
    then show ?thesis using c(1)
      by (auto simp: buildOne_def buildGitHub_def NewDiscord_def NewSlack_def NewGitHub_def sink_checked_def
          split: if_splits sum.splits prod.splits)
  next
    case (GitHub g)
    have "buildGitHub opts c = Inr s"
      using c(1) GitHub by (auto simp: buildOne_def NewDiscord_def NewSlack_def split: if_splits sum.splits)
    then obtain repo token label ceiling declared api where b: "github_label opts c = Inr label" "repoName repo"
        "s = NewGitHub repo token label ceiling declared api"
      by (auto simp: buildGitHub_def split: sum.splits if_splits prod.splits)
    have "sink_Cap s = (gh_cap g, gh_capSet g)" "sink_Creates s" using GitHub by (simp_all add: sink_Cap_def sink_Creates_def)
    then have "gh_capSet g \<and> gh_cap g > 0" using c(2) by (auto simp: CheckCap_def split: if_splits)
    then show ?thesis using b github_label_ok [OF b(1)] GitHub by (auto simp: NewGitHub_def sink_checked_def)
  qed
qed

lemma Build_loop_complete:
  "Build_loop opts at ds = (sinks, []) \<Longrightarrow> list_all2 (\<lambda>d s. build_at opts d = Inr s) ds sinks"
  by (induction ds arbitrary: at sinks) (auto split: prod.splits sum.splits)

lemma first_some_None: "first_some xs = None \<longleftrightarrow> (\<forall>x \<in> set xs. x = None)"
  by (induction xs rule: first_some.induct) auto

text \<open>The strings of a value that are not below a nested mapping of a sink.\<close>

function plain_strings :: "yaml \<Rightarrow> string set" where
  "plain_strings (YString s) = {s}"
| "plain_strings (YMap m) = (\<Union>(k, v) \<in> set m. plain_strings v)"
| "plain_strings (YList xs) = (\<Union>v \<in> set xs. plain_strings v)"
| "plain_strings (YSink m) = {}"
| "plain_strings YNil = {}"
| "plain_strings (YInt i) = {}"
| "plain_strings (YFloat x) = {}"
| "plain_strings (YBool b) = {}"
  by pat_completeness auto

termination plain_strings
  by (relation "measure size") (auto dest: size_pair_yaml simp: size_list_estimation' less_Suc_eq_le)

lemma triggerReferenceIn_None:
  "triggerReferenceIn field v = None \<Longrightarrow> s \<in> plain_strings v \<Longrightarrow> triggerReference s = []"
proof (induction field v arbitrary: s rule: triggerReferenceIn.induct)
  case (2 field m)
  then obtain k w where kw: "(k, w) \<in> set m" "s \<in> plain_strings w" by auto
  have "triggerReferenceIn (field @ ''.'' @ k) w = None"
    using "2.prems"(1) kw(1) by (force simp: first_some_None)
  then show ?case using "2.IH" [OF kw(1) refl] kw(2) by blast
next
  case (3 field xs)
  then obtain w where w: "w \<in> set xs" "s \<in> plain_strings w" by auto
  then obtain i where "i < length xs" "xs ! i = w" by (auto simp: in_set_conv_nth)
  then have i: "(i, w) \<in> set (enumerate 0 xs)" by (auto simp: in_set_enumerate_eq)
  have "triggerReferenceIn (indexed field i) w = None"
    using "3.prems"(1) i by (force simp: first_some_None)
  then show ?case using "3.IH" [OF i refl] w(2) by blast
qed (auto split: list.splits)


subsection \<open>Properties\<close>


text \<open>A network that lists one open issue and then accepts a creation.\<close>

definition demo_sink_env :: sink_env where
  "demo_sink_env = \<lparr>sv_bad_url = (\<lambda>_. None), sv_message_body = (\<lambda>_ m. m), sv_issue_body = (\<lambda>t _ _. t),
     sv_findings = (\<lambda>_. Inr [(''a'', []), (''b'', []), (''c'', [])]), sv_issues = (\<lambda>_. Some [''a'']), sv_escape = (\<lambda>s. s)\<rparr>"

definition demo_github :: github where
  "demo_github = \<lparr>gh_repo = ''o/r'', gh_token = [], gh_label = ''gronin'', gh_cap = 2, gh_capSet = True, gh_api = ''h''\<rparr>"

definition demo_sink_delivery :: sink_delivery where
  "demo_sink_delivery = \<lparr>sd_PlaybookName = ''p'', sd_RunID = ''r'', sd_Report = [], sd_Failure = None\<rparr>"

definition demo_net :: net where
  "demo_net = \<lparr>net_answers = [HttpAnswer 200 [], HttpAnswer 201 []], net_sent = []\<rparr>"

lemmas sink_eval = demo_sink_env_def demo_github_def demo_sink_delivery_def demo_net_def github_Deliver_def openIssues_def
  maxPages_def perPage_def github_do_def exchange_def issues_endpoint_def success_def Let_def no_outcome_def create_issue_def
  trim_space_def trim_left_space_def trim_right_space_def lead_space_def ascii_space_def posts_def wide_spaces_def has_prefix_def


text \<open>
  When no declaration is refused, every declared sink was built, in order; a sink that creates has
  a positive cap, a repository of the form owner/name and one label to count against; and, for a
  webhook playbook, no string of its settings outside a nested mapping refers to the payload.
\<close>

theorem Build_checks_every_sink:
  assumes "Build opts declared = (sinks, [])"
  shows "length sinks = length declared \<and>
     (\<forall>i < length declared. sink_checked (sinks ! i) \<and>
        (\<exists>c. decl_Config (declared ! i) = Some c \<and> buildOne opts (decl_Type (declared ! i)) c = Inr (sinks ! i) \<and>
           (bo_RefusePayloadReference opts \<longrightarrow> (\<forall>s \<in> plain_strings (YMap c). triggerReference s = []))))"
proof -
  have built: "list_all2 (\<lambda>d s. build_at opts d = Inr s) declared sinks"
    using Build_loop_complete assms unfolding Build_def by blast
  have "sink_checked (sinks ! i) \<and> (\<exists>c. decl_Config (declared ! i) = Some c \<and>
      buildOne opts (decl_Type (declared ! i)) c = Inr (sinks ! i) \<and>
      (bo_RefusePayloadReference opts \<longrightarrow> (\<forall>s \<in> plain_strings (YMap c). triggerReference s = [])))" if i: "i < length declared" for i
  proof -
    have b: "build_at opts (declared ! i) = Inr (sinks ! i)" using built i by (rule list_all2_nthD)
    then obtain c where c: "decl_Config (declared ! i) = Some c" "buildOne opts (decl_Type (declared ! i)) c = Inr (sinks ! i)"
      "bo_RefusePayloadReference opts \<Longrightarrow> triggerReferenceIn (decl_Type (declared ! i)) (YMap c) = None"
      by (auto simp: build_at_def simp del: triggerReferenceIn.simps split: if_splits option.splits sum.splits)
    have "triggerReference s = []" if "bo_RefusePayloadReference opts" "s \<in> plain_strings (YMap c)" for s
      using triggerReferenceIn_None [OF c(3) [OF that(1)] that(2)] .
    then show ?thesis using build_at_checked [OF b] c by blast
  qed
  then show ?thesis using list_all2_lengthD [OF built] by auto
qed

definition demo_options :: build_options where
  "demo_options = \<lparr>bo_Interpolate = Inr, bo_RefusePayloadReference = True, bo_int_of_float = (\<lambda>_. 0)\<rparr>"

definition demo_declaration :: sink_declaration where
  "demo_declaration = \<lparr>decl_Type = ''discord'', decl_Config = Some [(''webhook'', YString ''h'')]\<rparr>"

lemma demo_builds: "Build demo_options [demo_declaration] = ([NewDiscord ''h''], [])"
  by (simp add: Build_def build_at_def demo_options_def demo_declaration_def buildOne_def webhookURL_def config_string_def
      triggerReference_def ref_match_def cut_prefix_def NewDiscord_def CheckCap_def sink_Creates_def has_prefix_def)

theorem Build_checks_every_sink_witness:
  "Build demo_options [demo_declaration] = ([NewDiscord ''h''], []) \<and> sink_checked (NewDiscord ''h'')"
  using Build_checks_every_sink [OF demo_builds] demo_builds by simp

text \<open>
  A payload reference inside a nested mapping of a sink is not found.  The search has no case for
  the type such a mapping decodes into, so a webhook playbook's sink whose settings hold one is built.
\<close>

theorem Build_misses_nested_reference:
  "Build demo_options [\<lparr>decl_Type = ''discord'', decl_Config = Some [(''webhook'', YString ''h''),
       (''embed'', YSink [(''title'', YString ''${trigger.title}'')])]\<rparr>] = ([NewDiscord ''h''], []) \<and>
   triggerReference ''${trigger.title}'' = [''title''] \<and>
   snd (Build demo_options [\<lparr>decl_Type = ''discord'', decl_Config = Some [(''webhook'', YString ''h''),
       (''embed'', YMap [(''title'', YString ''${trigger.title}'')])]\<rparr>]) = [(0, PayloadReference ''discord.embed.title'' ''title'')]"
  by (simp add: Build_def build_at_def demo_options_def buildOne_def webhookURL_def config_string_def
      triggerReference_def ref_match_def cut_prefix_def NewDiscord_def CheckCap_def sink_Creates_def has_prefix_def)

text \<open>
  Delivery stops at the first refusal of the gate and at nothing else.  The sinks before it were
  each asked about and each delivered once, in order, a failing one included; without a refusal every
  sink has its outcome.
\<close>

theorem DeliverAll_asks_before_each:
  assumes "DeliverAll env gate sinks d h n = (h', n', outcomes, e)"
  shows "length outcomes \<le> length sinks \<and> map so_Sink outcomes = map sink_Name (take (length outcomes) sinks) \<and>
     (\<forall>x \<in> set outcomes. so_Status x \<noteq> None) \<and> (e = None \<longleftrightarrow> length outcomes = length sinks) \<and>
     (\<forall>k < length outcomes. snd (gate (((\<lambda>x. fst (gate x)) ^^ k) h)) = None) \<and>
     (e \<noteq> None \<longrightarrow> snd (gate (((\<lambda>x. fst (gate x)) ^^ length outcomes) h)) = e)"
  using assms
proof (induction sinks arbitrary: h n outcomes)
  case (Cons one sinks)
  obtain h1 g where g: "gate h = (h1, g)" by fastforce
  show ?case
  proof (cases g)
    case (Some x)
    then show ?thesis using Cons.prems g by auto
  next
    case None
    obtain n1 oc err where s: "sink_Deliver env one d n = (n1, oc, err)" using prod_cases3 by blast
    obtain h2 n2 os e2 where r: "DeliverAll env gate sinks d h1 n1 = (h2, n2, os, e2)" using prod_cases4 by blast
    have out: "outcomes = settle_outcome one oc err # os" "e = e2" "h' = h2" "n' = n2" using Cons.prems g None s r by auto
    have st: "so_Sink (settle_outcome one oc err) = sink_Name one" "so_Status (settle_outcome one oc err) \<noteq> None"
      by (auto simp: settle_outcome_def Let_def split: option.splits)
    have gk: "((\<lambda>x. fst (gate x)) ^^ Suc k) h = ((\<lambda>x. fst (gate x)) ^^ k) h1" for k
      unfolding funpow_Suc_right comp_def using g by simp
    have ih: "length os \<le> length sinks \<and> map so_Sink os = map sink_Name (take (length os) sinks) \<and>
        (\<forall>x \<in> set os. so_Status x \<noteq> None) \<and> (e = None \<longleftrightarrow> length os = length sinks) \<and>
        (\<forall>k < length os. snd (gate (((\<lambda>x. fst (gate x)) ^^ k) h1)) = None) \<and>
        (e \<noteq> None \<longrightarrow> snd (gate (((\<lambda>x. fst (gate x)) ^^ length os) h1)) = e)"
      by (rule Cons.IH) (use r out in simp)
    have "snd (gate (((\<lambda>x. fst (gate x)) ^^ k) h)) = None" if "k < Suc (length os)" for k
    proof (cases k)
      case 0
      then show ?thesis using g None by simp
    next
      case (Suc m)
      then show ?thesis using ih that unfolding Suc gk by simp
    qed
    moreover have "e \<noteq> None \<longrightarrow> snd (gate (((\<lambda>x. fst (gate x)) ^^ Suc (length os)) h)) = e" unfolding gk using ih by blast
    ultimately show ?thesis using ih st unfolding out by auto
  qed
qed simp

theorem DeliverAll_asks_before_each_witness:
  "map so_Sink (fst (snd (snd (DeliverAll demo_sink_env (\<lambda>k. (k + 1, if k = (1 :: nat) then Some () else None))
     [NewSlack ''h'', NewDiscord ''h''] demo_sink_delivery 0 demo_net)))) = [''slack'']"
proof -
  obtain h' n' os e where r: "DeliverAll demo_sink_env (\<lambda>k. (k + 1, if k = (1 :: nat) then Some () else None))
     [NewSlack ''h'', NewDiscord ''h''] demo_sink_delivery 0 demo_net = (h', n', os, e)" using prod_cases4 by blast
  have "length os = 1" using r by (auto simp: sink_Deliver_def NewSlack_def webhook_Deliver_def webhook_settle_def sink_eval)
  then show ?thesis using DeliverAll_asks_before_each [OF r] r by (simp add: sink_Name_def NewSlack_def)
qed

end
