(* ===== verification/Rows.thy ===== *)
theory Rows
  imports Store Filepath
begin

text \<open>
  What a run leaves beside its row: gathered inputs, tool calls, refused actions, sink outcomes and
  retrievals (\<open>record/runs.go\<close>, \<open>record/retrievals.go\<close>, \<open>record/reports.go\<close>), and the blobs that hold what
  is only read whole (\<open>record/blobs.go\<close>).  A table is a list of rows with the run they belong to; an
  insertion that breaks a key or names a run that is not there fails and writes nothing.  The digest
  of a name and the failures of the file system are parameters.
\<close>

subsection \<open>Rows\<close>

record gathered_input =
  gi_Name :: string
  gi_BlobRef :: string
  gi_Bytes :: nat
  gi_Truncated :: bool
  gi_ExitCode :: int
  gi_StderrRef :: string

record tool_call =
  tc_Sequence :: nat
  tc_Name :: string
  tc_InputRef :: string
  tc_OutputRef :: string
  tc_StartedAt :: time
  tc_Outcome :: string

record refused_action =
  ra_Sequence :: nat
  ra_Tool :: string
  ra_Asked :: string

record sink_row =
  sr_Sink :: string
  sr_Status :: string
  sr_Created :: nat
  sr_Skipped :: nat
  sr_Detail :: string

datatype retrieval_mode = RetrievalLexical | RetrievalSemantic

datatype retrieval_outcome = RetrievalFound | RetrievalEmpty | RetrievalRefused

text \<open>A score is compared and shown, never computed with here; it is kept as its text.\<close>

record retrieved_item =
  it_Rank :: nat
  it_Score :: string
  it_Source :: string
  it_Ordinal :: nat
  it_Offset :: nat
  it_ContentRef :: string

record retrieval_row =
  rt_Sequence :: nat
  rt_AsName :: string
  rt_Collection :: string
  rt_Mode :: retrieval_mode
  rt_Generation :: string
  rt_GenerationBuiltAt :: time
  rt_Identity :: string
  rt_Query :: string
  rt_QueryTruncated :: bool
  rt_Outcome :: retrieval_outcome
  rt_ResultsRef :: string
  rt_ResultsBytes :: nat
  rt_CountTruncated :: bool
  rt_BytesTruncated :: bool
  rt_Error :: string
  rt_Items :: "retrieved_item list"

record rows =
  rw_inputs :: "(string \<times> gathered_input) list"
  rw_calls :: "(string \<times> tool_call) list"
  rw_actions :: "(string \<times> refused_action) list"
  rw_sinks :: "(string \<times> sink_row) list"
  rw_retrievals :: "(string \<times> retrieval_row) list"

text \<open>An \<open>INSERT\<close> into a table whose primary key is the run and \<open>key\<close>.\<close>

definition insert_row ::
  "store \<Rightarrow> string \<Rightarrow> ('r \<Rightarrow> 'k) \<Rightarrow> 'r \<Rightarrow> (string \<times> 'r) list \<Rightarrow> (store_error, (string \<times> 'r) list) result" where
  "insert_row s runID key row table =
     (if runID \<notin> run_ID ` set (st_runs s) \<or> list_ex (\<lambda>(r, x). r = runID \<and> key x = key row) table
      then Inl (ConstraintFailed runID)
      else Inr (table @ [(runID, row)]))"

definition rows_of :: "string \<Rightarrow> (string \<times> 'r) list \<Rightarrow> 'r list" where
  "rows_of runID table = map snd (filter (\<lambda>(r, _). r = runID) table)"

definition AddGatheredInput :: "store \<Rightarrow> string \<Rightarrow> gathered_input \<Rightarrow> rows \<Rightarrow> rows \<times> store_error option" where
  "AddGatheredInput s runID input w =
     (case insert_row s runID gi_Name (input\<lparr>gi_Name := redact s (gi_Name input)\<rparr>) (rw_inputs w) of
        Inl e \<Rightarrow> (w, Some e) | Inr t \<Rightarrow> (w\<lparr>rw_inputs := t\<rparr>, None))"

definition GatheredInputs :: "string \<Rightarrow> rows \<Rightarrow> gathered_input list" where
  "GatheredInputs runID w = sort_key gi_Name (rows_of runID (rw_inputs w))"

definition AddToolCall :: "store \<Rightarrow> string \<Rightarrow> tool_call \<Rightarrow> rows \<Rightarrow> rows \<times> store_error option" where
  "AddToolCall s runID call w =
     (if is_zero (tc_StartedAt call) then (w, Some (ConstraintFailed runID))
      else case insert_row s runID tc_Sequence (call\<lparr>tc_Name := redact s (tc_Name call),
                  tc_Outcome := redact s (tc_Outcome call)\<rparr>) (rw_calls w) of
        Inl e \<Rightarrow> (w, Some e) | Inr t \<Rightarrow> (w\<lparr>rw_calls := t\<rparr>, None))"

definition ToolCalls :: "string \<Rightarrow> rows \<Rightarrow> tool_call list" where
  "ToolCalls runID w = sort_key tc_Sequence (rows_of runID (rw_calls w))"

definition AddRefusedAction :: "store \<Rightarrow> string \<Rightarrow> refused_action \<Rightarrow> rows \<Rightarrow> rows \<times> store_error option" where
  "AddRefusedAction s runID action w =
     (case insert_row s runID ra_Sequence (action\<lparr>ra_Tool := redact s (ra_Tool action),
              ra_Asked := redact s (ra_Asked action)\<rparr>) (rw_actions w) of
        Inl e \<Rightarrow> (w, Some e) | Inr t \<Rightarrow> (w\<lparr>rw_actions := t\<rparr>, None))"

definition RefusedActions :: "string \<Rightarrow> rows \<Rightarrow> refused_action list" where
  "RefusedActions runID w = sort_key ra_Sequence (rows_of runID (rw_actions w))"

definition AddSinkOutcome :: "store \<Rightarrow> string \<Rightarrow> sink_row \<Rightarrow> rows \<Rightarrow> rows \<times> store_error option" where
  "AddSinkOutcome s runID outcome w =
     (case insert_row s runID sr_Sink (outcome\<lparr>sr_Sink := redact s (sr_Sink outcome),
              sr_Detail := redact s (sr_Detail outcome)\<rparr>) (rw_sinks w) of
        Inl e \<Rightarrow> (w, Some e) | Inr t \<Rightarrow> (w\<lparr>rw_sinks := t\<rparr>, None))"

definition SinkOutcomes :: "string \<Rightarrow> rows \<Rightarrow> sink_row list" where
  "SinkOutcomes runID w = sort_key sr_Sink (rows_of runID (rw_sinks w))"

text \<open>
  A retrieval and its items are written in one transaction: a rank that appears twice rolls the whole
  back.
\<close>

definition retrieval_columns :: "store \<Rightarrow> retrieval_row \<Rightarrow> retrieval_row" where
  "retrieval_columns s r = r\<lparr>rt_AsName := redact s (rt_AsName r), rt_Collection := redact s (rt_Collection r),
     rt_Query := redact s (rt_Query r), rt_Error := redact s (rt_Error r),
     rt_Items := map (\<lambda>i. i\<lparr>it_Source := redact s (it_Source i)\<rparr>) (rt_Items r)\<rparr>"

definition AddRetrieval :: "store \<Rightarrow> string \<Rightarrow> retrieval_row \<Rightarrow> rows \<Rightarrow> rows \<times> store_error option" where
  "AddRetrieval s runID r w =
     (if \<not> distinct (map it_Rank (rt_Items r)) then (w, Some (ConstraintFailed runID))
      else case insert_row s runID rt_Sequence (retrieval_columns s r) (rw_retrievals w) of
        Inl e \<Rightarrow> (w, Some e) | Inr t \<Rightarrow> (w\<lparr>rw_retrievals := t\<rparr>, None))"

definition retrievedItems :: "retrieval_row \<Rightarrow> retrieved_item list" where
  "retrievedItems r = sort_key it_Rank (rt_Items r)"

definition Retrievals :: "string \<Rightarrow> rows \<Rightarrow> retrieval_row list" where
  "Retrievals runID w = map (\<lambda>r. r\<lparr>rt_Items := retrievedItems r\<rparr>)
     (sort_key rt_Sequence (rows_of runID (rw_retrievals w)))"

definition IndexableReports :: "string list \<Rightarrow> store \<Rightarrow> (string \<times> string) list" where
  "IndexableReports playbooks s =
     (if playbooks = [] then []
      else map (\<lambda>r. (run_ID r, ReportRef r)) (sort_key run_ID (filter (\<lambda>r.
        run_PlaybookName r \<in> set (map (redact s) playbooks) \<and> ReportRef r \<noteq> [] \<and> ParentRunID r = []) (st_runs s))))"

subsection \<open>Blobs\<close>

record blobs =
  bl_dir :: string
  bl_redactor :: "redactor option"
  bl_files :: "string gomap"

definition safeName :: "string \<Rightarrow> bool" where
  "safeName s \<longleftrightarrow> (case s of [] \<Rightarrow> False
     | c # cs \<Rightarrow> is_alnum c \<and> length cs \<le> 127 \<and>
         list_all (\<lambda>c. is_alnum c \<or> c = CHR ''.'' \<or> c = CHR ''_'' \<or> c = CHR ''-'') cs)"

definition blob_name :: "(string \<Rightarrow> string) \<Rightarrow> string \<Rightarrow> string" where
  "blob_name digest name = (if safeName name then name else ''x-'' @ digest name)"

datatype blob_error = BadRunID string | BlobWrite string | OutsideBlobs string | BlobMissing string

definition Put ::
  "(string \<Rightarrow> string) \<Rightarrow> string option \<Rightarrow> string \<Rightarrow> string \<Rightarrow> string \<Rightarrow> blobs \<Rightarrow> blobs \<times> (blob_error, string) result" where
  "Put digest fault runID name0 data b =
     (if \<not> safeName runID then (b, Inl (BadRunID runID))
      else
        let name = blob_name digest name0; dir = path_Join [bl_dir b, runID] in
        (case fault of
           Some e \<Rightarrow> (b, Inl (BlobWrite e))
         | None \<Rightarrow> (b\<lparr>bl_files := map_set (path_Join [dir, name]) (RedactBytes (bl_redactor b) data) (bl_files b)\<rparr>,
                    Inr (path_Join [runID, name]))))"

text \<open>\<open>filepath.Rel\<close> of two cleaned absolute paths, by their components.\<close>

fun strip_common :: "string list \<Rightarrow> string list \<Rightarrow> string list \<times> string list" where
  "strip_common (b # bs) (t # ts) = (if b = t then strip_common bs ts else (b # bs, t # ts))"
| "strip_common bs ts = (bs, ts)"

definition path_comps :: "string \<Rightarrow> string list" where
  "path_comps p = filter (\<lambda>c. c \<noteq> []) (str_split p ''/'')"

definition path_Rel :: "string \<Rightarrow> string \<Rightarrow> string" where
  "path_Rel base targ = (case strip_common (path_comps base) (path_comps targ) of (bs, ts) \<Rightarrow>
     let cs = replicate (length bs) ''..'' @ ts in if cs = [] then ''.'' else str_join cs ''/'')"

definition path_Abs :: "string \<Rightarrow> string \<Rightarrow> string" where
  "path_Abs cwd p = (if IsAbs p then Clean p else path_Join [cwd, p])"

definition resolve_blob :: "string \<Rightarrow> string \<Rightarrow> blobs \<Rightarrow> (blob_error, string) result" where
  "resolve_blob cwd ref b =
     (let root = path_Abs cwd (bl_dir b); path = path_Abs cwd (path_Join [root, ref]); inside = path_Rel root path in
      if inside = ''..'' \<or> (length inside \<ge> 3 \<and> take 3 inside = ''../'') then Inl (OutsideBlobs ref) else Inr path)"

definition blob_Get :: "string \<Rightarrow> string \<Rightarrow> blobs \<Rightarrow> (blob_error, string) result" where
  "blob_Get cwd ref b = (case resolve_blob cwd ref b of
     Inl e \<Rightarrow> Inl e
   | Inr path \<Rightarrow> (case map_of (bl_files b) path of None \<Rightarrow> Inl (BlobMissing ref) | Some data \<Rightarrow> Inr data))"

definition blob_Remove :: "string \<Rightarrow> blobs \<Rightarrow> blobs \<times> blob_error option" where
  "blob_Remove runID b =
     (if \<not> safeName runID then (b, Some (BadRunID runID))
      else (let dir = path_Join [bl_dir b, runID] in
        (b\<lparr>bl_files := filter (\<lambda>(p, _). \<not> (p = dir \<or> has_prefix p (dir @ ''/''))) (bl_files b)\<rparr>, None)))"

subsection \<open>Facts\<close>

lemma str_split_Cons_slash: "str_split (CHR ''/'' # p) ''/'' = [] # str_split p ''/''"
  by (simp add: str_split_def has_prefix_def)

lemma path_comps_abs:
  assumes "list_all real_comp cs"
  shows "path_comps (CHR ''/'' # str_join cs ''/'') = cs"
proof (cases "cs = []")
  case True
  then show ?thesis by (simp add: path_comps_def str_split_def has_prefix_def)
next
  case False
  have "str_split (str_join cs ''/'') ''/'' = cs"
    using False assms by (intro str_split_str_join) (auto simp: list_all_iff real_comp_def)
  moreover have "filter (\<lambda>c. c \<noteq> []) cs = cs" using assms by (simp add: filter_id_conv list_all_iff real_comp_def)
  ultimately show ?thesis by (simp add: path_comps_def str_split_Cons_slash)
qed

lemma str_join_append: "xs \<noteq> [] \<Longrightarrow> ys \<noteq> [] \<Longrightarrow> str_join (xs @ ys) sep = str_join xs sep @ sep @ str_join ys sep"
proof (induction xs)
  case (Cons x xs)
  show ?case
  proof (cases "xs = []")
    case True
    then show ?thesis using Cons.prems by (simp add: str_join_Cons)
  next
    case False
    then show ?thesis using Cons by (simp add: str_join_Cons)
  qed
qed simp

lemma str_join_ne: "list_all real_comp cs \<Longrightarrow> cs \<noteq> [] \<Longrightarrow> str_join cs ''/'' \<noteq> []"
  by (cases cs rule: list.exhaust) (auto simp: real_comp_def elim: str_join.elims)

text \<open>Joining names without dots and slashes under a cleaned directory just appends them.\<close>

lemma path_Join_under:
  assumes "list_all real_comp ds" "ds \<noteq> []" "list_all real_comp cs" "cs \<noteq> []"
  shows "path_Join [CHR ''/'' # str_join ds ''/'', str_join cs ''/''] = CHR ''/'' # str_join (ds @ cs) ''/''"
proof -
  have "path_Join [CHR ''/'' # str_join ds ''/'', str_join cs ''/''] = Clean (CHR ''/'' # str_join (ds @ cs) ''/'')"
    using assms str_join_ne [OF assms(3,4)] by (simp add: path_Join_def str_join_append)
  also have "\<dots> = CHR ''/'' # str_join (ds @ cs) ''/''" using assms by (intro Clean_real) simp
  finally show ?thesis .
qed

lemma path_Join_names:
  assumes "real_comp a" "real_comp c"
  shows "path_Join [a, c] = str_join [a, c] ''/''"
proof -
  have "str_split (str_join [a, c] ''/'') ''/'' = [a, c]"
    using assms by (intro str_split_str_join) (auto simp: real_comp_def)
  moreover have "clean_comps False [] [a, c] = [a, c]" using clean_comps_id [of "[a, c]" False "[]"] assms by simp
  moreover have "\<not> IsAbs (a @ CHR ''/'' # c)" using assms(1) by (cases a) (auto simp: IsAbs_def has_prefix_def real_comp_def)
  ultimately show ?thesis using assms by (simp add: path_Join_def Clean_def real_comp_def)
qed

lemma strip_common_prefix: "strip_common ds (ds @ cs) = ([], cs)"
proof (induction ds)
  case Nil
  show ?case by (cases cs) simp_all
qed simp

lemma safeName_real: "safeName s \<Longrightarrow> real_comp s"
  by (cases s) (auto simp: safeName_def real_comp_def is_alnum_def is_lower_def is_upper_def is_digit_def list_all_iff)

text \<open>The blob directory is a cleaned absolute path of real names.\<close>

definition blobs_at :: "string list \<Rightarrow> blobs \<Rightarrow> bool" where
  "blobs_at ds b \<longleftrightarrow> bl_dir b = CHR ''/'' # str_join ds ''/'' \<and> list_all real_comp ds \<and> ds \<noteq> []"

lemma IsAbs_slash: "IsAbs (CHR ''/'' # p)"
  by (simp add: IsAbs_def has_prefix_def)

lemma resolve_names:
  assumes "blobs_at ds b" "real_comp a" "real_comp c"
  shows "resolve_blob cwd (str_join [a, c] ''/'') b = Inr (CHR ''/'' # str_join (ds @ [a, c]) ''/'')"
proof -
  have ds: "list_all real_comp ds" "ds \<noteq> []" "bl_dir b = CHR ''/'' # str_join ds ''/''" using assms(1) by (simp_all add: blobs_at_def)
  have root: "path_Abs cwd (bl_dir b) = CHR ''/'' # str_join ds ''/''"
    using ds by (simp add: path_Abs_def IsAbs_slash Clean_real)
  have join: "path_Join [CHR ''/'' # str_join ds ''/'', str_join [a, c] ''/''] = CHR ''/'' # str_join (ds @ [a, c]) ''/''"
    using assms ds by (intro path_Join_under) simp_all
  have all: "list_all real_comp (ds @ [a, c])" using assms ds by simp
  then have abs: "path_Abs cwd (CHR ''/'' # str_join (ds @ [a, c]) ''/'') = CHR ''/'' # str_join (ds @ [a, c]) ''/''"
    unfolding path_Abs_def using Clean_real [OF all] IsAbs_slash by simp
  have rel: "path_Rel (CHR ''/'' # str_join ds ''/'') (CHR ''/'' # str_join (ds @ [a, c]) ''/'') = a @ ''/'' @ c"
    unfolding path_Rel_def path_comps_abs [OF ds(1)] path_comps_abs [OF all] by (simp add: strip_common_prefix)
  have "set (a @ ''/'' @ c) \<noteq> set ''..''" by auto
  then have "a @ ''/'' @ c \<noteq> ''..''" by metis
  moreover have "take 3 (a @ ''/'' @ c) \<noteq> ''../''"
  proof
    assume "take 3 (a @ ''/'' @ c) = ''../''"
    then have "a @ CHR ''/'' # c = ''..'' @ CHR ''/'' # drop 3 (a @ ''/'' @ c)"
      using append_take_drop_id [of 3 "a @ ''/'' @ c"] by simp
    then have "a = ''..''" using append_Cons_unique [of a "CHR ''/''" c "''..''"] assms(2) by (auto simp: real_comp_def)
    then show False using assms(2) by (simp add: real_comp_def)
  qed
  ultimately show ?thesis unfolding resolve_blob_def Let_def root join abs rel by simp
qed

text \<open>What \<open>resolve\<close> accepts lies below the blob directory: \<open>Rel\<close> climbs nowhere.\<close>

lemma strip_common_decomp: "strip_common bs ts = (b, t) \<Longrightarrow> \<exists>p. bs = p @ b \<and> ts = p @ t"
  by (induction bs ts arbitrary: b t rule: strip_common.induct) (fastforce split: if_splits)+

lemma path_Rel_inside:
  assumes "list_all real_comp ds" "list_all real_comp ts"
    and "path_Rel (CHR ''/'' # str_join ds ''/'') (CHR ''/'' # str_join ts ''/'') = inside"
    and "\<not> (inside = ''..'' \<or> length inside \<ge> 3 \<and> take 3 inside = ''../'')"
  shows "\<exists>es. ts = ds @ es"
proof -
  obtain b t where bt: "strip_common ds ts = (b, t)" by fastforce
  have ins: "inside = (let cs = replicate (length b) ''..'' @ t in if cs = [] then ''.'' else str_join cs ''/'')"
    using assms(3) unfolding path_Rel_def path_comps_abs [OF assms(1)] path_comps_abs [OF assms(2)] bt by simp
  have "b = []"
  proof (rule ccontr)
    assume "b \<noteq> []"
    then obtain n where n: "length b = Suc n" by (cases b) auto
    define rest where "rest = replicate n ''..'' @ t"
    have i: "inside = str_join (''..'' # rest) ''/''" using ins n by (simp add: rest_def Let_def)
    show False
    proof (cases "rest = []")
      case True
      then show False using i assms(4) by simp
    next
      case False
      then have "inside = ''../'' @ str_join rest ''/''" using i by (simp add: str_join_Cons)
      then show False using assms(4) by simp
    qed
  qed
  then show ?thesis using strip_common_decomp [OF bt] by auto
qed

lemma path_Join_abs:
  assumes "list_all real_comp ds" "ds \<noteq> []"
  shows "\<exists>ts. list_all real_comp ts \<and> path_Join [CHR ''/'' # str_join ds ''/'', ref] = CHR ''/'' # str_join ts ''/''"
proof -
  define p where "p = str_join ds ''/'' @ ''/'' @ ref"
  have "path_Join [CHR ''/'' # str_join ds ''/'', ref] = Clean (CHR ''/'' # p)" by (simp add: path_Join_def p_def)
  also have "\<dots> = CHR ''/'' # str_join (clean_comps True [] (str_split (CHR ''/'' # p) ''/'')) ''/''"
    by (simp add: Clean_def IsAbs_slash Let_def)
  finally have "path_Join [CHR ''/'' # str_join ds ''/'', ref] =
      CHR ''/'' # str_join (clean_comps True [] (str_split (CHR ''/'' # p) ''/'')) ''/''" .
  moreover have "list_all real_comp (clean_comps True [] (str_split (CHR ''/'' # p) ''/''))"
    by (rule clean_comps_real) (use str_split_no_sep in auto)
  ultimately show ?thesis by blast
qed

subsection \<open>Properties\<close>

text \<open>
  C34. A blob that was put is read back, redacted, by the reference the row keeps, and no other blob is
  changed by it; this for every name, the ones that cannot be a path segment included.
\<close>

theorem blob_round_trip:
  assumes "blobs_at ds b" "Put digest fault runID name data b = (b', Inr ref)" "CHR ''/'' \<notin> set (digest name)"
  shows "blob_Get cwd ref b' = Inr (RedactBytes (bl_redactor b) data) \<and>
     (\<forall>a c. safeName a \<and> safeName c \<and> path_Join [a, c] \<noteq> ref \<longrightarrow>
        blob_Get cwd (path_Join [a, c]) b' = blob_Get cwd (path_Join [a, c]) b)"
proof -
  define nm where "nm = blob_name digest name"
  have ds: "list_all real_comp ds" "ds \<noteq> []" "bl_dir b = CHR ''/'' # str_join ds ''/''" using assms(1) by (simp_all add: blobs_at_def)
  have real: "real_comp runID" "real_comp nm"
    using assms(2,3) safeName_real by (auto simp: Put_def nm_def blob_name_def real_comp_def split: if_splits option.splits)
  have "path_Join [path_Join [bl_dir b, runID], nm] = CHR ''/'' # str_join (ds @ [runID, nm]) ''/''"
    using path_Join_under [OF ds(1,2), of "[runID]"] path_Join_under [of "ds @ [runID]" "[nm]"] ds real by simp
  then have b': "b' = b\<lparr>bl_files := map_set (CHR ''/'' # str_join (ds @ [runID, nm]) ''/'') (RedactBytes (bl_redactor b) data) (bl_files b)\<rparr>"
    and ref: "ref = str_join [runID, nm] ''/''"
    using assms(2) path_Join_names [OF real] by (auto simp: Put_def nm_def [symmetric] Let_def split: if_splits option.splits)
  have at': "blobs_at ds b'" using assms(1) by (simp add: b' blobs_at_def)
  have "blob_Get cwd (path_Join [a, c]) b' = blob_Get cwd (path_Join [a, c]) b"
    if "safeName a" "safeName c" "path_Join [a, c] \<noteq> ref" for a c
  proof -
    have r: "real_comp a" "real_comp c" using that safeName_real by auto
    have ne: "str_join [a, c] ''/'' \<noteq> str_join [runID, nm] ''/''" using that(3) path_Join_names [OF r] ref by simp
    then have "str_join (ds @ [a, c]) ''/'' \<noteq> str_join (ds @ [runID, nm]) ''/''"
      using ds(2) by (simp add: str_join_append)
    then show ?thesis
      using resolve_names [OF at' r] resolve_names [OF assms(1) r] path_Join_names [OF r] by (simp add: blob_Get_def b')
  qed
  moreover have "blob_Get cwd ref b' = Inr (RedactBytes (bl_redactor b) data)"
    using resolve_names [OF at' real] by (simp add: blob_Get_def ref b')
  ultimately show ?thesis by blast
qed

definition demo_blobs :: blobs where
  "demo_blobs = \<lparr>bl_dir = ''/s/blobs'', bl_redactor = None, bl_files = []\<rparr>"

lemma demo_blobs_at: "blobs_at [''s'', ''blobs''] demo_blobs"
  by (simp add: blobs_at_def demo_blobs_def real_comp_def)

theorem blob_round_trip_witness:
  "blob_Get ''/'' ''r1/x-0f'' (fst (Put (\<lambda>_. ''0f'') None ''r1'' ''a b'' ''data'' demo_blobs)) = Inr ''data''"
proof -
  obtain b' ref where p: "Put (\<lambda>_. ''0f'') None ''r1'' ''a b'' ''data'' demo_blobs = (b', Inr ref)"
    by (auto simp: Put_def safeName_def is_alnum_def is_lower_def is_digit_def is_upper_def Let_def)
  have "ref = ''r1/x-0f''"
    using p path_Join_names [of "''r1''" "''x-0f''"]
    by (auto simp: Put_def blob_name_def safeName_def is_alnum_def is_lower_def is_digit_def is_upper_def Let_def real_comp_def)
  then show ?thesis using blob_round_trip [OF demo_blobs_at p, of "''/''"] p by (simp add: demo_blobs_def RedactBytes_def)
qed

text \<open>
  No reference, whatever it holds, reads a file outside the blob directory: the path a reference
  resolves to is that directory with names appended, none of them a step upwards.
\<close>

theorem blob_reference_confined:
  assumes "blobs_at ds b" "resolve_blob cwd ref b = Inr path"
  shows "\<exists>es. list_all real_comp es \<and> path = CHR ''/'' # str_join (ds @ es) ''/''"
proof -
  have ds: "list_all real_comp ds" "ds \<noteq> []" "bl_dir b = CHR ''/'' # str_join ds ''/''" using assms(1) by (simp_all add: blobs_at_def)
  have root: "path_Abs cwd (bl_dir b) = CHR ''/'' # str_join ds ''/''"
    using ds by (simp add: path_Abs_def IsAbs_slash Clean_real)
  obtain ts where ts: "list_all real_comp ts" "path_Join [CHR ''/'' # str_join ds ''/'', ref] = CHR ''/'' # str_join ts ''/''"
    using path_Join_abs [OF ds(1,2)] by blast
  have abs: "path_Abs cwd (CHR ''/'' # str_join ts ''/'') = CHR ''/'' # str_join ts ''/''"
    using Clean_real [OF ts(1)] by (simp add: path_Abs_def IsAbs_slash)
  have "path = CHR ''/'' # str_join ts ''/''" "\<not> (path_Rel (CHR ''/'' # str_join ds ''/'') path = ''..'' \<or>
      length (path_Rel (CHR ''/'' # str_join ds ''/'') path) \<ge> 3 \<and> take 3 (path_Rel (CHR ''/'' # str_join ds ''/'') path) = ''../'')"
    using assms(2) unfolding resolve_blob_def Let_def root ts(2) abs by (auto split: if_splits)
  then obtain es where "ts = ds @ es" using path_Rel_inside [OF ds(1) ts(1)] by blast
  then show ?thesis using \<open>path = _\<close> ts(1) by auto
qed

theorem blob_reference_confined_witness:
  "\<exists>es. list_all real_comp es \<and> CHR ''/'' # str_join [''s'', ''blobs'', ''r1'', ''a''] ''/'' = CHR ''/'' # str_join ([''s'', ''blobs''] @ es) ''/''"
proof -
  have "resolve_blob ''/'' (str_join [''r1'', ''a''] ''/'') demo_blobs = Inr (CHR ''/'' # str_join ([''s'', ''blobs''] @ [''r1'', ''a'']) ''/'')"
    by (rule resolve_names [OF demo_blobs_at]) (simp_all add: real_comp_def)
  from blob_reference_confined [OF demo_blobs_at this] show ?thesis by simp
qed

end
