(* ===== verification/FileLock.thy ===== *)
theory FileLock
  imports Coordinator Store
begin

text \<open>
  The single-host coordinator: \<open>run/filelock.go\<close> and the run lifecycle of \<open>run/run.go\<close>.  A lock is held
  by an open file description, of which each acquisition opens its own; what the lock file holds is
  only ever read to name the holder in a refusal.  The operating system's failures and the wall clock
  are the environment of a call.
\<close>

subsection \<open>State\<close>

record file_lock =
  fl_locked :: "nat gomap"
  fl_next :: nat
  fl_content :: "holder gomap"
  fl_dirs :: "string list"
  fl_store :: store

record fl_env =
  fe_fault :: "string option"
  fe_readable :: bool
  fe_writable :: bool
  fe_wall :: time

record file_claim =
  fc_name :: string
  fc_desc :: nat

subsection \<open>Taking and giving back the lock\<close>

definition playbookNamePattern :: "string \<Rightarrow> bool" where
  "playbookNamePattern s \<longleftrightarrow> (case s of [] \<Rightarrow> False
     | c # cs \<Rightarrow> (is_lower c \<or> is_digit c) \<and> length cs \<le> 62 \<and>
         list_all (\<lambda>c. is_lower c \<or> is_digit c \<or> c = CHR ''-'') cs)"

datatype lock_error = LockHeld | LockFault string

definition acquireLock :: "fl_env \<Rightarrow> string \<Rightarrow> file_lock \<Rightarrow> file_lock \<times> (lock_error, nat) result" where
  "acquireLock env name s =
     (case fe_fault env of
        Some why \<Rightarrow> (s, Inl (LockFault why))
      | None \<Rightarrow> if map_of (fl_locked s) name \<noteq> None then (s, Inl LockHeld)
          else (s\<lparr>fl_locked := map_set name (fl_next s) (fl_locked s), fl_next := fl_next s + 1\<rparr>, Inr (fl_next s)))"

definition releaseLock :: "string \<Rightarrow> nat \<Rightarrow> file_lock \<Rightarrow> file_lock" where
  "releaseLock name desc s =
     (if map_of (fl_locked s) name = Some desc then s\<lparr>fl_locked := map_del name (fl_locked s)\<rparr> else s)"

definition claim :: "fl_env \<Rightarrow> string \<Rightarrow> file_lock \<Rightarrow> file_lock \<times> (lock_error, file_claim) result" where
  "claim env name s =
     (if \<not> playbookNamePattern name then (s, Inl (LockFault ''the playbook name does not match the pattern''))
      else (case acquireLock env name s of
          (s', Inl e) \<Rightarrow> (s', Inl e)
        | (s', Inr desc) \<Rightarrow> (s', Inr \<lparr>fc_name = name, fc_desc = desc\<rparr>)))"

definition unclaim :: "file_claim \<Rightarrow> file_lock \<Rightarrow> file_lock" where
  "unclaim h s = releaseLock (fc_name h) (fc_desc h) s"

definition InFlight :: "fl_env \<Rightarrow> string \<Rightarrow> file_lock \<Rightarrow> file_lock \<times> bool" where
  "InFlight env name s = (case acquireLock env name s of
     (s', Inl _) \<Rightarrow> (s', True)
   | (s', Inr desc) \<Rightarrow> (releaseLock name desc s', False))"

subsection \<open>The coordinator\<close>

definition lock_held :: "fl_env \<Rightarrow> string \<Rightarrow> file_lock \<Rightarrow> coord_error" where
  "lock_held env name s =
     (if \<not> fe_readable env then AlreadyRunning None
      else case map_of (fl_content s) name of
        None \<Rightarrow> AlreadyRunning None
      | Some h \<Rightarrow> if RunID h = [] then AlreadyRunning None else AlreadyRunning (Some h))"

definition lock_record :: "fl_env \<Rightarrow> file_claim \<Rightarrow> holder \<Rightarrow> file_lock \<Rightarrow> file_lock" where
  "lock_record env h holder' s =
     (if fe_writable env then s\<lparr>fl_content := map_set (fc_name h) holder' (fl_content s)\<rparr> else s)"

definition lock_tick :: "acquire_request \<Rightarrow> file_lock \<Rightarrow> file_lock \<times> coord_error option" where
  "lock_tick req s =
     (case LastTick (Name req) (fl_store s) of
        Inl _ \<Rightarrow> (s, Some (Unavailable ''reading the last tick''))
      | Inr last' \<Rightarrow>
          let write = (case SetLastTick (Name req) \<lparr>tick_DueAt = DueAt (Trigger req), tick_Host = Host (Holder req),
                  tick_Instance = Instance (Holder req), tick_RunID = RunID (Holder req)\<rparr> (fl_store s) of
                (st, Inl _) \<Rightarrow> (s\<lparr>fl_store := st\<rparr>, Some (Unavailable ''writing the last tick''))
              | (st, Inr _) \<Rightarrow> (s\<lparr>fl_store := st\<rparr>, None))
          in case last' of
               None \<Rightarrow> write
             | Some t \<Rightarrow> if \<not> DueAt (Trigger req) > tick_DueAt t
                 then (s, Some (TickRan (tick_DueAt t) \<lparr>Host = tick_Host t, Instance = tick_Instance t, RunID = tick_RunID t\<rparr>))
                 else write)"

definition lock_rate :: "fl_env \<Rightarrow> acquire_request \<Rightarrow> file_lock \<Rightarrow> file_lock \<times> coord_error option" where
  "lock_rate env req s =
     (case Rate req of
        None \<Rightarrow> (s, None)
      | Some limit \<Rightarrow>
          if int (CountRateStarts (Name req) (fe_wall env - Per limit) (fl_store s)) \<ge> Runs limit
          then (s, Some (RateLimited limit))
          else (s\<lparr>fl_store := RecordRateStart (Name req) (RunID (Holder req)) (fe_wall env) (fl_store s)\<rparr>, None))"

definition FileLock_Acquire :: "fl_env \<Rightarrow> acquire_request \<Rightarrow> file_lock \<Rightarrow> file_lock \<times> (coord_error, file_claim) result" where
  "FileLock_Acquire env req s =
     (case request_Check req of
        Some e \<Rightarrow> (s, Inl e)
      | None \<Rightarrow> (case claim env (Name req) s of
            (s0, Inl LockHeld) \<Rightarrow> (s0, Inl (lock_held env (Name req) s0))
          | (s0, Inl (LockFault why)) \<Rightarrow> (s0, Inl (Unavailable why))
          | (s0, Inr taken) \<Rightarrow>
              let s1 = lock_record env taken (Holder req) s0 in
              (case (if scheduled req then lock_tick req s1 else (s1, None)) of
                 (s2, Some e) \<Rightarrow> (unclaim taken s2, Inl e)
               | (s2, None) \<Rightarrow> (case lock_rate env req s2 of
                     (s3, Some e) \<Rightarrow> (unclaim taken s3, Inl e)
                   | (s3, None) \<Rightarrow> (s3, Inr taken)))))"

text \<open>The claim: nothing to renew or fence, no token and no expiry; a release gives the lock back once.\<close>

definition fileClaim_Token :: "file_claim \<Rightarrow> int" where "fileClaim_Token c = 0"
definition fileClaim_Expiry :: "file_claim \<Rightarrow> duration" where "fileClaim_Expiry c = 0"
definition fileClaim_Renew :: "file_claim \<Rightarrow> coord_error option" where "fileClaim_Renew c = None"
definition fileClaim_Fence :: "file_claim \<Rightarrow> coord_error option" where "fileClaim_Fence c = None"
definition fileClaim_Release :: "file_claim \<Rightarrow> file_lock \<Rightarrow> file_lock" where "fileClaim_Release c s = unclaim c s"
definition FileLock_Reach :: reach where "FileLock_Reach = ReachSingleHost"

subsection \<open>A run's beginning and end\<close>

record claimed =
  cl_RunID :: string
  cl_PlaybookName :: string
  cl_Reach :: string
  cl_Token :: "int option"
  cl_WaitingTriggerID :: string
  cl_WaitedMS :: int

definition run_record :: "time \<Rightarrow> claimed \<Rightarrow> trigger_kind \<Rightarrow> string \<Rightarrow> run_row" where
  "run_record now c kind parent = \<lparr>run_ID = cl_RunID c, run_PlaybookName = cl_PlaybookName c, ResolvedPlaybookRef = [],
     ReportRef = [], PromptRef = [], run_TriggerKind = kind, ParentRunID = parent, run_Status = StatusRunning,
     StartedAt = now, EndedAt = zero_time, CostUSD = 0, Tokens = 0, AgentSessionID = [], CredentialSource = [],
     run_Error = [], run_WaitingTriggerID = cl_WaitingTriggerID c, WaitedMS = cl_WaitedMS c, ClaimReach = cl_Reach c,
     ClaimToken = (case cl_Token c of None \<Rightarrow> 0 | Some t \<Rightarrow> t), run_DeliveryID = []\<rparr>"

datatype begin_error = WorkDirFailed string | BeginRecord store_error

definition Begin ::
  "string option \<Rightarrow> time \<Rightarrow> claimed \<Rightarrow> trigger_kind \<Rightarrow> string \<Rightarrow> file_lock \<Rightarrow> file_lock \<times> (begin_error, run_row) result" where
  "Begin mkdir now c kind parent s =
     (case mkdir of
        Some why \<Rightarrow> (s, Inl (WorkDirFailed why))
      | None \<Rightarrow>
          let row = run_record now c kind parent; dirs = cl_RunID c # removeAll (cl_RunID c) (fl_dirs s) in
          (case CreateRun now row (fl_store s) of
             (st, Inl e) \<Rightarrow> (s\<lparr>fl_store := st, fl_dirs := removeAll (cl_RunID c) dirs\<rparr>, Inl (BeginRecord e))
           | (st, Inr _) \<Rightarrow> (s\<lparr>fl_store := st, fl_dirs := dirs\<rparr>, Inr row)))"

text \<open>The end of a run gives back whatever claim it holds, through the claim's own \<open>Release\<close>.\<close>

definition Finish ::
  "time \<Rightarrow> string \<Rightarrow> (file_lock \<Rightarrow> file_lock) \<Rightarrow> run_row \<Rightarrow> file_lock \<Rightarrow> file_lock \<times> store_error option" where
  "Finish now runID release outcome0 s =
     (let outcome1 = outcome0\<lparr>run_ID := runID\<rparr>;
          outcome = (if is_zero (EndedAt outcome1) then outcome1\<lparr>EndedAt := now\<rparr> else outcome1) in
      (case FinishRun outcome (fl_store s) of
         (st, r) \<Rightarrow> (release (s\<lparr>fl_store := st, fl_dirs := removeAll runID (fl_dirs s)\<rparr>),
                    case r of Inl e \<Rightarrow> Some e | Inr _ \<Rightarrow> None)))"

subsection \<open>The laws of the contract\<close>

definition fl_live :: "file_lock \<Rightarrow> string \<Rightarrow> bool" where
  "fl_live s n \<longleftrightarrow> map_of (fl_locked s) n \<noteq> None"

definition fl_last_tick :: "file_lock \<Rightarrow> string \<Rightarrow> time option" where
  "fl_last_tick s n = map_option tick_DueAt (map_of (st_last_ticks (fl_store s)) n)"

definition fl_evolves :: "file_lock \<Rightarrow> file_lock \<Rightarrow> bool" where
  "fl_evolves s s' \<longleftrightarrow> (\<forall>n t. fl_last_tick s n = Some t \<longrightarrow> (\<exists>t'. fl_last_tick s' n = Some t' \<and> t \<le> t'))"

lemma claim_Inr:
  "claim env name s = (s', Inr c) \<Longrightarrow> c = \<lparr>fc_name = name, fc_desc = fl_next s\<rparr> \<and> \<not> fl_live s name \<and>
     s' = s\<lparr>fl_locked := map_set name (fl_next s) (fl_locked s), fl_next := fl_next s + 1\<rparr>"
  by (auto simp: claim_def acquireLock_def fl_live_def split: if_splits option.splits prod.splits sum.splits)

lemma claim_Inl: "claim env name s = (s', Inl e) \<Longrightarrow> s' = s"
  by (auto simp: claim_def acquireLock_def split: if_splits option.splits prod.splits sum.splits)

lemma lock_record_keeps [simp]:
  "fl_store (lock_record env h x s) = fl_store s" "fl_locked (lock_record env h x s) = fl_locked s"
  "fl_last_tick (lock_record env h x s) = fl_last_tick s"
  by (simp_all add: lock_record_def fl_last_tick_def fun_eq_iff)

lemma unclaim_keeps [simp]:
  "fl_store (unclaim h s) = fl_store s" "fl_last_tick (unclaim h s) = fl_last_tick s"
  by (simp_all add: unclaim_def releaseLock_def fl_last_tick_def fun_eq_iff)

lemma lock_tick_spec:
  assumes "lock_tick req s = (s', r)"
  shows "fl_locked s' = fl_locked s" "fl_evolves s s'"
    "r = None \<Longrightarrow> fl_last_tick s' (Name req) = Some (DueAt (Trigger req)) \<and>
       (\<forall>t. fl_last_tick s (Name req) = Some t \<longrightarrow> t < DueAt (Trigger req))"
  using assms
  by (auto simp: lock_tick_def LastTick_def SetLastTick_def fl_last_tick_def fl_evolves_def Let_def
      split: option.splits if_splits)

lemma lock_rate_spec:
  assumes "lock_rate env req s = (s', r)"
  shows "fl_locked s' = fl_locked s" "fl_last_tick s' = fl_last_tick s"
  using assms
  by (auto simp: lock_rate_def RecordRateStart_def fl_last_tick_def fun_eq_iff split: option.splits if_splits)

lemma fl_evolves_refl: "fl_evolves s s"
  by (auto simp: fl_evolves_def)

lemma fl_evolves_trans: "fl_evolves s s1 \<Longrightarrow> fl_evolves s1 s2 \<Longrightarrow> fl_evolves s s2"
  unfolding fl_evolves_def by (meson order_trans)

lemma fl_evolves_ticks: "fl_evolves s s1 \<Longrightarrow> fl_last_tick s2 = fl_last_tick s1 \<Longrightarrow> fl_evolves s s2"
  by (simp add: fl_evolves_def)

text \<open>The stages of an acquisition that got the lock.\<close>

lemma Acquire_cases:
  assumes "FileLock_Acquire env req s = (s', r)"
  obtains (early) why where "s' = s" "r = Inl (Malformed why) \<or> r = Inl (Unavailable why)"
  | (contended) "s' = s" "r = Inl (lock_held env (Name req) s)" "fl_live s (Name req)"
  | (taken) s0 s1 s2 c t where "claim env (Name req) s = (s0, Inr c)" "s1 = lock_record env c (Holder req) s0"
      "(if scheduled req then lock_tick req s1 else (s1, None)) = (s2, t)"
      "(s', r) = (case t of Some e \<Rightarrow> (unclaim c s2, Inl e) | None \<Rightarrow> (case lock_rate env req s2 of
         (s3, Some e) \<Rightarrow> (unclaim c s3, Inl e) | (s3, None) \<Rightarrow> (s3, Inr c)))"
proof (cases "request_Check req")
  case (Some e)
  then obtain why where "s' = s" "r = Inl (Malformed why)"
    using assms by (auto simp: FileLock_Acquire_def request_Check_def split: if_splits)
  then show ?thesis by (intro early) simp_all
next
  case None
  obtain s0 cr where cl: "claim env (Name req) s = (s0, cr)" by fastforce
  show ?thesis
  proof (cases cr)
    case (Inl e)
    have s0: "s0 = s" using claim_Inl cl Inl by blast
    show ?thesis
    proof (cases e)
      case LockHeld
      have "fl_live s (Name req)"
        using cl Inl LockHeld by (auto simp: claim_def acquireLock_def fl_live_def split: if_splits option.splits prod.splits sum.splits)
      moreover have "s' = s" "r = Inl (lock_held env (Name req) s)"
        using assms None cl Inl LockHeld s0 by (auto simp: FileLock_Acquire_def)
      ultimately show ?thesis using contended by blast
    next
      case (LockFault why)
      then show ?thesis using early [of why] assms None cl Inl s0 by (simp add: FileLock_Acquire_def)
    qed
  next
    case (Inr c)
    obtain s2 t where st: "(if scheduled req then lock_tick req (lock_record env c (Holder req) s0)
        else (lock_record env c (Holder req) s0, None)) = (s2, t)" by fastforce
    have "(s', r) = (case t of Some e \<Rightarrow> (unclaim c s2, Inl e) | None \<Rightarrow> (case lock_rate env req s2 of
         (s3, Some e) \<Rightarrow> (unclaim c s3, Inl e) | (s3, None) \<Rightarrow> (s3, Inr c)))"
      using assms None cl Inr st by (simp add: FileLock_Acquire_def Let_def split: option.splits)
    then show ?thesis using taken cl Inr st by blast
  qed
qed

lemma Acquire_taken:
  assumes "claim env (Name req) s = (s0, Inr c)"
    and "(if scheduled req then lock_tick req (lock_record env c h s0) else (lock_record env c h s0, None)) = (s2, t)"
  shows "fl_evolves s s2" "fl_locked s2 = map_set (Name req) (fl_next s) (fl_locked s)"
    "c = \<lparr>fc_name = Name req, fc_desc = fl_next s\<rparr>"
    "t = None \<Longrightarrow> scheduled req \<Longrightarrow> fl_last_tick s2 (Name req) = Some (DueAt (Trigger req)) \<and>
       (\<forall>u. fl_last_tick s (Name req) = Some u \<longrightarrow> u < DueAt (Trigger req))"
    "\<not> scheduled req \<Longrightarrow> t = None \<and> fl_last_tick s2 = fl_last_tick s"
proof -
  note c = claim_Inr [OF assms(1)]
  have s1: "fl_last_tick (lock_record env c h s0) = fl_last_tick s" "fl_locked (lock_record env c h s0) = map_set (Name req) (fl_next s) (fl_locked s)"
    using c by (simp_all add: fl_last_tick_def fun_eq_iff lock_record_def)
  have ev: "fl_evolves (lock_record env c h s0) s2" using assms(2) lock_tick_spec(2) fl_evolves_refl by (auto split: if_splits)
  then show "fl_evolves s s2" using s1 by (simp add: fl_evolves_def)
  show "fl_locked s2 = map_set (Name req) (fl_next s) (fl_locked s)"
    using assms(2) s1 lock_tick_spec(1) by (auto split: if_splits)
  show "c = \<lparr>fc_name = Name req, fc_desc = fl_next s\<rparr>" using c by blast
  show "t = None \<Longrightarrow> scheduled req \<Longrightarrow> fl_last_tick s2 (Name req) = Some (DueAt (Trigger req)) \<and>
       (\<forall>u. fl_last_tick s (Name req) = Some u \<longrightarrow> u < DueAt (Trigger req))"
    using assms(2) lock_tick_spec(3) s1 by (auto split: if_splits)
  show "\<not> scheduled req \<Longrightarrow> t = None \<and> fl_last_tick s2 = fl_last_tick s" using assms(2) s1 by simp
qed

interpretation fl: coordinator FileLock_Acquire "\<lambda>_. True" "\<lambda>_. True" fl_evolves fl_live fl_last_tick
proof
  fix env req s s' r c
  show "fl_evolves s s" by (rule fl_evolves_refl)
  show "fl_evolves s s'" if "FileLock_Acquire env req s = (s', r)"
    using that
  proof (cases rule: Acquire_cases)
    case (taken s0 s1 s2 c t)
    note k = Acquire_taken [OF taken(1) taken(3) [unfolded taken(2)]]
    have "fl_last_tick s' = fl_last_tick s2"
      using taken(4) lock_rate_spec(2) by (auto split: option.splits prod.splits)
    then show ?thesis using k(1) fl_evolves_ticks by blast
  qed (simp_all add: fl_evolves_refl)
  show "\<exists>s1. fl_evolves s s1 \<and> \<not> fl_live s1 (Name req) \<and> fl_live s' (Name req) \<and>
      (scheduled req \<longrightarrow> (\<forall>t. fl_last_tick s1 (Name req) = Some t \<longrightarrow> t < DueAt (Trigger req)) \<and>
         fl_last_tick s' (Name req) = Some (DueAt (Trigger req)))"
    if "FileLock_Acquire env req s = (s', Inr c)"
    using that
  proof (cases rule: Acquire_cases)
    case (taken s0 s1 s2 c t)
    note k = Acquire_taken [OF taken(1) taken(3) [unfolded taken(2)]]
    have t: "t = None" and r: "lock_rate env req s2 = (s', None)"
      using taken(4) by (auto split: option.splits prod.splits)
    have "fl_live s' (Name req)" using lock_rate_spec(1) [OF r] k(2) by (simp add: fl_live_def)
    moreover have "\<not> fl_live s (Name req)" using claim_Inr [OF taken(1)] by blast
    ultimately show ?thesis using k(4) [OF t] lock_rate_spec(2) [OF r] fl_evolves_refl by auto
  qed simp_all
qed (use fl_evolves_trans in blast, simp, auto simp: fl_evolves_def)

subsection \<open>Properties\<close>

text \<open>
  On one host a tick runs at most once.  In any history of acquisitions, refusals and other
  changes that keep the recorded ticks, the scheduled claims that were granted on one playbook name
  have strictly increasing due instants.
\<close>

theorem FileLock_tick_runs_once:
  assumes "history FileLock_Acquire (\<lambda>_. True) fl_evolves s tr s'"
  shows "sorted_wrt (\<lambda>(q, c) (q', c'). scheduled q \<and> scheduled q' \<and> Name q = Name q' \<longrightarrow>
     DueAt (Trigger q) < DueAt (Trigger q')) tr"
  by (rule fl.ticks_increase [OF assms]) simp

text \<open>The witness state of these properties: one playbook, started once in the window.\<close>

definition demo_lock :: file_lock where
  "demo_lock = \<lparr>fl_locked = [], fl_next = 0, fl_content = [], fl_dirs = [],
     fl_store = (empty_store None)\<lparr>st_rate_starts := [(''sweep'', ''r0'', 95)]\<rparr>\<rparr>"

definition demo_env :: fl_env where
  "demo_env = \<lparr>fe_fault = None, fe_readable = True, fe_writable = True, fe_wall = 100\<rparr>"

definition demo_request :: "rate_limit option \<Rightarrow> acquire_request" where
  "demo_request limit = \<lparr>Name = ''sweep'', Holder = \<lparr>Host = ''h'', Instance = ''i'', RunID = ''r1''\<rparr>, Expiry = 30 * second,
     Rate = limit, Trigger = \<lparr>Kind = KindSchedule, DueAt = 90\<rparr>\<rparr>"

lemmas filelock_eval = demo_lock_def demo_env_def demo_request_def FileLock_Acquire_def request_Check_def claim_def
  acquireLock_def playbookNamePattern_def is_lower_def is_digit_def less_eq_char_def lock_record_def scheduled_def
  lock_tick_def LastTick_def SetLastTick_def lock_rate_def CountRateStarts_def RecordRateStart_def rows_where_def
  empty_store_def is_zero_def zero_time_def Redact_def Let_def unclaim_def releaseLock_def lock_held_def

lemma demo_granted:
  "snd (FileLock_Acquire demo_env (demo_request None) demo_lock) = Inr \<lparr>fc_name = ''sweep'', fc_desc = 0\<rparr>"
  by (simp add: filelock_eval)

theorem FileLock_tick_runs_once_witness:
  "\<exists>s'. history FileLock_Acquire (\<lambda>_. True) fl_evolves demo_lock [(demo_request None, \<lparr>fc_name = ''sweep'', fc_desc = 0\<rparr>)] s' \<and>
     sorted_wrt (\<lambda>(q, c) (q', c'). DueAt (Trigger q) < DueAt (Trigger q')) [(demo_request None, \<lparr>fc_name = ''sweep'', fc_desc = 0\<rparr>)]"
proof -
  let ?s' = "fst (FileLock_Acquire demo_env (demo_request None) demo_lock)"
  have "FileLock_Acquire demo_env (demo_request None) demo_lock = (?s', Inr \<lparr>fc_name = ''sweep'', fc_desc = 0\<rparr>)"
    using demo_granted by (metis prod.collapse)
  then have h: "history FileLock_Acquire (\<lambda>_. True) fl_evolves demo_lock ([] @ [(demo_request None, \<lparr>fc_name = ''sweep'', fc_desc = 0\<rparr>)]) ?s'"
    by (intro history.grant [OF history.start]) simp_all
  from FileLock_tick_runs_once [OF h] h show ?thesis by auto
qed



text \<open>
  The rate window bounds the runs.  An acquisition that is granted under a limit leaves at most
  as many starts of the playbook in the window ending now as the limit allows, its own included; when
  the window is full the acquisition is refused.
\<close>

theorem FileLock_rate_bounds_starts:
  assumes "FileLock_Acquire env req s = (s', Inr c)" "Rate req = Some limit"
  shows "int (CountRateStarts (Name req) (fe_wall env - Per limit) (fl_store s')) \<le> Runs limit \<and>
     int (CountRateStarts (Name req) (fe_wall env - Per limit) (fl_store s)) < Runs limit"
  using assms(1)
proof (cases rule: Acquire_cases)
  case (taken s0 s1 s2 c' t)
  have t: "t = None" and r: "lock_rate env req s2 = (s', None)"
    using taken(4) by (auto simp: split: option.splits prod.splits)
  have "st_rate_starts (fl_store s1) = st_rate_starts (fl_store s)" "st_redactor (fl_store s1) = st_redactor (fl_store s)"
    using claim_Inr [OF taken(1)] by (auto simp: taken(2))
  moreover have "st_rate_starts (fl_store s2) = st_rate_starts (fl_store s1) \<and> st_redactor (fl_store s2) = st_redactor (fl_store s1)"
    using taken(3) by (auto simp: lock_tick_def SetLastTick_def Let_def split: if_splits sum.splits option.splits)
  ultimately have same: "CountRateStarts (Name req) x (fl_store s2) = CountRateStarts (Name req) x (fl_store s)" for x
    by (simp add: CountRateStarts_def)
  have lt: "int (CountRateStarts (Name req) (fe_wall env - Per limit) (fl_store s2)) < Runs limit"
    and s': "fl_store s' = RecordRateStart (Name req) (RunID (Holder req)) (fe_wall env) (fl_store s2)"
    using r assms(2) by (auto simp: lock_rate_def split: if_splits)
  have "CountRateStarts (Name req) x (fl_store s') \<le> Suc (CountRateStarts (Name req) x (fl_store s2))" for x
    by (simp add: s' CountRateStarts_def RecordRateStart_def rows_where_append) (simp add: rows_where_def)
  from this [of "fe_wall env - Per limit"] lt same show ?thesis by simp
qed simp_all

theorem FileLock_rate_bounds_starts_witness:
  "CountRateStarts ''sweep'' 40 (fl_store (fst (FileLock_Acquire demo_env (demo_request (Some \<lparr>Runs = 2, Per = 60\<rparr>)) demo_lock))) \<le> 2"
proof -
  let ?r = "FileLock_Acquire demo_env (demo_request (Some \<lparr>Runs = 2, Per = 60\<rparr>)) demo_lock"
  have "snd ?r = Inr \<lparr>fc_name = ''sweep'', fc_desc = 0\<rparr>" by (simp add: filelock_eval)
  then have "?r = (fst ?r, Inr \<lparr>fc_name = ''sweep'', fc_desc = 0\<rparr>)" by (metis prod.collapse)
  from FileLock_rate_bounds_starts [OF this] show ?thesis by (simp add: demo_request_def demo_env_def)
qed

text \<open>
  A scheduled trigger that the rate limit refuses has spent its tick: the file lock writes the
  last tick before it looks at the window, so although nothing ran, the same tick is never granted
  again.  The contract says that the claim, the slot and the tick are taken together or not at all.
\<close>

theorem FileLock_rate_refusal_spends_tick:
  assumes "FileLock_Acquire env req s = (s', Inl (RateLimited limit))" "scheduled req"
  shows "fl_last_tick s' (Name req) = Some (DueAt (Trigger req)) \<and>
     snd (FileLock_Acquire env' req s') \<noteq> Inr c"
  using assms(1)
proof (cases rule: Acquire_cases)
  case contended
  then show ?thesis by (simp add: lock_held_def split: if_splits option.splits)
next
  case (taken s0 s1 s2 c' t)
  note k = Acquire_taken [OF taken(1) taken(3) [unfolded taken(2)]]
  have t: "t = None"
    using taken(3,4) assms(2) by (auto simp: lock_tick_def Let_def split: option.splits prod.splits if_splits sum.splits)
  then obtain s3 where r: "lock_rate env req s2 = (s3, Some (RateLimited limit))" "s' = unclaim c' s3"
    using taken(4) by (auto split: option.splits prod.splits)
  have tick: "fl_last_tick s' (Name req) = Some (DueAt (Trigger req))"
    using k(4) [OF t assms(2)] lock_rate_spec(2) [OF r(1)] r(2) by simp
  have "snd (FileLock_Acquire env' req s') \<noteq> Inr c" for c
  proof
    assume "snd (FileLock_Acquire env' req s') = Inr c"
    then have "FileLock_Acquire env' req s' = (fst (FileLock_Acquire env' req s'), Inr c)" by (metis prod.collapse)
    from this show False
    proof (cases rule: Acquire_cases)
      case (taken s0' s1' s2' c'' t')
      have t': "t' = None" using taken(4) by (auto split: option.splits prod.splits)
      from Acquire_taken(4) [OF taken(1) taken(3) [unfolded taken(2)] t' assms(2)] tick show False by auto
    qed simp_all
  qed
  with tick show ?thesis by simp
qed simp

theorem FileLock_rate_refusal_spends_tick_witness:
  "snd (FileLock_Acquire demo_env (demo_request (Some \<lparr>Runs = 1, Per = 60\<rparr>)) demo_lock) = Inl (RateLimited \<lparr>Runs = 1, Per = 60\<rparr>) \<and>
   fl_last_tick (fst (FileLock_Acquire demo_env (demo_request (Some \<lparr>Runs = 1, Per = 60\<rparr>)) demo_lock)) ''sweep'' = Some 90"
proof -
  let ?r = "FileLock_Acquire demo_env (demo_request (Some \<lparr>Runs = 1, Per = 60\<rparr>)) demo_lock"
  have e: "snd ?r = Inl (RateLimited \<lparr>Runs = 1, Per = 60\<rparr>)" by (simp add: filelock_eval)
  then have "?r = (fst ?r, Inl (RateLimited \<lparr>Runs = 1, Per = 60\<rparr>))" by (metis prod.collapse)
  from FileLock_rate_refusal_spends_tick [OF this] e show ?thesis by (simp add: demo_request_def scheduled_def)
qed

text \<open>
  A working directory does not outlive its run.  A beginning that fails leaves no directory
  behind, and the end of a run removes its directory and gives its lock back whether or not the
  outcome could be recorded.
\<close>

theorem Finish_always_cleans_up:
  "(case Begin mkdir now c kind parent s of
      (s', Inl _) \<Rightarrow> set (fl_dirs s') \<subseteq> set (fl_dirs s)
    | (s', Inr row) \<Rightarrow> run_ID row \<in> set (fl_dirs s') \<and> set (fl_dirs s') \<subseteq> insert (run_ID row) (set (fl_dirs s))) \<and>
   (case Finish now runID (fileClaim_Release h) outcome s of
      (s', _) \<Rightarrow> runID \<notin> set (fl_dirs s') \<and> map_of (fl_locked s') (fc_name h) \<noteq> Some (fc_desc h))"
  by (auto simp: Begin_def Finish_def run_record_def fileClaim_Release_def unclaim_def releaseLock_def Let_def
      split: option.splits prod.splits sum.splits)

end
