(* ===== verification/Executor.thy ===== *)
theory Executor
  imports Guard Sink Rows FileLock
begin

text \<open>
  One run from its claim to its end: \<open>run/execute.go\<close> and \<open>run/replay.go\<close>.  The claim is the file
  lock's, the record is the store with its rows and blobs, and the hold, the sinks and the admission
  are those of their own theories.  What a child process does is a parameter: the gather steps, the
  retrieve stage and the agent are functions of what they are given; so are the encoder of a playbook,
  the validator of a report and the failures of the file system.  The renewal loop decides beside the
  run; when it does is the parameter \<open>ev_lost\<close>, read at the two places the code looks.
\<close>

subsection \<open>What a run meets\<close>

record gather_result =
  gr_Name :: string
  gr_Bytes :: nat
  gr_Truncated :: bool
  gr_ExitCode :: int
  gr_Stderr :: string
  gr_file :: "(string, string) result"

record gather_step =
  gs_Run :: string
  gs_As :: string
  gs_Env :: "string list"

record retrieved =
  rd_Record :: retrieval_row
  rd_Results :: "string option"
  rd_Contents :: "string list"

record stage_call =
  sc_Name :: string
  sc_Input :: string
  sc_Output :: string
  sc_StartedAt :: time
  sc_Outcome :: string

record stage_result =
  sg_Cost :: int
  sg_Tokens :: int
  sg_Denials :: "(string \<times> string) list"

record stage =
  sg_Raw :: string
  sg_Init :: "(string \<times> string) option"
  sg_Result :: "stage_result option"
  sg_Calls :: "stage_call list"
  sg_Aborted :: "string option"
  sg_TimedOut :: bool
  sg_DecodeErr :: "string option"
  sg_Report :: "(string, string) result"

record agent_options =
  ao_Prompt :: string
  ao_Timeout :: duration
  ao_Servers :: "string gomap"
  ao_Files :: "string gomap"

record exec_env =
  ev_config :: config
  ev_parse :: "string \<Rightarrow> duration option"
  ev_problems :: "ref_problem list \<Rightarrow> string"
  ev_digest :: "string \<Rightarrow> string"
  ev_put_fault :: "string \<Rightarrow> string option"
  ev_write_fault :: "string \<Rightarrow> string option"
  ev_playbook_json :: "playbook \<Rightarrow> (string, string) result"
  ev_trigger_json :: "string gomap \<Rightarrow> (string, string) result"
  ev_gather :: "gather_step list \<Rightarrow> gather_result list \<times> string option"
  ev_retrieve :: "(retrieval list \<Rightarrow> string gomap \<Rightarrow> retrieved list \<times> string option) option"
  ev_prompt :: "string \<Rightarrow> (string, string) result"
  ev_catalog :: "(string \<Rightarrow> (string, string) result) option"
  ev_agent :: "agent_options \<Rightarrow> (string, stage) result"
  ev_validate :: "string \<Rightarrow> yaml \<Rightarrow> string option"
  ev_sink :: sink_env
  ev_int_of_float :: "string \<Rightarrow> int"
  ev_fence :: "nat \<Rightarrow> coord_error option"
  ev_message :: "coord_error \<Rightarrow> string"
  ev_lost :: "nat \<Rightarrow> string option"
  ev_cwd :: string
  ev_mkdir :: "string option"
  ev_duration :: "duration \<Rightarrow> string"
  ev_reach :: string
  ev_build_text :: "(nat \<times> build_problem) list \<Rightarrow> string"
  ev_now :: time

subsection \<open>The state of a run\<close>

text \<open>
  The claim a run holds, by the methods the executor calls on it: the file lock's, or one of a backend
  whose state is elsewhere.  What \<open>Renew\<close> and \<open>Fence\<close> answer is part of what the run meets.
\<close>

record run_claim =
  rc_Token :: int
  rc_Expiry :: duration
  rc_Release :: "file_lock \<Rightarrow> file_lock"

definition of_file_claim :: "file_claim \<Rightarrow> run_claim" where
  "of_file_claim c = \<lparr>rc_Token = fileClaim_Token c, rc_Expiry = fileClaim_Expiry c, rc_Release = fileClaim_Release c\<rparr>"

datatype exec_event = GatherRan | RetrieveRan | Fenced bool | AgentRan | SinksAsked

record exec =
  x_lock :: file_lock
  x_instances :: instances
  x_rows :: rows
  x_blobs :: blobs
  x_work :: "string gomap"
  x_net :: net
  x_hold :: "run_claim hold"
  x_renewing :: bool
  x_fences :: nat
  x_events :: "exec_event list"
  x_incomplete :: "string list"
  x_outcome :: run_row

definition blank_run :: run_row where
  "blank_run = \<lparr>run_ID = [], run_PlaybookName = [], ResolvedPlaybookRef = [], ReportRef = [], PromptRef = [],
     run_TriggerKind = TriggerManual, ParentRunID = [], run_Status = StatusFailed, StartedAt = zero_time,
     EndedAt = zero_time, CostUSD = 0, Tokens = 0, AgentSessionID = [], CredentialSource = [], run_Error = [],
     run_WaitingTriggerID = [], WaitedMS = 0, ClaimReach = [], ClaimToken = 0, run_DeliveryID = []\<rparr>"

definition set_status :: "status \<Rightarrow> string \<Rightarrow> exec \<Rightarrow> exec" where
  "set_status st why x = x\<lparr>x_outcome := (x_outcome x)\<lparr>run_Status := st, run_Error := why\<rparr>\<rparr>"

definition event :: "exec_event \<Rightarrow> exec \<Rightarrow> exec" where
  "event e x = x\<lparr>x_events := x_events x @ [e]\<rparr>"

definition problems_note :: "string option \<Rightarrow> exec \<Rightarrow> exec" where
  "problems_note err x = (case err of None \<Rightarrow> x | Some e \<Rightarrow> x\<lparr>x_incomplete := x_incomplete x @ [e]\<rparr>)"

definition store_error_text :: "store_error \<Rightarrow> string" where
  "store_error_text e = (case e of ConstraintFailed i \<Rightarrow> ''constraint failed: '' @ i | NotFound i \<Rightarrow> ''not found: '' @ i | _ \<Rightarrow> ''record'')"

definition blob_error_text :: "blob_error \<Rightarrow> string" where
  "blob_error_text e = (case e of BadRunID i \<Rightarrow> ''run id '' @ i @ '' cannot name a directory'' | BlobWrite d \<Rightarrow> ''writing blob: '' @ d
     | OutsideBlobs r \<Rightarrow> ''blob reference '' @ r @ '' resolves outside the blob directory'' | BlobMissing r \<Rightarrow> ''no blob '' @ r)"

text \<open>A blob whose failure is noted, and a row whose failure is noted.\<close>

definition put_blob :: "exec_env \<Rightarrow> string \<Rightarrow> string \<Rightarrow> string \<Rightarrow> exec \<Rightarrow> exec \<times> string" where
  "put_blob env runID name data x =
     (case Put (ev_digest env) (ev_put_fault env name) runID name data (x_blobs x) of
        (b, Inl e) \<Rightarrow> (problems_note (Some (blob_error_text e)) (x\<lparr>x_blobs := b\<rparr>), [])
      | (b, Inr ref) \<Rightarrow> (x\<lparr>x_blobs := b\<rparr>, ref))"

definition add_row :: "(store \<Rightarrow> rows \<Rightarrow> rows \<times> store_error option) \<Rightarrow> exec \<Rightarrow> exec" where
  "add_row add x = (case add (fl_store (x_lock x)) (x_rows x) of
     (w, err) \<Rightarrow> problems_note (map_option store_error_text err) (x\<lparr>x_rows := w\<rparr>))"

definition joinReasons :: "string \<Rightarrow> string \<Rightarrow> string" where
  "joinReasons first second' = (if first = [] then second' else first @ ''; '' @ second')"

definition finished :: "string \<Rightarrow> exec \<Rightarrow> exec" where
  "finished runID x =
     (let out = (x_outcome x)\<lparr>run_ID := runID\<rparr> in
      if x_incomplete x = [] then x\<lparr>x_outcome := out\<rparr>
      else x\<lparr>x_outcome := out\<lparr>run_Status := (if run_Status out = StatusSucceeded then StatusFailed else run_Status out),
          run_Error := joinReasons (run_Error out) (''the record is incomplete: '' @ str_join (x_incomplete x) [CHR 0x0A])\<rparr>\<rparr>)"

definition stoppedByTheGuard :: "exec \<Rightarrow> exec" where
  "stoppedByTheGuard x =
     (if \<not> h_stopped (x_hold x) then x
      else x\<lparr>x_outcome := (x_outcome x)\<lparr>run_Status := StatusClaimLost,
        run_Error := joinReasons (run_Error (x_outcome x)) (h_reason (x_hold x))\<rparr>\<rparr>)"

text \<open>The renewal loop's own decision, if the loop runs and has made one by the given place of the code.\<close>

definition loop_decides :: "exec_env \<Rightarrow> nat \<Rightarrow> exec \<Rightarrow> exec" where
  "loop_decides env at x = (case (if x_renewing x then ev_lost env at else None) of None \<Rightarrow> x | Some why \<Rightarrow> x\<lparr>x_hold := decideToStop why (x_hold x)\<rparr>)"

definition run_fence :: "exec_env \<Rightarrow> exec \<Rightarrow> exec \<times> coord_error option" where
  "run_fence env x =
     (case Hold_Fence (ev_message env) (\<lambda>_. ev_fence env (x_fences x)) (x_hold x) of
        (h, e) \<Rightarrow> (event (Fenced (e = None)) (x\<lparr>x_hold := h, x_fences := x_fences x + 1\<rparr>), e))"

subsection \<open>The stages\<close>

definition storeResolved :: "exec_env \<Rightarrow> string \<Rightarrow> playbook \<Rightarrow> exec \<Rightarrow> exec \<times> string" where
  "storeResolved env runID book x = (case ev_playbook_json env book of
     Inl e \<Rightarrow> (problems_note (Some e) x, [])
   | Inr document \<Rightarrow> put_blob env runID ''playbook.json'' document x)"

definition TriggerDataFile :: string where "TriggerDataFile = ''trigger.json''"

definition work_write :: "exec_env \<Rightarrow> string \<Rightarrow> string \<Rightarrow> exec \<Rightarrow> exec \<times> string option" where
  "work_write env name data x = (case ev_write_fault env name of
     Some e \<Rightarrow> (x, Some e) | None \<Rightarrow> (x\<lparr>x_work := map_set name data (x_work x)\<rparr>, None))"

definition writeTriggerData :: "exec_env \<Rightarrow> string \<Rightarrow> string gomap \<Rightarrow> exec \<Rightarrow> exec" where
  "writeTriggerData env runID trigger x =
     (case ev_trigger_json env trigger of
        Inl e \<Rightarrow> problems_note (Some (''encoding '' @ TriggerDataFile @ '': '' @ e)) x
      | Inr document \<Rightarrow>
          (case work_write env TriggerDataFile document x of (x1, err) \<Rightarrow>
             (case put_blob env runID TriggerDataFile document (problems_note err x1) of (x2, ref) \<Rightarrow>
                add_row (\<lambda>s. AddGatheredInput s runID \<lparr>gi_Name = TriggerDataFile, gi_BlobRef = ref,
                  gi_Bytes = length document, gi_Truncated = False, gi_ExitCode = 0, gi_StderrRef = []\<rparr>) x2)))"

fun bind_steps :: "config \<Rightarrow> string gomap \<Rightarrow> step list \<Rightarrow> (string \<times> ref_problem list, gather_step list) result" where
  "bind_steps c trigger [] = Inr []"
| "bind_steps c trigger (s # ss) = (case BindShell c (step_Run s) trigger of
     Inl ps \<Rightarrow> Inl (step_As s, ps)
   | Inr b \<Rightarrow> (case bind_steps c trigger ss of
         Inl e \<Rightarrow> Inl e
       | Inr gs \<Rightarrow> Inr (\<lparr>gs_Run = Line b, gs_As = step_As s, gs_Env = Env b\<rparr> # gs)))"

definition record_input :: "exec_env \<Rightarrow> string \<Rightarrow> gather_result \<Rightarrow> exec \<Rightarrow> exec" where
  "record_input env runID r x =
     (case (case gr_file r of
              Inl e \<Rightarrow> (problems_note (Some e) x, [])
            | Inr data \<Rightarrow> put_blob env runID (gr_Name r) data (x\<lparr>x_work := map_set (gr_Name r) data (x_work x)\<rparr>)) of
        (x1, blob) \<Rightarrow>
          (case (if gr_Stderr r = [] then (x1, []) else put_blob env runID (gr_Name r @ ''.stderr'') (gr_Stderr r) x1) of
             (x2, stderr) \<Rightarrow>
               add_row (\<lambda>s. AddGatheredInput s runID \<lparr>gi_Name = gr_Name r, gi_BlobRef = blob, gi_Bytes = gr_Bytes r,
                 gi_Truncated = gr_Truncated r, gi_ExitCode = gr_ExitCode r, gi_StderrRef = stderr\<rparr>) x2))"

definition exec_gather :: "exec_env \<Rightarrow> string \<Rightarrow> playbook \<Rightarrow> string gomap \<Rightarrow> exec \<Rightarrow> exec \<times> string option" where
  "exec_gather env runID book trigger x0 =
     (let x = (if trig_Type (pb_Trigger book) = ''webhook'' then writeTriggerData env runID trigger x0 else x0) in
      case bind_steps (ev_config env) trigger (Gather book) of
        Inl (as', ps) \<Rightarrow> (x, Some (''gather step '' @ as' @ '': '' @ ev_problems env ps))
      | Inr steps \<Rightarrow> (case ev_gather env steps of (results, err) \<Rightarrow>
          (fold (record_input env runID) results (event GatherRan x), err)))"

text \<open>The verb \<open>%03d\<close>.\<close>

definition fmt03 :: "nat \<Rightarrow> string" where
  "fmt03 n = replicate (3 - length (itoa n)) (CHR ''0'') @ itoa n"

fun record_items :: "exec_env \<Rightarrow> string \<Rightarrow> nat \<Rightarrow> retrieved_item list \<Rightarrow> string list \<Rightarrow> exec \<Rightarrow> exec \<times> retrieved_item list" where
  "record_items env runID sq (i # is) (c # cs) x =
     (case put_blob env runID (''retrieval-'' @ fmt03 sq @ ''-result-'' @ fmt03 (it_Rank i) @ ''.md'') c x of (x1, ref) \<Rightarrow>
        (case record_items env runID sq is cs x1 of (x2, items) \<Rightarrow> (x2, i\<lparr>it_ContentRef := ref\<rparr> # items)))"
| "record_items env runID sq is cs x = (x, is)"

definition recordRetrieval :: "exec_env \<Rightarrow> string \<Rightarrow> retrieved \<Rightarrow> exec \<Rightarrow> exec" where
  "recordRetrieval env runID r x =
     (let row = rd_Record r in
      case (case rd_Results r of
              None \<Rightarrow> (x, rt_ResultsRef row)
            | Some data \<Rightarrow> put_blob env runID (''retrieval-'' @ fmt03 (rt_Sequence row) @ ''-results.md'') data x) of
        (x1, ref) \<Rightarrow> (case record_items env runID (rt_Sequence row) (rt_Items row) (rd_Contents r) x1 of (x2, items) \<Rightarrow>
          add_row (\<lambda>s. AddRetrieval s runID (row\<lparr>rt_ResultsRef := ref, rt_Items := items\<rparr>)) x2))"

definition exec_retrieve :: "exec_env \<Rightarrow> string \<Rightarrow> playbook \<Rightarrow> string gomap \<Rightarrow> exec \<Rightarrow> exec \<times> string option" where
  "exec_retrieve env runID book trigger x =
     (if Retrieve book = [] then (x, None)
      else case ev_retrieve env of
        None \<Rightarrow> (x, Some ''this playbook retrieves, and this deployment was given no retrieve stage'')
      | Some stage \<Rightarrow> (case stage (Retrieve book) trigger of (rs, err) \<Rightarrow>
          (fold (recordRetrieval env runID) rs (event RetrieveRan x), err)))"

definition exec_prompt :: "exec_env \<Rightarrow> string \<Rightarrow> playbook \<Rightarrow> string gomap \<Rightarrow> exec \<Rightarrow> exec \<times> (string, string \<times> string) result" where
  "exec_prompt env runID book trigger x =
     (case ev_prompt env (PromptPath book) of
        Inl e \<Rightarrow> (x, Inl (''reading the prompt: '' @ e))
      | Inr raw \<Rightarrow> (case Interpolate (ev_config env) raw trigger of
            Inl ps \<Rightarrow> (x, Inl (''resolving the prompt: '' @ ev_problems env ps))
          | Inr prompt \<Rightarrow>
              (case Put (ev_digest env) (ev_put_fault env ''prompt.txt'') runID ''prompt.txt'' prompt (x_blobs x) of
                 (b, Inl e) \<Rightarrow> (x\<lparr>x_blobs := b\<rparr>, Inl (blob_error_text e))
               | (b, Inr ref) \<Rightarrow> (x\<lparr>x_blobs := b\<rparr>, Inr (prompt, ref)))))"

definition record_denials :: "string \<Rightarrow> (string \<times> string) list \<Rightarrow> exec \<Rightarrow> exec" where
  "record_denials runID ds = fold (\<lambda>(at, tool, asked).
     add_row (\<lambda>s. AddRefusedAction s runID \<lparr>ra_Sequence = at, ra_Tool = tool, ra_Asked = asked\<rparr>)) (enumerate 1 ds)"

definition record_call :: "exec_env \<Rightarrow> string \<Rightarrow> nat \<times> stage_call \<Rightarrow> exec \<Rightarrow> exec" where
  "record_call env runID = (\<lambda>(at, call) x.
     case (if sc_Input call = [] then (x, []) else put_blob env runID (''tool-'' @ fmt03 at @ ''-in.json'') (sc_Input call) x) of (x1, inp) \<Rightarrow>
     (case (if sc_Output call = [] then (x1, []) else put_blob env runID (''tool-'' @ fmt03 at @ ''-out.json'') (sc_Output call) x1) of (x2, out) \<Rightarrow>
        add_row (\<lambda>s. AddToolCall s runID \<lparr>tc_Sequence = at, tc_Name = sc_Name call, tc_InputRef = inp, tc_OutputRef = out,
          tc_StartedAt = sc_StartedAt call, tc_Outcome = sc_Outcome call\<rparr>) x2))"

definition recordStage :: "exec_env \<Rightarrow> string \<Rightarrow> stage \<Rightarrow> exec \<Rightarrow> exec" where
  "recordStage env runID sg x0 =
     (let x1 = (if sg_Raw sg = [] then x0 else fst (put_blob env runID ''transcript.jsonl'' (sg_Raw sg) x0));
          x2 = (case sg_Init sg of None \<Rightarrow> x1 | Some (session, source) \<Rightarrow>
                 x1\<lparr>x_outcome := (x_outcome x1)\<lparr>AgentSessionID := session, CredentialSource := source\<rparr>\<rparr>);
          x3 = (case sg_Result sg of None \<Rightarrow> x2 | Some r \<Rightarrow>
                 record_denials runID (sg_Denials r) (x2\<lparr>x_outcome := (x_outcome x2)\<lparr>CostUSD := sg_Cost r, Tokens := sg_Tokens r\<rparr>\<rparr>))
      in fold (record_call env runID) (enumerate 1 (sg_Calls sg)) x3)"

subsection \<open>The agent and the sinks\<close>

definition declarationsOf :: "playbook \<Rightarrow> sink_declaration list" where
  "declarationsOf book = map (\<lambda>one. case sink_Type one of (name, value, ok) \<Rightarrow>
     \<lparr>decl_Type = name, decl_Config = (if ok then Some value else None)\<rparr>) (Sinks book)"

definition build_options_of :: "exec_env \<Rightarrow> playbook \<Rightarrow> string gomap \<Rightarrow> build_options" where
  "build_options_of env book trigger =
     \<lparr>bo_Interpolate = (\<lambda>s. case Interpolate (ev_config env) s trigger of Inl ps \<Rightarrow> Inl (ev_problems env ps) | Inr v \<Rightarrow> Inr v),
      bo_RefusePayloadReference = (trig_Type (pb_Trigger book) = ''webhook''), bo_int_of_float = ev_int_of_float env\<rparr>"

fun servers_loop :: "(string \<Rightarrow> (string, string) result) \<Rightarrow> string list \<Rightarrow> string gomap \<Rightarrow> (string, string gomap) result" where
  "servers_loop resolve' [] servers = Inr servers"
| "servers_loop resolve' (name # names) servers = (case resolve' name of
     Inl e \<Rightarrow> Inl e | Inr v \<Rightarrow> servers_loop resolve' names (map_set name v servers))"

definition serversOf :: "exec_env \<Rightarrow> playbook \<Rightarrow> (string, string gomap) result" where
  "serversOf env book = (case ev_catalog env of None \<Rightarrow> Inr [] | Some resolve' \<Rightarrow> servers_loop resolve' (MCP (pb_Agent book)) [])"

definition sink_status_text :: "sink_status option \<Rightarrow> string" where
  "sink_status_text s = (case s of None \<Rightarrow> [] | Some st \<Rightarrow> (case st of SinkDelivered \<Rightarrow> ''delivered'' | SinkCreated \<Rightarrow> ''created''
     | SinkSkipped \<Rightarrow> ''skipped'' | SinkCapped \<Rightarrow> ''capped'' | SinkFailed \<Rightarrow> ''failed''))"

definition record_outcome :: "string \<Rightarrow> sink_outcome \<Rightarrow> exec \<Rightarrow> exec" where
  "record_outcome runID d x =
     (let x1 = add_row (\<lambda>s. AddSinkOutcome s runID \<lparr>sr_Sink = so_Sink d, sr_Status = sink_status_text (so_Status d),
            sr_Created = so_Created d, sr_Skipped = so_Skipped d, sr_Detail = so_Detail d\<rparr>) x in
      if so_Status d = Some SinkFailed \<and> run_Status (x_outcome x1) = StatusSucceeded
      then set_status StatusFailed ''a sink failed; the report is in the record and the run can be resumed'' x1
      else x1)"

definition exec_deliver :: "exec_env \<Rightarrow> string \<Rightarrow> built_sink list \<Rightarrow> sink_delivery \<Rightarrow> exec \<Rightarrow> exec" where
  "exec_deliver env runID sinks d x =
     (case DeliverAll (ev_sink env) (run_fence env) sinks d (event SinksAsked x) (x_net x) of (x1, n, delivered, fenceErr) \<Rightarrow>
        let x2 = x1\<lparr>x_net := n\<rparr>;
            x3 = (case fenceErr of None \<Rightarrow> x2
                  | Some e \<Rightarrow> x2\<lparr>x_outcome := (x_outcome x2)\<lparr>run_Error := joinReasons (run_Error (x_outcome x2)) (ev_message env e)\<rparr>\<rparr>)
        in fold (record_outcome runID) delivered x3)"

definition stage_report :: "exec_env \<Rightarrow> playbook \<Rightarrow> stage \<Rightarrow> (string, string) result" where
  "stage_report env book sg =
     (if sg_DecodeErr sg \<noteq> None \<and> sg_Result sg = None
      then Inl (''the agent'' @ [CHR 0x27] @ ''s output could not be read: '' @ the (sg_DecodeErr sg))
      else case sg_Report sg of
        Inl e \<Rightarrow> Inl e
      | Inr report \<Rightarrow> (case ev_validate env report (OutputSchema (pb_Agent book)) of Some e \<Rightarrow> Inl e | None \<Rightarrow> Inr report))"

definition deliver_report :: "exec_env \<Rightarrow> string \<Rightarrow> playbook \<Rightarrow> built_sink list \<Rightarrow> (string, string) result \<Rightarrow> exec \<Rightarrow> exec" where
  "deliver_report env runID book sinks report x =
     (let d = \<lparr>sd_PlaybookName = pb_Name book, sd_RunID = runID, sd_Report = [], sd_Failure = None\<rparr> in
      case report of
        Inl e \<Rightarrow> exec_deliver env runID sinks (d\<lparr>sd_Failure := Some e\<rparr>) (set_status StatusFailed e x)
      | Inr r \<Rightarrow>
          (case put_blob env runID ''report.json'' r (x\<lparr>x_outcome := (x_outcome x)\<lparr>run_Status := StatusSucceeded\<rparr>\<rparr>) of (x1, ref) \<Rightarrow>
             exec_deliver env runID sinks (d\<lparr>sd_Report := r\<rparr>) (x1\<lparr>x_outcome := (x_outcome x1)\<lparr>ReportRef := ref\<rparr>\<rparr>)))"

definition after_agent :: "exec_env \<Rightarrow> string \<Rightarrow> playbook \<Rightarrow> duration \<Rightarrow> built_sink list \<Rightarrow> stage \<Rightarrow> exec \<Rightarrow> exec" where
  "after_agent env runID book timeout sinks sg x0 =
     (let x = recordStage env runID sg x0 in
      case sg_Aborted sg of
        Some e \<Rightarrow> finished runID (set_status StatusRefused e x)
      | None \<Rightarrow>
          if sg_TimedOut sg then finished runID (set_status StatusTimedOut (''the agent stage exceeded its '' @ ev_duration env timeout @ '' timeout'') x)
          else finished runID (stoppedByTheGuard (loop_decides env 0
                 (deliver_report env runID book sinks (stage_report env book sg) x))))"

definition agentAndSinks :: "exec_env \<Rightarrow> string \<Rightarrow> playbook \<Rightarrow> string \<Rightarrow> string gomap \<Rightarrow> exec \<Rightarrow> exec" where
  "agentAndSinks env runID book prompt trigger x =
     (case Build (build_options_of env book trigger) (declarationsOf book) of (sinks, refusals) \<Rightarrow>
      if refusals \<noteq> [] then finished runID (set_status StatusRefused (ev_build_text env refusals) x)
      else (case StageTimeout (ev_parse env) (pb_Agent book) of
          Inl _ \<Rightarrow> finished runID (set_status StatusRefused ''agent.timeout is not a duration'' x)
        | Inr timeout \<Rightarrow> (case serversOf env book of
              Inl e \<Rightarrow> finished runID (set_status StatusRefused e x)
            | Inr servers \<Rightarrow> (case run_fence env x of
                  (x1, Some e) \<Rightarrow> finished runID (x1\<lparr>x_outcome := (x_outcome x1)\<lparr>run_Error := ev_message env e\<rparr>\<rparr>)
                | (x1, None) \<Rightarrow>
                    (case ev_agent env \<lparr>ao_Prompt = prompt, ao_Timeout = timeout, ao_Servers = servers, ao_Files = x_work x1\<rparr> of
                       Inl e \<Rightarrow> finished runID ((event AgentRan x1)\<lparr>x_outcome := (x_outcome x1)\<lparr>run_Error := e\<rparr>\<rparr>)
                     | Inr sg \<Rightarrow> after_agent env runID book timeout sinks sg (event AgentRan x1))))))"

subsection \<open>Executing, replaying, resuming\<close>

definition execute_body :: "exec_env \<Rightarrow> string \<Rightarrow> playbook \<Rightarrow> string gomap \<Rightarrow> exec \<Rightarrow> exec" where
  "execute_body env runID book trigger x0 =
     (case storeResolved env runID book x0 of (x1, ref) \<Rightarrow>
      (case exec_gather env runID book trigger (x1\<lparr>x_outcome := (x_outcome x1)\<lparr>ResolvedPlaybookRef := ref\<rparr>\<rparr>) of
         (x2, Some e) \<Rightarrow> finished runID (set_status StatusRefused e x2)
       | (x2, None) \<Rightarrow> (case exec_retrieve env runID book trigger x2 of
             (x3, Some e) \<Rightarrow> finished runID (set_status StatusRefused e x3)
           | (x3, None) \<Rightarrow>
               (case exec_prompt env runID book (if trig_Type (pb_Trigger book) = ''webhook'' then [] else trigger) x3 of
                  (x4, Inl e) \<Rightarrow> finished runID (set_status StatusRefused e x4)
                | (x4, Inr (prompt, promptRef)) \<Rightarrow>
                    agentAndSinks env runID book prompt trigger (x4\<lparr>x_outcome := (x_outcome x4)\<lparr>PromptRef := promptRef\<rparr>\<rparr>)))))"

text \<open>
  The frame every run shares: the claim begins the run, and whatever the body does the run is
  finished, its directory removed and its claim given back.
\<close>

definition claimedOf :: "string \<Rightarrow> run_claim admitted \<Rightarrow> string \<Rightarrow> claimed" where
  "claimedOf reach adm name = \<lparr>cl_RunID = ad_RunID adm, cl_PlaybookName = name, cl_Reach = reach,
     cl_Token = Some (rc_Token (ad_Claim adm)), cl_WaitingTriggerID = ad_WaitingTriggerID adm,
     cl_WaitedMS = ad_Waited adm div 1000000\<rparr>"

text \<open>What \<open>finished\<close> returns to the caller: the identifier, the status and the reason.\<close>

definition summary :: "run_row \<Rightarrow> run_row" where
  "summary out = blank_run\<lparr>run_ID := run_ID out, run_Status := run_Status out, run_Error := run_Error out\<rparr>"

definition run_frame ::
  "exec_env \<Rightarrow> run_claim admitted \<Rightarrow> string \<Rightarrow> trigger_kind \<Rightarrow> string \<Rightarrow> (exec \<Rightarrow> exec) \<Rightarrow> exec \<Rightarrow> exec \<times> (begin_error, run_row) result" where
  "run_frame env adm name kind parent body x =
     (case Begin (ev_mkdir env) (ev_now env) (claimedOf (ev_reach env) adm name) kind parent (x_lock x) of
        (l, Inl e) \<Rightarrow> (x\<lparr>x_lock := rc_Release (ad_Claim adm) l\<rparr>, Inl e)
      | (l, Inr row) \<Rightarrow>
          let runID = ad_RunID adm;
              x1 = body (x\<lparr>x_lock := l, x_work := [], x_incomplete := [], x_events := [], x_fences := 0,
                x_hold := fst (Guard_Hold rc_Expiry (Some (ad_Claim adm)) (ad_sent adm)),
                x_renewing := snd (Guard_Hold rc_Expiry (Some (ad_Claim adm)) (ad_sent adm)),
                x_outcome := blank_run\<lparr>ParentRunID := parent\<rparr>\<rparr>);
              x2 = stoppedByTheGuard (loop_decides env 1 x1);
              outcome = (x_outcome x2)\<lparr>EndedAt := ev_now env\<rparr>
          in (case Finish (ev_now env) runID (rc_Release (ad_Claim adm)) outcome (x_lock x2) of
                (l2, _) \<Rightarrow> (x2\<lparr>x_lock := l2, x_outcome := outcome\<rparr>, Inr (summary (x_outcome x1)))))"

datatype exec_error = NotAdmitted "run_claim admission" | NotBegun begin_error | NoRunID string
  | NoSuchRun string | NotEncoded string | NotReplayable string | NotResumable string | PlaybookChanged

definition admitTrigger ::
  "guard \<Rightarrow> run_claim admit_env \<Rightarrow> (string, string) result \<Rightarrow> playbook \<Rightarrow> trigger_kind \<Rightarrow> time \<Rightarrow> string gomap \<Rightarrow> exec \<Rightarrow>
   exec \<times> (exec_error, run_claim admitted) result" where
  "admitTrigger g aenv newID book kind due trigger x =
     (case newID of
        Inl e \<Rightarrow> (x, Inl (NoRunID e))
      | Inr i \<Rightarrow>
          (case Admit g aenv book \<lparr>rq_RunID = i, rq_Kind = kind, rq_DueAt = due, rq_Values = trigger\<rparr>
                  \<lparr>w_store = fl_store (x_lock x), w_instances = x_instances x\<rparr> of
             (w, _, res) \<Rightarrow>
               (x\<lparr>x_lock := (x_lock x)\<lparr>fl_store := w_store w\<rparr>, x_instances := w_instances w\<rparr>,
                case res of Admitted adm \<Rightarrow> Inr adm | r \<Rightarrow> Inl (NotAdmitted r))))"

definition Execute ::
  "exec_env \<Rightarrow> guard \<Rightarrow> run_claim admit_env \<Rightarrow> (string, string) result \<Rightarrow> playbook \<Rightarrow> trigger_kind \<Rightarrow> time \<Rightarrow> string gomap \<Rightarrow>
   exec \<Rightarrow> exec \<times> (exec_error, run_row) result" where
  "Execute env g aenv newID book kind due trigger x =
     (case admitTrigger g aenv newID book kind due trigger x of
        (x1, Inl e) \<Rightarrow> (x1, Inl e)
      | (x1, Inr adm) \<Rightarrow>
          (case run_frame env adm (pb_Name (ad_Book adm)) kind [] (execute_body env (ad_RunID adm) (ad_Book adm) trigger) x1 of
             (x2, Inl e) \<Rightarrow> (x2, Inl (NotBegun e)) | (x2, Inr out) \<Rightarrow> (x2, Inr out)))"

definition sameAsRecorded :: "exec_env \<Rightarrow> run_row \<Rightarrow> playbook \<Rightarrow> exec \<Rightarrow> exec_error option" where
  "sameAsRecorded env parent book x =
     (if ResolvedPlaybookRef parent = [] then Some (NotReplayable ''it recorded no copy of the playbook it ran'')
      else case blob_Get (ev_cwd env) (ResolvedPlaybookRef parent) (x_blobs x) of
        Inl e \<Rightarrow> Some (NotReplayable (blob_error_text e))
      | Inr recorded \<Rightarrow> (case ev_playbook_json env book of
            Inl e \<Rightarrow> Some (NotEncoded e)
          | Inr now \<Rightarrow> if trim_space recorded \<noteq> trim_space now then Some PlaybookChanged else None))"

fun restore_inputs :: "exec_env \<Rightarrow> string \<Rightarrow> gathered_input list \<Rightarrow> exec \<Rightarrow> exec \<times> string option" where
  "restore_inputs env runID [] x = (x, None)"
| "restore_inputs env runID (i # is) x =
     (if gi_BlobRef i = [] then restore_inputs env runID is x
      else case blob_Get (ev_cwd env) (gi_BlobRef i) (x_blobs x) of
        Inl e \<Rightarrow> (x, Some (''this run cannot be replayed from its record: input '' @ quote (gi_Name i) @ '': '' @ blob_error_text e))
      | Inr data \<Rightarrow> (case work_write env (path_Base (gi_Name i)) data x of
            (x1, Some e) \<Rightarrow> (x1, Some e)
          | (x1, None) \<Rightarrow> restore_inputs env runID is (add_row (\<lambda>s. AddGatheredInput s runID i) x1)))"

fun restored_items :: "exec_env \<Rightarrow> blobs \<Rightarrow> retrieved_item list \<Rightarrow> (blob_error, retrieved_item list \<times> string list) result" where
  "restored_items env b [] = Inr ([], [])"
| "restored_items env b (i # is) = (case blob_Get (ev_cwd env) (it_ContentRef i) b of
     Inl e \<Rightarrow> Inl e
   | Inr content \<Rightarrow> (case restored_items env b is of
         Inl e \<Rightarrow> Inl e | Inr (items, contents) \<Rightarrow> Inr (i\<lparr>it_ContentRef := []\<rparr> # items, content # contents)))"

definition restoredRetrieval :: "exec_env \<Rightarrow> blobs \<Rightarrow> retrieval_row \<Rightarrow> (blob_error, retrieved) result" where
  "restoredRetrieval env b r =
     (case blob_Get (ev_cwd env) (rt_ResultsRef r) b of
        Inl e \<Rightarrow> Inl e
      | Inr results \<Rightarrow> (case restored_items env b (rt_Items r) of
            Inl e \<Rightarrow> Inl e
          | Inr (items, contents) \<Rightarrow> Inr \<lparr>rd_Record = r\<lparr>rt_ResultsRef := [], rt_Items := items\<rparr>,
              rd_Results = Some results, rd_Contents = contents\<rparr>))"

fun restore_retrievals :: "exec_env \<Rightarrow> string \<Rightarrow> retrieval_row list \<Rightarrow> exec \<Rightarrow> exec \<times> string option" where
  "restore_retrievals env runID [] x = (x, None)"
| "restore_retrievals env runID (r # rs) x =
     (if rt_ResultsRef r = [] then restore_retrievals env runID rs x
      else case restoredRetrieval env (x_blobs x) r of
        Inl e \<Rightarrow> (x, Some (''this run cannot be replayed from its record: retrieval '' @ quote (rt_AsName r) @ '': '' @ blob_error_text e))
      | Inr restored \<Rightarrow>
          (case work_write env (path_Base (rt_AsName r)) (case rd_Results restored of Some d \<Rightarrow> d | None \<Rightarrow> []) x of
             (x1, Some e) \<Rightarrow> (x1, Some e)
           | (x1, None) \<Rightarrow> restore_retrievals env runID rs (recordRetrieval env runID restored x1)))"

definition replay_body ::
  "exec_env \<Rightarrow> string \<Rightarrow> playbook \<Rightarrow> gathered_input list \<Rightarrow> retrieval_row list \<Rightarrow> string \<Rightarrow> exec \<Rightarrow> exec" where
  "replay_body env runID book inputs retrievals prompt x =
     (case restore_inputs env runID inputs x of
        (x1, Some e) \<Rightarrow> finished runID (set_status StatusRefused e x1)
      | (x1, None) \<Rightarrow> (case restore_retrievals env runID retrievals x1 of
            (x2, Some e) \<Rightarrow> finished runID (set_status StatusRefused e x2)
          | (x2, None) \<Rightarrow>
              (case put_blob env runID ''prompt.txt'' prompt x2 of (x3, ref) \<Rightarrow>
                 let x4 = x3\<lparr>x_outcome := (x_outcome x3)\<lparr>PromptRef := ref\<rparr>\<rparr>;
                     x5 = (case ev_playbook_json env book of
                         Inl _ \<Rightarrow> x4
                       | Inr document \<Rightarrow> (case Put (ev_digest env) (ev_put_fault env ''playbook.json'') runID ''playbook.json'' document (x_blobs x4) of
                             (b, Inl _) \<Rightarrow> x4\<lparr>x_blobs := b\<rparr>
                           | (b, Inr r) \<Rightarrow> x4\<lparr>x_blobs := b, x_outcome := (x_outcome x4)\<lparr>ResolvedPlaybookRef := r\<rparr>\<rparr>))
                 in agentAndSinks env runID book prompt [] x5)))"

definition resume_body :: "exec_env \<Rightarrow> string \<Rightarrow> playbook \<Rightarrow> string \<Rightarrow> exec \<Rightarrow> exec" where
  "resume_body env runID book report x =
     (case Build (build_options_of env book []) (declarationsOf book) of (sinks, refusals) \<Rightarrow>
      if refusals \<noteq> [] then finished runID (set_status StatusRefused (ev_build_text env refusals) x)
      else (case put_blob env runID ''report.json'' report x of (x1, ref) \<Rightarrow>
        finished runID (exec_deliver env runID sinks
          \<lparr>sd_PlaybookName = pb_Name book, sd_RunID = runID, sd_Report = report, sd_Failure = None\<rparr>
          (x1\<lparr>x_outcome := (x_outcome x1)\<lparr>ReportRef := ref, run_Status := StatusSucceeded\<rparr>\<rparr>))))"

text \<open>Admission and frame of a run that derives from another: what \<open>Replay\<close> and \<open>Resume\<close> share.\<close>

definition derived_run ::
  "exec_env \<Rightarrow> guard \<Rightarrow> run_claim admit_env \<Rightarrow> (string, string) result \<Rightarrow> playbook \<Rightarrow> trigger_kind \<Rightarrow> string \<Rightarrow>
   (string \<Rightarrow> exec \<Rightarrow> exec) \<Rightarrow> exec \<Rightarrow> exec \<times> (exec_error, run_row) result" where
  "derived_run env g aenv newID book kind parentID body x =
     (case admitTrigger g aenv newID book kind zero_time [] x of
        (x1, Inl e) \<Rightarrow> (x1, Inl e)
      | (x1, Inr adm) \<Rightarrow> (case run_frame env adm (pb_Name book) kind parentID (body (ad_RunID adm)) x1 of
            (x2, Inl e) \<Rightarrow> (x2, Inl (NotBegun e)) | (x2, Inr out) \<Rightarrow> (x2, Inr out)))"

definition Replay ::
  "exec_env \<Rightarrow> guard \<Rightarrow> run_claim admit_env \<Rightarrow> (string, string) result \<Rightarrow> string \<Rightarrow> playbook \<Rightarrow> exec \<Rightarrow>
   exec \<times> (exec_error, run_row) result" where
  "Replay env g aenv newID parentID book x =
     (case GetRun parentID (fl_store (x_lock x)) of
        Inl _ \<Rightarrow> (x, Inl (NoSuchRun parentID))
      | Inr parent \<Rightarrow>
          if PromptRef parent = [] then (x, Inl (NotReplayable ''it recorded no prompt''))
          else (case sameAsRecorded env parent book x of
              Some e \<Rightarrow> (x, Inl e)
            | None \<Rightarrow> (case blob_Get (ev_cwd env) (PromptRef parent) (x_blobs x) of
                  Inl e \<Rightarrow> (x, Inl (NotReplayable (blob_error_text e)))
                | Inr prompt \<Rightarrow> derived_run env g aenv newID book TriggerReplay parentID
                    (\<lambda>runID. replay_body env runID book (GatheredInputs parentID (x_rows x)) (Retrievals parentID (x_rows x)) prompt) x)))"

definition Resume ::
  "exec_env \<Rightarrow> guard \<Rightarrow> run_claim admit_env \<Rightarrow> (string, string) result \<Rightarrow> string \<Rightarrow> playbook \<Rightarrow> exec \<Rightarrow>
   exec \<times> (exec_error, run_row) result" where
  "Resume env g aenv newID parentID book x =
     (case GetRun parentID (fl_store (x_lock x)) of
        Inl _ \<Rightarrow> (x, Inl (NoSuchRun parentID))
      | Inr parent \<Rightarrow>
          if ReportRef parent = [] then (x, Inl (NotResumable ''it produced none''))
          else (case blob_Get (ev_cwd env) (ReportRef parent) (x_blobs x) of
              Inl e \<Rightarrow> (x, Inl (NotResumable (blob_error_text e)))
            | Inr report \<Rightarrow> (case sameAsRecorded env parent book x of
                  Some e \<Rightarrow> (x, Inl e)
                | None \<Rightarrow> derived_run env g aenv newID book TriggerResume parentID
                    (\<lambda>runID. resume_body env runID book report) x)))"


subsection \<open>The order of a run\<close>

text \<open>
  The machine a run goes through.  Nothing follows a fence that failed; the agent runs in the phase a
  passed fence opens and in no other; the sinks are asked after the agent only.
\<close>

datatype run_phase = Preparing | Gathered | Retrieved | Proven | AgentDone | Delivering | Stopped

fun phase_after :: "run_phase \<Rightarrow> exec_event \<Rightarrow> run_phase option" where
  "phase_after Preparing GatherRan = Some Gathered"
| "phase_after Gathered RetrieveRan = Some Retrieved"
| "phase_after Gathered (Fenced ok) = Some (if ok then Proven else Stopped)"
| "phase_after Retrieved (Fenced ok) = Some (if ok then Proven else Stopped)"
| "phase_after Proven AgentRan = Some AgentDone"
| "phase_after AgentDone SinksAsked = Some Delivering"
| "phase_after Delivering (Fenced ok) = Some (if ok then Delivering else Stopped)"
| "phase_after _ _ = None"

fun phases :: "run_phase \<Rightarrow> exec_event list \<Rightarrow> run_phase option" where
  "phases p [] = Some p"
| "phases p (e # es) = (case phase_after p e of None \<Rightarrow> None | Some q \<Rightarrow> phases q es)"

lemma phases_append: "phases p (es @ fs) = (case phases p es of None \<Rightarrow> None | Some q \<Rightarrow> phases q fs)"
  by (induction es arbitrary: p) (auto split: option.splits)

text \<open>The machine says what it should: an agent's run is preceded by a fence that passed.\<close>

lemma phase_into:
  "phase_after p e = Some Proven \<Longrightarrow> e = Fenced True" "phase_after p AgentRan = Some q \<Longrightarrow> p = Proven"
  by (cases "(p, e)" rule: phase_after.cases; auto split: if_splits)
     (cases "(p, AgentRan)" rule: phase_after.cases; auto)

lemma agent_after_fence:
  assumes "phases p (es @ AgentRan # fs) = Some q" "p \<noteq> Proven"
  shows "es \<noteq> [] \<and> last es = Fenced True"
proof -
  obtain r where r: "phases p es = Some r" "phase_after r AgentRan \<noteq> None"
    using assms(1) by (auto simp: phases_append split: option.splits)
  then have proven: "phases p es = Some Proven" using phase_into(2) by blast
  show ?thesis
  proof (cases es rule: rev_cases)
    case Nil
    then show ?thesis using proven assms(2) by simp
  next
    case (snoc ds e)
    then show ?thesis using proven phase_into(1) by (auto simp: phases_append split: option.splits)
  qed
qed

subsection \<open>What a step of a run keeps\<close>

text \<open>
  Recording touches the rows, the blobs, the working directory and the list of what could not be
  recorded; not the outcome's status, the claim, the network or the lock.
\<close>

definition same_ends :: "run_row \<Rightarrow> run_row \<Rightarrow> bool" where
  "same_ends r r' \<longleftrightarrow> run_Status r' = run_Status r \<and> run_Error r' = run_Error r \<and> run_WaitingTriggerID r' = run_WaitingTriggerID r"

definition recorded :: "exec \<Rightarrow> exec \<Rightarrow> bool" where
  "recorded x x' \<longleftrightarrow> x_lock x' = x_lock x \<and> x_instances x' = x_instances x \<and> x_net x' = x_net x \<and> x_hold x' = x_hold x \<and>
     x_renewing x' = x_renewing x \<and> x_fences x' = x_fences x \<and> x_events x' = x_events x \<and>
     same_ends (x_outcome x) (x_outcome x') \<and> prefix (x_incomplete x) (x_incomplete x')"

lemma recorded_refl [simp]: "recorded x x"
  by (simp add: recorded_def same_ends_def)

lemma recorded_trans: "recorded x y \<Longrightarrow> recorded y z \<Longrightarrow> recorded x z"
  by (auto simp: recorded_def same_ends_def intro: prefix_order.trans)

lemma recorded_fold: "(\<And>a y. recorded y (f a y)) \<Longrightarrow> recorded x (fold f as x)"
  by (induction as arbitrary: x) (auto intro: recorded_trans)

lemma recorded_note: "recorded x (problems_note err x)"
  by (simp add: problems_note_def recorded_def same_ends_def split: option.splits)

lemma recorded_blob: "recorded x (fst (put_blob env runID name data x))"
  by (auto simp: put_blob_def recorded_def same_ends_def problems_note_def split: prod.splits sum.splits)

lemma recorded_row: "recorded x (add_row f x)"
  by (auto simp: add_row_def recorded_def same_ends_def problems_note_def split: prod.splits option.splits)

lemma recorded_upd:
  "recorded x (x\<lparr>x_work := w\<rparr>)" "same_ends (x_outcome x) r \<Longrightarrow> recorded x (x\<lparr>x_outcome := r\<rparr>)"
  "recorded x (x\<lparr>x_blobs := b\<rparr>)"
  by (simp_all add: recorded_def same_ends_def)

lemma recorded_write: "recorded x (fst (work_write env name data x))"
  by (auto simp: work_write_def recorded_upd split: option.splits)

lemmas recorded_steps = recorded_refl recorded_note recorded_blob recorded_row recorded_upd recorded_write

lemma recorded_put: "put_blob env runID name data x = (y, ref) \<Longrightarrow> recorded x y"
  using recorded_blob [of x env runID name data] by simp

lemma recorded_wrote: "work_write env name data x = (y, e) \<Longrightarrow> recorded x y"
  using recorded_write [of x env name data] by simp

lemma recorded_trigger: "recorded x (writeTriggerData env runID trigger x)"
proof (cases "ev_trigger_json env trigger")
  case (Inl e)
  then show ?thesis by (simp add: writeTriggerData_def recorded_note)
next
  case (Inr document)
  obtain x1 err where w: "work_write env TriggerDataFile document x = (x1, err)" by fastforce
  obtain x2 ref where p: "put_blob env runID TriggerDataFile document (problems_note err x1) = (x2, ref)" by fastforce
  have "recorded x x2" using recorded_wrote [OF w] recorded_note recorded_put [OF p] recorded_trans by blast
  then show ?thesis using Inr w p recorded_row recorded_trans by (auto simp: writeTriggerData_def)
qed

lemma recorded_input: "recorded x (record_input env runID r x)"
proof -
  obtain x1 blob where 1: "(case gr_file r of Inl e \<Rightarrow> (problems_note (Some e) x, [])
     | Inr data \<Rightarrow> put_blob env runID (gr_Name r) data (x\<lparr>x_work := map_set (gr_Name r) data (x_work x)\<rparr>)) = (x1, blob)" by fastforce
  obtain x2 stderr where 2: "(if gr_Stderr r = [] then (x1, []) else put_blob env runID (gr_Name r @ ''.stderr'') (gr_Stderr r) x1) = (x2, stderr)"
    by fastforce
  have "recorded x x1" using 1 recorded_trans [OF recorded_upd(1) recorded_put] by (auto simp: recorded_note split: sum.splits)
  moreover have "recorded x1 x2" using 2 recorded_put by (auto split: if_splits)
  ultimately show ?thesis unfolding record_input_def 1 prod.case 2
    using recorded_row recorded_trans by blast
qed

lemma recorded_items: "record_items env runID sq is cs x = (y, items) \<Longrightarrow> recorded x y"
proof (induction env runID sq "is" cs x arbitrary: y items rule: record_items.induct)
  case (1 env runID sq i "is" c cs x)
  obtain x1 ref where p: "put_blob env runID (''retrieval-'' @ fmt03 sq @ ''-result-'' @ fmt03 (it_Rank i) @ ''.md'') c x = (x1, ref)"
    by fastforce
  obtain x2 more where r: "record_items env runID sq is cs x1 = (x2, more)" by fastforce
  have "recorded x1 x2" by (rule "1.IH" [OF p [symmetric] r])
  then show ?case using "1.prems" p r recorded_put [OF p] recorded_trans by auto
qed auto

lemma recorded_retrieval: "recorded x (recordRetrieval env runID r x)"
proof -
  obtain x1 ref where 1: "(case rd_Results r of None \<Rightarrow> (x, rt_ResultsRef (rd_Record r))
     | Some data \<Rightarrow> put_blob env runID (''retrieval-'' @ fmt03 (rt_Sequence (rd_Record r)) @ ''-results.md'') data x) = (x1, ref)" by fastforce
  obtain x2 items where 2: "record_items env runID (rt_Sequence (rd_Record r)) (rt_Items (rd_Record r)) (rd_Contents r) x1 = (x2, items)"
    by fastforce
  have "recorded x x1" using 1 recorded_put by (auto split: option.splits)
  then show ?thesis unfolding recordRetrieval_def Let_def 1 prod.case 2
    using recorded_items [OF 2] recorded_row recorded_trans by blast
qed

lemma recorded_call: "recorded x (record_call env runID call x)"
proof -
  obtain at c where call: "call = (at, c)" by fastforce
  obtain x1 inp where 1: "(if sc_Input c = [] then (x, []) else put_blob env runID (''tool-'' @ fmt03 at @ ''-in.json'') (sc_Input c) x) = (x1, inp)"
    by fastforce
  obtain x2 out where 2: "(if sc_Output c = [] then (x1, []) else put_blob env runID (''tool-'' @ fmt03 at @ ''-out.json'') (sc_Output c) x1) = (x2, out)"
    by fastforce
  have "recorded x x1" using 1 recorded_put by (auto split: if_splits)
  moreover have "recorded x1 x2" using 2 recorded_put by (auto split: if_splits)
  ultimately show ?thesis unfolding record_call_def call prod.case 1 2 using recorded_row recorded_trans by blast
qed

lemma recorded_denials: "recorded x (record_denials runID ds x)"
  unfolding record_denials_def by (rule recorded_fold) (auto simp: recorded_row split: prod.splits)

lemma recorded_stage: "recorded x (recordStage env runID sg x)"
proof -
  define x1 where "x1 = (if sg_Raw sg = [] then x else fst (put_blob env runID ''transcript.jsonl'' (sg_Raw sg) x))"
  define x2 where "x2 = (case sg_Init sg of None \<Rightarrow> x1 | Some (session, source) \<Rightarrow>
     x1\<lparr>x_outcome := (x_outcome x1)\<lparr>AgentSessionID := session, CredentialSource := source\<rparr>\<rparr>)"
  define x3 where "x3 = (case sg_Result sg of None \<Rightarrow> x2 | Some r \<Rightarrow>
     record_denials runID (sg_Denials r) (x2\<lparr>x_outcome := (x_outcome x2)\<lparr>CostUSD := sg_Cost r, Tokens := sg_Tokens r\<rparr>\<rparr>))"
  have "recorded x x1" by (simp add: x1_def recorded_blob)
  moreover have "recorded x1 x2" by (auto simp: x2_def recorded_upd same_ends_def split: option.splits)
  moreover have "recorded x2 x3"
    unfolding x3_def by (auto simp: same_ends_def intro!: recorded_trans [OF recorded_upd(2) recorded_denials] split: option.splits)
  moreover have "recorded x3 (recordStage env runID sg x)"
    unfolding recordStage_def Let_def x1_def [symmetric] x2_def [symmetric] x3_def [symmetric]
    by (rule recorded_fold) (rule recorded_call)
  ultimately show ?thesis using recorded_trans by blast
qed

lemma recorded_restore_inputs: "restore_inputs env runID is x = (y, e) \<Longrightarrow> recorded x y"
proof (induction "is" arbitrary: x)
  case (Cons i "is")
  show ?case
  proof (cases "gi_BlobRef i = []")
    case True
    then show ?thesis using Cons by simp
  next
    case ref: False
    show ?thesis
    proof (cases "blob_Get (ev_cwd env) (gi_BlobRef i) (x_blobs x)")
      case (Inl a)
      then show ?thesis using Cons.prems ref by simp
    next
      case (Inr data)
      obtain x1 err where w: "work_write env (path_Base (gi_Name i)) data x = (x1, err)" by fastforce
      have x1: "recorded x x1" by (rule recorded_wrote [OF w])
      show ?thesis
      proof (cases err)
        case None
        then have "restore_inputs env runID is (add_row (\<lambda>s. AddGatheredInput s runID i) x1) = (y, e)"
          using Cons.prems ref Inr w by simp
        from Cons.IH [OF this] show ?thesis using x1 recorded_row recorded_trans by blast
      qed (use Cons.prems ref Inr w x1 in simp)
    qed
  qed
qed simp

lemma recorded_restore_retrievals: "restore_retrievals env runID rs x = (y, e) \<Longrightarrow> recorded x y"
proof (induction rs arbitrary: x)
  case (Cons r rs)
  show ?case
  proof (cases "rt_ResultsRef r = []")
    case True
    then show ?thesis using Cons by simp
  next
    case ref: False
    show ?thesis
    proof (cases "restoredRetrieval env (x_blobs x) r")
      case (Inl a)
      then show ?thesis using Cons.prems ref by simp
    next
      case (Inr restored)
      obtain x1 err where w: "work_write env (path_Base (rt_AsName r)) (case rd_Results restored of Some d \<Rightarrow> d | None \<Rightarrow> []) x = (x1, err)"
        by fastforce
      have x1: "recorded x x1" by (rule recorded_wrote [OF w])
      show ?thesis
      proof (cases err)
        case None
        then have "restore_retrievals env runID rs (recordRetrieval env runID restored x1) = (y, e)"
          using Cons.prems ref Inr w by simp
        from Cons.IH [OF this] show ?thesis using x1 recorded_retrieval recorded_trans by blast
      qed (use Cons.prems ref Inr w x1 in simp)
    qed
  qed
qed simp

text \<open>
  A step from one phase to another: the events it adds lead there, nothing is sent unless the sinks
  were asked, the lock and the store are as before and a status that was not \<open>running\<close> stays so.
\<close>

definition stepped :: "run_phase \<Rightarrow> exec \<Rightarrow> run_phase \<Rightarrow> exec \<Rightarrow> bool" where
  "stepped p x q x' \<longleftrightarrow> x_lock x' = x_lock x \<and> run_WaitingTriggerID (x_outcome x') = run_WaitingTriggerID (x_outcome x) \<and>
     (run_Status (x_outcome x) \<noteq> StatusRunning \<longrightarrow> run_Status (x_outcome x') \<noteq> StatusRunning) \<and>
     (\<exists>es. x_events x' = x_events x @ es \<and> phases p es = Some q \<and> (SinksAsked \<notin> set es \<longrightarrow> x_net x' = x_net x))"

lemma stepped_recorded: "recorded x x' \<Longrightarrow> stepped p x p x'"
  by (simp add: stepped_def recorded_def same_ends_def)

lemma stepped_trans:
  assumes "stepped p x q y" "stepped q y r z"
  shows "stepped p x r z"
proof -
  obtain es where es: "x_events y = x_events x @ es" "phases p es = Some q" "SinksAsked \<notin> set es \<longrightarrow> x_net y = x_net x"
    using assms(1) by (auto simp: stepped_def)
  obtain fs where fs: "x_events z = x_events y @ fs" "phases q fs = Some r" "SinksAsked \<notin> set fs \<longrightarrow> x_net z = x_net y"
    using assms(2) by (auto simp: stepped_def)
  have "x_events z = x_events x @ (es @ fs) \<and> phases p (es @ fs) = Some r \<and> (SinksAsked \<notin> set (es @ fs) \<longrightarrow> x_net z = x_net x)"
    using es fs by (simp add: phases_append)
  then show ?thesis using assms unfolding stepped_def by (metis (no_types))
qed

lemma stepped_then: "stepped p x q y \<Longrightarrow> recorded y z \<Longrightarrow> stepped p x q z"
  using stepped_trans stepped_recorded by blast

lemma stepped_event: "phase_after p e = Some q \<Longrightarrow> stepped p x q (event e x)"
  by (simp add: stepped_def event_def)

lemma stepped_status: "st \<noteq> StatusRunning \<Longrightarrow> stepped p x p (set_status st why x)"
  by (simp add: stepped_def set_status_def)

lemma stepped_outcome:
  "run_WaitingTriggerID r = run_WaitingTriggerID (x_outcome x) \<Longrightarrow> run_Status r \<noteq> StatusRunning \<or> run_Status r = run_Status (x_outcome x)
   \<Longrightarrow> stepped p x p (x\<lparr>x_outcome := r\<rparr>)"
  by (auto simp: stepped_def)

lemma stepped_finished: "stepped p x p (finished runID x)"
  by (auto simp: stepped_def finished_def Let_def)

lemma stepped_guard: "stepped p x p (stoppedByTheGuard x)"
  by (simp add: stepped_def stoppedByTheGuard_def)

lemma stepped_loop: "stepped p x p (loop_decides env at x)"
  by (auto simp: stepped_def loop_decides_def split: option.splits)

lemma stepped_refused: "stepped p x q y \<Longrightarrow> st \<noteq> StatusRunning \<Longrightarrow> stepped p x q (finished runID (set_status st why y))"
  using stepped_trans stepped_status stepped_finished by metis

lemma stepped_fence:
  assumes "run_fence env x = (y, e)" "p \<in> {Gathered, Retrieved, Delivering}"
  shows "stepped p x (if e = None then if p = Delivering then Delivering else Proven else Stopped) y"
  using assms by (auto simp: run_fence_def stepped_def event_def split: prod.splits)

text \<open>Delivering: every sink behind its own fence.\<close>

lemma stepped_DeliverAll:
  assumes "DeliverAll env (run_fence env') sinks d x n = (y, n', os, e)"
  shows "\<exists>q \<in> {Delivering, Stopped}. stepped Delivering x q (y\<lparr>x_net := x_net x\<rparr>)"
  using assms
proof (induction sinks arbitrary: x n os y n' e)
  case Nil
  then show ?case by (auto simp: stepped_def)
next
  case (Cons one sinks)
  obtain x1 g where g: "run_fence env' x = (x1, g)" by fastforce
  have 1: "stepped Delivering x (if g = None then Delivering else Stopped) x1" using stepped_fence [OF g, of Delivering] by (cases g) simp_all
  have net: "x_net x1 = x_net x" using g by (auto simp: run_fence_def event_def split: prod.splits)
  show ?case
  proof (cases g)
    case None
    obtain n1 oc err where s: "sink_Deliver env one d n = (n1, oc, err)" using prod_cases3 by blast
    obtain h2 n2 os2 e2 where r: "DeliverAll env (run_fence env') sinks d x1 n1 = (h2, n2, os2, e2)" using prod_cases4 by blast
    have "y = h2" using Cons.prems g None s r by auto
    then have "\<exists>q \<in> {Delivering, Stopped}. stepped Delivering x1 q (y\<lparr>x_net := x_net x1\<rparr>)" using Cons.IH [OF r] by simp
    then show ?thesis using stepped_trans [OF 1 [unfolded None]] net by auto
  next
    case (Some err)
    then have "y = x1" using Cons.prems g by simp
    moreover have "x1\<lparr>x_net := x_net x\<rparr> = x1" using net by simp
    ultimately show ?thesis using 1 Some by auto
  qed
qed

lemma stepped_outcomes: "stepped p x p (fold (record_outcome runID) ds x)"
proof (induction ds arbitrary: x)
  case Nil
  then show ?case by (simp add: stepped_recorded)
next
  case (Cons d ds)
  have "stepped p x p (record_outcome runID d x)"
    using stepped_recorded [OF recorded_row] stepped_trans [OF stepped_recorded [OF recorded_row] stepped_status]
    by (simp add: record_outcome_def Let_def)
  then show ?case using Cons stepped_trans by (metis fold_simps(2))
qed

lemma stepped_deliver:
  "\<exists>q \<in> {Delivering, Stopped}. stepped AgentDone x q (exec_deliver env runID sinks d x)"
proof -
  obtain x1 n os e where D: "DeliverAll (ev_sink env) (run_fence env) sinks d (event SinksAsked x) (x_net x) = (x1, n, os, e)"
    using prod_cases4 by blast
  define x2 where "x2 = x1\<lparr>x_net := n\<rparr>"
  define x3 where "x3 = (case e of None \<Rightarrow> x2
     | Some e \<Rightarrow> x2\<lparr>x_outcome := (x_outcome x2)\<lparr>run_Error := joinReasons (run_Error (x_outcome x2)) (ev_message env e)\<rparr>\<rparr>)"
  obtain q where q: "q \<in> {Delivering, Stopped}" "stepped Delivering (event SinksAsked x) q (x1\<lparr>x_net := x_net x\<rparr>)"
    using stepped_DeliverAll [OF D] by (auto simp: event_def)
  have "stepped AgentDone x q x2"
    using q(2) by (auto simp: stepped_def event_def x2_def)
  moreover have "stepped q x2 q x3" by (auto simp: x3_def stepped_def split: option.splits)
  moreover have "exec_deliver env runID sinks d x = fold (record_outcome runID) os x3"
    unfolding exec_deliver_def D prod.case Let_def x2_def [symmetric] x3_def [symmetric] ..
  ultimately have "stepped AgentDone x q (exec_deliver env runID sinks d x)" using stepped_outcomes stepped_trans by metis
  then show ?thesis using q(1) by blast
qed

lemma stepped_deliver_report: "\<exists>q. stepped AgentDone x q (deliver_report env runID book sinks report x)"
proof (cases report)
  case (Inl e)
  have "stepped AgentDone x AgentDone (set_status StatusFailed e x)" by (rule stepped_status) simp
  then show ?thesis using stepped_deliver stepped_trans unfolding deliver_report_def Inl Let_def sum.case by metis
next
  case (Inr r)
  obtain x1 ref where p: "put_blob env runID ''report.json'' r (x\<lparr>x_outcome := (x_outcome x)\<lparr>run_Status := StatusSucceeded\<rparr>\<rparr>) = (x1, ref)"
    by fastforce
  have "stepped AgentDone x AgentDone (x\<lparr>x_outcome := (x_outcome x)\<lparr>run_Status := StatusSucceeded\<rparr>\<rparr>)"
    by (rule stepped_outcome) simp_all
  moreover have "recorded x1 (x1\<lparr>x_outcome := (x_outcome x1)\<lparr>ReportRef := ref\<rparr>\<rparr>)" by (rule recorded_upd) (simp add: same_ends_def)
  ultimately have "stepped AgentDone x AgentDone (x1\<lparr>x_outcome := (x_outcome x1)\<lparr>ReportRef := ref\<rparr>\<rparr>)"
    using recorded_put [OF p] stepped_then by blast
  then show ?thesis using stepped_deliver stepped_trans unfolding deliver_report_def Inr Let_def sum.case p prod.case by metis
qed

lemma stepped_after_agent: "\<exists>q. stepped AgentDone x q (after_agent env runID book timeout sinks sg x)"
proof -
  let ?x = "recordStage env runID sg x"
  have x: "stepped AgentDone x AgentDone ?x" by (rule stepped_recorded [OF recorded_stage])
  show ?thesis
  proof (cases "sg_Aborted sg = None \<and> \<not> sg_TimedOut sg")
    case True
    obtain q where q: "stepped AgentDone ?x q (deliver_report env runID book sinks (stage_report env book sg) ?x)"
      using stepped_deliver_report by blast
    have tail: "stepped q y q (finished runID (stoppedByTheGuard (loop_decides env 0 y)))" for y
      by (rule stepped_trans [OF stepped_trans [OF stepped_loop stepped_guard] stepped_finished])
    have "after_agent env runID book timeout sinks sg x = finished runID (stoppedByTheGuard (loop_decides env 0
        (deliver_report env runID book sinks (stage_report env book sg) ?x)))"
      using True by (simp add: after_agent_def Let_def)
    then show ?thesis using stepped_trans [OF stepped_trans [OF x q] tail] by auto
  next
    case False
    then show ?thesis using stepped_refused [OF x] by (auto simp: after_agent_def Let_def split: option.splits)
  qed
qed

lemma stepped_agentAndSinks:
  assumes "p \<in> {Gathered, Retrieved}"
  shows "\<exists>q. stepped p x q (agentAndSinks env runID book prompt trigger x)"
proof -
  obtain sinks refusals where B: "Build (build_options_of env book trigger) (declarationsOf book) = (sinks, refusals)" by fastforce
  obtain x1 e where F: "run_fence env x = (x1, e)" by fastforce
  have x: "stepped p x p x" by (simp add: stepped_recorded)
  have p: "p \<in> {Gathered, Retrieved, Delivering}" "p \<noteq> Delivering" using assms by auto
  show ?thesis
  proof (cases "refusals = [] \<and> \<not> isl (StageTimeout (ev_parse env) (pb_Agent book)) \<and> \<not> isl (serversOf env book)")
    case False
    then show ?thesis using stepped_refused [OF x]
      by (auto simp: agentAndSinks_def B isl_def split: sum.splits)
  next
    case True
    then obtain timeout servers where ok: "refusals = []" "StageTimeout (ev_parse env) (pb_Agent book) = Inr timeout" "serversOf env book = Inr servers"
      by (auto simp: isl_def sum.case_eq_if) (metis sum.exhaust_sel)
    have body: "agentAndSinks env runID book prompt trigger x = (case e of
        Some e \<Rightarrow> finished runID (x1\<lparr>x_outcome := (x_outcome x1)\<lparr>run_Error := ev_message env e\<rparr>\<rparr>)
      | None \<Rightarrow> (case ev_agent env \<lparr>ao_Prompt = prompt, ao_Timeout = timeout, ao_Servers = servers, ao_Files = x_work x1\<rparr> of
            Inl e \<Rightarrow> finished runID ((event AgentRan x1)\<lparr>x_outcome := (x_outcome x1)\<lparr>run_Error := e\<rparr>\<rparr>)
          | Inr sg \<Rightarrow> after_agent env runID book timeout sinks sg (event AgentRan x1)))"
      unfolding agentAndSinks_def B prod.case ok sum.case F by (simp split: option.splits)
    have out: "stepped q y q (finished runID (y\<lparr>x_outcome := (x_outcome y)\<lparr>run_Error := why\<rparr>\<rparr>))" for q y why
      by (rule stepped_trans [OF stepped_outcome stepped_finished]) simp_all
    show ?thesis
    proof (cases e)
      case (Some err)
      then have "stepped p x Stopped x1" using stepped_fence [OF F p(1)] by simp
      then show ?thesis unfolding body Some option.case using out stepped_trans by blast
    next
      case None
      have "stepped p x Proven x1" using stepped_fence [OF F p(1)] p(2) None by simp
      moreover have "stepped Proven x1 AgentDone (event AgentRan x1)" by (rule stepped_event) simp
      ultimately have a: "stepped p x AgentDone (event AgentRan x1)" by (rule stepped_trans)
      have "x_outcome (event AgentRan x1) = x_outcome x1" by (simp add: event_def)
      then show ?thesis unfolding body None option.case using a out [of AgentDone "event AgentRan x1"] stepped_after_agent stepped_trans
        by (auto split: sum.splits) (metis, meson)
    qed
  qed
qed

subsection \<open>The bodies and the frame\<close>

lemma stepped_gather:
  assumes "exec_gather env runID book trigger x = (y, e)"
  shows "stepped Preparing x Gathered y \<or> e \<noteq> None \<and> stepped Preparing x Preparing y"
proof -
  define x0 where "x0 = (if trig_Type (pb_Trigger book) = ''webhook'' then writeTriggerData env runID trigger x else x)"
  have x0: "stepped Preparing x Preparing x0" by (simp add: x0_def stepped_recorded recorded_trigger)
  have G: "exec_gather env runID book trigger x = (case bind_steps (ev_config env) trigger (Gather book) of
        Inl (as', ps) \<Rightarrow> (x0, Some (''gather step '' @ as' @ '': '' @ ev_problems env ps))
      | Inr steps \<Rightarrow> (case ev_gather env steps of (results, err) \<Rightarrow>
          (fold (record_input env runID) results (event GatherRan x0), err)))"
    unfolding exec_gather_def Let_def x0_def ..
  show ?thesis
  proof (cases "bind_steps (ev_config env) trigger (Gather book)")
    case (Inl a)
    then show ?thesis using assms x0 unfolding G by (cases a) auto
  next
    case (Inr steps)
    obtain results err where r: "ev_gather env steps = (results, err)" by fastforce
    have "y = fold (record_input env runID) results (event GatherRan x0)" using assms r Inr unfolding G by simp
    moreover have "stepped Preparing x Gathered (event GatherRan x0)" using stepped_trans [OF x0 stepped_event] by simp
    ultimately show ?thesis using stepped_then recorded_fold recorded_input by metis
  qed
qed

lemma stepped_retrieve:
  assumes "exec_retrieve env runID book trigger x = (y, e)"
  shows "\<exists>q \<in> {Gathered, Retrieved}. stepped Gathered x q y"
proof (cases "Retrieve book = [] \<or> ev_retrieve env = None")
  case True
  then have "y = x" using assms by (auto simp: exec_retrieve_def split: if_splits)
  then show ?thesis by (auto simp: stepped_recorded)
next
  case False
  then obtain stage where st: "ev_retrieve env = Some stage" by blast
  obtain rs err where "stage (Retrieve book) trigger = (rs, err)" by fastforce
  note r = st this
  have "y = fold (recordRetrieval env runID) rs (event RetrieveRan x)" using assms False r by (simp add: exec_retrieve_def)
  moreover have "stepped Gathered x Retrieved (event RetrieveRan x)" by (rule stepped_event) simp
  ultimately have "stepped Gathered x Retrieved y" using stepped_then recorded_fold recorded_retrieval by metis
  then show ?thesis by blast
qed

lemma recorded_prompt: "exec_prompt env runID book trigger x = (y, r) \<Longrightarrow> recorded x y"
  by (auto simp: exec_prompt_def recorded_upd split: sum.splits prod.splits)

lemma stepped_resolved: "storeResolved env runID book x = (y, ref) \<Longrightarrow> stepped p x p (y\<lparr>x_outcome := (x_outcome y)\<lparr>ResolvedPlaybookRef := ref\<rparr>\<rparr>)"
proof -
  assume "storeResolved env runID book x = (y, ref)"
  then have "recorded x y" using recorded_put recorded_note by (auto simp: storeResolved_def split: sum.splits)
  then show ?thesis using stepped_recorded recorded_trans recorded_upd(2) [of y] by (auto simp: same_ends_def)
qed

lemma stepped_execute_body: "\<exists>q. stepped Preparing x q (execute_body env runID book trigger x)"
proof -
  obtain x1 ref where 1: "storeResolved env runID book x = (x1, ref)" by fastforce
  let ?x1 = "x1\<lparr>x_outcome := (x_outcome x1)\<lparr>ResolvedPlaybookRef := ref\<rparr>\<rparr>"
  obtain x2 ge where 2: "exec_gather env runID book trigger ?x1 = (x2, ge)" by fastforce
  obtain x3 re where 3: "exec_retrieve env runID book trigger x2 = (x3, re)" by fastforce
  obtain x4 pr where 4: "exec_prompt env runID book (if trig_Type (pb_Trigger book) = ''webhook'' then [] else trigger) x3 = (x4, pr)" by fastforce
  have s1: "stepped Preparing x Preparing ?x1" by (rule stepped_resolved [OF 1])
  show ?thesis
  proof (cases ge)
    case (Some e)
    then obtain q where "stepped Preparing x q x2" using stepped_gather [OF 2] stepped_trans [OF s1] by blast
    from stepped_refused [OF this] show ?thesis using Some by (auto simp: execute_body_def 1 2)
  next
    case None
    then have s2: "stepped Preparing x Gathered x2" using stepped_gather [OF 2] stepped_trans [OF s1] by auto
    obtain q where q: "q \<in> {Gathered, Retrieved}" "stepped Gathered x2 q x3" using stepped_retrieve [OF 3] by blast
    note q = q(1) stepped_trans [OF s2 q(2)]
    have s4: "stepped Preparing x q x4" using q(2) recorded_prompt [OF 4] stepped_then by blast
    show ?thesis
    proof (cases re)
      case (Some e)
      then show ?thesis using None stepped_refused [OF q(2)] by (auto simp: execute_body_def 1 2 3)
    next
      case re: None
      show ?thesis
      proof (cases pr)
        case (Inl e)
        then show ?thesis using None re stepped_refused [OF s4] by (auto simp: execute_body_def 1 2 3 4)
      next
        case (Inr pp)
        let ?x4 = "x4\<lparr>x_outcome := (x_outcome x4)\<lparr>PromptRef := snd pp\<rparr>\<rparr>"
        have "recorded x4 ?x4" by (rule recorded_upd) (simp add: same_ends_def)
        then have "stepped Preparing x q ?x4" using s4 stepped_then by blast
        moreover have "execute_body env runID book trigger x = agentAndSinks env runID book (fst pp) trigger ?x4"
          using None re Inr by (cases pp) (simp add: execute_body_def 1 2 3 4)
        ultimately show ?thesis using stepped_agentAndSinks [OF q(1)] stepped_trans by metis
      qed
    qed
  qed
qed

lemma stepped_replay_body: "\<exists>q. stepped Retrieved x q (replay_body env runID book inputs retrievals prompt x)"
proof -
  obtain x1 e1 where 1: "restore_inputs env runID inputs x = (x1, e1)" by fastforce
  obtain x2 e2 where 2: "restore_retrievals env runID retrievals x1 = (x2, e2)" by fastforce
  obtain x3 ref where 3: "put_blob env runID ''prompt.txt'' prompt x2 = (x3, ref)" by fastforce
  define x4 where "x4 = x3\<lparr>x_outcome := (x_outcome x3)\<lparr>PromptRef := ref\<rparr>\<rparr>"
  define x5 where "x5 = (case ev_playbook_json env book of
       Inl _ \<Rightarrow> x4
     | Inr document \<Rightarrow> (case Put (ev_digest env) (ev_put_fault env ''playbook.json'') runID ''playbook.json'' document (x_blobs x4) of
           (b, Inl _) \<Rightarrow> x4\<lparr>x_blobs := b\<rparr>
         | (b, Inr r) \<Rightarrow> x4\<lparr>x_blobs := b, x_outcome := (x_outcome x4)\<lparr>ResolvedPlaybookRef := r\<rparr>\<rparr>))"
  have s: "stepped Retrieved x Retrieved x1" "stepped Retrieved x Retrieved x2"
    using recorded_restore_inputs [OF 1] recorded_restore_retrievals [OF 2] recorded_trans stepped_recorded by blast+
  have "recorded x3 x4" unfolding x4_def by (rule recorded_upd) (simp add: same_ends_def)
  moreover have "recorded x4 x5"
    unfolding x5_def by (simp add: recorded_def same_ends_def split: sum.splits prod.splits)
  ultimately have s5: "stepped Retrieved x Retrieved x5" using s(2) recorded_put [OF 3] stepped_then by blast
  have body: "replay_body env runID book inputs retrievals prompt x = (case e1 of
      Some e \<Rightarrow> finished runID (set_status StatusRefused e x1)
    | None \<Rightarrow> (case e2 of Some e \<Rightarrow> finished runID (set_status StatusRefused e x2)
        | None \<Rightarrow> agentAndSinks env runID book prompt [] x5))"
    unfolding replay_body_def 1 prod.case 2 3 Let_def x4_def [symmetric] x5_def [symmetric] by (simp split: option.splits)
  show ?thesis
  proof (cases "e1 = None \<and> e2 = None")
    case True
    then have "replay_body env runID book inputs retrievals prompt x = agentAndSinks env runID book prompt [] x5" using body by simp
    then show ?thesis using stepped_agentAndSinks [of Retrieved x5] stepped_trans [OF s5] by (metis insertCI)
  next
    case False
    then show ?thesis using body stepped_refused [OF s(1)] stepped_refused [OF s(2)] by (force split: option.splits)
  qed
qed

lemma stepped_resume_body: "\<exists>q. stepped AgentDone x q (resume_body env runID book report x)"
proof -
  obtain sinks refusals where B: "Build (build_options_of env book []) (declarationsOf book) = (sinks, refusals)" by fastforce
  obtain x1 ref where P: "put_blob env runID ''report.json'' report x = (x1, ref)" by fastforce
  let ?x1 = "x1\<lparr>x_outcome := (x_outcome x1)\<lparr>ReportRef := ref, run_Status := StatusSucceeded\<rparr>\<rparr>"
  have "stepped AgentDone x AgentDone ?x1"
    by (rule stepped_trans [OF stepped_recorded [OF recorded_put [OF P]] stepped_outcome]) simp_all
  then have "\<exists>q. stepped AgentDone x q (exec_deliver env runID sinks d ?x1)" for d
    using stepped_deliver stepped_trans by blast
  then have ok: "\<exists>q. stepped AgentDone x q (finished runID (exec_deliver env runID sinks d ?x1))" for d
    using stepped_finished stepped_trans by blast
  have "stepped AgentDone x AgentDone x" by (simp add: stepped_recorded)
  from stepped_refused [OF this] ok show ?thesis by (simp add: resume_body_def B P) blast
qed

text \<open>The three bodies a frame is given, each with the phase it starts in.\<close>

inductive run_body :: "exec_env \<Rightarrow> string \<Rightarrow> run_phase \<Rightarrow> (exec \<Rightarrow> exec) \<Rightarrow> bool" for env runID where
  executing: "run_body env runID Preparing (execute_body env runID book trigger)"
| replaying: "run_body env runID Retrieved (replay_body env runID book inputs retrievals prompt)"
| resuming: "run_body env runID AgentDone (resume_body env runID book report)"

lemma stepped_body: "run_body env runID p body \<Longrightarrow> \<exists>q. stepped p x q (body x)"
  by (erule run_body.cases) (simp_all add: stepped_execute_body stepped_replay_body stepped_resume_body)




text \<open>What the frame hands the body, and what it does with what the body leaves.\<close>

lemma run_frame_ran:
  assumes "run_frame env adm name kind parent body x = (x', Inr out)"
  obtains l row x0 x1 where "Begin (ev_mkdir env) (ev_now env) (claimedOf (ev_reach env) adm name) kind parent (x_lock x) = (l, Inr row)"
    "x_lock x0 = l" "x_events x0 = []" "x_net x0 = x_net x" "x_incomplete x0 = []" "\<not> h_stopped (x_hold x0)"
    "x_outcome x0 = blank_run\<lparr>ParentRunID := parent\<rparr>"
    "x1 = stoppedByTheGuard (loop_decides env 1 (body x0))" "out = summary (x_outcome (body x0))"
    "x' = x1\<lparr>x_lock := fst (Finish (ev_now env) (ad_RunID adm) (rc_Release (ad_Claim adm)) ((x_outcome x1)\<lparr>EndedAt := ev_now env\<rparr>) (x_lock x1)),
       x_outcome := (x_outcome x1)\<lparr>EndedAt := ev_now env\<rparr>\<rparr>"
proof -
  obtain l r where B: "Begin (ev_mkdir env) (ev_now env) (claimedOf (ev_reach env) adm name) kind parent (x_lock x) = (l, r)" by fastforce
  then obtain row where r: "r = Inr row" using assms by (cases r) (simp_all add: run_frame_def)
  let ?x0 = "x\<lparr>x_lock := l, x_work := [], x_incomplete := [], x_events := [], x_fences := 0,
      x_hold := fst (Guard_Hold rc_Expiry (Some (ad_Claim adm)) (ad_sent adm)),
      x_renewing := snd (Guard_Hold rc_Expiry (Some (ad_Claim adm)) (ad_sent adm)), x_outcome := blank_run\<lparr>ParentRunID := parent\<rparr>\<rparr>"
  show thesis
    by (rule that [OF B [unfolded r], of ?x0 "stoppedByTheGuard (loop_decides env 1 (body ?x0))"])
      (use assms B r in \<open>simp_all add: run_frame_def Let_def Guard_Hold_def split: prod.splits\<close>)
qed

lemma stepped_tail: "stepped p x p (stoppedByTheGuard (loop_decides env at x))"
  by (rule stepped_trans [OF stepped_loop stepped_guard])

lemma run_frame_order:
  assumes "run_body env (ad_RunID adm) p body" "run_frame env adm name kind parent body x = (x', Inr out)"
  shows "phases p (x_events x') \<noteq> None \<and> (SinksAsked \<notin> set (x_events x') \<longrightarrow> x_net x' = x_net x)"
  using assms(2)
proof (cases rule: run_frame_ran)
  case (1 l row x0 x1)
  obtain q where "stepped p x0 q (body x0)" using stepped_body [OF assms(1)] by blast
  from stepped_trans [OF this stepped_tail] have "stepped p x0 q x1" unfolding 1(8) .
  then obtain es where "x_events x1 = es" "phases p es = Some q" "SinksAsked \<notin> set es \<longrightarrow> x_net x1 = x_net x"
    using 1(3,4) by (auto simp: stepped_def)
  then show ?thesis unfolding 1(10) by simp
qed

lemma finished_whole:
  "run_Status (x_outcome (finished runID z)) = StatusSucceeded \<Longrightarrow> x_incomplete (finished runID z) = []"
  by (auto simp: finished_def Let_def split: if_splits)






subsection \<open>Properties\<close>

lemma Execute_frame:
  assumes "Execute env g aenv newID book kind due trigger x = (x', Inr out)"
  obtains x1 adm where "admitTrigger g aenv newID book kind due trigger x = (x1, Inr adm)"
    "run_frame env adm (pb_Name (ad_Book adm)) kind [] (execute_body env (ad_RunID adm) (ad_Book adm) trigger) x1 = (x', Inr out)"
proof -
  obtain x1 r where a: "admitTrigger g aenv newID book kind due trigger x = (x1, r)" by fastforce
  then obtain adm where r: "r = Inr adm" using assms by (cases r) (simp_all add: Execute_def)
  obtain x2 rr where f: "run_frame env adm (pb_Name (ad_Book adm)) kind [] (execute_body env (ad_RunID adm) (ad_Book adm) trigger) x1 = (x2, rr)"
    by fastforce
  then have "x2 = x' \<and> rr = Inr out" using assms a r by (cases rr) (simp_all add: Execute_def)
  then show thesis using that a r f by blast
qed

lemma derived_frame:
  assumes "derived_run env g aenv newID book kind parentID body x = (x', Inr out)"
  obtains x1 adm where "admitTrigger g aenv newID book kind zero_time [] x = (x1, Inr adm)"
    "run_frame env adm (pb_Name book) kind parentID (body (ad_RunID adm)) x1 = (x', Inr out)"
proof -
  obtain x1 r where a: "admitTrigger g aenv newID book kind zero_time [] x = (x1, r)" by fastforce
  then obtain adm where r: "r = Inr adm" using assms by (cases r) (simp_all add: derived_run_def)
  obtain x2 rr where f: "run_frame env adm (pb_Name book) kind parentID (body (ad_RunID adm)) x1 = (x2, rr)" by fastforce
  then have "x2 = x' \<and> rr = Inr out" using assms a r by (cases rr) (simp_all add: derived_run_def)
  then show thesis using that a r f by blast
qed

lemma admitTrigger_net: "admitTrigger g aenv newID book kind due trigger x = (x1, r) \<Longrightarrow> x_net x1 = x_net x"
  by (auto simp: admitTrigger_def split: sum.splits prod.splits)

text \<open>
  C12. A run spends and acts only while it can prove its claim.  Whatever the stages, the backend and
  the file system answer, what a run does follows the machine: gather, then retrieve, then a fence,
  then the agent, then the sinks, each behind a fence of its own.  The agent's run comes right after a
  fence that passed, nothing at all follows a fence that failed, and a run that never asked its sinks
  sent nothing.
\<close>

theorem Execute_fences_before_acting:
  assumes "Execute env g aenv newID book kind due trigger x = (x', Inr out)"
  shows "phases Preparing (x_events x') \<noteq> None \<and>
    (\<forall>es fs. x_events x' = es @ AgentRan # fs \<longrightarrow> es \<noteq> [] \<and> last es = Fenced True) \<and>
    (SinksAsked \<notin> set (x_events x') \<longrightarrow> x_net x' = x_net x)"
  using assms
proof (cases rule: Execute_frame)
  case (1 x1 adm)
  have o: "phases Preparing (x_events x') \<noteq> None \<and> (SinksAsked \<notin> set (x_events x') \<longrightarrow> x_net x' = x_net x1)"
    by (rule run_frame_order [OF run_body.executing 1(2)])
  moreover have "es \<noteq> [] \<and> last es = Fenced True" if "x_events x' = es @ AgentRan # fs" for es fs
    using o agent_after_fence [of Preparing es fs] unfolding that by auto
  ultimately show ?thesis using admitTrigger_net [OF 1(1)] by auto
qed

text \<open>A machine that is past a phase does not come back to what that phase does.\<close>

lemma no_gather_after: "phases p es \<noteq> None \<Longrightarrow> p \<notin> {Preparing, Gathered} \<Longrightarrow> GatherRan \<notin> set es \<and> RetrieveRan \<notin> set es"
proof (induction es arbitrary: p)
  case (Cons e es)
  then obtain q where q: "phase_after p e = Some q" "phases q es \<noteq> None" by (auto split: option.splits)
  have "q \<notin> {Preparing, Gathered}" "e \<noteq> GatherRan" "e \<noteq> RetrieveRan"
    using q(1) Cons.prems(2) by (cases "(p, e)" rule: phase_after.cases; auto split: if_splits)+
  then show ?case using Cons.IH [OF q(2)] by auto
qed simp

lemma no_agent_after: "phases p es \<noteq> None \<Longrightarrow> p \<in> {AgentDone, Delivering, Stopped} \<Longrightarrow> AgentRan \<notin> set es"
proof (induction es arbitrary: p)
  case (Cons e es)
  then obtain q where q: "phase_after p e = Some q" "phases q es \<noteq> None" by (auto split: option.splits)
  have "q \<in> {AgentDone, Delivering, Stopped}" "e \<noteq> AgentRan"
    using q(1) Cons.prems(2) by (cases "(p, e)" rule: phase_after.cases; auto split: if_splits)+
  then show ?case using Cons.IH [OF q(2)] by auto
qed simp

lemma Replay_derived:
  assumes "Replay env g aenv newID parentID book x = (x', Inr out)"
  obtains prompt where "derived_run env g aenv newID book TriggerReplay parentID
    (\<lambda>runID. replay_body env runID book (GatheredInputs parentID (x_rows x)) (Retrievals parentID (x_rows x)) prompt) x = (x', Inr out)"
  using assms by (auto simp: Replay_def split: sum.splits if_splits option.splits)

lemma Resume_derived:
  assumes "Resume env g aenv newID parentID book x = (x', Inr out)"
  obtains report where "derived_run env g aenv newID book TriggerResume parentID (\<lambda>runID. resume_body env runID book report) x = (x', Inr out)"
  using assms by (auto simp: Resume_def split: sum.splits if_splits option.splits)

text \<open>
  A replay asks the same inputs again and nothing else: it gathers nothing and retrieves nothing,
  it goes straight from its restored inputs to the fence and the agent.  A resume runs no agent: it
  only asks the sinks.
\<close>

theorem derived_runs_repeat_no_stage:
  "(Replay env g aenv newID parentID book x = (x', Inr out) \<longrightarrow>
      phases Retrieved (x_events x') \<noteq> None \<and> GatherRan \<notin> set (x_events x') \<and> RetrieveRan \<notin> set (x_events x')) \<and>
   (Resume env g aenv newID parentID book y = (y', Inr out') \<longrightarrow>
      phases AgentDone (x_events y') \<noteq> None \<and> AgentRan \<notin> set (x_events y') \<and> GatherRan \<notin> set (x_events y'))"
proof (intro conjI impI)
  assume "Replay env g aenv newID parentID book x = (x', Inr out)"
  then obtain prompt where "derived_run env g aenv newID book TriggerReplay parentID
    (\<lambda>runID. replay_body env runID book (GatheredInputs parentID (x_rows x)) (Retrievals parentID (x_rows x)) prompt) x = (x', Inr out)"
    by (rule Replay_derived)
  then obtain x1 adm where "run_frame env adm (pb_Name book) TriggerReplay parentID
    (replay_body env (ad_RunID adm) book (GatheredInputs parentID (x_rows x)) (Retrievals parentID (x_rows x)) prompt) x1 = (x', Inr out)"
    by (rule derived_frame)
  from run_frame_order [OF run_body.replaying this] show *: "phases Retrieved (x_events x') \<noteq> None" by blast
  show "GatherRan \<notin> set (x_events x')" "RetrieveRan \<notin> set (x_events x')" using no_gather_after [OF *] by simp_all
next
  assume "Resume env g aenv newID parentID book y = (y', Inr out')"
  then obtain report where "derived_run env g aenv newID book TriggerResume parentID (\<lambda>runID. resume_body env runID book report) y = (y', Inr out')"
    by (rule Resume_derived)
  then obtain x1 adm where "run_frame env adm (pb_Name book) TriggerResume parentID (resume_body env (ad_RunID adm) book report) x1 = (y', Inr out')"
    by (rule derived_frame)
  from run_frame_order [OF run_body.resuming this] show *: "phases AgentDone (x_events y') \<noteq> None" by blast
  show "AgentRan \<notin> set (x_events y')" using no_agent_after [OF *] by simp
  show "GatherRan \<notin> set (x_events y')" using no_gather_after [OF *] by simp
qed



subsection \<open>Two sinks of one type\<close>

definition has_sink_row :: "string \<Rightarrow> string \<Rightarrow> exec \<Rightarrow> bool" where
  "has_sink_row runID name x \<longleftrightarrow> x_incomplete x \<noteq> [] \<or>
     list_ex (\<lambda>(r, o'). r = runID \<and> sr_Sink o' = redact (fl_store (x_lock x)) name) (rw_sinks (x_rows x))"

lemma record_outcome_row: "has_sink_row runID (so_Sink d) (record_outcome runID d x)"
  by (auto simp: has_sink_row_def record_outcome_def Let_def add_row_def AddSinkOutcome_def insert_row_def problems_note_def
      set_status_def split: if_splits)

lemma record_outcome_keeps: "has_sink_row runID name x \<Longrightarrow> has_sink_row runID name (record_outcome runID d x)"
  by (auto simp: has_sink_row_def record_outcome_def Let_def add_row_def AddSinkOutcome_def insert_row_def problems_note_def
      set_status_def split: if_splits)

lemma record_outcome_twice: "has_sink_row runID (so_Sink d) x \<Longrightarrow> x_incomplete (record_outcome runID d x) \<noteq> []"
  by (auto simp: has_sink_row_def record_outcome_def Let_def add_row_def AddSinkOutcome_def insert_row_def problems_note_def
      set_status_def split: if_splits)

lemma record_outcomes_keep:
  "has_sink_row runID name x \<Longrightarrow> has_sink_row runID name (fold (record_outcome runID) ds x)"
  "x_incomplete x \<noteq> [] \<Longrightarrow> x_incomplete (fold (record_outcome runID) ds x) \<noteq> []"
proof -
  have "x_incomplete y \<noteq> [] \<Longrightarrow> x_incomplete (record_outcome runID d y) \<noteq> []" for d y
    by (auto simp: record_outcome_def Let_def add_row_def problems_note_def set_status_def split: prod.splits option.splits)
  then show "x_incomplete x \<noteq> [] \<Longrightarrow> x_incomplete (fold (record_outcome runID) ds x) \<noteq> []" by (induction ds arbitrary: x) auto
  show "has_sink_row runID name x \<Longrightarrow> has_sink_row runID name (fold (record_outcome runID) ds x)"
    by (induction ds arbitrary: x) (auto intro: record_outcome_keeps)
qed

lemma record_outcomes_repeat:
  assumes "\<not> distinct (map so_Sink ds)"
  shows "x_incomplete (fold (record_outcome runID) ds x) \<noteq> []"
proof -
  obtain as bs cs n where "map so_Sink ds = as @ [n] @ bs @ [n] @ cs" using not_distinct_decomp [OF assms] by blast
  then obtain as' mid where 0: "ds = as' @ mid" "map so_Sink mid = n # bs @ n # cs" by (auto simp: map_eq_append_conv)
  obtain a rest where "mid = a # rest" "so_Sink a = n" "map so_Sink rest = bs @ n # cs" using 0(2) by (cases mid) auto
  note 1 = 0(1) [unfolded this(1)] this(2,3)
  obtain bs' b cs' where 2: "rest = bs' @ b # cs'" "so_Sink b = n" using 1(3) by (auto simp: map_eq_append_conv map_eq_Cons_conv)
  have ds: "ds = as' @ a # bs' @ b # cs'" "so_Sink a = so_Sink b" using 1 2 by simp_all
  let ?x = "fold (record_outcome runID) bs' (record_outcome runID a (fold (record_outcome runID) as' x))"
  have "has_sink_row runID (so_Sink b) ?x" using record_outcomes_keep(1) [OF record_outcome_row] ds(2) by metis
  then have "x_incomplete (record_outcome runID b ?x) \<noteq> []" by (rule record_outcome_twice)
  then show ?thesis unfolding ds(1) by (simp add: record_outcomes_keep(2))
qed

lemma DeliverAll_names:
  assumes "\<And>h. snd (gate h) = None" "DeliverAll env gate sinks d h n = (h', n', os, e)"
  shows "map so_Sink os = map sink_Name sinks"
  using assms(2)
proof (induction sinks arbitrary: h n os)
  case (Cons one sinks)
  obtain h1 where g: "gate h = (h1, None)" using assms(1) [of h] by (cases "gate h") simp
  obtain n1 oc err where s: "sink_Deliver env one d n = (n1, oc, err)" using prod_cases3 by blast
  obtain h2 n2 os2 e2 where r: "DeliverAll env gate sinks d h1 n1 = (h2, n2, os2, e2)" using prod_cases4 by blast
  have os: "os = settle_outcome one oc err # os2" "h' = h2" "n' = n2" "e = e2" using Cons.prems g s r by auto
  have "map so_Sink os2 = map sink_Name sinks" using Cons.IH r os by simp
  moreover have "so_Sink (settle_outcome one oc err) = sink_Name one" by (auto simp: settle_outcome_def Let_def split: option.splits)
  ultimately show ?case using os by simp
qed simp

text \<open>
  C35. The table of sink outcomes has one row per run and sink type, and a playbook may declare two
  sinks of one type.  Both are delivered to; the second outcome cannot be written, the record is
  incomplete, and a run whose every sink delivered is recorded as failed.
\<close>

theorem same_type_sinks_never_succeed:
  assumes "\<not> distinct (map sink_Name sinks)" "\<forall>k. ev_fence env k = None"
  shows "run_Status (x_outcome (finished runID (exec_deliver env runID sinks d x))) \<noteq> StatusSucceeded"
proof -
  obtain x1 n os e where D: "DeliverAll (ev_sink env) (run_fence env) sinks d (event SinksAsked x) (x_net x) = (x1, n, os, e)"
    using prod_cases4 by blast
  have "snd (run_fence env h) = None" for h
    using assms(2) by (simp add: run_fence_def Hold_Fence_def split: option.splits)
  then have "map so_Sink os = map sink_Name sinks" using DeliverAll_names [OF _ D] by blast
  then have "x_incomplete (exec_deliver env runID sinks d x) \<noteq> []"
    unfolding exec_deliver_def D prod.case Let_def using record_outcomes_repeat assms(1) by metis
  then show ?thesis using finished_whole by (auto simp: finished_def Let_def split: if_splits)
qed

subsection \<open>A small run\<close>

text \<open>A small run: a manual trigger, nothing to gather, one agent and one Discord sink.\<close>

definition demo_stage :: stage where
  "demo_stage = \<lparr>sg_Raw = [], sg_Init = None, sg_Result = None, sg_Calls = [], sg_Aborted = None, sg_TimedOut = False,
     sg_DecodeErr = None, sg_Report = Inr ''{}''\<rparr>"

definition demo_exec_env :: exec_env where
  "demo_exec_env = \<lparr>ev_config = \<lparr>stateDir = [], cfg_values = []\<rparr>, ev_parse = (\<lambda>_. None), ev_problems = (\<lambda>_. ''p''), ev_digest = (\<lambda>_. ''0f''),
     ev_put_fault = (\<lambda>_. None), ev_write_fault = (\<lambda>_. None), ev_playbook_json = (\<lambda>_. Inr ''{}''), ev_trigger_json = (\<lambda>_. Inr ''{}''),
     ev_gather = (\<lambda>_. ([], None)), ev_retrieve = None, ev_prompt = (\<lambda>_. Inr ''look''), ev_catalog = None,
     ev_agent = (\<lambda>_. Inr demo_stage), ev_validate = (\<lambda>_ _. None), ev_sink = demo_sink_env, ev_int_of_float = (\<lambda>_. 0),
     ev_fence = (\<lambda>_. None), ev_message = (\<lambda>_. ''e''), ev_lost = (\<lambda>_. None), ev_cwd = ''/'', ev_mkdir = None,
     ev_duration = (\<lambda>_. ''5m''), ev_reach = ''single-host'', ev_build_text = (\<lambda>_. ''b''), ev_now = 7\<rparr>"

definition demo_exec :: exec where
  "demo_exec = \<lparr>x_lock = \<lparr>fl_locked = [(''triage'', 0)], fl_next = 1, fl_content = [], fl_dirs = [], fl_store = empty_store None\<rparr>,
     x_instances = [], x_rows = \<lparr>rw_inputs = [], rw_calls = [], rw_actions = [], rw_sinks = [], rw_retrievals = []\<rparr>,
     x_blobs = demo_blobs, x_work = [], x_net = demo_net, x_hold = fst (Guard_Hold rc_Expiry None 0), x_renewing = False, x_fences = 0,
     x_events = [], x_incomplete = [], x_outcome = blank_run\<rparr>"

definition demo_claimed :: file_claim where "demo_claimed = \<lparr>fc_name = ''triage'', fc_desc = 0\<rparr>"


definition demo_admit_env :: "run_claim admit_env" where
  "demo_admit_env = \<lparr>ae_sent = 0, ae_acquire = (\<lambda>_. Inr (of_file_claim demo_claimed)), ae_wall = 10, ae_newID = None,
     ae_reconcile = \<lparr>re_wall = (\<lambda>_. 10), re_newID = (\<lambda>_. None), re_others = (\<lambda>_ s. s), re_format = (\<lambda>_. [])\<rparr>,
     ae_accepted = 1, ae_acceptedAt = 10, ae_triggerID = None, ae_put = (\<lambda>_ _. Inr []), ae_rounds = []\<rparr>"

lemma ran_pair: "\<not> isl (snd p) \<Longrightarrow> p = (fst p, Inr (projr (snd p)))"
  by (cases p; cases "snd p") auto

definition demo_executed :: "exec \<times> (exec_error, run_row) result" where
  "demo_executed = Execute demo_exec_env demo_guard demo_admit_env (Inr ''r1'') demo_book TriggerManual 0 [] demo_exec"

lemma demo_executed_ran: "x_events (fst demo_executed) = [GatherRan, Fenced True, AgentRan, SinksAsked] \<and> \<not> isl (snd demo_executed)"
  by code_simp

theorem Execute_fences_before_acting_witness:
  "x_events (fst demo_executed) = [GatherRan, Fenced True, AgentRan, SinksAsked] \<and> phases Preparing (x_events (fst demo_executed)) \<noteq> None"
  using Execute_fences_before_acting [OF ran_pair [of demo_executed, unfolded demo_executed_def]] demo_executed_ran
  unfolding demo_executed_def by blast

text \<open>The run that was executed, replayed and resumed.\<close>

definition demo_again :: exec where "demo_again = fst demo_executed"

definition demo_replayed :: "exec \<times> (exec_error, run_row) result" where
  "demo_replayed = Replay demo_exec_env demo_guard demo_admit_env (Inr ''r2'') ''r1'' demo_book demo_again"

definition demo_resumed :: "exec \<times> (exec_error, run_row) result" where
  "demo_resumed = Resume demo_exec_env demo_guard demo_admit_env (Inr ''r3'') ''r1'' demo_book demo_again"

lemma demo_replayed_ran: "x_events (fst demo_replayed) = [Fenced True, AgentRan, SinksAsked] \<and> \<not> isl (snd demo_replayed)"
  by code_simp

lemma demo_resumed_ran: "x_events (fst demo_resumed) = [SinksAsked] \<and> \<not> isl (snd demo_resumed)"
  by code_simp

theorem derived_runs_repeat_no_stage_witness:
  "phases Retrieved (x_events (fst demo_replayed)) \<noteq> None \<and> phases AgentDone (x_events (fst demo_resumed)) \<noteq> None \<and>
   \<not> isl (snd demo_replayed) \<and> \<not> isl (snd demo_resumed)"
proof -
  have r: "Replay demo_exec_env demo_guard demo_admit_env (Inr ''r2'') ''r1'' demo_book demo_again = (fst demo_replayed, Inr (projr (snd demo_replayed)))"
    using ran_pair [of demo_replayed] demo_replayed_ran unfolding demo_replayed_def by blast
  have s: "Resume demo_exec_env demo_guard demo_admit_env (Inr ''r3'') ''r1'' demo_book demo_again = (fst demo_resumed, Inr (projr (snd demo_resumed)))"
    using ran_pair [of demo_resumed] demo_resumed_ran unfolding demo_resumed_def by blast
  show ?thesis
    using derived_runs_repeat_no_stage [THEN conjunct1, THEN mp, OF r] derived_runs_repeat_no_stage [THEN conjunct2, THEN mp, OF s]
      demo_replayed_ran demo_resumed_ran by blast
qed







theorem same_type_sinks_never_succeed_witness:
  "run_Status (x_outcome (finished ''r1'' (exec_deliver demo_exec_env ''r1'' [NewDiscord ''a'', NewDiscord ''b''] demo_sink_delivery
     (set_status StatusSucceeded [] demo_exec)))) \<noteq> StatusSucceeded"
  by (rule same_type_sinks_never_succeed) (simp_all add: NewDiscord_def sink_Name_def demo_exec_env_def)

end
