(* ===== verification/Gather.thy ===== *)
theory Gather
  imports Executor
begin

text \<open>
  The gather stage: \<open>stage/gather/gather.go\<close>.  The shell is a parameter: a function of the line, the
  environment and the entries of the working directory to what the command wrote on its two outputs, how
  it ended and what it did to the directory.  \<open>cmd.Run\<close> copies each output to its writer chunk by chunk
  and stops copying at the first write that fails.
\<close>

subsection \<open>The limited writer\<close>

definition DefaultMaxBytes :: int where "DefaultMaxBytes = 1048576"
definition DefaultStepTimeout :: duration where "DefaultStepTimeout = 2 * minute"

text \<open>What the underlying writer did with a chunk: how many bytes it took, and why it took no more.\<close>

type_synonym byte_sink = "string \<Rightarrow> nat \<times> string option"

record limited_writer =
  lw_to :: string
  lw_remaining :: int
  lw_written :: int
  lw_truncated :: bool

definition limited_Write :: "byte_sink \<Rightarrow> string \<Rightarrow> limited_writer \<Rightarrow> limited_writer \<times> (string \<times> nat, nat) result" where
  "limited_Write sink p w =
     (let over = int (length p) > lw_remaining w;
          chunk = (if over then take (nat (max (lw_remaining w) 0)) p else p)
      in case sink chunk of (written, err) \<Rightarrow>
           (w\<lparr>lw_to := lw_to w @ take written chunk, lw_remaining := lw_remaining w - int written,
               lw_written := lw_written w + int written, lw_truncated := lw_truncated w \<or> over\<rparr>,
            case err of Some e \<Rightarrow> Inl (e, written) | None \<Rightarrow> Inr (length p)))"

definition new_writer :: "int \<Rightarrow> limited_writer" where
  "new_writer limit = \<lparr>lw_to = [], lw_remaining = limit, lw_written = 0, lw_truncated = False\<rparr>"

fun copy_chunks :: "byte_sink \<Rightarrow> string list \<Rightarrow> limited_writer \<Rightarrow> limited_writer \<times> string option" where
  "copy_chunks sink [] w = (w, None)"
| "copy_chunks sink (c # cs) w = (case limited_Write sink c w of
     (w', Inl (e, _)) \<Rightarrow> (w', Some e) | (w', Inr _) \<Rightarrow> copy_chunks sink cs w')"

subsection \<open>One step\<close>

datatype shell_end = ShellOk | ShellExit int | ShellOther string

record shell_run =
  sh_out :: "string list"
  sh_err :: "string list"
  sh_end :: shell_end
  sh_ctx :: "string option"
  sh_dir :: "string gomap \<Rightarrow> string gomap"

record gather_options =
  go_WorkDir :: string
  go_MaxBytes :: int
  go_StepTimeout :: duration
  go_Env :: "string list"

record gather_env =
  ge_open :: "string \<Rightarrow> string option"
  ge_sink :: "string \<Rightarrow> byte_sink"
  ge_shell :: "string \<Rightarrow> string list \<Rightarrow> duration \<Rightarrow> string gomap \<Rightarrow> shell_run"

record step_result =
  st_Name :: string
  st_Path :: string
  st_Bytes :: int
  st_Truncated :: bool
  st_ExitCode :: int
  st_Stderr :: string

datatype gather_error =
    NameRefused string
  | TwoStepsWrite string
  | NotCreated string string
  | StepExited string int
  | StepNotRun string string
  | StepTimedOut string string

text \<open>A writer of memory takes every byte.\<close>

definition memory_sink :: byte_sink where "memory_sink chunk = (length chunk, None)"

text \<open>How a command ended, once its output was copied: a write that failed is an error of \<open>Run\<close>.\<close>

definition shell_ended :: "shell_run \<Rightarrow> string option \<Rightarrow> shell_end" where
  "shell_ended sh wrote = (case sh_end sh of ShellOk \<Rightarrow> (case wrote of None \<Rightarrow> ShellOk | Some e \<Rightarrow> ShellOther e) | e \<Rightarrow> e)"

definition runStep :: "gather_env \<Rightarrow> gather_options \<Rightarrow> gather_step \<Rightarrow> string gomap \<Rightarrow> string gomap \<times> step_result \<times> gather_error option" where
  "runStep env opts step dir =
     (let r0 = \<lparr>st_Name = gs_As step, st_Path = [], st_Bytes = 0, st_Truncated = False, st_ExitCode = 0, st_Stderr = []\<rparr> in
      if \<not> safeName (gs_As step) then (dir, r0, Some (NameRefused (gs_As step)))
      else let path = path_Join [go_WorkDir opts, gs_As step]; r1 = r0\<lparr>st_Path := path\<rparr> in
        if map_of dir (gs_As step) \<noteq> None then (dir, r1, Some (TwoStepsWrite (gs_As step)))
        else case ge_open env path of
          Some e \<Rightarrow> (dir, r1, Some (NotCreated (gs_As step) e))
        | None \<Rightarrow>
            (let sh = ge_shell env (gs_Run step) (go_Env opts @ gs_Env step) (go_StepTimeout opts) (map_set (gs_As step) [] dir) in
             case copy_chunks (ge_sink env path) (sh_out sh) (new_writer (go_MaxBytes opts)) of (counter, wrote) \<Rightarrow>
               (let stderr = fst (copy_chunks memory_sink (sh_err sh) (new_writer (go_MaxBytes opts)));
                    dir' = sh_dir sh (map_set (gs_As step) (lw_to counter) dir);
                    r2 = r1\<lparr>st_Bytes := lw_written counter, st_Truncated := lw_truncated counter, st_Stderr := lw_to stderr\<rparr>
                in case shell_ended sh wrote of
                     ShellExit n \<Rightarrow> (dir', r2\<lparr>st_ExitCode := n\<rparr>, Some (StepExited (gs_As step) n))
                   | ShellOther e \<Rightarrow> (dir', r2\<lparr>st_ExitCode := -1\<rparr>, Some (StepNotRun (gs_As step) e))
                   | ShellOk \<Rightarrow> (dir', r2, map_option (StepTimedOut (gs_As step)) (sh_ctx sh)))))"

subsection \<open>The stage\<close>

fun run_steps ::
  "gather_env \<Rightarrow> gather_options \<Rightarrow> gather_step list \<Rightarrow> string gomap \<Rightarrow> step_result list \<Rightarrow>
   string gomap \<times> step_result list \<times> gather_error option" where
  "run_steps env opts [] dir results = (dir, results, None)"
| "run_steps env opts (step # steps) dir results = (case runStep env opts step dir of
     (dir', r, Some e) \<Rightarrow> (dir', results @ [r], Some e)
   | (dir', r, None) \<Rightarrow> run_steps env opts steps dir' (results @ [r]))"

definition gather_defaults :: "gather_options \<Rightarrow> gather_options" where
  "gather_defaults opts = opts\<lparr>go_MaxBytes := (if go_MaxBytes opts \<le> 0 then DefaultMaxBytes else go_MaxBytes opts),
     go_StepTimeout := (if go_StepTimeout opts \<le> 0 then DefaultStepTimeout else go_StepTimeout opts)\<rparr>"

definition gather_Run ::
  "gather_env \<Rightarrow> gather_options \<Rightarrow> gather_step list \<Rightarrow> string gomap \<Rightarrow> string gomap \<times> step_result list \<times> gather_error option" where
  "gather_Run env opts steps dir = run_steps env (gather_defaults opts) steps dir []"

subsection \<open>Facts\<close>

text \<open>What an \<open>io.Writer\<close> promises: it takes no more than it was given, and says why it took less.\<close>

definition writer_ok :: "byte_sink \<Rightarrow> bool" where
  "writer_ok sink \<longleftrightarrow> (\<forall>p. fst (sink p) \<le> length p \<and> (snd (sink p) = None \<longrightarrow> fst (sink p) = length p))"

definition writer_inv :: "int \<Rightarrow> limited_writer \<Rightarrow> bool" where
  "writer_inv limit w \<longleftrightarrow> lw_written w = int (length (lw_to w)) \<and> lw_remaining w = limit - lw_written w \<and> 0 \<le> lw_remaining w"

lemma limited_Write_inv:
  assumes "writer_ok sink" "writer_inv limit w" "limited_Write sink p w = (w', r)"
  shows "writer_inv limit w'"
proof -
  define chunk where "chunk = (if int (length p) > lw_remaining w then take (nat (max (lw_remaining w) 0)) p else p)"
  have "fst (sink chunk) \<le> length chunk" using assms(1) by (simp add: writer_ok_def)
  moreover have "int (length chunk) \<le> lw_remaining w" using assms(2) by (auto simp: chunk_def writer_inv_def)
  ultimately show ?thesis
    using assms(2,3) unfolding limited_Write_def Let_def chunk_def [symmetric]
    by (auto simp: writer_inv_def min_def split: prod.splits)
qed

lemma limited_Write_takes:
  assumes "writer_ok sink" "writer_inv limit w" "limited_Write sink p w = (w', Inr n)"
  shows "lw_to w' = lw_to w @ take (nat (lw_remaining w)) p \<and> (lw_truncated w' \<longleftrightarrow> lw_truncated w \<or> int (length p) > lw_remaining w) \<and>
    n = length p"
proof -
  define chunk where "chunk = (if int (length p) > lw_remaining w then take (nat (max (lw_remaining w) 0)) p else p)"
  have c: "chunk = take (nat (lw_remaining w)) p" using assms(2) by (auto simp: chunk_def writer_inv_def)
  obtain k e where s: "sink chunk = (k, e)" by fastforce
  then have "e = None" "n = length p" using assms(3) unfolding limited_Write_def Let_def chunk_def [symmetric] by (auto split: option.splits)
  moreover have "k = length chunk" using assms(1) s \<open>e = None\<close> by (metis fst_conv snd_conv writer_ok_def)
  moreover have "lw_to w' = lw_to w @ take k chunk" "lw_truncated w' \<longleftrightarrow> lw_truncated w \<or> int (length p) > lw_remaining w"
    using assms(3) s unfolding limited_Write_def Let_def chunk_def [symmetric] by (auto split: option.splits)
  ultimately have "lw_to w' = lw_to w @ chunk" "lw_truncated w' \<longleftrightarrow> lw_truncated w \<or> int (length p) > lw_remaining w" "n = length p" by simp_all
  then show ?thesis unfolding c by blast
qed

lemma copy_chunks_inv:
  "writer_ok sink \<Longrightarrow> writer_inv limit w \<Longrightarrow> copy_chunks sink cs w = (w', e) \<Longrightarrow> writer_inv limit w'"
proof (induction cs arbitrary: w)
  case (Cons c cs)
  obtain w1 r where 1: "limited_Write sink c w = (w1, r)" by fastforce
  note i = limited_Write_inv [OF Cons.prems(1,2) 1]
  show ?case using Cons.prems(3) 1 i Cons.IH [OF Cons.prems(1) i] by (cases r) auto
qed simp

lemma copy_chunks_takes:
  assumes "writer_ok sink" "writer_inv limit w" "copy_chunks sink cs w = (w', None)"
  shows "lw_to w' = lw_to w @ take (nat (lw_remaining w)) (concat cs) \<and>
    (lw_truncated w' \<longleftrightarrow> lw_truncated w \<or> int (length (concat cs)) > lw_remaining w)"
  using assms(2,3)
proof (induction cs arbitrary: w)
  case Nil
  then show ?case by (simp add: writer_inv_def)
next
  case (Cons c cs)
  obtain w1 r where 1: "limited_Write sink c w = (w1, r)" by fastforce
  then obtain n where r: "r = Inr n" using Cons.prems(2) by (cases r) auto
  note i = limited_Write_inv [OF assms(1) Cons.prems(1) 1]
  note t = limited_Write_takes [OF assms(1) Cons.prems(1) 1 [unfolded r]]
  have "copy_chunks sink cs w1 = (w', None)" using Cons.prems(2) 1 r by simp
  note ih = Cons.IH [OF i this]
  have rem: "lw_remaining w1 = lw_remaining w - int (min (nat (lw_remaining w)) (length c))"
    using i Cons.prems(1) t by (simp add: writer_inv_def)
  have nn: "0 \<le> lw_remaining w" using Cons.prems(1) by (simp add: writer_inv_def)
  have "nat (lw_remaining w1) = nat (lw_remaining w) - length c" using rem nn by (simp add: min_def split: if_splits)
  then have "lw_to w' = lw_to w @ take (nat (lw_remaining w)) (concat (c # cs))" using ih t by simp
  moreover have "int l > lw_remaining w1 \<or> int (length c) > lw_remaining w \<longleftrightarrow> int (length c) + int l > lw_remaining w" for l
    using rem nn by (auto simp: min_def split: if_splits)
  then have "lw_truncated w' \<longleftrightarrow> lw_truncated w \<or> int (length (concat (c # cs))) > lw_remaining w" using ih t by auto
  ultimately show ?case by blast
qed

lemma new_writer_inv: "0 \<le> limit \<Longrightarrow> writer_inv limit (new_writer limit)"
  by (simp add: writer_inv_def new_writer_def)

lemma memory_ok [simp]: "writer_ok memory_sink"
  by (simp add: writer_ok_def memory_sink_def)

lemma memory_never_fails: "snd (copy_chunks memory_sink cs w) = None"
  by (induction cs arbitrary: w) (auto simp: limited_Write_def memory_sink_def Let_def)

definition step_failure :: "gather_options \<Rightarrow> gather_step \<Rightarrow> shell_run \<Rightarrow> string option \<Rightarrow> gather_error option" where
  "step_failure opts step sh wrote = (case shell_ended sh wrote of ShellExit n \<Rightarrow> Some (StepExited (gs_As step) n)
     | ShellOther e \<Rightarrow> Some (StepNotRun (gs_As step) e) | ShellOk \<Rightarrow> map_option (StepTimedOut (gs_As step)) (sh_ctx sh))"

text \<open>A step either never started, and left the directory alone, or ran a shell.\<close>

lemma runStep_cases:
  assumes "runStep env opts step dir = (dir', r, e)"
  obtains (refused) "dir' = dir" "e \<noteq> None" "st_Name r = gs_As step" "st_Bytes r = 0" "st_Stderr r = []"
  | (ran) sh counter wrote stderr where
      "safeName (gs_As step)" "map_of dir (gs_As step) = None" "st_Name r = gs_As step" "st_Path r = path_Join [go_WorkDir opts, gs_As step]"
      "sh = ge_shell env (gs_Run step) (go_Env opts @ gs_Env step) (go_StepTimeout opts) (map_set (gs_As step) [] dir)"
      "copy_chunks (ge_sink env (st_Path r)) (sh_out sh) (new_writer (go_MaxBytes opts)) = (counter, wrote)"
      "copy_chunks memory_sink (sh_err sh) (new_writer (go_MaxBytes opts)) = (stderr, None)"
      "dir' = sh_dir sh (map_set (gs_As step) (lw_to counter) dir)" "st_Bytes r = lw_written counter" "st_Truncated r = lw_truncated counter"
      "st_Stderr r = lw_to stderr" "e = step_failure opts step sh wrote" "shell_ended sh wrote = ShellOk \<longrightarrow> st_ExitCode r = 0"
proof -
  let ?path = "path_Join [go_WorkDir opts, gs_As step]"
  show thesis
  proof (cases "safeName (gs_As step) \<and> map_of dir (gs_As step) = None \<and> ge_open env ?path = None")
    case False
    then show thesis using assms refused by (auto simp: runStep_def Let_def split: if_splits option.splits)
  next
    case True
    define sh where "sh = ge_shell env (gs_Run step) (go_Env opts @ gs_Env step) (go_StepTimeout opts) (map_set (gs_As step) [] dir)"
    obtain counter wrote where c: "copy_chunks (ge_sink env ?path) (sh_out sh) (new_writer (go_MaxBytes opts)) = (counter, wrote)" by fastforce
    obtain stderr where s: "copy_chunks memory_sink (sh_err sh) (new_writer (go_MaxBytes opts)) = (stderr, None)"
      using memory_never_fails [of "sh_err sh" "new_writer (go_MaxBytes opts)"] by (metis prod.collapse)
    note R = assms [unfolded runStep_def Let_def sh_def [symmetric]]
    show thesis
    proof (rule ran [OF _ _ _ _ sh_def, of counter wrote stderr])
      show p: "st_Path r = ?path" using R True c by (auto split: shell_end.splits)
      then show "copy_chunks (ge_sink env (st_Path r)) (sh_out sh) (new_writer (go_MaxBytes opts)) = (counter, wrote)" using c by simp
    qed (use R True c s in \<open>auto simp: step_failure_def split: shell_end.splits\<close>)
  qed
qed

text \<open>
  C37. A step keeps what fits.  A step that succeeded wrote, in a file of the working directory that was
  not there before, exactly the first bytes of its output up to the limit; it counts those bytes, and
  says it was truncated exactly when there were more.  Its standard error is kept to the same limit.
\<close>

theorem step_keeps_what_fits:
  assumes "runStep env opts step dir = (dir', r, None)" "\<And>path. writer_ok (ge_sink env path)" "0 \<le> go_MaxBytes opts"
  shows "\<exists>sh. sh = ge_shell env (gs_Run step) (go_Env opts @ gs_Env step) (go_StepTimeout opts) (map_set (gs_As step) [] dir) \<and>
    safeName (gs_As step) \<and> map_of dir (gs_As step) = None \<and> st_Path r = path_Join [go_WorkDir opts, gs_As step] \<and> st_ExitCode r = 0 \<and>
    dir' = sh_dir sh (map_set (gs_As step) (take (nat (go_MaxBytes opts)) (concat (sh_out sh))) dir) \<and>
    st_Bytes r = min (go_MaxBytes opts) (int (length (concat (sh_out sh)))) \<and>
    st_Truncated r = (int (length (concat (sh_out sh))) > go_MaxBytes opts) \<and>
    st_Stderr r = take (nat (go_MaxBytes opts)) (concat (sh_err sh))"
  using assms(1)
proof (cases rule: runStep_cases)
  case (ran sh counter wrote stderr)
  let ?w = "new_writer (go_MaxBytes opts)"
  have w: "wrote = None" "shell_ended sh wrote = ShellOk"
    using ran(12) by (auto simp: step_failure_def shell_ended_def split: shell_end.splits option.splits)
  note inv = new_writer_inv [OF assms(3)]
  note c = copy_chunks_takes [OF assms(2) inv ran(6) [unfolded w(1)]]
  note e = copy_chunks_takes [OF memory_ok inv ran(7)]
  have "lw_written counter = int (length (lw_to counter))" using copy_chunks_inv [OF assms(2) inv ran(6)] by (simp add: writer_inv_def)
  moreover have "lw_to counter = take (nat (go_MaxBytes opts)) (concat (sh_out sh))" using c by (simp add: new_writer_def)
  moreover from calculation have "lw_written counter = min (go_MaxBytes opts) (int (length (concat (sh_out sh))))"
    using assms(3) by (simp add: min_def) linarith
  moreover have "lw_truncated counter = (int (length (concat (sh_out sh))) > go_MaxBytes opts)" using c by (simp add: new_writer_def)
  moreover have "lw_to stderr = take (nat (go_MaxBytes opts)) (concat (sh_err sh))" using e by (simp add: new_writer_def)
  ultimately show ?thesis using ran w by (intro exI [of _ sh]) auto
qed simp

lemma runStep_bounded:
  assumes "runStep env opts step dir = (dir', r, e)" "\<And>path. writer_ok (ge_sink env path)" "0 \<le> go_MaxBytes opts"
  shows "st_Name r = gs_As step \<and> 0 \<le> st_Bytes r \<and> st_Bytes r \<le> go_MaxBytes opts \<and> int (length (st_Stderr r)) \<le> go_MaxBytes opts \<and>
    (e = None \<longrightarrow> st_ExitCode r = 0)"
  using assms(1)
proof (cases rule: runStep_cases)
  case refused
  then show ?thesis using assms(3) by auto
next
  case (ran sh counter wrote stderr)
  note inv = new_writer_inv [OF assms(3)]
  have "writer_inv (go_MaxBytes opts) counter" using copy_chunks_inv [OF assms(2) inv ran(6)] .
  moreover have "writer_inv (go_MaxBytes opts) stderr" using copy_chunks_inv [OF memory_ok inv ran(7)] .
  moreover have "e = None \<longrightarrow> shell_ended sh wrote = ShellOk" using ran(12) by (auto simp: step_failure_def split: shell_end.splits)
  ultimately show ?thesis using ran(3,9,11,13) by (auto simp: writer_inv_def)
qed

lemma run_steps_spec:
  assumes "\<And>path. writer_ok (ge_sink env path)" "0 \<le> go_MaxBytes opts"
  shows "run_steps env opts steps dir rs = (dir', results, e) \<Longrightarrow>
    \<exists>new. results = rs @ new \<and> map st_Name new = map gs_As (take (length new) steps) \<and> length new \<le> length steps \<and>
      (\<forall>r \<in> set new. 0 \<le> st_Bytes r \<and> st_Bytes r \<le> go_MaxBytes opts \<and> int (length (st_Stderr r)) \<le> go_MaxBytes opts) \<and>
      (e = None \<longrightarrow> length new = length steps \<and> (\<forall>r \<in> set new. st_ExitCode r = 0)) \<and>
      (e \<noteq> None \<longrightarrow> new \<noteq> [] \<and> (\<forall>r \<in> set (butlast new). st_ExitCode r = 0))"
proof (induction steps arbitrary: dir rs)
  case (Cons step steps)
  obtain d1 r f where 1: "runStep env opts step dir = (d1, r, f)" by (metis prod_cases3)
  note b = runStep_bounded [OF 1 assms]
  show ?case
  proof (cases f)
    case (Some err)
    then show ?thesis using Cons.prems 1 b by (intro exI [of _ "[r]"]) auto
  next
    case None
    then have "run_steps env opts steps d1 (rs @ [r]) = (dir', results, e)" using Cons.prems 1 by simp
    from Cons.IH [OF this] obtain new where n: "results = (rs @ [r]) @ new" "map st_Name new = map gs_As (take (length new) steps)"
      "length new \<le> length steps" "\<forall>r \<in> set new. 0 \<le> st_Bytes r \<and> st_Bytes r \<le> go_MaxBytes opts \<and> int (length (st_Stderr r)) \<le> go_MaxBytes opts"
      "e = None \<longrightarrow> length new = length steps \<and> (\<forall>r \<in> set new. st_ExitCode r = 0)"
      "e \<noteq> None \<longrightarrow> new \<noteq> [] \<and> (\<forall>r \<in> set (butlast new). st_ExitCode r = 0)" by blast
    then show ?thesis using b None by (intro exI [of _ "r # new"]) auto
  qed
qed simp

text \<open>
  The stage stops at the first failure and stays inside its bounds.  The results are those of the
  first steps, in order and under their names, none above the limit, which is positive whatever was
  asked; a stage without an error ran every step and each exited zero; a stage with one ran nothing
  past the step that failed, and every step before it exited zero.
\<close>

theorem gather_stops_at_the_first_failure:
  assumes "gather_Run env opts steps dir = (dir', results, e)" "\<And>path. writer_ok (ge_sink env path)"
  shows "\<exists>limit > 0. limit = (if go_MaxBytes opts \<le> 0 then DefaultMaxBytes else go_MaxBytes opts) \<and>
    map st_Name results = map gs_As (take (length results) steps) \<and> length results \<le> length steps \<and>
    (\<forall>r \<in> set results. 0 \<le> st_Bytes r \<and> st_Bytes r \<le> limit \<and> int (length (st_Stderr r)) \<le> limit) \<and>
    (e = None \<longrightarrow> length results = length steps \<and> (\<forall>r \<in> set results. st_ExitCode r = 0)) \<and>
    (e \<noteq> None \<longrightarrow> results \<noteq> [] \<and> (\<forall>r \<in> set (butlast results). st_ExitCode r = 0))"
proof -
  have pos: "0 < go_MaxBytes (gather_defaults opts)" by (simp add: gather_defaults_def DefaultMaxBytes_def)
  then have nn: "0 \<le> go_MaxBytes (gather_defaults opts)" by simp
  have r: "run_steps env (gather_defaults opts) steps dir [] = (dir', results, e)" using assms(1) by (simp add: gather_Run_def)
  have l: "go_MaxBytes (gather_defaults opts) = (if go_MaxBytes opts \<le> 0 then DefaultMaxBytes else go_MaxBytes opts)"
    by (simp add: gather_defaults_def)
  from run_steps_spec [OF assms(2) nn r] show ?thesis
    using pos l by (intro exI [of _ "go_MaxBytes (gather_defaults opts)"]) auto
qed

subsection \<open>A stage that ran\<close>

definition demo_gather_env :: gather_env where
  "demo_gather_env = \<lparr>ge_open = (\<lambda>_. None), ge_sink = (\<lambda>_. memory_sink),
     ge_shell = (\<lambda>line _ _ _. \<lparr>sh_out = [line, ''!''], sh_err = [], sh_end = (if line = ''exit'' then ShellExit 3 else ShellOk), sh_ctx = None, sh_dir = id\<rparr>)\<rparr>"

definition demo_gather_options :: gather_options where
  "demo_gather_options = \<lparr>go_WorkDir = ''/w'', go_MaxBytes = 3, go_StepTimeout = 0, go_Env = []\<rparr>"

definition demo_step :: "string \<Rightarrow> string \<Rightarrow> gather_step" where "demo_step line as' = \<lparr>gs_Run = line, gs_As = as', gs_Env = []\<rparr>"

lemma demo_gather_sinks: "writer_ok (ge_sink demo_gather_env path)"
  by (simp add: demo_gather_env_def)

theorem step_keeps_what_fits_witness:
  "fst (runStep demo_gather_env demo_gather_options (demo_step ''echo'' ''a.txt'') []) = [(''a.txt'', ''ech'')] \<and>
   st_Truncated (fst (snd (runStep demo_gather_env demo_gather_options (demo_step ''echo'' ''a.txt'') [])))"
proof -
  let ?r = "runStep demo_gather_env demo_gather_options (demo_step ''echo'' ''a.txt'') []"
  have "snd (snd ?r) = None" by code_simp
  then have "?r = (fst ?r, fst (snd ?r), None)" by (metis prod.collapse)
  from step_keeps_what_fits [OF this demo_gather_sinks] show ?thesis
    by (simp add: demo_gather_env_def demo_gather_options_def demo_step_def)
qed

theorem gather_stops_at_the_first_failure_witness:
  "map st_Name (fst (snd (gather_Run demo_gather_env demo_gather_options [demo_step ''echo'' ''a'', demo_step ''exit'' ''b'', demo_step ''echo'' ''c''] []))) =
     [''a'', ''b''] \<and>
   snd (snd (gather_Run demo_gather_env demo_gather_options [demo_step ''echo'' ''a'', demo_step ''exit'' ''b'', demo_step ''echo'' ''c''] [])) \<noteq> None"
proof -
  let ?g = "gather_Run demo_gather_env demo_gather_options [demo_step ''echo'' ''a'', demo_step ''exit'' ''b'', demo_step ''echo'' ''c''] []"
  have e: "snd (snd ?g) \<noteq> None" "length (fst (snd ?g)) = 2" by code_simp+
  have "?g = (fst ?g, fst (snd ?g), snd (snd ?g))" by simp
  from gather_stops_at_the_first_failure [OF this demo_gather_sinks] e show ?thesis by (simp add: demo_step_def)
qed

end
