(* ===== verification/Passages.thy ===== *)
theory Passages
  imports Gronin_Prelude
begin

text \<open>
  How a document is cut into the passages the index stores: \<open>index/passage.go\<close>.  A text is a sequence
  of bytes; \<open>unicode.IsSpace\<close> and the decoding of runes are read off the bytes.  The loop of \<open>cut\<close>
  has no bound of its own, so it is a partial function: \<open>None\<close> is a loop that never ends.  The tokens
  of a report are a parameter, what the JSON decoder answered until it ended or failed.
\<close>

definition PassageBytes :: nat where "PassageBytes = 1024"

record passage =
  ps_Source :: string
  ps_Ordinal :: nat
  ps_Offset :: nat
  ps_Text :: string

record span =
  sp_start :: nat
  sp_end :: nat
  sp_heading :: bool

definition slice :: "string \<Rightarrow> nat \<Rightarrow> nat \<Rightarrow> string" where
  "slice t a b = take (b - a) (drop a t)"

subsection \<open>Runes\<close>

text \<open>\<open>utf8.Valid\<close>, with the bytes of the current rune still to skip.\<close>

fun valid_from :: "nat \<Rightarrow> string \<Rightarrow> bool" where
  "valid_from k [] = True"
| "valid_from (Suc k) (c # cs) = valid_from k cs"
| "valid_from 0 (c # cs) = ((of_char c < (128 :: nat) \<or> rune_size (c # cs) > 1) \<and> valid_from (rune_size (c # cs) - 1) cs)"

definition utf8_valid :: "string \<Rightarrow> bool" where "utf8_valid s = valid_from 0 s"

text \<open>The bytes of the last rune of a string, and how many of them are white space.\<close>

definition last_rune_size :: "string \<Rightarrow> nat" where
  "last_rune_size s = (case find (\<lambda>k. k \<le> length s \<and> rune_start (s ! (length s - k))) [1..<5] of
     None \<Rightarrow> 1
   | Some k \<Rightarrow> if rune_size (drop (length s - k) s) = k then k else 1)"

definition trail_space :: "string \<Rightarrow> nat" where
  "trail_space s = lead_space (map rev wide_spaces) (rev s)"

subsection \<open>Blocks\<close>

text \<open>\<open>^#{1,6} \<close>\<close>

definition atxHeading :: "string \<Rightarrow> bool" where
  "atxHeading line = (let n = length (takeWhile (\<lambda>c. c = CHR ''#'') line) in 1 \<le> n \<and> n \<le> 6 \<and> n < length line \<and> line ! n = CHR '' '')"

definition flush :: "span option \<Rightarrow> span list \<Rightarrow> span list" where
  "flush current out = (case current of None \<Rightarrow> out | Some s \<Rightarrow> out @ [s])"

text \<open>One line that is not blank: a heading closes the block before it.\<close>

definition block_line :: "nat \<Rightarrow> string \<Rightarrow> span option \<Rightarrow> span list \<Rightarrow> span option \<times> span list" where
  "block_line at line current out =
     (let (current1, out1) = (if atxHeading line then (None, flush current out) else (current, out));
          stop = at + length (trim_right_space line)
      in (case current1 of
            None \<Rightarrow> Some \<lparr>sp_start = at + length line - length (trim_left_space line), sp_end = stop, sp_heading = atxHeading line\<rparr>
          | Some s \<Rightarrow> Some (s\<lparr>sp_end := stop\<rparr>), out1))"

function blocks_from :: "string \<Rightarrow> nat \<Rightarrow> span option \<Rightarrow> span list \<Rightarrow> span list" where
  "blocks_from txt at current out =
     (if at \<ge> length txt then flush current out
      else let line = takeWhile (\<lambda>c. c \<noteq> CHR 0x0A) (drop at txt); following = at + length line + 1 in
        if trim_space line = [] then blocks_from txt following None (flush current out)
        else (case block_line at line current out of (current', out') \<Rightarrow> blocks_from txt following current' out'))"
  by pat_completeness auto
termination by (relation "measure (\<lambda>(txt, at, _, _). length txt - at)") auto

declare blocks_from.simps [simp del]

definition blocks :: "string \<Rightarrow> span list" where "blocks txt = blocks_from txt 0 None []"

subsection \<open>Cutting a block\<close>

fun boundary :: "string \<Rightarrow> nat \<Rightarrow> nat" where
  "boundary txt 0 = 0"
| "boundary txt (Suc limit) = (if Suc limit \<ge> length txt then length txt
     else if rune_start (txt ! Suc limit) then Suc limit else boundary txt limit)"

lemma last_rune_size_pos: "0 < last_rune_size s"
proof -
  have "find P [1..<5] = Some k \<Longrightarrow> 0 < k" for P and k :: nat
    by (metis find_Some_iff atLeastLessThan_iff less_le_trans nth_mem set_upt zero_less_one)
  then show ?thesis by (auto simp: last_rune_size_def split: option.splits)
qed

text \<open>Back over what is not white space, then over what is.\<close>

function skip_word :: "string \<Rightarrow> nat \<Rightarrow> nat" where
  "skip_word window at = (if at = 0 then 0 else if trail_space (take at window) > 0 then at
     else skip_word window (at - last_rune_size (take at window)))"
  by pat_completeness auto
termination by (relation "measure snd") (auto simp: last_rune_size_pos)

function skip_space :: "string \<Rightarrow> nat \<Rightarrow> nat" where
  "skip_space window at = (if at = 0 then 0 else if trail_space (take at window) = 0 then at
     else skip_space window (at - trail_space (take at window)))"
  by pat_completeness auto
termination by (relation "measure snd") auto

declare skip_word.simps [simp del] skip_space.simps [simp del]

definition lastWhitespaceRun :: "string \<Rightarrow> nat" where
  "lastWhitespaceRun window = (let at = skip_word window (length window) in if at = 0 then 0 else skip_space window at)"

text \<open>Where a piece that starts at \<open>start\<close> ends when its block is longer than a passage.\<close>

definition cut_end :: "string \<Rightarrow> nat \<Rightarrow> nat" where
  "cut_end txt start =
     (let space = lastWhitespaceRun (slice txt start (start + PassageBytes + 1)) in
      if space > 0 then start + space else start + boundary (drop start txt) PassageBytes)"

partial_function (option) cut_from :: "string \<Rightarrow> nat \<Rightarrow> nat \<Rightarrow> bool \<Rightarrow> span list option" where
  "cut_from txt stop start heading =
     (if stop - start > PassageBytes then
        let end' = cut_end txt start;
            rest = slice txt end' stop;
            resume = end' + length rest - length (trim_left_space rest)
        in Option.bind (cut_from txt stop resume False) (\<lambda>pieces. Some (\<lparr>sp_start = start, sp_end = end', sp_heading = heading\<rparr> # pieces))
      else Some [\<lparr>sp_start = start, sp_end = stop, sp_heading = heading\<rparr>])"

definition cut :: "string \<Rightarrow> span \<Rightarrow> span list option" where
  "cut txt block = cut_from txt (sp_end block) (sp_start block) (sp_heading block)"

subsection \<open>Packing\<close>

definition emit :: "string \<Rightarrow> string \<Rightarrow> nat \<times> nat \<Rightarrow> passage list \<Rightarrow> passage list" where
  "emit source txt r passages = passages @
     [\<lparr>ps_Source = source, ps_Ordinal = length passages + 1, ps_Offset = fst r, ps_Text = slice txt (fst r) (snd r)\<rparr>]"

definition pack_piece :: "string \<Rightarrow> string \<Rightarrow> span \<Rightarrow> (nat \<times> nat) option \<times> passage list \<Rightarrow> (nat \<times> nat) option \<times> passage list" where
  "pack_piece source txt piece st = (case st of
     (None, passages) \<Rightarrow> (Some (sp_start piece, sp_end piece), passages)
   | (Some (start, end'), passages) \<Rightarrow>
       if sp_heading piece \<or> sp_end piece - start > PassageBytes
       then (Some (sp_start piece, sp_end piece), emit source txt (start, end') passages)
       else (Some (start, sp_end piece), passages))"

fun pack_blocks :: "string \<Rightarrow> string \<Rightarrow> span list \<Rightarrow> (nat \<times> nat) option \<times> passage list \<Rightarrow> ((nat \<times> nat) option \<times> passage list) option" where
  "pack_blocks source txt [] st = Some st"
| "pack_blocks source txt (block # rest) st = (case cut txt block of
     None \<Rightarrow> None | Some pieces \<Rightarrow> pack_blocks source txt rest (fold (pack_piece source txt) pieces st))"

definition pack :: "string \<Rightarrow> string \<Rightarrow> span list \<Rightarrow> passage list option" where
  "pack source txt spans = (case pack_blocks source txt spans (None, []) of
     None \<Rightarrow> None
   | Some (None, passages) \<Rightarrow> Some passages
   | Some (Some r, passages) \<Rightarrow> Some (emit source txt r passages))"

definition TextPassages :: "string \<Rightarrow> string \<Rightarrow> passage list option" where
  "TextPassages source content = pack source content (blocks content)"

subsection \<open>Reports\<close>

datatype json_token = OpenObject | OpenArray | CloseDelim | TokString string | TokNumber string | TokOther

record frame =
  fr_array :: bool
  fr_expectingKey :: bool

record report_state =
  rs_joined :: string
  rs_spans :: "span list"
  rs_headsNext :: bool
  rs_stack :: "frame list"

text \<open>The stack is kept with its top first.\<close>

definition filledValueSlot :: "report_state \<Rightarrow> report_state" where
  "filledValueSlot s = (case rs_stack s of
     f # fs \<Rightarrow> if \<not> fr_array f then s\<lparr>rs_stack := f\<lparr>fr_expectingKey := True\<rparr> # fs\<rparr> else s
   | [] \<Rightarrow> s)"

definition isKey :: "report_state \<Rightarrow> bool" where
  "isKey s = (case rs_stack s of [] \<Rightarrow> False | f # _ \<Rightarrow> \<not> fr_array f \<and> fr_expectingKey f)"

definition keyRead :: "report_state \<Rightarrow> report_state" where
  "keyRead s = (case rs_stack s of [] \<Rightarrow> s | f # fs \<Rightarrow> s\<lparr>rs_stack := f\<lparr>fr_expectingKey := False\<rparr> # fs\<rparr>)"

definition report_value :: "string \<Rightarrow> report_state \<Rightarrow> report_state" where
  "report_value literal s =
     (let joined = (if rs_joined s = [] then [] else rs_joined s @ [CHR 0x0A, CHR 0x0A]) in
      s\<lparr>rs_joined := joined @ literal, rs_headsNext := False,
        rs_spans := rs_spans s @ [\<lparr>sp_start = length joined, sp_end = length (joined @ literal), sp_heading = rs_headsNext s\<rparr>]\<rparr>)"

text \<open>Closing more than was opened would end the process; the decoder never answers that.\<close>

definition report_token :: "json_token \<Rightarrow> report_state \<Rightarrow> report_state option" where
  "report_token t s = (case t of
     OpenObject \<Rightarrow>
       (let inArray = (rs_stack s \<noteq> [] \<and> fr_array (hd (rs_stack s))); s1 = filledValueSlot s;
            s2 = (if inArray then s1\<lparr>rs_headsNext := True\<rparr> else s1)
        in Some (s2\<lparr>rs_stack := \<lparr>fr_array = False, fr_expectingKey = True\<rparr> # rs_stack s2\<rparr>))
   | OpenArray \<Rightarrow> (let s1 = filledValueSlot s in Some (s1\<lparr>rs_stack := \<lparr>fr_array = True, fr_expectingKey = False\<rparr> # rs_stack s1\<rparr>))
   | CloseDelim \<Rightarrow> (case rs_stack s of [] \<Rightarrow> None | _ # fs \<Rightarrow> Some (filledValueSlot (s\<lparr>rs_stack := fs\<rparr>)))
   | TokString str \<Rightarrow> Some (if isKey s then keyRead s else report_value str (filledValueSlot s))
   | TokNumber num \<Rightarrow> Some (report_value num (filledValueSlot s))
   | TokOther \<Rightarrow> Some (if isKey s then keyRead s else filledValueSlot s))"

fun report_tokens :: "json_token list \<Rightarrow> report_state \<Rightarrow> report_state option" where
  "report_tokens [] s = Some s"
| "report_tokens (t # ts) s = (case report_token t s of None \<Rightarrow> None | Some s' \<Rightarrow> report_tokens ts s')"

definition no_report :: report_state where
  "no_report = \<lparr>rs_joined = [], rs_spans = [], rs_headsNext = False, rs_stack = []\<rparr>"

definition ReportPassages :: "(string \<Rightarrow> json_token list) \<Rightarrow> string \<Rightarrow> string \<Rightarrow> passage list option" where
  "ReportPassages tokens source report = (case report_tokens (tokens report) no_report of
     None \<Rightarrow> None | Some s \<Rightarrow> pack source (rs_joined s) (rs_spans s))"


subsection \<open>White space\<close>

definition space_runes :: "string set" where "space_runes = {[c] | c. ascii_space c} \<union> set wide_spaces"

definition spaces :: "string \<Rightarrow> bool" where "spaces s \<longleftrightarrow> (\<exists>ws. s = concat ws \<and> set ws \<subseteq> space_runes)"

lemma spaces_Nil [simp]: "spaces []"
  unfolding spaces_def by (rule exI [of _ "[]"]) simp

lemma spaces_append: "spaces a \<Longrightarrow> spaces b \<Longrightarrow> spaces (a @ b)"
  unfolding spaces_def by (metis concat_append le_sup_iff set_append)

lemma spaces_ascii: "ascii_space c \<Longrightarrow> spaces [c]"
  unfolding spaces_def by (rule exI [of _ "[[c]]"]) (simp add: space_runes_def)

lemma trim_lead_drop: "trim_lead k wides s = trim_lead 0 wides (drop k s)"
proof (induction k arbitrary: s)
  case (Suc k)
  then show ?case by (cases s) simp_all
qed simp

text \<open>What trimming takes away is a sequence of white-space encodings, read from either end.\<close>

lemma lead_space_rune:
  assumes "lead_space wides s = Suc n"
  shows "Suc n \<le> length s \<and> take (Suc n) s \<in> {[c] | c. ascii_space c} \<union> set wides"
proof (cases s)
  case Nil
  then show ?thesis using assms by (simp add: lead_space_def)
next
  case (Cons c cs)
  show ?thesis
  proof (cases "ascii_space c")
    case True
    then show ?thesis using assms Cons by (simp add: lead_space_def)
  next
    case False
    then obtain w where w: "find (has_prefix s) wides = Some w" "length w = Suc n"
      using assms Cons by (auto simp: lead_space_def split: option.splits)
    from w(1) have m: "w \<in> set wides" "has_prefix s w" by (auto dest: find_SomeD)
    have "s = w @ drop (length w) s" using has_prefix_decomp [OF m(2)] .
    then have "take (Suc n) s = w" "Suc n \<le> length s" using w(2) by (metis append_eq_conv_conj, metis le_add1 length_append)
    then show ?thesis using m(1) by simp
  qed
qed

lemma trim_lead_splits: "\<exists>ws. s = concat ws @ trim_lead 0 wides s \<and> set ws \<subseteq> {[c] | c. ascii_space c} \<union> set wides"
proof (induction s rule: length_induct)
  case (1 s)
  show ?case
  proof (cases s)
    case Nil
    then show ?thesis by (intro exI [of _ "[]"]) simp
  next
    case (Cons c cs)
    show ?thesis
    proof (cases "lead_space wides s")
      case 0
      then show ?thesis using Cons by (intro exI [of _ "[]"]) simp
    next
      case (Suc n)
      then have "trim_lead 0 wides s = trim_lead n wides cs" using Cons by simp
      then have t: "trim_lead 0 wides s = trim_lead 0 wides (drop (Suc n) s)" using Cons trim_lead_drop [of n wides cs] by simp
      have "length (drop (Suc n) s) < length s" using Cons by simp
      with 1 obtain ws where ws: "drop (Suc n) s = concat ws @ trim_lead 0 wides (drop (Suc n) s)"
        "set ws \<subseteq> {[c] | c. ascii_space c} \<union> set wides" by blast
      have "s = take (Suc n) s @ drop (Suc n) s" by simp
      also have "\<dots> = concat (take (Suc n) s # ws) @ trim_lead 0 wides s" using ws(1) t by simp
      finally show ?thesis using ws(2) lead_space_rune [OF Suc] by (intro exI [of _ "take (Suc n) s # ws"]) simp
    qed
  qed
qed

lemma trim_left_splits: "\<exists>g. s = g @ trim_left_space s \<and> spaces g"
  using trim_lead_splits [of s wide_spaces] unfolding trim_left_space_def spaces_def space_runes_def by blast

lemma trim_right_splits: "\<exists>g. s = trim_right_space s @ g \<and> spaces g"
proof -
  obtain ws where ws: "rev s = concat ws @ trim_lead 0 (map rev wide_spaces) (rev s)"
    "set ws \<subseteq> {[c] | c. ascii_space c} \<union> set (map rev wide_spaces)" using trim_lead_splits by blast
  have "s = rev (concat ws @ trim_lead 0 (map rev wide_spaces) (rev s))" using ws(1) by simp
  then have "s = trim_right_space s @ concat (rev (map rev ws))" by (simp add: trim_right_space_def rev_concat rev_map)
  moreover have "set (rev (map rev ws)) \<subseteq> space_runes" using ws(2) by (fastforce simp: space_runes_def)
  ultimately show ?thesis unfolding spaces_def by blast
qed

lemma trim_left_length: "length (trim_left_space s) \<le> length s" "spaces (take (length s - length (trim_left_space s)) s)"
proof -
  obtain g where "s = g @ trim_left_space s" "spaces g" using trim_left_splits by blast
  then show "length (trim_left_space s) \<le> length s" "spaces (take (length s - length (trim_left_space s)) s)"
    by (metis le_add2 length_append, metis add_diff_cancel_right' append_eq_conv_conj length_append)
qed

lemma trim_right_length: "length (trim_right_space s) \<le> length s" "spaces (drop (length (trim_right_space s)) s)"
proof -
  obtain g where "s = trim_right_space s @ g" "spaces g" using trim_right_splits by blast
  then show "length (trim_right_space s) \<le> length s" "spaces (drop (length (trim_right_space s)) s)"
    by (metis le_add1 length_append, metis append_eq_conv_conj)
qed

subsection \<open>Runes of a valid text\<close>

definition rune_length :: "char \<Rightarrow> nat" where
  "rune_length c = (let b = (of_char c :: nat) in if b < 128 then 1 else if b < 224 then 2 else if b < 240 then 3 else 4)"

definition is_rune :: "string \<Rightarrow> bool" where
  "is_rune r \<longleftrightarrow> r \<noteq> [] \<and> rune_start (hd r) \<and> list_all (\<lambda>c. \<not> rune_start c) (tl r) \<and> length r = rune_length (hd r)"

lemma valid_from_drop: "valid_from k s = valid_from 0 (drop k s)"
proof (induction k arbitrary: s)
  case (Suc k)
  then show ?case by (cases s) simp_all
qed simp

lemma second_byte_cont: "second_byte c = (lo, hi) \<Longrightarrow> 0x80 \<le> lo \<and> hi \<le> 0xBF"
  by (auto simp: second_byte_def Let_def split: if_splits)

lemma first_rune:
  assumes "of_char c < (128 :: nat) \<or> rune_size (c # cs) > 1"
  shows "is_rune (take (rune_size (c # cs)) (c # cs))"
proof (cases "cs")
  case Nil
  then have "of_char c < (128 :: nat)" using assms by (simp add: rune_size_def)
  then show ?thesis using Nil by (simp add: rune_size_def is_rune_def rune_start_def rune_length_def)
next
  case (Cons d ds)
  obtain lo hi where b: "second_byte c = (lo, hi)" by fastforce
  note l = second_byte_cont [OF b]
  consider "of_char c < (128 :: nat)" | "\<not> of_char c < (128 :: nat)" "rune_size (c # cs) > 1" using assms by blast
  then show ?thesis
  proof cases
    case 1
    then have "rune_size (c # cs) = 1" using Cons b by (auto simp: rune_size_def byte_in_def)
    then show ?thesis using 1 by (simp add: is_rune_def rune_start_def rune_length_def)
  next
    case 2
    consider "byte_in 0xC2 0xDF c" "byte_in lo hi d" "rune_size (c # cs) = 2"
      | "byte_in 0xE0 0xEF c" "byte_in lo hi d" "ds \<noteq> []" "byte_in 0x80 0xBF (hd ds)" "rune_size (c # cs) = 3"
      | "byte_in 0xF0 0xF4 c" "byte_in lo hi d" "length ds \<ge> 2" "byte_in 0x80 0xBF (hd ds)" "byte_in 0x80 0xBF (ds ! 1)" "rune_size (c # cs) = 4"
      using 2(2) Cons b by (auto simp: rune_size_def Let_def split: if_splits)
    then show ?thesis
    proof cases
      case 1
      then show ?thesis using Cons l by (auto simp: is_rune_def rune_start_def rune_length_def byte_in_def)
    next
      case 2
      then show ?thesis using Cons l by (cases ds) (auto simp: is_rune_def rune_start_def rune_length_def byte_in_def numeral_3_eq_3)
    next
      case 3
      then obtain e f es where "ds = e # f # es" by (metis Suc_le_length_iff numeral_2_eq_2)
      then show ?thesis using 3 Cons l by (auto simp: is_rune_def rune_start_def rune_length_def byte_in_def eval_nat_numeral)
    qed
  qed
qed

lemma valid_runes: "utf8_valid s \<Longrightarrow> \<exists>rs. s = concat rs \<and> list_all is_rune rs"
proof (induction s rule: length_induct)
  case (1 s)
  show ?case
  proof (cases s)
    case Nil
    then show ?thesis by (intro exI [of _ "[]"]) simp
  next
    case (Cons c cs)
    let ?n = "rune_size s"
    have ok: "of_char c < (128 :: nat) \<or> ?n > 1" and v: "valid_from (?n - 1) cs" using 1(2) Cons by (simp_all add: utf8_valid_def)
    have n: "?n \<noteq> 0" using Cons by (auto simp: rune_size_def Let_def split: list.splits prod.splits if_splits)
    then have "drop ?n s = drop (?n - 1) cs" using Cons by (cases ?n) simp_all
    then have "utf8_valid (drop ?n s)" using v valid_from_drop [of "?n - 1" cs] by (simp add: utf8_valid_def)
    moreover have "length (drop ?n s) < length s" using Cons n by simp
    ultimately obtain rs where rs: "drop ?n s = concat rs" "list_all is_rune rs" using 1(1) by blast
    have "s = concat (take ?n s # rs)" using rs(1) append_take_drop_id [of ?n s] by simp
    moreover have "is_rune (take ?n s)" using first_rune [OF ok [unfolded Cons]] Cons by simp
    ultimately show ?thesis using rs(2) by (intro exI [of _ "take ?n s # rs"]) simp
  qed
qed


text \<open>A rune is the text from a byte that starts one to the next; white-space encodings are runes.\<close>

lemma space_is_rune: "w \<in> space_runes \<Longrightarrow> is_rune w"
  by (auto simp: space_runes_def wide_spaces_def ascii_space_def is_rune_def rune_start_def rune_length_def)

lemma rune_prefix_unique:
  assumes "is_rune r" "is_rune w" "r @ a = w @ b"
  shows "r = w"
proof -
  have "hd r = hd w" using assms by (metis hd_append2 is_rune_def)
  then have "length r = length w" using assms(1,2) by (simp add: is_rune_def)
  then show ?thesis using assms(3) by simp
qed

lemma rune_suffix_unique:
  assumes "is_rune r" "is_rune w" "a @ r = b @ w"
  shows "r = w"
proof -
  obtain c cs where r: "r = c # cs" "rune_start c" "list_all (\<lambda>c. \<not> rune_start c) cs" using assms(1) by (cases r) (auto simp: is_rune_def)
  obtain d ds where w: "w = d # ds" "rune_start d" "list_all (\<lambda>c. \<not> rune_start c) ds" using assms(2) by (cases w) (auto simp: is_rune_def)
  have tw: "takeWhile (\<lambda>c. \<not> rune_start c) (rev x @ y # z) = rev x" if "list_all (\<lambda>c. \<not> rune_start c) x" "rune_start y" for x y z
    using that by (subst takeWhile_append2) (auto simp: list_all_iff)
  have "rev cs @ c # rev a = rev ds @ d # rev b" using assms(3) r(1) w(1) by (metis append.assoc append_Cons append_Nil rev_append rev.simps(2))
  moreover from this have "rev cs = rev ds" using tw [OF r(3,2), of "rev a"] tw [OF w(3,2), of "rev b"] by simp
  ultimately show ?thesis using r(1) w(1) by simp
qed

lemma find_prefix_unique:
  assumes "\<And>v. v \<in> set ws \<Longrightarrow> has_prefix s v \<Longrightarrow> v = w" "w \<in> set ws" "has_prefix s w"
  shows "find (has_prefix s) ws = Some w"
  using assms
proof (induction ws)
  case (Cons v vs)
  show ?case
  proof (cases "has_prefix s v")
    case True
    then have "v = w" using Cons.prems(1) [of v] by simp
    then show ?thesis using True by simp
  next
    case False
    then have w: "w \<in> set vs" using Cons.prems(2,3) by (metis set_ConsD)
    have u: "u = w" if "u \<in> set vs" "has_prefix s u" for u by (rule Cons.prems(1)) (use that in simp_all)
    have "find (has_prefix s) vs = Some w" by (rule Cons.IH [OF u w Cons.prems(3)])
    then show ?thesis using False by simp
  qed
qed simp

lemma lead_space_concat:
  assumes "is_rune r"
  shows "lead_space wide_spaces (r @ rest) = (if r \<in> space_runes then length r else 0)"
proof -
  obtain c cs where r: "r = c # cs" using assms by (cases r) (auto simp: is_rune_def)
  show ?thesis
  proof (cases "ascii_space c")
    case True
    then have "of_char c < (128 :: nat)" by (auto simp: ascii_space_def)
    then have "r = [c]" using assms r by (simp add: is_rune_def rune_length_def)
    then show ?thesis using True by (auto simp: lead_space_def space_runes_def)
  next
    case False
    have only: "v = r" if "v \<in> set wide_spaces" "has_prefix (r @ rest) v" for v
      using rune_prefix_unique [OF assms space_is_rune [of v], of rest] that has_prefix_decomp [OF that(2)] by (auto simp: space_runes_def)
    have "r \<in> space_runes \<longleftrightarrow> r \<in> set wide_spaces" using False r by (auto simp: space_runes_def)
    moreover have "find (has_prefix (r @ rest)) wide_spaces = (if r \<in> set wide_spaces then Some r else None)"
    proof (cases "r \<in> set wide_spaces")
      case True
      have "find (has_prefix (r @ rest)) wide_spaces = Some r" by (rule find_prefix_unique [OF only True]) (simp_all add: has_prefix_def)
      then show ?thesis using True by simp
    next
      case False
      then show ?thesis using only by (metis find_None_iff)
    qed
    ultimately show ?thesis using False r by (simp add: lead_space_def)
  qed
qed

lemma trail_space_concat:
  assumes "is_rune r"
  shows "trail_space (rest @ r) = (if r \<in> space_runes then length r else 0)"
proof -
  obtain c cs where r: "r = cs @ [c]" using assms by (cases r rule: rev_cases) (auto simp: is_rune_def)
  let ?wides = "map rev wide_spaces"
  show ?thesis
  proof (cases "ascii_space c")
    case True
    then have "rune_start c" by (auto simp: ascii_space_def rune_start_def)
    then have "cs = []" using assms r by (cases cs) (auto simp: is_rune_def)
    then show ?thesis using True r by (auto simp: trail_space_def lead_space_def space_runes_def)
  next
    case False
    have only: "v = rev r" if v: "v \<in> set ?wides" "has_prefix (rev (rest @ r)) v" for v
    proof -
      obtain w where w: "w \<in> set wide_spaces" "v = rev w" using v(1) by auto
      have "rev (rest @ r) = v @ drop (length v) (rev (rest @ r))" using has_prefix_decomp [OF v(2)] .
      then obtain b where b: "rest @ r = b @ w" using w(2) by (metis rev_append rev_rev_ident)
      have "is_rune w" using space_is_rune [of w] w(1) by (simp add: space_runes_def)
      then have "r = w" using rune_suffix_unique [OF assms _ b] by blast
      then show ?thesis using w(2) by simp
    qed
    have s: "r \<in> space_runes \<longleftrightarrow> r \<in> set wide_spaces" using False r by (auto simp: space_runes_def)
    have m: "rev r \<in> set ?wides \<longleftrightarrow> r \<in> set wide_spaces" by auto
    have "find (has_prefix (rev (rest @ r))) ?wides = (if r \<in> set wide_spaces then Some (rev r) else None)"
    proof (cases "r \<in> set wide_spaces")
      case True
      then have w: "rev r \<in> set ?wides" using m by blast
      have "find (has_prefix (rev (rest @ r))) ?wides = Some (rev r)"
        by (rule find_prefix_unique [OF only w]) (simp_all add: has_prefix_def)
      then show ?thesis using True by simp
    next
      case False
      then show ?thesis using only m by (metis find_None_iff)
    qed
    moreover have "rev (rest @ r) = c # rev cs @ rev rest" using r by simp
    ultimately show ?thesis using False s by (simp add: trail_space_def lead_space_def)
  qed
qed

text \<open>Trimming, rune by rune.\<close>

lemma trim_left_runes: "list_all is_rune rs \<Longrightarrow> trim_left_space (concat rs) = concat (dropWhile (\<lambda>r. r \<in> space_runes) rs)"
proof (induction rs)
  case (Cons r rs)
  obtain c cs where r: "r = c # cs" using Cons.prems by (cases r) (auto simp: is_rune_def)
  have l: "lead_space wide_spaces (c # cs @ concat rs) = (if r \<in> space_runes then length r else 0)"
    using lead_space_concat [of r "concat rs"] Cons.prems r by simp
  show ?case
  proof (cases "r \<in> space_runes")
    case True
    then have "trim_left_space (concat (r # rs)) = trim_lead (length cs) wide_spaces (cs @ concat rs)"
      using l r by (simp add: trim_left_space_def)
    also have "\<dots> = trim_left_space (concat rs)" unfolding trim_lead_drop [of "length cs"] by (simp add: trim_left_space_def)
    finally show ?thesis using True Cons by simp
  next
    case False
    then show ?thesis using l r by (simp add: trim_left_space_def)
  qed
qed (simp add: trim_left_space_def)

lemma trim_right_runes:
  "list_all is_rune rs \<Longrightarrow> trim_right_space (concat rs) = concat (rev (dropWhile (\<lambda>r. r \<in> space_runes) (rev rs)))"
proof (induction rs rule: rev_induct)
  case (snoc r rs)
  obtain c cs where r: "r = cs @ [c]" using snoc.prems by (cases r rule: rev_cases) (auto simp: is_rune_def)
  have l: "lead_space (map rev wide_spaces) (c # rev cs @ rev (concat rs)) = (if r \<in> space_runes then length r else 0)"
    using trail_space_concat [of r "concat rs"] snoc.prems r by (simp add: trail_space_def)
  show ?case
  proof (cases "r \<in> space_runes")
    case True
    then have "trim_right_space (concat (rs @ [r])) = rev (trim_lead (length cs) (map rev wide_spaces) (rev cs @ rev (concat rs)))"
      using l r by (simp add: trim_right_space_def)
    also have "\<dots> = trim_right_space (concat rs)" unfolding trim_lead_drop [of "length cs"] by (simp add: trim_right_space_def)
    finally show ?thesis using True snoc by simp
  next
    case False
    then show ?thesis using l r by (simp add: trim_right_space_def)
  qed
qed (simp add: trim_right_space_def)

text \<open>A line that is not blank has something between what trimming takes from its two ends.\<close>

lemma trimmed_bounds:
  assumes "list_all is_rune rs" "trim_space (concat rs) \<noteq> []"
  shows "length (concat rs) - length (trim_left_space (concat rs)) < length (trim_right_space (concat rs))"
proof -
  let ?sp = "\<lambda>r. r \<in> space_runes"
  have "\<exists>r \<in> set rs. \<not> ?sp r"
  proof (rule ccontr)
    assume "\<not> ?thesis"
    then have "dropWhile ?sp rs = []" by simp
    then have "trim_left_space (concat rs) = []" unfolding trim_left_runes [OF assms(1)] by (simp only: concat.simps)
    then show False using assms(2) by (simp add: trim_space_def trim_right_space_def)
  qed
  then obtain r where r: "r \<in> set rs" "\<not> ?sp r" by blast
  then obtain a x b where x: "rs = a @ x # b" "\<not> ?sp x" "\<forall>y \<in> set a. ?sp y" using split_list_first_prop [of rs "\<lambda>r. \<not> ?sp r"] by blast
  obtain c y d where y: "rs = c @ y # d" "\<not> ?sp y" "\<forall>z \<in> set d. ?sp z" using split_list_last_prop [of rs "\<lambda>r. \<not> ?sp r"] r by blast
  have left: "dropWhile ?sp rs = x # b" using x by (simp add: dropWhile_append2)
  have "dropWhile ?sp (rev d @ y # rev c) = y # rev c" by (subst dropWhile_append2) (use y in simp_all)
  then have "dropWhile ?sp (rev rs) = y # rev c" using y(1) by simp
  then have right: "rev (dropWhile ?sp (rev rs)) = c @ [y]" by simp
  have "\<not> length c < length a"
  proof
    assume "length c < length a"
    then have "rs ! length c \<in> set a" using x(1) by (simp add: nth_append)
    then show False using x(3) y(1,2) by simp
  qed
  moreover have "a = take (length a) rs" using x(1) by simp
  moreover have "c = take (length c) rs" unfolding y(1) by simp
  ultimately have "length (concat a) \<le> length (concat c)"
    by (metis append_take_drop_id concat_append le_add1 length_append linorder_not_less min.absorb1 take_take)
  moreover have "0 < length y" unfolding length_greater_0_conv using assms(1) y(1) by (auto simp: is_rune_def)
  ultimately have "length (concat a) < length (concat c) + length y" by linarith
  then show ?thesis unfolding trim_left_runes [OF assms(1)] trim_right_runes [OF assms(1)] left right using x(1) by simp
qed


subsection \<open>Tilings\<close>

text \<open>
  Stretches of a text, in order, none empty, with nothing but white space before, between and after
  them.
\<close>

fun tiled :: "string \<Rightarrow> nat \<Rightarrow> (nat \<times> nat) list \<Rightarrow> nat \<Rightarrow> bool" where
  "tiled t a [] b \<longleftrightarrow> a \<le> b \<and> spaces (slice t a b)"
| "tiled t a ((s, e) # rs) b \<longleftrightarrow> a \<le> s \<and> spaces (slice t a s) \<and> s < e \<and> e \<le> length t \<and> tiled t e rs b"

lemma slice_append: "a \<le> b \<Longrightarrow> b \<le> c \<Longrightarrow> slice t a b @ slice t b c = slice t a c"
proof -
  assume "a \<le> b" "b \<le> c"
  then have "take (c - a) (drop a t) = take (b - a) (drop a t) @ take (c - b) (drop (b - a) (drop a t))"
    by (metis add_diff_inverse_nat diff_diff_left le_add_diff_inverse linorder_not_less nat_le_iff_add take_add Nat.add_diff_assoc2 add.commute Nat.diff_add_assoc2)
  then show ?thesis using \<open>a \<le> b\<close> by (simp add: slice_def)
qed

lemma slice_past: "length t \<le> b \<Longrightarrow> slice t a b = slice t a (length t)"
  by (simp add: slice_def)

lemma tiled_mono: "tiled t a rs b \<Longrightarrow> a \<le> b"
  by (induction t a rs b rule: tiled.induct) auto

lemma tiled_wider: "tiled t b ys c \<Longrightarrow> a \<le> b \<Longrightarrow> spaces (slice t a b) \<Longrightarrow> tiled t a ys c"
proof (cases ys)
  case Nil
  assume "tiled t b ys c" "a \<le> b" "spaces (slice t a b)"
  then show ?thesis using Nil slice_append [of a b c t] spaces_append by (metis le_trans tiled.simps(1))
next
  case (Cons y ys')
  assume a: "tiled t b ys c" "a \<le> b" "spaces (slice t a b)"
  obtain s e where "y = (s, e)" by fastforce
  then show ?thesis using Cons a slice_append [of a b s t] spaces_append [of "slice t a b" "slice t b s"] by auto
qed

lemma tiled_append: "tiled t a xs b \<Longrightarrow> tiled t b ys c \<Longrightarrow> tiled t a (xs @ ys) c"
  by (induction t a xs b rule: tiled.induct) (auto intro: tiled_wider)

lemma tiled_snoc: "tiled t a (xs @ [(s, e)]) b \<longleftrightarrow> tiled t a xs s \<and> s < e \<and> e \<le> length t \<and> e \<le> b \<and> spaces (slice t e b)"
proof (induction xs arbitrary: a)
  case (Cons x xs)
  then show ?case by (cases x) auto
qed auto

lemma tiled_extend: "tiled t a xs b \<Longrightarrow> b \<le> c \<Longrightarrow> spaces (slice t b c) \<Longrightarrow> tiled t a xs c"
  using tiled_append [of t a xs b "[]" c] by simp

lemma tiled_merge: "tiled t a (xs @ [(s, e)]) b \<Longrightarrow> b < e' \<Longrightarrow> e' \<le> length t \<Longrightarrow> e' \<le> c \<Longrightarrow> spaces (slice t e' c) \<Longrightarrow> tiled t a (xs @ [(s, e')]) c"
  by (auto simp: tiled_snoc)

lemma tiled_within: "tiled t a rs b \<Longrightarrow> (s, e) \<in> set rs \<Longrightarrow> a \<le> s \<and> s < e \<and> e \<le> length t"
  by (induction t a rs b rule: tiled.induct) auto

text \<open>A tiling, written out.\<close>

fun interleave :: "string list \<Rightarrow> string list \<Rightarrow> string" where
  "interleave (g # gs) (t # ts) = g @ t @ interleave gs ts"
| "interleave gs ts = concat gs"

lemma tiled_interleave:
  "tiled t a rs (length t) \<Longrightarrow> \<exists>gs. length gs = Suc (length rs) \<and> (\<forall>g \<in> set gs. spaces g) \<and>
     drop a t = interleave gs (map (\<lambda>(s, e). slice t s e) rs)"
proof (induction rs arbitrary: a)
  case Nil
  then show ?case by (intro exI [of _ "[drop a t]"]) (simp add: slice_def)
next
  case (Cons r rs)
  obtain s e where r: "r = (s, e)" by fastforce
  then obtain gs where gs: "length gs = Suc (length rs)" "\<forall>g \<in> set gs. spaces g" "drop e t = interleave gs (map (\<lambda>(s, e). slice t s e) rs)"
    using Cons by auto
  have o': "a \<le> s" "s \<le> e" "e \<le> length t" using Cons.prems r by auto
  have "drop a t = slice t a (length t)" by (simp add: slice_def)
  also have "\<dots> = slice t a s @ slice t s e @ slice t e (length t)" using o' by (simp add: slice_append)
  also have "slice t e (length t) = drop e t" by (simp add: slice_def)
  finally show ?case using r gs Cons.prems by (intro exI [of _ "slice t a s # gs"]) simp
qed

subsection \<open>Blocks tile a valid text\<close>

abbreviation ends :: "span \<Rightarrow> nat \<times> nat" where "ends s \<equiv> (sp_start s, sp_end s)"

lemma flush_append: "flush current out = out @ (case current of None \<Rightarrow> [] | Some s \<Rightarrow> [s])"
  by (cases current) (simp_all add: flush_def)

lemma rune_newline: "is_rune r \<Longrightarrow> CHR 0x0A \<in> set r \<Longrightarrow> r = [CHR 0x0A]"
  by (cases r) (auto simp: is_rune_def rune_start_def rune_length_def list_all_iff)

lemma line_of_runes:
  "list_all is_rune rs \<Longrightarrow> takeWhile (\<lambda>c. c \<noteq> CHR 0x0A) (concat rs) = concat (takeWhile (\<lambda>r. r \<noteq> [CHR 0x0A]) rs)"
proof (induction rs)
  case (Cons r rs)
  show ?case
  proof (cases "r = [CHR 0x0A]")
    case False
    then have "\<forall>c \<in> set r. c \<noteq> CHR 0x0A" using Cons.prems rune_newline by auto
    then show ?thesis using Cons False by (simp add: takeWhile_append2)
  qed simp
qed simp

lemma after_line:
  assumes "list_all is_rune rs" "line = takeWhile (\<lambda>c. c \<noteq> CHR 0x0A) (concat rs)"
  obtains qs where "list_all is_rune qs" "drop (length line + 1) (concat rs) = concat qs"
proof -
  let ?ls = "takeWhile (\<lambda>r. r \<noteq> [CHR 0x0A]) rs" and ?ds = "dropWhile (\<lambda>r. r \<noteq> [CHR 0x0A]) rs"
  have r: "concat rs = line @ concat ?ds" using line_of_runes [OF assms(1)] assms(2) by (metis concat_append takeWhile_dropWhile_id)
  have all: "list_all is_rune ?ds" using assms(1) by (auto simp: list_all_iff dest: set_dropWhileD)
  show thesis
  proof (cases ?ds)
    case Nil
    then have "concat rs = line" using r by (simp only: concat.simps append_Nil2)
    then show thesis by (intro that [of "[]"]) simp_all
  next
    case (Cons d qs)
    then have "d = [CHR 0x0A]" by (auto simp: dropWhile_eq_Cons_conv)
    then show thesis using r Cons all by (intro that [of qs]) simp_all
  qed
qed


lemma blank_spaces: "trim_space s = [] \<Longrightarrow> spaces s"
proof -
  assume b: "trim_space s = []"
  obtain g where g: "s = g @ trim_left_space s" "spaces g" using trim_left_splits by blast
  obtain h where h: "trim_left_space s = trim_right_space (trim_left_space s) @ h" "spaces h" using trim_right_splits by blast
  then show "spaces s" using b g spaces_append by (metis append_Nil trim_space_def)
qed

lemma slice_line:
  assumes "line = takeWhile (\<lambda>c. c \<noteq> CHR 0x0A) (drop at txt)" "j \<le> k" "k \<le> length line"
  shows "slice txt (at + j) (at + k) = drop j (take k line)"
proof -
  have "take k (drop at txt) = take k line" using assms by (metis takeWhile_eq_take take_take min.absorb1)
  then have "drop j (take k (drop at txt)) = drop j (take k line)" by simp
  then show ?thesis by (simp add: slice_def drop_take add.commute)
qed

lemma slice_line_end:
  assumes "line = takeWhile (\<lambda>c. c \<noteq> CHR 0x0A) (drop at txt)" "j \<le> length line" "spaces (drop j line)"
  shows "spaces (slice txt (at + j) (at + length line + 1))"
proof -
  let ?e = "at + length line"
  have "slice txt (at + j) (?e + 1) = slice txt (at + j) ?e @ slice txt ?e (?e + 1)" using assms(2) by (simp add: slice_append)
  moreover have "slice txt (at + j) ?e = drop j line" using slice_line [OF assms(1,2)] by simp
  moreover have "spaces (slice txt ?e (?e + 1))"
  proof (cases "?e < length txt")
    case True
    then have "length line < length (drop at txt)" by simp
    then have "drop at txt ! length line = CHR 0x0A" using assms(1) nth_length_takeWhile by blast
    then have "txt ! ?e = CHR 0x0A" using True by simp
    then have "slice txt ?e (?e + 1) = [CHR 0x0A]" using Cons_nth_drop_Suc [OF True] by (simp add: slice_def) (metis One_nat_def take_Suc_Cons take0)
    then show ?thesis using spaces_ascii [of "CHR 0x0A"] by (simp add: ascii_space_def)
  qed (simp add: slice_def)
  ultimately show ?thesis using assms(3) spaces_append by simp
qed

lemma block_line_tiled:
  assumes line: "line = takeWhile (\<lambda>c. c \<noteq> CHR 0x0A) (drop at txt)" "line = concat ls" "list_all is_rune ls"
    and blank: "trim_space line \<noteq> []" and at: "at \<le> length txt" and t: "tiled txt 0 (map ends (flush current out)) at"
    and b: "block_line at line current out = (current', out')"
  shows "tiled txt 0 (map ends (flush current' out')) (at + length line + 1)"
proof -
  let ?j = "length line - length (trim_left_space line)" and ?k = "length (trim_right_space line)"
  let ?s = "at + ?j" and ?e = "at + ?k"
  have jk: "?j < ?k" using trimmed_bounds [of ls] line(2,3) blank by simp
  then have e: "at < ?e" by linarith
  note k = trim_right_length [of line]
  have len: "at + length line \<le> length txt" using line(1) at length_takeWhile_le [of "\<lambda>c. c \<noteq> CHR 0x0A" "drop at txt"] by simp
  have gap: "spaces (slice txt at ?s)" using slice_line [OF line(1), of 0 ?j] trim_left_length [of line] by simp
  have tail: "spaces (slice txt ?e (at + length line + 1))" by (rule slice_line_end [OF line(1)]) (use k in simp_all)
  have s: "at + length line - length (trim_left_space line) = ?s" using trim_left_length(1) [of line] by simp
  have new: "tiled txt 0 (map ends (flush current out) @ [(?s, ?e)]) (at + length line + 1)"
    by (rule tiled_append [OF t]) (use jk k(1) len gap tail in simp)
  consider "atxHeading line \<or> current = None" "current' = Some \<lparr>sp_start = ?s, sp_end = ?e, sp_heading = atxHeading line\<rparr>" "out' = flush current out"
    | sp where "current = Some sp" "current' = Some (sp\<lparr>sp_end := ?e\<rparr>)" "out' = out"
    using b s by (auto simp: block_line_def Let_def flush_def split: if_splits option.splits)
  then show ?thesis
  proof cases
    case 1
    then show ?thesis using new by (simp add: flush_append)
  next
    case (2 sp)
    then have "tiled txt 0 (map ends out @ [(sp_start sp, sp_end sp)]) at" using t by (simp add: flush_append)
    then have "tiled txt 0 (map ends out @ [(sp_start sp, ?e)]) (at + length line + 1)"
      by (rule tiled_merge) (use e k(1) len tail in simp_all)
    then show ?thesis using 2 by (simp add: flush_append)
  qed
qed

lemma blocks_from_tiled:
  "drop at txt = concat rs \<Longrightarrow> list_all is_rune rs \<Longrightarrow> tiled txt 0 (map ends (flush current out)) at \<Longrightarrow>
   \<exists>b \<ge> length txt. tiled txt 0 (map ends (blocks_from txt at current out)) b"
proof (induction "txt" at current out arbitrary: rs rule: blocks_from.induct)
  case (1 "txt" at current out)
  show ?case
  proof (cases "at \<ge> length txt")
    case True
    then show ?thesis using 1(5) by (subst blocks_from.simps) auto
  next
    case False
    define line where "line = takeWhile (\<lambda>c. c \<noteq> CHR 0x0A) (drop at txt)"
    let ?f = "at + length line + 1"
    have lr: "line = takeWhile (\<lambda>c. c \<noteq> CHR 0x0A) (concat rs)" using 1(3) by (simp add: line_def)
    obtain qs where qs: "list_all is_rune qs" "drop (length line + 1) (concat rs) = concat qs" using after_line [OF 1(4) lr] by blast
    have d: "drop ?f txt = concat qs" using qs(2) 1(3) by (metis add.assoc add.commute drop_drop)
    show ?thesis
    proof (cases "trim_space line = []")
      case True
      have "spaces (slice txt (at + 0) ?f)" by (rule slice_line_end [OF line_def]) (use blank_spaces [OF True] in simp_all)
      then have "tiled txt 0 (map ends (flush None (flush current out))) ?f"
        using tiled_extend [OF 1(5)] by (simp add: flush_def)
      from 1(1) [OF False line_def refl True d qs(1) this] show ?thesis
        by (subst blocks_from.simps) (use False True in \<open>simp add: line_def [symmetric] Let_def\<close>)
    next
      case nb: False
      obtain c' o' where b: "block_line at line current out = (c', o')" by fastforce
      have "line = concat (takeWhile (\<lambda>r. r \<noteq> [CHR 0x0A]) rs)" using line_of_runes [OF 1(4)] lr by simp
      moreover have "list_all is_rune (takeWhile (\<lambda>r. r \<noteq> [CHR 0x0A]) rs)" using 1(4) by (auto simp: list_all_iff dest: set_takeWhileD)
      ultimately have "tiled txt 0 (map ends (flush c' o')) ?f"
        using block_line_tiled [OF line_def _ _ nb _ 1(5) b] False by simp
      from 1(2) [OF False line_def refl nb b [symmetric] d qs(1) this] show ?thesis
        by (subst blocks_from.simps) (use False nb b in \<open>simp add: line_def [symmetric] Let_def\<close>)
    qed
  qed
qed

lemma tiled_cut_off: "tiled t a rs b \<Longrightarrow> a \<le> length t \<Longrightarrow> length t \<le> b \<Longrightarrow> tiled t a rs (length t)"
proof (induction t a rs b rule: tiled.induct)
  case (1 t a b)
  then show ?case using slice_past [of t b a] by simp
qed simp

lemma blocks_tiled:
  assumes "utf8_valid txt"
  shows "tiled txt 0 (map ends (blocks txt)) (length txt)"
proof -
  obtain rs where rs: "txt = concat rs" "list_all is_rune rs" using valid_runes [OF assms] by blast
  have "tiled txt 0 (map ends (flush None [])) 0" by (simp add: flush_def slice_def)
  with blocks_from_tiled [of 0 "txt" rs] rs obtain b where "b \<ge> length txt" "tiled txt 0 (map ends (blocks txt)) b"
    unfolding blocks_def by auto
  then show ?thesis using tiled_cut_off by blast
qed


subsection \<open>Cutting ends, and each piece fits\<close>

text \<open>Of any four bytes of a valid text one starts a rune, so a cut never stays where it began.\<close>

lemma rune_within_four:
  assumes "list_all is_rune rs" "j + 3 < length (concat rs)"
  shows "\<exists>k. j \<le> k \<and> k \<le> j + 3 \<and> rune_start (concat rs ! k)"
  using assms
proof (induction rs arbitrary: j)
  case (Cons r rs)
  have r: "is_rune r" "r \<noteq> []" "length r \<le> 4"
    using Cons.prems(1) by (auto simp: is_rune_def rune_length_def Let_def)
  show ?case
  proof (cases "j = 0")
    case True
    have "rune_start (r ! 0)" "0 < length r" using r(1,2) by (simp_all add: is_rune_def hd_conv_nth del: length_greater_0_conv) (metis length_greater_0_conv)
    then show ?thesis using True by (intro exI [of _ 0]) (simp add: nth_append)
  next
    case j: False
    show ?thesis
    proof (cases "j < length r")
      case True
      have "length r \<le> j + 3" using r(3) j by simp
      moreover have "length r < length (concat (r # rs))" using Cons.prems(2) calculation by linarith
      then obtain q qs where "concat rs = concat (q # qs)" "is_rune q" using Cons.prems(1) by (cases rs) auto
      then have "rune_start (concat (r # rs) ! length r)" by (auto simp: is_rune_def nth_append hd_conv_nth)
      ultimately show ?thesis using True by (intro exI [of _ "length r"]) simp
    next
      case False
      then have "j - length r + 3 < length (concat rs)" using Cons.prems(2) by simp
      then obtain k where "j - length r \<le> k" "k \<le> j - length r + 3" "rune_start (concat rs ! k)"
        using Cons.IH Cons.prems(1) by (metis list.pred_inject(2))
      then show ?thesis using False by (intro exI [of _ "length r + k"]) (auto simp: nth_append)
    qed
  qed
qed simp

lemma boundary_le: "limit < length t \<Longrightarrow> boundary t limit \<le> limit"
  by (induction limit) auto

lemma boundary_finds: "limit < length t \<Longrightarrow> 0 < k \<Longrightarrow> k \<le> limit \<Longrightarrow> rune_start (t ! k) \<Longrightarrow> k \<le> boundary t limit"
proof (induction limit)
  case (Suc limit)
  then show ?case by (cases "k = Suc limit") auto
qed simp

definition runic :: "string \<Rightarrow> bool" where "runic t \<longleftrightarrow> (\<exists>rs. t = concat rs \<and> list_all is_rune rs)"

lemma runic_valid: "utf8_valid t \<Longrightarrow> runic t"
  using valid_runes by (auto simp: runic_def)

lemma runic_append: "runic a \<Longrightarrow> runic b \<Longrightarrow> runic (a @ b)"
  unfolding runic_def by (metis concat_append list_all_append)

lemma boundary_positive:
  assumes "runic t" "start + PassageBytes < length t"
  shows "0 < boundary (drop start t) PassageBytes"
proof -
  obtain rs where rs: "t = concat rs" "list_all is_rune rs" using assms(1) by (auto simp: runic_def)
  have "start + 1 + 3 < length (concat rs)" using assms(2) rs(1) by (simp add: PassageBytes_def)
  then obtain k where k: "start + 1 \<le> k" "k \<le> start + 1 + 3" "rune_start (t ! k)" using rune_within_four [OF rs(2)] rs(1) by blast
  then have "rune_start (drop start t ! (k - start))" using assms(2) by (simp add: PassageBytes_def)
  then have "k - start \<le> boundary (drop start t) PassageBytes" using boundary_finds [of PassageBytes "drop start t" "k - start"] k assms(2)
    by (simp add: PassageBytes_def)
  then show ?thesis using k(1) by linarith
qed

lemma skip_word_found: "0 < skip_word window at \<Longrightarrow> skip_word window at \<le> at \<and> 0 < trail_space (take (skip_word window at) window)"
proof (induction window at rule: skip_word.induct)
  case (1 window at)
  then show ?case by (subst (asm) skip_word.simps, subst skip_word.simps, subst skip_word.simps) (auto split: if_splits)
qed

lemma skip_space_le: "skip_space window at \<le> at"
proof (induction window at rule: skip_space.induct)
  case (1 window at)
  then show ?case by (subst skip_space.simps) (auto split: if_splits intro: le_trans)
qed

lemma skip_space_less: "0 < at \<Longrightarrow> 0 < trail_space (take at window) \<Longrightarrow> skip_space window at < at"
  using skip_space_le [of window "at - trail_space (take at window)"] by (subst skip_space.simps) auto

lemma lastWhitespaceRun_less: "window \<noteq> [] \<Longrightarrow> lastWhitespaceRun window < length window"
  using skip_word_found [of window "length window"] skip_space_less [of "skip_word window (length window)" window]
  by (fastforce simp: lastWhitespaceRun_def Let_def)

lemma cut_end_bounds:
  assumes "runic t" "start + PassageBytes < length t"
  shows "start < cut_end t start \<and> cut_end t start \<le> start + PassageBytes"
proof -
  let ?w = "slice t start (start + PassageBytes + 1)"
  have l: "length ?w = PassageBytes + 1" using assms(2) by (simp add: slice_def)
  then have "lastWhitespaceRun ?w < PassageBytes + 1" using lastWhitespaceRun_less [of ?w] by (metis length_0_conv add_is_0 one_neq_zero)
  moreover have "boundary (drop start t) PassageBytes \<le> PassageBytes" using boundary_le [of PassageBytes "drop start t"] assms(2) by simp
  ultimately show ?thesis using boundary_positive [OF assms] by (auto simp: cut_end_def Let_def)
qed

text \<open>A position right after a rune that is no white space.\<close>

definition ends_word :: "string \<Rightarrow> nat \<Rightarrow> bool" where
  "ends_word t e \<longleftrightarrow> (\<exists>a r. take e t = a @ r \<and> is_rune r \<and> r \<notin> space_runes)"

lemma ends_word_not_spaces:
  assumes "ends_word t stop" "e < stop" "stop \<le> length t"
  shows "\<not> spaces (slice t e stop)"
proof
  assume "spaces (slice t e stop)"
  then obtain ws where ws: "slice t e stop = concat ws" "set ws \<subseteq> space_runes" by (auto simp: spaces_def)
  have "slice t e stop \<noteq> []" using assms(2,3) by (simp add: slice_def)
  then obtain vs w where v: "ws = vs @ [w]" using ws(1) by (cases ws rule: rev_cases) auto
  have w: "w \<in> space_runes" using v ws(2) by simp
  obtain a r where r: "take stop t = a @ r" "is_rune r" "r \<notin> space_runes" using assms(1) by (auto simp: ends_word_def)
  have "take stop t = take e t @ slice t e stop" using slice_append [of 0 e stop t] assms(2) by (simp add: slice_def)
  then have "a @ r = (take e t @ concat vs) @ w" using r(1) ws(1) v by simp
  then show False using rune_suffix_unique [OF r(2) space_is_rune [OF w]] r(3) w by blast
qed

lemma cut_from_tiles:
  assumes "runic t" "start \<le> stop" "stop \<le> length t"
  shows "\<exists>pieces. cut_from t stop start heading = Some pieces \<and>
    (\<forall>p \<in> set pieces. sp_start p \<le> sp_end p \<and> sp_end p \<le> length t \<and> sp_end p - sp_start p \<le> PassageBytes) \<and>
    (ends_word t stop \<and> start < stop \<longrightarrow> tiled t start (map ends pieces) stop)"
  using assms(2,3)
proof (induction "stop - start" arbitrary: start heading rule: less_induct)
  case less
  show ?case
  proof (cases "stop - start > PassageBytes")
    case False
    then show ?thesis using less.prems by (subst cut_from.simps) (auto simp: slice_def)
  next
    case True
    let ?e = "cut_end t start"
    define rest where "rest = slice t ?e stop"
    define n where "n = length rest - length (trim_left_space rest)"
    let ?first = "\<lparr>sp_start = start, sp_end = ?e, sp_heading = heading\<rparr>"
    have e: "start < ?e" "?e \<le> start + PassageBytes" using cut_end_bounds [OF assms(1)] True less.prems by auto
    then have es: "?e < stop" using True by linarith
    have len: "length rest = stop - ?e" using less.prems by (simp add: rest_def slice_def)
    then have n: "n \<le> stop - ?e" by (simp add: n_def)
    have "slice t ?e (?e + n) = take n rest" using n by (simp add: rest_def slice_def min_def)
    then have gap: "spaces (slice t ?e (?e + n))" using trim_left_length(2) [of rest] by (simp add: n_def)
    have dec: "stop - (?e + n) < stop - start" "?e + n \<le> stop" using n e es by auto
    have "?e + length rest - length (trim_left_space rest) = ?e + n" using trim_left_length(1) [of rest] by (simp add: n_def)
    then have step: "cut_from t stop start heading = Option.bind (cut_from t stop (?e + n) False) (\<lambda>pieces. Some (?first # pieces))"
      using True by (subst cut_from.simps) (simp add: Let_def rest_def [symmetric])
    from less.hyps [OF dec less.prems(2), of False] obtain pieces where p: "cut_from t stop (?e + n) False = Some pieces"
      "\<forall>p \<in> set pieces. sp_start p \<le> sp_end p \<and> sp_end p \<le> length t \<and> sp_end p - sp_start p \<le> PassageBytes"
      "ends_word t stop \<and> ?e + n < stop \<longrightarrow> tiled t (?e + n) (map ends pieces) stop" by blast
    have "?e + n < stop" if "ends_word t stop"
      using ends_word_not_spaces [OF that es less.prems(2)] gap dec(2) by (cases "?e + n = stop") auto
    then have "ends_word t stop \<longrightarrow> tiled t start ((start, ?e) # map ends pieces) stop"
      using p(3) tiled_wider [OF _ _ gap, of "map ends pieces" stop] e es less.prems by (simp add: slice_def)
    moreover have "cut_from t stop start heading = Some (?first # pieces)" using step p(1) by simp
    ultimately show ?thesis using p(2) e es less.prems(2) by auto
  qed
qed

lemma cut_tiles:
  assumes "runic t" "sp_start b \<le> sp_end b" "sp_end b \<le> length t"
  shows "\<exists>pieces. cut t b = Some pieces \<and>
    (\<forall>p \<in> set pieces. sp_start p \<le> sp_end p \<and> sp_end p \<le> length t \<and> sp_end p - sp_start p \<le> PassageBytes) \<and>
    (ends_word t (sp_end b) \<and> sp_start b < sp_end b \<longrightarrow> tiled t (sp_start b) (map ends pieces) (sp_end b))"
  unfolding cut_def by (rule cut_from_tiles [OF assms])


text \<open>Every block of a valid text ends in a word.\<close>

lemma trim_right_ends_word:
  assumes "list_all is_rune ls" "trim_right_space (concat ls) \<noteq> []"
  shows "\<exists>a r. trim_right_space (concat ls) = a @ r \<and> is_rune r \<and> r \<notin> space_runes"
proof -
  let ?d = "dropWhile (\<lambda>r. r \<in> space_runes) (rev ls)"
  have t: "trim_right_space (concat ls) = concat (rev ?d)" by (rule trim_right_runes [OF assms(1)])
  then obtain r rs where d: "?d = r # rs" using assms(2) by (cases ?d) auto
  have "r \<notin> space_runes" using d by (metis dropWhile_eq_Cons_conv)
  moreover have "r \<in> set ls" using d by (metis list.set_intros(1) set_dropWhileD set_rev)
  then have "is_rune r" using assms(1) by (auto simp: list_all_iff)
  moreover have "trim_right_space (concat ls) = concat (rev rs) @ r" unfolding t d by simp
  ultimately show ?thesis by blast
qed

lemma block_line_ends:
  assumes line: "line = takeWhile (\<lambda>c. c \<noteq> CHR 0x0A) (drop at txt)" "line = concat ls" "list_all is_rune ls"
    and blank: "trim_space line \<noteq> []" and at: "at \<le> length txt"
    and t: "\<forall>s \<in> set (flush current out). ends_word txt (sp_end s)"
    and b: "block_line at line current out = (current', out')"
  shows "\<forall>s \<in> set (flush current' out'). ends_word txt (sp_end s)"
proof -
  let ?k = "length (trim_right_space line)"
  have "trim_right_space line \<noteq> []" using trimmed_bounds [of ls] line(2,3) blank by auto
  then obtain a r where r: "trim_right_space line = a @ r" "is_rune r" "r \<notin> space_runes"
    using trim_right_ends_word [OF line(3)] line(2) by blast
  have "trim_right_space line = take ?k line" using trim_right_splits [of line] by (metis append_eq_conv_conj)
  also have "\<dots> = take ?k (drop at txt)" using line(1) trim_right_length(1) [of line] by (metis min.absorb1 takeWhile_eq_take take_take)
  finally have f: "trim_right_space line = take ?k (drop at txt)" .
  have "take (at + ?k) txt = (take at txt @ a) @ r" unfolding take_add f [symmetric] unfolding r(1) by simp
  then have "ends_word txt (at + ?k)" using r(2,3) unfolding ends_word_def by blast
  then show ?thesis using t b by (auto simp: block_line_def Let_def flush_append split: if_splits option.splits)
qed

lemma blocks_from_ends:
  "drop at txt = concat rs \<Longrightarrow> list_all is_rune rs \<Longrightarrow> \<forall>s \<in> set (flush current out). ends_word txt (sp_end s) \<Longrightarrow>
   \<forall>s \<in> set (blocks_from txt at current out). ends_word txt (sp_end s)"
proof (induction "txt" at current out arbitrary: rs rule: blocks_from.induct)
  case (1 "txt" at current out)
  show ?case
  proof (cases "at \<ge> length txt")
    case True
    then show ?thesis using 1(5) by (subst blocks_from.simps) auto
  next
    case False
    define line where "line = takeWhile (\<lambda>c. c \<noteq> CHR 0x0A) (drop at txt)"
    have lr: "line = takeWhile (\<lambda>c. c \<noteq> CHR 0x0A) (concat rs)" using 1(3) by (simp add: line_def)
    obtain qs where qs: "list_all is_rune qs" "drop (length line + 1) (concat rs) = concat qs" using after_line [OF 1(4) lr] by blast
    have d: "drop (at + length line + 1) txt = concat qs" using qs(2) 1(3) by (metis add.assoc add.commute drop_drop)
    show ?thesis
    proof (cases "trim_space line = []")
      case True
      have "\<forall>s \<in> set (flush None (flush current out)). ends_word txt (sp_end s)" using 1(5) by (simp add: flush_def)
      from 1(1) [OF False line_def refl True d qs(1) this] show ?thesis
        by (subst blocks_from.simps) (use False True in \<open>simp add: line_def [symmetric] Let_def\<close>)
    next
      case nb: False
      obtain c' o' where b: "block_line at line current out = (c', o')" by fastforce
      have "line = concat (takeWhile (\<lambda>r. r \<noteq> [CHR 0x0A]) rs)" using line_of_runes [OF 1(4)] lr by simp
      moreover have "list_all is_rune (takeWhile (\<lambda>r. r \<noteq> [CHR 0x0A]) rs)" using 1(4) by (auto simp: list_all_iff dest: set_takeWhileD)
      ultimately have "\<forall>s \<in> set (flush c' o'). ends_word txt (sp_end s)"
        using block_line_ends [OF line_def _ _ nb _ 1(5) b] False by simp
      from 1(2) [OF False line_def refl nb b [symmetric] d qs(1) this] show ?thesis
        by (subst blocks_from.simps) (use False nb b in \<open>simp add: line_def [symmetric] Let_def\<close>)
    qed
  qed
qed

lemma blocks_end_words:
  assumes "utf8_valid txt"
  shows "\<forall>s \<in> set (blocks txt). ends_word txt (sp_end s)"
proof -
  obtain rs where rs: "txt = concat rs" "list_all is_rune rs" using valid_runes [OF assms] by blast
  then show ?thesis using blocks_from_ends [of 0 "txt" rs None "[]"] by (simp add: blocks_def flush_def)
qed

subsection \<open>Packing keeps the bound and the tiling\<close>

definition stretch :: "passage \<Rightarrow> nat \<times> nat" where "stretch p = (ps_Offset p, ps_Offset p + length (ps_Text p))"

definition packed :: "string \<Rightarrow> string \<Rightarrow> passage list \<Rightarrow> bool" where
  "packed source t ps \<longleftrightarrow> (\<forall>i < length ps. ps_Source (ps ! i) = source \<and> ps_Ordinal (ps ! i) = i + 1 \<and>
     ps_Text (ps ! i) = slice t (fst (stretch (ps ! i))) (snd (stretch (ps ! i))) \<and> length (ps_Text (ps ! i)) \<le> PassageBytes)"

lemma slice_length: "length (slice t s e) = min (e - s) (length t - s)"
  by (simp add: slice_def min.commute)

lemma emit_packed: "packed source t ps \<Longrightarrow> e - s \<le> PassageBytes \<Longrightarrow> packed source t (emit source t (s, e) ps)"
proof -
  assume p: "packed source t ps" "e - s \<le> PassageBytes"
  have "slice t s (s + length (slice t s e)) = slice t s e" by (simp add: slice_def min_def)
  then show ?thesis using p by (auto simp: packed_def emit_def stretch_def nth_append less_Suc_eq slice_length)
qed

lemma emit_stretch: "s < e \<Longrightarrow> e \<le> length t \<Longrightarrow> map stretch (emit source t (s, e) ps) = map stretch ps @ [(s, e)]"
  by (simp add: emit_def stretch_def slice_length)

definition open_run :: "(nat \<times> nat) option \<Rightarrow> (nat \<times> nat) list" where "open_run cur = (case cur of None \<Rightarrow> [] | Some r \<Rightarrow> [r])"

definition fits :: "(nat \<times> nat) option \<Rightarrow> bool" where "fits cur \<longleftrightarrow> (\<forall>s e. cur = Some (s, e) \<longrightarrow> e - s \<le> PassageBytes)"

lemma pack_piece_packed:
  assumes "packed source t ps" "fits cur" "sp_end p - sp_start p \<le> PassageBytes" "pack_piece source t p (cur, ps) = (cur', ps')"
  shows "packed source t ps' \<and> fits cur'"
  using assms by (auto simp: pack_piece_def fits_def emit_packed split: option.splits if_splits)

lemma pack_pieces_packed:
  "packed source t ps \<Longrightarrow> fits cur \<Longrightarrow> \<forall>p \<in> set pieces. sp_end p - sp_start p \<le> PassageBytes \<Longrightarrow>
   fold (pack_piece source t) pieces (cur, ps) = (cur', ps') \<Longrightarrow> packed source t ps' \<and> fits cur'"
proof (induction pieces arbitrary: cur ps)
  case (Cons p pieces)
  obtain cur1 ps1 where 1: "pack_piece source t p (cur, ps) = (cur1, ps1)" by fastforce
  then have ok: "packed source t ps1" "fits cur1" using pack_piece_packed [OF Cons.prems(1,2) _ 1] Cons.prems(3) by auto
  show ?case by (rule Cons.IH [OF ok]) (use Cons.prems 1 in simp_all)
qed simp

lemma pack_piece_tiled:
  assumes "tiled t 0 (map stretch ps @ open_run cur) b" "tiled t b [(sp_start p, sp_end p)] c" "pack_piece source t p (cur, ps) = (cur', ps')"
  shows "tiled t 0 (map stretch ps' @ open_run cur') c"
proof (cases cur)
  case None
  then have c': "cur' = Some (sp_start p, sp_end p)" "ps' = ps" using assms(3) by (simp_all add: pack_piece_def)
  have "tiled t 0 (map stretch ps) b" using assms(1) None by (simp add: open_run_def)
  from tiled_append [OF this assms(2)] show ?thesis unfolding c' by (simp add: open_run_def)
next
  case (Some r)
  obtain s e where r: "r = (s, e)" by fastforce
  have t: "tiled t 0 (map stretch ps @ [(s, e)]) b" using assms(1) Some r by (simp add: open_run_def)
  then have se: "s < e" "e \<le> length t" by (simp_all add: tiled_snoc)
  show ?thesis
  proof (cases "sp_heading p \<or> sp_end p - s > PassageBytes")
    case True
    then have c': "cur' = Some (sp_start p, sp_end p)" "ps' = emit source t (s, e) ps" using assms(3) Some r by (auto simp: pack_piece_def)
    from tiled_append [OF t assms(2)] show ?thesis unfolding c' emit_stretch [OF se] by (simp add: open_run_def)
  next
    case False
    then have c': "cur' = Some (s, sp_end p)" "ps' = ps" using assms(3) Some r by (auto simp: pack_piece_def)
    have "tiled t 0 (map stretch ps @ [(s, sp_end p)]) c" by (rule tiled_merge [OF t]) (use assms(2) in auto)
    then show ?thesis unfolding c' by (simp add: open_run_def)
  qed
qed

lemma pack_pieces_tiled:
  "tiled t 0 (map stretch ps @ open_run cur) b \<Longrightarrow> tiled t b (map ends pieces) c \<Longrightarrow>
   fold (pack_piece source t) pieces (cur, ps) = (cur', ps') \<Longrightarrow> tiled t 0 (map stretch ps' @ open_run cur') c"
proof (induction pieces arbitrary: cur ps b)
  case Nil
  then show ?case using tiled_append [of t 0 "map stretch ps @ open_run cur" b "[]" c] by simp
next
  case (Cons p pieces)
  obtain cur1 ps1 where 1: "pack_piece source t p (cur, ps) = (cur1, ps1)" by fastforce
  have "tiled t b [(sp_start p, sp_end p)] (sp_end p)" using Cons.prems(2) by (simp add: slice_def)
  from pack_piece_tiled [OF Cons.prems(1) this 1] show ?case using Cons 1 by simp
qed

lemma pack_blocks_spec:
  assumes "runic t"
  shows "\<forall>b \<in> set bs. sp_start b \<le> sp_end b \<and> sp_end b \<le> length t \<Longrightarrow> packed source t ps \<Longrightarrow> fits cur \<Longrightarrow>
    \<exists>cur' ps'. pack_blocks source t bs (cur, ps) = Some (cur', ps') \<and> packed source t ps' \<and> fits cur' \<and>
      ((\<forall>b \<in> set bs. ends_word t (sp_end b)) \<and> tiled t 0 (map stretch ps @ open_run cur) a \<and> tiled t a (map ends bs) c \<longrightarrow>
        tiled t 0 (map stretch ps' @ open_run cur') c)"
proof (induction bs arbitrary: cur ps a)
  case Nil
  then show ?case using tiled_append [of t 0 "map stretch ps @ open_run cur" a "[]" c] by auto
next
  case (Cons b bs)
  obtain pieces where p: "cut t b = Some pieces" "\<forall>p \<in> set pieces. sp_end p - sp_start p \<le> PassageBytes"
    "ends_word t (sp_end b) \<and> sp_start b < sp_end b \<longrightarrow> tiled t (sp_start b) (map ends pieces) (sp_end b)"
    using cut_tiles [OF assms, of b] Cons.prems(1) by auto
  obtain cur1 ps1 where 1: "fold (pack_piece source t) pieces (cur, ps) = (cur1, ps1)" by fastforce
  have ok: "packed source t ps1" "fits cur1" using pack_pieces_packed [OF Cons.prems(2,3) p(2) 1] by auto
  obtain cur' ps' where r: "pack_blocks source t bs (cur1, ps1) = Some (cur', ps')" "packed source t ps'" "fits cur'"
    "(\<forall>b \<in> set bs. ends_word t (sp_end b)) \<and> tiled t 0 (map stretch ps1 @ open_run cur1) (sp_end b) \<and> tiled t (sp_end b) (map ends bs) c \<longrightarrow>
      tiled t 0 (map stretch ps' @ open_run cur') c"
    using Cons.IH [OF _ ok, of "sp_end b"] Cons.prems(1) by auto
  have "tiled t 0 (map stretch ps' @ open_run cur') c"
    if w: "\<forall>x \<in> set (b # bs). ends_word t (sp_end x)" and t: "tiled t 0 (map stretch ps @ open_run cur) a" and bs: "tiled t a (map ends (b # bs)) c"
  proof -
    have "tiled t a (map ends pieces) (sp_end b)" using p(3) w bs tiled_wider by auto
    from pack_pieces_tiled [OF t this 1] show ?thesis using r(4) w bs by simp
  qed
  then show ?case using p(1) 1 r(1-3) by auto
qed

lemma pack_spec:
  assumes "runic t" "\<forall>b \<in> set bs. sp_start b \<le> sp_end b \<and> sp_end b \<le> length t"
  shows "\<exists>ps. pack source t bs = Some ps \<and> packed source t ps \<and>
    ((\<forall>b \<in> set bs. ends_word t (sp_end b)) \<and> tiled t 0 (map ends bs) (length t) \<longrightarrow> tiled t 0 (map stretch ps) (length t))"
proof -
  have "packed source t []" "fits None" by (simp_all add: packed_def fits_def)
  from pack_blocks_spec [OF assms(1,2) this, of 0 "length t"] obtain cur ps where
    r: "pack_blocks source t bs (None, []) = Some (cur, ps)" "packed source t ps" "fits cur"
      "(\<forall>b \<in> set bs. ends_word t (sp_end b)) \<and> tiled t 0 (map ends bs) (length t) \<longrightarrow> tiled t 0 (map stretch ps @ open_run cur) (length t)"
    by (auto simp: open_run_def slice_def)
  show ?thesis
  proof (cases cur)
    case None
    then show ?thesis using r by (auto simp: pack_def open_run_def)
  next
    case (Some c)
    obtain s e where c: "c = (s, e)" by fastforce
    have "packed source t (emit source t (s, e) ps)" using emit_packed r(2,3) Some c by (auto simp: fits_def)
    moreover have "map stretch (emit source t (s, e) ps) = map stretch ps @ [(s, e)]" if "tiled t 0 (map stretch ps @ [(s, e)]) (length t)"
      by (rule emit_stretch) (use that in \<open>simp_all add: tiled_snoc\<close>)
    ultimately show ?thesis using r Some c by (auto simp: pack_def open_run_def)
  qed
qed


subsection \<open>Properties\<close>

text \<open>
  C19. The passages of a text are the text.  Cutting a text that is valid UTF-8 ends, whatever its lines:
  it answers passages, numbered from one in their order, each at most the cap and none empty, each
  exactly the bytes at its offset; and the text is these passages with nothing but white space
  before, between and after them, so no word of a document is left out and none is indexed twice.
\<close>

theorem TextPassages_partition:
  assumes "utf8_valid content"
  shows "\<exists>ps gaps. TextPassages source content = Some ps \<and>
    (\<forall>i < length ps. ps_Source (ps ! i) = source \<and> ps_Ordinal (ps ! i) = i + 1 \<and> ps_Text (ps ! i) \<noteq> [] \<and>
       length (ps_Text (ps ! i)) \<le> PassageBytes \<and>
       ps_Text (ps ! i) = slice content (ps_Offset (ps ! i)) (ps_Offset (ps ! i) + length (ps_Text (ps ! i)))) \<and>
    length gaps = Suc (length ps) \<and> (\<forall>g \<in> set gaps. spaces g) \<and> content = interleave gaps (map ps_Text ps)"
proof -
  have b: "\<forall>b \<in> set (blocks content). sp_start b \<le> sp_end b \<and> sp_end b \<le> length content"
    using tiled_within [OF blocks_tiled [OF assms]] by (fastforce simp: less_imp_le)
  obtain ps where p: "pack source content (blocks content) = Some ps" "packed source content ps" "tiled content 0 (map stretch ps) (length content)"
    using pack_spec [OF runic_valid [OF assms] b] blocks_tiled [OF assms] blocks_end_words [OF assms] by blast
  obtain gs where g: "length gs = Suc (length ps)" "\<forall>g \<in> set gs. spaces g"
    "content = interleave gs (map (\<lambda>(s, e). slice content s e) (map stretch ps))" using tiled_interleave [OF p(3)] by auto
  have tx: "ps_Text (ps ! i) = slice content (fst (stretch (ps ! i))) (snd (stretch (ps ! i)))" if "i < length ps" for i
    using p(2) that by (simp add: packed_def)
  have ne: "ps_Text (ps ! i) \<noteq> []" if "i < length ps" for i
    using tiled_within [OF p(3), of "fst (stretch (ps ! i))" "snd (stretch (ps ! i))"] that by (auto simp: stretch_def)
  have "map (\<lambda>(s, e). slice content s e) (map stretch ps) = map ps_Text ps"
    by (rule nth_equalityI) (simp_all add: tx case_prod_beta)
  then have "content = interleave gs (map ps_Text ps)" using g(3) by (simp only:)
  with g(1,2) p(1,2) ne show ?thesis
    unfolding TextPassages_def by (intro exI [of _ ps] exI [of _ gs]) (auto simp: packed_def stretch_def)
qed

theorem TextPassages_partition_witness:
  "\<exists>ps gaps. TextPassages ''a.md'' (''# One'' @ [CHR 0x0A, CHR 0x0A] @ ''two'') = Some ps \<and> length gaps = Suc (length ps) \<and>
     (''# One'' @ [CHR 0x0A, CHR 0x0A] @ ''two'') = interleave gaps (map ps_Text ps)"
proof -
  have "utf8_valid (''# One'' @ [CHR 0x0A, CHR 0x0A] @ ''two'')" by (simp add: utf8_valid_def rune_size_def byte_in_def second_byte_def)
  from TextPassages_partition [OF this, of "''a.md''"] show ?thesis by blast
qed

text \<open>A text that is not UTF-8 can hold the cut where it is: the walk reads none as a document.\<close>

lemma boundary_stuck: "\<forall>k \<le> limit. 0 < k \<longrightarrow> \<not> rune_start (t ! k) \<Longrightarrow> limit < length t \<Longrightarrow> boundary t limit = 0"
  by (induction limit) auto

text \<open>What a JSON decoder answers: no more is closed than was opened, and every string is valid UTF-8.\<close>

fun balanced :: "nat \<Rightarrow> json_token list \<Rightarrow> bool" where
  "balanced n [] = True"
| "balanced n (t # ts) = (case t of OpenObject \<Rightarrow> balanced (Suc n) ts | OpenArray \<Rightarrow> balanced (Suc n) ts
     | CloseDelim \<Rightarrow> (case n of 0 \<Rightarrow> False | Suc m \<Rightarrow> balanced m ts)
     | TokString s \<Rightarrow> utf8_valid s \<and> balanced n ts | TokNumber s \<Rightarrow> utf8_valid s \<and> balanced n ts | TokOther \<Rightarrow> balanced n ts)"

definition report_ok :: "report_state \<Rightarrow> bool" where
  "report_ok s \<longleftrightarrow> runic (rs_joined s) \<and> (\<forall>b \<in> set (rs_spans s). sp_start b \<le> sp_end b \<and> sp_end b \<le> length (rs_joined s))"

lemma slot_same [simp]: "rs_joined (filledValueSlot s) = rs_joined s" "rs_spans (filledValueSlot s) = rs_spans s"
  "length (rs_stack (filledValueSlot s)) = length (rs_stack s)"
  by (simp_all add: filledValueSlot_def split: list.splits)

lemma key_same [simp]: "rs_joined (keyRead s) = rs_joined s" "rs_spans (keyRead s) = rs_spans s"
  "length (rs_stack (keyRead s)) = length (rs_stack s)"
  by (simp_all add: keyRead_def split: list.splits)

lemma value_stack [simp]: "rs_stack (report_value v s) = rs_stack s"
  by (simp add: report_value_def Let_def)

lemma report_ok_value: "report_ok s \<Longrightarrow> utf8_valid v \<Longrightarrow> report_ok (report_value v s)"
proof -
  assume s: "report_ok s" "utf8_valid v"
  have "is_rune [CHR 0x0A]" by (simp add: is_rune_def rune_start_def rune_length_def)
  then have "runic [CHR 0x0A, CHR 0x0A]" unfolding runic_def by (intro exI [of _ "[[CHR 0x0A], [CHR 0x0A]]"]) simp
  moreover have "runic []" unfolding runic_def by (intro exI [of _ "[]"]) simp
  ultimately show ?thesis using s runic_append runic_valid
    by (auto simp: report_ok_def report_value_def Let_def)
qed

lemma report_tokens_ok:
  "balanced (length (rs_stack s)) ts \<Longrightarrow> report_ok s \<Longrightarrow> \<exists>s'. report_tokens ts s = Some s' \<and> report_ok s'"
proof (induction ts arbitrary: s)
  case (Cons t ts)
  have "\<exists>s1. report_token t s = Some s1 \<and> report_ok s1 \<and> balanced (length (rs_stack s1)) ts"
  proof (cases t)
    case CloseDelim
    then obtain f fs where f: "rs_stack s = f # fs" using Cons.prems(1) by (cases "rs_stack s") auto
    then show ?thesis using Cons.prems CloseDelim by (simp add: report_token_def report_ok_def)
  next
    case (TokString v)
    then show ?thesis using Cons.prems report_ok_value [of "filledValueSlot s" v] by (auto simp: report_token_def report_ok_def)
  next
    case (TokNumber v)
    then show ?thesis using Cons.prems report_ok_value [of "filledValueSlot s" v] by (auto simp: report_token_def report_ok_def)
  qed (use Cons.prems in \<open>auto simp: report_token_def report_ok_def Let_def\<close>)
  then show ?case using Cons.IH by auto
qed simp

text \<open>
  Cutting a report ends and keeps the cap.  Whatever a JSON decoder answers for a report, its values
  are cut into passages numbered from one, each at most the cap and each exactly the bytes of the joined
  values at its offset.
\<close>

theorem ReportPassages_bounded:
  assumes "balanced 0 (tokens report)"
  shows "\<exists>ps joined. ReportPassages tokens source report = Some ps \<and> packed source joined ps"
proof -
  have "report_ok no_report" unfolding report_ok_def runic_def no_report_def by (auto intro: exI [of _ "[]"])
  then obtain s where s: "report_tokens (tokens report) no_report = Some s" "report_ok s"
    using report_tokens_ok [of no_report "tokens report"] assms by (auto simp: no_report_def)
  then obtain ps where "pack source (rs_joined s) (rs_spans s) = Some ps" "packed source (rs_joined s) ps"
    using pack_spec [of "rs_joined s" "rs_spans s" source] by (auto simp: report_ok_def)
  then show ?thesis using s(1) by (auto simp: ReportPassages_def)
qed

definition demo_tokens :: "string \<Rightarrow> json_token list" where
  "demo_tokens r = [OpenObject, TokString ''found'', OpenArray, OpenObject, TokString ''title'', TokString ''disk'', CloseDelim, CloseDelim, CloseDelim]"

theorem ReportPassages_bounded_witness:
  "\<exists>ps joined. ReportPassages demo_tokens ''r1'' [] = Some ps \<and> packed ''r1'' joined ps"
proof -
  have "balanced 0 (demo_tokens [])" by (simp add: demo_tokens_def utf8_valid_def rune_size_def byte_in_def second_byte_def)
  from ReportPassages_bounded [where tokens = demo_tokens and report = "[]", OF this] show ?thesis .
qed

end
