(* ===== verification/Index.thy ===== *)
theory Index
  imports Passages Filepath Rows "HOL-Library.Product_Lexorder"
begin

text \<open>
  One collection's index: \<open>index/index.go\<close>, \<open>walk.go\<close>, \<open>reports.go\<close> and \<open>lexical.go\<close>.  The database is a
  value with its three tables, and a transaction that fails leaves it as it was.  What a run of an
  operation meets is a parameter: for every attempt, what other connections committed before it, where
  it failed and whether the context had ended.  A retry that is still waiting when the attempts given
  are used up is \<open>None\<close>.  SHA-256, the JSON encoder of strings, the file system and the ranking of
  FTS5 are parameters too.
\<close>

subsection \<open>Configurations, documents and generations\<close>

definition Tokenizer :: string where "Tokenizer = ''unicode61''"
definition PassageRule :: string where "PassageRule = ''text-1''"

record configuration =
  cf_SourceKind :: string
  cf_Source :: string

definition DirectoryConfiguration :: "string \<Rightarrow> configuration" where
  "DirectoryConfiguration dir = \<lparr>cf_SourceKind = ''directory'', cf_Source = dir\<rparr>"

definition ReportsConfiguration :: "string list \<Rightarrow> configuration" where
  "ReportsConfiguration playbooks = \<lparr>cf_SourceKind = ''reports'', cf_Source = str_join playbooks '',''\<rparr>"

definition index_Identity :: "(string \<Rightarrow> string) \<Rightarrow> (string \<Rightarrow> string) \<Rightarrow> configuration \<Rightarrow> string" where
  "index_Identity sha quote c = sha (''{'' @ str_join (map (\<lambda>(k, v). quote k @ '':'' @ quote v)
     [(''passage_rule'', PassageRule), (''tokenizer'', Tokenizer), (''source_kind'', cf_SourceKind c), (''source'', cf_Source c)]) '','' @ ''}'')"

record generation =
  gn_ID :: string
  gn_Identity :: string
  gn_BuiltAt :: time

definition no_generation :: generation where "no_generation = \<lparr>gn_ID = [], gn_Identity = [], gn_BuiltAt = zero_time\<rparr>"

definition Short :: "generation \<Rightarrow> string" where
  "Short g = (if length (gn_ID g) < 12 then gn_ID g else take 12 (gn_ID g))"

record document =
  do_Source :: string
  do_Digest :: string
  do_Bytes :: nat

abbreviation pair_of :: "document \<Rightarrow> string \<times> string" where "pair_of d \<equiv> (do_Source d, do_Digest d)"

fun generation_text :: "(string \<times> string) list \<Rightarrow> string" where
  "generation_text [] = []"
| "generation_text ((source, digest) # pairs) = [CHR 0x0A] @ source @ [CHR 0x00] @ digest @ generation_text pairs"

definition generationOfPairs :: "(string \<Rightarrow> string) \<Rightarrow> string \<Rightarrow> (string \<times> string) list \<Rightarrow> string" where
  "generationOfPairs sha identity pairs = sha (identity @ generation_text (sort_key fst pairs))"

definition GenerationOf :: "(string \<Rightarrow> string) \<Rightarrow> string \<Rightarrow> document list \<Rightarrow> string" where
  "GenerationOf sha identity documents = generationOfPairs sha identity (map pair_of documents)"

record index_db =
  ix_generation :: "generation option"
  ix_documents :: "document list"
  ix_passages :: "passage list"

definition empty_index :: index_db where "empty_index = \<lparr>ix_generation = None, ix_documents = [], ix_passages = []\<rparr>"

subsection \<open>Failures and waiting\<close>

datatype ctx_end = Canceled | DeadlineExceeded

datatype ix_error =
    SqliteBusy
  | BeginFailed ix_error
  | CommitBusy ix_error
  | IndexHeld ctx_end ix_error
  | AtBound ctx_end "ix_error option"
  | ContextEnded ctx_end
  | Moved
  | DocumentChanged string
  | NotAmongDocuments string
  | NoRoot
  | ReadFailed string string
  | DuplicateDocument string
  | IxFault string
  | AlsoChanged ix_error ix_error
  | ChangedEachTime ix_error nat

fun isBegin :: "ix_error \<Rightarrow> bool" where
  "isBegin (BeginFailed e) = True"
| "isBegin (CommitBusy e) = isBegin e"
| "isBegin (IndexHeld c e) = isBegin e"
| "isBegin (AtBound c (Some e)) = isBegin e"
| "isBegin (AlsoChanged e f) = (isBegin e \<or> isBegin f)"
| "isBegin (ChangedEachTime e n) = isBegin e"
| "isBegin e = False"

fun isBusy :: "ix_error \<Rightarrow> bool" where
  "isBusy SqliteBusy = True"
| "isBusy (BeginFailed e) = isBusy e"
| "isBusy (CommitBusy e) = isBusy e"
| "isBusy (IndexHeld c e) = isBusy e"
| "isBusy (AtBound c (Some e)) = isBusy e"
| "isBusy (AlsoChanged e f) = (isBusy e \<or> isBusy f)"
| "isBusy (ChangedEachTime e n) = isBusy e"
| "isBusy e = False"

fun isCommitBusy :: "ix_error \<Rightarrow> bool" where
  "isCommitBusy (CommitBusy e) = True"
| "isCommitBusy (BeginFailed e) = isCommitBusy e"
| "isCommitBusy e = False"

definition beginFailure :: "ctx_end option \<Rightarrow> ix_error \<Rightarrow> ix_error" where
  "beginFailure ctx e = (if isBegin e then e
     else if isBusy e \<or> (\<exists>c \<in> set_option ctx. e = ContextEnded c) then BeginFailed e else e)"

definition heldAtBound :: "ctx_end \<Rightarrow> ix_error option \<Rightarrow> ix_error" where
  "heldAtBound ctx err = (case err of
     Some e \<Rightarrow> if isBegin e \<and> ctx = DeadlineExceeded then IndexHeld ctx e else AtBound ctx (Some e)
   | None \<Rightarrow> AtBound ctx None)"

text \<open>
  What one attempt meets: what others committed before it, why its transaction did not begin, why its
  first statement, a later statement or its COMMIT failed, the context when it returned and after the
  pause that follows it, the clock and the files.
\<close>

record attempt =
  at_others :: "index_db \<Rightarrow> index_db"
  at_begin :: "ix_error option"
  at_first :: "ix_error option"
  at_statement :: "ix_error option"
  at_commit :: "ix_error option"
  at_ctx :: "ctx_end option"
  at_pause :: "ctx_end option"
  at_now :: time
  at_files :: "string \<Rightarrow> (string, string) result"

definition error_of :: "('e, 'a) result \<Rightarrow> 'e option" where
  "error_of r = (case r of Inl e \<Rightarrow> Some e | Inr _ \<Rightarrow> None)"

fun retryBusy ::
  "(attempt \<Rightarrow> 'd \<Rightarrow> 'd \<times> (ix_error, 'a) result) \<Rightarrow> attempt list \<Rightarrow> bool \<Rightarrow> 'd \<Rightarrow> ('d \<times> (ix_error, 'a) result) option" where
  "retryBusy operation [] held db = None"
| "retryBusy operation (a # as) held db =
     (case operation a db of (db', r) \<Rightarrow>
        (case error_of r of
           Some e \<Rightarrow>
             if isCommitBusy e then Some (db', r)
             else if held \<and> at_ctx a \<noteq> None then Some (db', Inl (heldAtBound (the (at_ctx a)) (Some e)))
             else if \<not> isBusy e then Some (db', r)
             else (case at_pause a of
                 Some c \<Rightarrow> Some (db', Inl (heldAtBound c (Some e)))
               | None \<Rightarrow> retryBusy operation as True db')
         | None \<Rightarrow>
             if held \<and> at_ctx a \<noteq> None then Some (db', Inl (heldAtBound (the (at_ctx a)) None))
             else Some (db', r)))"

subsection \<open>Opening\<close>

text \<open>\<open>^[a-z0-9][a-z0-9-]{0,62}$\<close>\<close>

definition index_name :: "string \<Rightarrow> bool" where
  "index_name s = (case s of [] \<Rightarrow> False
     | c # cs \<Rightarrow> (is_lower c \<or> is_digit c) \<and> length cs \<le> 62 \<and> list_all (\<lambda>c. is_lower c \<or> is_digit c \<or> c = CHR ''-'') cs)"

definition index_path :: "string \<Rightarrow> string \<Rightarrow> string option" where
  "index_path dir collection = (if index_name collection then Some (path_Join [dir, collection @ ''.db'']) else None)"

text \<open>The file an index is kept in, as \<open>Stat\<close> answers it: its mode and its owner.\<close>

datatype file_stat = Absent | StatFailed string | Present nat int

record owner_env =
  ow_stat :: file_stat
  ow_create :: "string option"
  ow_raced :: "file_stat option"
  ow_uid :: int
  ow_chmod :: "string option"
  ow_writable :: "string option"

datatype private_error = PrivateFault string | NotOurs int nat | NotWritable int string

definition wide_mode :: "nat \<Rightarrow> bool" where "wide_mode mode \<longleftrightarrow> mode mod 512 \<noteq> and (mode mod 512) 384"

definition private_present :: "owner_env \<Rightarrow> nat \<Rightarrow> int \<Rightarrow> (private_error, nat) result" where
  "private_present env mode owner =
     (if wide_mode mode \<and> owner \<noteq> ow_uid env then Inl (NotOurs owner (mode mod 512))
      else case (if wide_mode mode then ow_chmod env else None) of
        Some e \<Rightarrow> Inl (PrivateFault e)
      | None \<Rightarrow> (case ow_writable env of
            Some e \<Rightarrow> Inl (NotWritable owner e)
          | None \<Rightarrow> Inr (if wide_mode mode then 384 else mode mod 512)))"

text \<open>\<open>private\<close> answers the mode the file has afterwards.\<close>

definition private_file :: "owner_env \<Rightarrow> (private_error, nat) result" where
  "private_file env =
     (case ow_stat env of
        Present mode owner \<Rightarrow> private_present env mode owner
      | StatFailed e \<Rightarrow> Inl (PrivateFault e)
      | Absent \<Rightarrow> (case ow_create env of
            None \<Rightarrow> Inr 384
          | Some e \<Rightarrow> (case ow_raced env of
                None \<Rightarrow> Inl (PrivateFault e)
              | Some (Present mode owner) \<Rightarrow> private_present env mode owner
              | Some (StatFailed f) \<Rightarrow> Inl (PrivateFault f)
              | Some Absent \<Rightarrow> Inl (PrivateFault ''file does not exist''))))"

subsection \<open>Walking\<close>

definition MaxDocumentBytes :: nat where "MaxDocumentBytes = 1048576"
definition ReasonSymlink :: string where "ReasonSymlink = ''symbolic link, not followed''"
definition ReasonTooLarge :: string where "ReasonTooLarge = ''larger than 1 MiB''"
definition ReasonNotText :: string where "ReasonNotText = ''not text''"
definition ReasonNotRegular :: string where "ReasonNotRegular = ''not a regular file''"

record skipped =
  sk_Source :: string
  sk_Reason :: string

record walk =
  w_Documents :: "document list"
  w_Skipped :: "skipped list"
  w_root :: string
  w_held :: "string gomap option"
  w_passages :: "string \<Rightarrow> string \<Rightarrow> passage list"

datatype entry_kind = Symlink | Directory | Regular nat | Irregular

text \<open>
  An entry as the walk meets it: its path under the root, what visiting it failed with, the context, what
  \<open>Info\<close> answered and what reading its bytes answered.
\<close>

record dir_entry =
  de_path :: string
  de_visit :: "string option"
  de_ctx :: "ctx_end option"
  de_kind :: "(string, entry_kind) result"
  de_bytes :: "(string, string) result"

text \<open>\<open>readDocument\<close>: at most one byte past the bound is read, and a file past it is refused.\<close>

definition errGrew :: string where "errGrew = ''it grew past the document bound while it was read''"

definition readDocument :: "(string, string) result \<Rightarrow> (string, string) result" where
  "readDocument file = (case file of
     Inl e \<Rightarrow> Inl e
   | Inr bytes \<Rightarrow> if length (take (MaxDocumentBytes + 1) bytes) > MaxDocumentBytes then Inl errGrew else Inr (take (MaxDocumentBytes + 1) bytes))"

definition walk_skip :: "string \<Rightarrow> string \<Rightarrow> walk \<Rightarrow> walk" where
  "walk_skip source reason w = w\<lparr>w_Skipped := w_Skipped w @ [\<lparr>sk_Source = source, sk_Reason = reason\<rparr>]\<rparr>"

definition walk_entry :: "(string \<Rightarrow> string) \<Rightarrow> dir_entry \<Rightarrow> walk \<Rightarrow> (ix_error, walk) result" where
  "walk_entry sha e w =
     (case de_visit e of Some f \<Rightarrow> Inl (ReadFailed (de_path e) f)
      | None \<Rightarrow> (case de_ctx e of Some c \<Rightarrow> Inl (ContextEnded c)
      | None \<Rightarrow> (case de_kind e of
            Inl f \<Rightarrow> Inl (ReadFailed (de_path e) f)
          | Inr Symlink \<Rightarrow> Inr (walk_skip (de_path e) ReasonSymlink w)
          | Inr Directory \<Rightarrow> Inr w
          | Inr Irregular \<Rightarrow> Inr (walk_skip (de_path e) ReasonNotRegular w)
          | Inr (Regular bytes) \<Rightarrow>
              if bytes > MaxDocumentBytes then Inr (walk_skip (de_path e) ReasonTooLarge w)
              else (case readDocument (de_bytes e) of
                  Inl f \<Rightarrow> Inl (ReadFailed (de_path e) f)
                | Inr content \<Rightarrow>
                    if CHR 0x00 \<in> set content \<or> \<not> utf8_valid content then Inr (walk_skip (de_path e) ReasonNotText w)
                    else Inr (w\<lparr>w_Documents := w_Documents w @
                      [\<lparr>do_Source = de_path e, do_Digest = sha content, do_Bytes = length content\<rparr>]\<rparr>)))))"

fun walk_entries :: "(string \<Rightarrow> string) \<Rightarrow> dir_entry list \<Rightarrow> walk \<Rightarrow> (ix_error, walk) result" where
  "walk_entries sha [] w = Inr w"
| "walk_entries sha (e # es) w = (case walk_entry sha e w of Inl f \<Rightarrow> Inl f | Inr w' \<Rightarrow> walk_entries sha es w')"

text \<open>
  The directory of a collection, resolved: its root, or why it cannot be walked, and the entries under
  it in the order \<open>WalkDir\<close> meets them.  A text that is valid UTF-8 is always cut (\<open>TextPassages\<close>).
\<close>

definition text_passages :: "string \<Rightarrow> string \<Rightarrow> passage list" where
  "text_passages source content = (case TextPassages source content of Some ps \<Rightarrow> ps | None \<Rightarrow> [])"

definition WalkDirectory :: "(string \<Rightarrow> string) \<Rightarrow> (string, string) result \<Rightarrow> dir_entry list \<Rightarrow> (ix_error, walk) result" where
  "WalkDirectory sha root entries = (case root of
     Inl e \<Rightarrow> Inl (IxFault e)
   | Inr r \<Rightarrow> walk_entries sha entries \<lparr>w_Documents = [], w_Skipped = [], w_root = r, w_held = None, w_passages = text_passages\<rparr>)"

definition report_passages :: "(string \<Rightarrow> json_token list) \<Rightarrow> string \<Rightarrow> string \<Rightarrow> passage list" where
  "report_passages tokens source content = (case ReportPassages tokens source content of Some ps \<Rightarrow> ps | None \<Rightarrow> [])"

definition reportsWalkOf :: "(string \<Rightarrow> string) \<Rightarrow> (string \<Rightarrow> json_token list) \<Rightarrow> (string \<times> string) list \<Rightarrow> walk" where
  "reportsWalkOf sha tokens reports =
     \<lparr>w_Documents = map (\<lambda>(source, content). \<lparr>do_Source = source, do_Digest = sha content, do_Bytes = length content\<rparr>) reports,
      w_Skipped = [], w_root = [], w_held = Some (fold (\<lambda>(source, content) m. map_set source content m) reports []),
      w_passages = report_passages tokens\<rparr>"

definition ReportsWalk ::
  "(string \<Rightarrow> string) \<Rightarrow> (string \<Rightarrow> json_token list) \<Rightarrow> (ix_error, (string \<times> string) list) result \<Rightarrow> (ix_error, walk) result" where
  "ReportsWalk sha tokens fetched = (case fetched of Inl e \<Rightarrow> Inl e | Inr reports \<Rightarrow> Inr (reportsWalkOf sha tokens reports))"

definition contentOf :: "(string \<Rightarrow> string) \<Rightarrow> (string \<Rightarrow> (string, string) result) \<Rightarrow> walk \<Rightarrow> document \<Rightarrow> (ix_error, string) result" where
  "contentOf sha files w d = (case w_held w of
     Some held \<Rightarrow> (case map_of held (do_Source d) of
         None \<Rightarrow> Inl (NotAmongDocuments (do_Source d))
       | Some content \<Rightarrow> if sha content \<noteq> do_Digest d then Inl (DocumentChanged (do_Source d)) else Inr content)
   | None \<Rightarrow>
       if w_root w = [] then Inl NoRoot
       else (case readDocument (files (path_Join [w_root w, do_Source d])) of
           Inl e \<Rightarrow> Inl (ReadFailed (do_Source d) e)
         | Inr content \<Rightarrow> if sha content \<noteq> do_Digest d then Inl (DocumentChanged (do_Source d)) else Inr content))"

subsection \<open>Reading what is stored\<close>

record stored =
  so_Generation :: generation
  so_Documents :: "document list"

definition readGeneration :: "index_db \<Rightarrow> generation" where
  "readGeneration db = (case ix_generation db of None \<Rightarrow> no_generation | Some g \<Rightarrow> g)"

definition readStored :: "attempt \<Rightarrow> index_db \<Rightarrow> index_db \<times> (ix_error, stored) result" where
  "readStored a db0 = (let db = at_others a db0 in (db,
     case at_begin a of Some e \<Rightarrow> Inl (beginFailure (at_ctx a) e)
     | None \<Rightarrow> (case at_first a of Some e \<Rightarrow> Inl (beginFailure (at_ctx a) e)
     | None \<Rightarrow> (case at_statement a of Some e \<Rightarrow> Inl e
     | None \<Rightarrow> Inr \<lparr>so_Generation = readGeneration db, so_Documents = sort_key do_Source (ix_documents db)\<rparr>))))"

text \<open>
  Listing a collection reads the index it has, if any: \<open>stat\<close> is what \<open>os.Stat\<close> answers for the file and
  \<open>opened\<close> why the database did not open.  The second component says whether an index exists.
\<close>

datatype open_error =
    BadCollectionName | CreatingDirectory string | NotPrivate private_error | OpeningDatabase string | IndexFailed ix_error

definition no_stored :: stored where "no_stored = \<lparr>so_Generation = no_generation, so_Documents = []\<rparr>"

definition ReadStored ::
  "string \<Rightarrow> string \<Rightarrow> (string \<Rightarrow> file_stat) \<Rightarrow> string option \<Rightarrow> attempt list \<Rightarrow> index_db \<Rightarrow>
     (index_db \<times> bool \<times> (open_error, stored) result) option" where
  "ReadStored dir collection stat opened as db =
     (case index_path dir collection of
        None \<Rightarrow> Some (db, False, Inl BadCollectionName)
      | Some file \<Rightarrow>
          if stat file = Absent then Some (db, False, Inr no_stored)
          else (case opened of
              Some e \<Rightarrow> Some (db, False, Inl (OpeningDatabase e))
            | None \<Rightarrow> map_option (\<lambda>(db', r). (db', True, case r of Inl e \<Rightarrow> Inl (IndexFailed e) | Inr st \<Rightarrow> Inr st))
                (retryBusy readStored as False db)))"

text \<open>
  Opening creates the directory, makes the file private and runs the schema, which creates what is missing
  and changes no row; the open index carries the identity of its configuration and its file the mode
  \<open>private\<close> left it with.
\<close>

definition run_schema :: "attempt \<Rightarrow> index_db \<Rightarrow> index_db \<times> (ix_error, unit) result" where
  "run_schema a db0 = (let db = at_others a db0 in (db, case at_statement a of Some e \<Rightarrow> Inl e | None \<Rightarrow> Inr ()))"

definition index_Open ::
  "(string \<Rightarrow> string) \<Rightarrow> (string \<Rightarrow> string) \<Rightarrow> string \<Rightarrow> string \<Rightarrow> configuration \<Rightarrow> string option \<Rightarrow> (string \<Rightarrow> owner_env) \<Rightarrow> string option \<Rightarrow>
     attempt list \<Rightarrow> index_db \<Rightarrow> (index_db \<times> (open_error, string \<times> nat) result) option" where
  "index_Open sha quote dir collection cfg mkdir owner opened as db =
     (case index_path dir collection of
        None \<Rightarrow> Some (db, Inl BadCollectionName)
      | Some file \<Rightarrow> (case mkdir of
          Some e \<Rightarrow> Some (db, Inl (CreatingDirectory e))
        | None \<Rightarrow> (case private_file (owner file) of
            Inl e \<Rightarrow> Some (db, Inl (NotPrivate e))
          | Inr mode \<Rightarrow> (case opened of
              Some e \<Rightarrow> Some (db, Inl (OpeningDatabase e))
            | None \<Rightarrow> map_option (\<lambda>(db', r). (db', case r of Inl e \<Rightarrow> Inl (IndexFailed e) | Inr _ \<Rightarrow> Inr (index_Identity sha quote cfg, mode)))
                (retryBusy run_schema as False db)))))"

record comparison =
  cp_Target :: string
  cp_Changed :: bool
  cp_Added :: nat
  cp_Modified :: nat
  cp_Removed :: "string list"
  cp_marks :: "string gomap"
  cp_indexed :: bool

definition Mark :: "comparison \<Rightarrow> string \<Rightarrow> string" where
  "Mark c source = (if \<not> cp_indexed c then ''not indexed'' else case map_of (cp_marks c) source of None \<Rightarrow> [] | Some m \<Rightarrow> m)"

definition held_digests :: "document list \<Rightarrow> string gomap" where
  "held_digests ds = fold (\<lambda>d m. map_set (do_Source d) (do_Digest d) m) ds []"

definition compare_one :: "string gomap \<Rightarrow> document \<Rightarrow> comparison \<Rightarrow> comparison" where
  "compare_one held d c = (case map_of held (do_Source d) of
     None \<Rightarrow> c\<lparr>cp_marks := map_set (do_Source d) ''added'' (cp_marks c), cp_Added := cp_Added c + 1\<rparr>
   | Some digest \<Rightarrow>
       if digest \<noteq> do_Digest d then c\<lparr>cp_marks := map_set (do_Source d) ''changed'' (cp_marks c), cp_Modified := cp_Modified c + 1\<rparr>
       else c\<lparr>cp_marks := map_set (do_Source d) ''unchanged'' (cp_marks c)\<rparr>)"

definition Compare :: "(string \<Rightarrow> string) \<Rightarrow> string \<Rightarrow> stored \<Rightarrow> walk \<Rightarrow> comparison" where
  "Compare sha identity st w =
     (let target = GenerationOf sha identity (w_Documents w);
          held = (if gn_Identity (so_Generation st) = identity then held_digests (so_Documents st) else []);
          c = fold (compare_one held) (w_Documents w)
            \<lparr>cp_Target = target, cp_Changed = (target \<noteq> gn_ID (so_Generation st)), cp_Added = 0, cp_Modified = 0, cp_Removed = [],
             cp_marks = [], cp_indexed = (gn_ID (so_Generation st) \<noteq> [])\<rparr>;
          gone = filter (\<lambda>d. do_Source d \<notin> do_Source ` set (w_Documents w) \<or> gn_Identity (so_Generation st) \<noteq> identity) (so_Documents st)
      in c\<lparr>cp_Removed := map do_Source gone\<rparr>)"

subsection \<open>Updating\<close>

definition maxRewalks :: nat where "maxRewalks = 10"

record change =
  ch_everything :: bool
  ch_remove :: "string list"
  ch_add :: "document list"

fun diff_walk :: "string gomap \<Rightarrow> document list \<Rightarrow> change \<Rightarrow> change" where
  "diff_walk held [] c = c"
| "diff_walk held (d # ds) c = diff_walk held ds (case map_of held (do_Source d) of
     None \<Rightarrow> c\<lparr>ch_add := ch_add c @ [d]\<rparr>
   | Some digest \<Rightarrow> if digest \<noteq> do_Digest d then c\<lparr>ch_remove := ch_remove c @ [do_Source d], ch_add := ch_add c @ [d]\<rparr> else c)"

definition difference :: "string \<Rightarrow> stored \<Rightarrow> walk \<Rightarrow> bool \<Rightarrow> change" where
  "difference identity read w rebuild =
     (if rebuild \<or> gn_Identity (so_Generation read) \<noteq> identity then \<lparr>ch_everything = True, ch_remove = [], ch_add = w_Documents w\<rparr>
      else let c = diff_walk (held_digests (so_Documents read)) (w_Documents w) \<lparr>ch_everything = False, ch_remove = [], ch_add = []\<rparr>
        in c\<lparr>ch_remove := ch_remove c @ map do_Source (filter (\<lambda>d. do_Source d \<notin> do_Source ` set (w_Documents w)) (so_Documents read))\<rparr>)"

definition delete_source :: "string \<Rightarrow> index_db \<Rightarrow> index_db" where
  "delete_source source db = db\<lparr>ix_passages := filter (\<lambda>p. ps_Source p \<noteq> source) (ix_passages db),
     ix_documents := filter (\<lambda>d. do_Source d \<noteq> source) (ix_documents db)\<rparr>"

fun add_documents ::
  "(string \<Rightarrow> string) \<Rightarrow> (string \<Rightarrow> (string, string) result) \<Rightarrow> walk \<Rightarrow> document list \<Rightarrow> index_db \<Rightarrow> (ix_error, index_db) result" where
  "add_documents sha files w [] db = Inr db"
| "add_documents sha files w (d # ds) db = (case contentOf sha files w d of
     Inl e \<Rightarrow> Inl e
   | Inr content \<Rightarrow>
       if do_Source d \<in> do_Source ` set (ix_documents db) then Inl (DuplicateDocument (do_Source d))
       else add_documents sha files w ds (db\<lparr>ix_documents := ix_documents db @ [d],
         ix_passages := ix_passages db @ w_passages w (do_Source d) content\<rparr>))"

definition change_apply ::
  "(string \<Rightarrow> string) \<Rightarrow> (string \<Rightarrow> (string, string) result) \<Rightarrow> walk \<Rightarrow> change \<Rightarrow> index_db \<Rightarrow> (ix_error, index_db) result" where
  "change_apply sha files w c db =
     (let db1 = (if ch_everything c then db\<lparr>ix_passages := [], ix_documents := []\<rparr> else db)
      in add_documents sha files w (ch_add c) (fold delete_source (ch_remove c) db1))"

text \<open>
  One write transaction.  \<open>changed\<close> is the file the attempt before found changed; \<open>settled\<close> clears it
  once every document the transaction adds was read unchanged, whatever becomes of the transaction.
\<close>

definition index_commit ::
  "(string \<Rightarrow> string) \<Rightarrow> string \<Rightarrow> string \<Rightarrow> walk \<Rightarrow> change \<Rightarrow> string \<Rightarrow> attempt \<Rightarrow> index_db \<times> ix_error option \<Rightarrow>
   (index_db \<times> ix_error option) \<times> (ix_error, generation) result" where
  "index_commit sha identity readID w diff target a st =
     (let db = at_others a (fst st); changed = snd st in
      case at_begin a of Some e \<Rightarrow> ((db, changed), Inl (BeginFailed e))
      | None \<Rightarrow> (case at_first a of Some e \<Rightarrow> ((db, changed), Inl e)
      | None \<Rightarrow>
          if gn_ID (readGeneration db) \<noteq> readID then ((db, changed), Inl Moved)
          else (case change_apply sha (at_files a) w diff db of
              Inl e \<Rightarrow> ((db, changed), Inl e)
            | Inr db' \<Rightarrow> (case at_statement a of Some e \<Rightarrow> ((db, None), Inl e)
            | None \<Rightarrow>
                let g = \<lparr>gn_ID = target, gn_Identity = identity, gn_BuiltAt = at_now a\<rparr> in
                (case at_commit a of
                   Some e \<Rightarrow> ((db, None), Inl (if isBusy e then CommitBusy e else e))
                 | None \<Rightarrow> ((db'\<lparr>ix_generation := Some g\<rparr>, None), Inr g))))))"

text \<open>
  What one round of the loop meets: the context at its start and when it fails, the attempts of its read
  and of its write, and the walk that follows a file that changed.
\<close>

record write_round =
  wr_ctx :: "ctx_end option"
  wr_reads :: "attempt list"
  wr_commits :: "attempt list"
  wr_rewalk :: "(ix_error, walk) result"
  wr_after :: "ctx_end option"

fun isHeld :: "ix_error \<Rightarrow> bool" where
  "isHeld (IndexHeld c e) = True"
| "isHeld e = False"

definition write_fail :: "ctx_end option \<Rightarrow> ix_error option \<Rightarrow> ix_error \<Rightarrow> ix_error" where
  "write_fail ctx changed e = (case changed of
     Some ch \<Rightarrow> if ctx \<noteq> None \<and> \<not> isHeld e then AlsoChanged e ch else e
   | None \<Rightarrow> e)"

fun isChanged :: "ix_error \<Rightarrow> bool" where
  "isChanged (DocumentChanged s) = True"
| "isChanged (AtBound c (Some e)) = isChanged e"
| "isChanged e = False"

fun isMoved :: "ix_error \<Rightarrow> bool" where
  "isMoved Moved = True"
| "isMoved (AtBound c (Some e)) = isMoved e"
| "isMoved e = False"

text \<open>\<open>bounded\<close> says whether the caller's context has a deadline.\<close>

fun index_write ::
  "(string \<Rightarrow> string) \<Rightarrow> string \<Rightarrow> bool \<Rightarrow> bool \<Rightarrow> write_round list \<Rightarrow> nat \<Rightarrow> walk \<Rightarrow> index_db \<times> ix_error option \<Rightarrow>
   (index_db \<times> (ix_error, generation) result) option" where
  "index_write sha identity bounded rebuild [] rewalks w st = None"
| "index_write sha identity bounded rebuild (r # rs) rewalks w st =
     (case wr_ctx r of
        Some c \<Rightarrow> Some (fst st, Inl (write_fail (Some c) (snd st) (ContextEnded c)))
      | None \<Rightarrow>
          let target = GenerationOf sha identity (w_Documents w) in
          (case retryBusy readStored (wr_reads r) False (fst st) of
             None \<Rightarrow> None
           | Some (db, Inl e) \<Rightarrow> Some (db, Inl (write_fail (wr_after r) (snd st) e))
           | Some (db, Inr read) \<Rightarrow>
               if \<not> rebuild \<and> gn_ID (so_Generation read) = target then Some (db, Inr (so_Generation read))
               else (case retryBusy (index_commit sha identity (gn_ID (so_Generation read)) w (difference identity read w rebuild) target)
                       (wr_commits r) False (db, snd st) of
                   None \<Rightarrow> None
                 | Some ((db', changed), Inr g) \<Rightarrow> Some (db', Inr g)
                 | Some ((db', changed), Inl e) \<Rightarrow>
                     if isChanged e then
                       if \<not> bounded \<and> rewalks + 1 \<ge> maxRewalks then Some (db', Inl (ChangedEachTime e (rewalks + 1)))
                       else (case wr_rewalk r of
                           Inl f \<Rightarrow> Some (db', Inl (write_fail (wr_after r) (Some e) f))
                         | Inr w' \<Rightarrow> index_write sha identity bounded rebuild rs (rewalks + 1) w' (db', Some e))
                     else if isMoved e then index_write sha identity bounded rebuild rs rewalks w (db', changed)
                     else Some (db', Inl (write_fail (wr_after r) changed e)))))"

definition index_Update ::
  "(string \<Rightarrow> string) \<Rightarrow> string \<Rightarrow> bool \<Rightarrow> write_round list \<Rightarrow> walk \<Rightarrow> index_db \<Rightarrow> (index_db \<times> (ix_error, generation) result) option" where
  "index_Update sha identity bounded rounds w db = index_write sha identity bounded False rounds 0 w (db, None)"

definition index_Rebuild ::
  "(string \<Rightarrow> string) \<Rightarrow> string \<Rightarrow> bool \<Rightarrow> write_round list \<Rightarrow> walk \<Rightarrow> index_db \<Rightarrow> (index_db \<times> (ix_error, generation) result) option" where
  "index_Rebuild sha identity bounded rounds w db = index_write sha identity bounded True rounds 0 w (db, None)"

subsection \<open>Searching\<close>

text \<open>
  The runes of a string, and its words: the runs of runes \<open>indexed\<close>, which stands for Go's Unicode
  tables, keeps.  A quote is doubled inside a quoted word.
\<close>

fun runes_from :: "nat \<Rightarrow> string \<Rightarrow> string list" where
  "runes_from k [] = []"
| "runes_from (Suc k) (c # cs) = runes_from k cs"
| "runes_from 0 (c # cs) = take (rune_size (c # cs)) (c # cs) # runes_from (rune_size (c # cs) - 1) cs"

fun fields_func :: "(string \<Rightarrow> bool) \<Rightarrow> string list \<Rightarrow> string \<Rightarrow> string list" where
  "fields_func keep [] word = (if word = [] then [] else [word])"
| "fields_func keep (r # rs) word =
     (if keep r then fields_func keep rs (word @ r)
      else if word = [] then fields_func keep rs [] else word # fields_func keep rs [])"

definition double_quotes :: "string \<Rightarrow> string" where
  "double_quotes s = concat (map (\<lambda>c. if c = CHR 0x22 then [CHR 0x22, CHR 0x22] else [c]) s)"

definition plainQuery :: "(string \<Rightarrow> bool) \<Rightarrow> string \<Rightarrow> string" where
  "plainQuery indexed query = str_join (map (\<lambda>word. [CHR 0x22] @ double_quotes word @ [CHR 0x22]) (fields_func indexed (runes_from 0 query) [])) '' OR ''"

definition Searchable :: "(string \<Rightarrow> bool) \<Rightarrow> string \<Rightarrow> bool" where
  "Searchable indexed query \<longleftrightarrow> plainQuery indexed query \<noteq> []"

record hit =
  ht_Passage :: passage
  ht_Score :: int

datatype 'a found = NoWords generation | Found generation "'a list"

text \<open>
  The ranking is a parameter: the score FTS5 gives a passage for a query it matches, a lower one the
  better, in a fixed-point scale.  The rows are ordered by score, source and ordinal, and limited.
\<close>

definition hit_rank :: "hit \<Rightarrow> int \<times> string \<times> nat" where
  "hit_rank h = (ht_Score h, ps_Source (ht_Passage h), ps_Ordinal (ht_Passage h))"

definition search_rows :: "(string \<Rightarrow> passage \<Rightarrow> int option) \<Rightarrow> string \<Rightarrow> index_db \<Rightarrow> hit list" where
  "search_rows bm25 match db =
     sort_key hit_rank
       (List.map_filter (\<lambda>p. map_option (\<lambda>s. \<lparr>ht_Passage = p, ht_Score = s\<rparr>) (bm25 match p)) (ix_passages db))"

definition index_search ::
  "(string \<Rightarrow> bool) \<Rightarrow> (string \<Rightarrow> passage \<Rightarrow> int option) \<Rightarrow> string \<Rightarrow> nat \<Rightarrow> attempt \<Rightarrow> index_db \<Rightarrow> index_db \<times> (ix_error, hit found) result" where
  "index_search indexed bm25 query limit a db0 = (let db = at_others a db0 in (db,
     case at_begin a of Some e \<Rightarrow> Inl (beginFailure (at_ctx a) e)
     | None \<Rightarrow> (case at_first a of Some e \<Rightarrow> Inl (beginFailure (at_ctx a) e)
     | None \<Rightarrow> if \<not> Searchable indexed query then Inr (NoWords (readGeneration db))
       else (case at_statement a of Some e \<Rightarrow> Inl e
       | None \<Rightarrow> Inr (Found (readGeneration db) (take limit (search_rows bm25 (plainQuery indexed query) db)))))))"

definition index_Search ::
  "(string \<Rightarrow> bool) \<Rightarrow> (string \<Rightarrow> passage \<Rightarrow> int option) \<Rightarrow> string \<Rightarrow> nat \<Rightarrow> attempt list \<Rightarrow> index_db \<Rightarrow>
   (index_db \<times> (ix_error, hit found) result) option" where
  "index_Search indexed bm25 query limit as db = retryBusy (index_search indexed bm25 query limit) as False db"


subsection \<open>A generation names its documents\<close>

text \<open>What is asked of SHA-256, in hexadecimal: no two inputs in hand collide, and a digest is not empty and holds no line break.\<close>

definition collision_free :: "(string \<Rightarrow> string) \<Rightarrow> bool" where
  "collision_free sha \<longleftrightarrow> inj sha \<and> (\<forall>s. sha s \<noteq> [] \<and> CHR 0x0A \<notin> set (sha s))"

definition pair_ok :: "string \<times> string \<Rightarrow> bool" where
  "pair_ok p \<longleftrightarrow> CHR 0x00 \<notin> set (fst p) \<and> CHR 0x0A \<notin> set (snd p)"

lemma digest_then_text:
  assumes "CHR 0x0A \<notin> set d" "CHR 0x0A \<notin> set d'" "d @ generation_text ps = d' @ generation_text qs"
  shows "d = d' \<and> generation_text ps = generation_text qs"
proof -
  have g: "generation_text xs = [] \<or> (\<exists>r. generation_text xs = CHR 0x0A # r)" for xs
    by (cases xs rule: generation_text.cases) simp_all
  have tw: "takeWhile (\<lambda>c. c \<noteq> CHR 0x0A) (x @ generation_text xs) = x" if "CHR 0x0A \<notin> set x" for x xs
  proof -
    have "takeWhile (\<lambda>c. c \<noteq> CHR 0x0A) (generation_text xs) = []" using g [of xs] by auto
    moreover have "takeWhile (\<lambda>c. c \<noteq> CHR 0x0A) (x @ generation_text xs) = x @ takeWhile (\<lambda>c. c \<noteq> CHR 0x0A) (generation_text xs)"
      by (rule takeWhile_append2) (use that in auto)
    ultimately show ?thesis by simp
  qed
  have "d = d'" using tw [OF assms(1)] tw [OF assms(2)] assms(3) by metis
  then show ?thesis using assms(3) by simp
qed

lemma generation_text_inj:
  "list_all pair_ok ps \<Longrightarrow> list_all pair_ok qs \<Longrightarrow> generation_text ps = generation_text qs \<Longrightarrow> ps = qs"
proof (induction ps arbitrary: qs)
  case Nil
  then show ?case by (cases qs) auto
next
  case (Cons p ps)
  obtain s d where p: "p = (s, d)" by fastforce
  obtain q qs' where qs: "qs = q # qs'" using Cons.prems(3) p by (cases qs) auto
  obtain s' d' where q: "q = (s', d')" by fastforce
  have "s @ CHR 0x00 # (d @ generation_text ps) = s' @ CHR 0x00 # (d' @ generation_text qs')" using Cons.prems(3) p qs q by simp
  moreover have "CHR 0x00 \<notin> set s" "CHR 0x00 \<notin> set s'" using Cons.prems(1,2) p qs q by (simp_all add: pair_ok_def)
  ultimately have "s = s'" "d @ generation_text ps = d' @ generation_text qs'" by (metis append_Cons_unique)+
  moreover from digest_then_text [OF _ _ this(2)] have "d = d'" "generation_text ps = generation_text qs'"
    using Cons.prems(1,2) p qs q by (auto simp: pair_ok_def)
  ultimately show ?case using Cons p qs q by simp
qed

lemma generationOfPairs_inj:
  assumes "collision_free sha" "CHR 0x0A \<notin> set i" "CHR 0x0A \<notin> set j" "list_all pair_ok ps" "list_all pair_ok qs"
    "generationOfPairs sha i ps = generationOfPairs sha j qs"
  shows "i = j \<and> set ps = set qs"
proof -
  have "i @ generation_text (sort_key fst ps) = j @ generation_text (sort_key fst qs)"
    using assms(1,6) by (simp add: generationOfPairs_def collision_free_def inj_eq)
  from digest_then_text [OF assms(2,3) this] have i: "i = j" and t: "generation_text (sort_key fst ps) = generation_text (sort_key fst qs)" by auto
  have "sort_key fst ps = sort_key fst qs" by (rule generation_text_inj [OF _ _ t]) (use assms(4,5) in \<open>simp_all add: list_all_iff\<close>)
  then show ?thesis using i by (metis set_sort)
qed

lemma generationOfPairs_cong:
  assumes "set ps = set qs" "distinct (map fst ps)" "distinct (map fst qs)"
  shows "generationOfPairs sha i ps = generationOfPairs sha i qs"
proof -
  have "inj_on fst (set ps \<union> set qs)" using assms by (metis Un_absorb distinct_map)
  then have "sort_key fst ps = sort_key fst qs"
    using assms by (intro map_sorted_distinct_set_unique [of fst]) (simp_all add: distinct_map)
  then show ?thesis by (simp add: generationOfPairs_def)
qed

subsection \<open>The state of an index\<close>

text \<open>
  What every committed state satisfies: each document's passages are those cut from a content that has
  its digest, no passage is of any other source, and the generation is the one of these documents.
\<close>

definition index_ok :: "(string \<Rightarrow> string) \<Rightarrow> (string \<Rightarrow> string \<Rightarrow> passage list) \<Rightarrow> index_db \<Rightarrow> bool" where
  "index_ok sha cutter db \<longleftrightarrow>
     distinct (map do_Source (ix_documents db)) \<and>
     (\<forall>d \<in> set (ix_documents db). CHR 0x00 \<notin> set (do_Source d) \<and>
        (\<exists>content. do_Digest d = sha content \<and> {p \<in> set (ix_passages db). ps_Source p = do_Source d} = set (cutter (do_Source d) content))) \<and>
     ps_Source ` set (ix_passages db) \<subseteq> do_Source ` set (ix_documents db) \<and>
     (case ix_generation db of None \<Rightarrow> ix_documents db = []
      | Some g \<Rightarrow> gn_ID g = GenerationOf sha (gn_Identity g) (ix_documents db) \<and> gn_Identity g \<in> range sha)"

definition cutter_ok :: "(string \<Rightarrow> string \<Rightarrow> passage list) \<Rightarrow> bool" where
  "cutter_ok cutter \<longleftrightarrow> (\<forall>source content. \<forall>p \<in> set (cutter source content). ps_Source p = source)"

definition walk_ok :: "(string \<Rightarrow> string) \<Rightarrow> (string \<Rightarrow> string \<Rightarrow> passage list) \<Rightarrow> walk \<Rightarrow> bool" where
  "walk_ok sha cutter w \<longleftrightarrow> w_passages w = cutter \<and> distinct (map do_Source (w_Documents w)) \<and>
     (\<forall>d \<in> set (w_Documents w). CHR 0x00 \<notin> set (do_Source d) \<and> do_Digest d \<in> range sha)"

lemma index_pairs_ok:
  assumes "collision_free sha" "index_ok sha cutter db"
  shows "list_all pair_ok (map pair_of (ix_documents db))"
  using assms by (auto simp: list_all_iff pair_ok_def index_ok_def collision_free_def)

text \<open>Two states under the same generation hold the same documents, and then the same passages.\<close>

lemma same_documents:
  assumes "collision_free sha" "index_ok sha cutter a" "index_ok sha cutter b" "gn_ID (readGeneration a) = gn_ID (readGeneration b)"
  shows "pair_of ` set (ix_documents a) = pair_of ` set (ix_documents b) \<and> gn_Identity (readGeneration a) = gn_Identity (readGeneration b)"
proof -
  have ne: "GenerationOf sha i ds \<noteq> []" "[] \<noteq> GenerationOf sha i ds" for i ds
    using assms(1) by (auto simp: GenerationOf_def generationOfPairs_def collision_free_def dest: sym)
  show ?thesis
  proof (cases "ix_generation a")
    case None
    then have "ix_generation b = None" using assms(3,4) ne by (auto simp: readGeneration_def no_generation_def index_ok_def split: option.splits)
    then show ?thesis using None assms(2,3) by (simp add: index_ok_def readGeneration_def)
  next
    case (Some g)
    then obtain h where h: "ix_generation b = Some h"
      using assms(2,4) ne by (cases "ix_generation b") (auto simp: readGeneration_def no_generation_def index_ok_def)
    have nl: "CHR 0x0A \<notin> set (gn_Identity g)" "CHR 0x0A \<notin> set (gn_Identity h)"
      using assms(1-3) Some h by (auto simp: index_ok_def collision_free_def)
    have "generationOfPairs sha (gn_Identity g) (map pair_of (ix_documents a)) = generationOfPairs sha (gn_Identity h) (map pair_of (ix_documents b))"
      using assms(2-4) Some h by (simp add: index_ok_def readGeneration_def GenerationOf_def)
    from generationOfPairs_inj [OF assms(1) nl index_pairs_ok [OF assms(1,2)] index_pairs_ok [OF assms(1,3)] this]
    show ?thesis using Some h by (simp add: readGeneration_def)
  qed
qed

lemma same_passages:
  assumes "collision_free sha" "index_ok sha cutter a" "index_ok sha cutter b" "pair_of ` set (ix_documents a) \<subseteq> pair_of ` set (ix_documents b)"
  shows "set (ix_passages a) \<subseteq> set (ix_passages b)"
proof
  fix p
  assume p: "p \<in> set (ix_passages a)"
  then obtain d where d: "d \<in> set (ix_documents a)" "ps_Source p = do_Source d" using assms(2) by (auto simp: index_ok_def)
  then obtain content where c: "do_Digest d = sha content" "{p \<in> set (ix_passages a). ps_Source p = do_Source d} = set (cutter (do_Source d) content)"
    using assms(2) unfolding index_ok_def by blast
  have "pair_of d \<in> pair_of ` set (ix_documents b)" using d(1) assms(4) by blast
  then obtain e where e: "e \<in> set (ix_documents b)" "do_Source e = do_Source d" "do_Digest e = do_Digest d" by auto
  then obtain content' where c': "do_Digest e = sha content'" "{p \<in> set (ix_passages b). ps_Source p = do_Source e} = set (cutter (do_Source e) content')"
    using assms(3) unfolding index_ok_def by blast
  have "content = content'" using c(1) c'(1) e(3) assms(1) by (metis collision_free_def injD)
  then have "{p \<in> set (ix_passages b). ps_Source p = do_Source d} = {p \<in> set (ix_passages a). ps_Source p = do_Source d}"
    using c(2) c'(2) e(2) by simp
  then show "p \<in> set (ix_passages b)" using p d(2) by blast
qed


subsection \<open>A write keeps the state\<close>

definition content_ok :: "(string \<Rightarrow> string) \<Rightarrow> (string \<Rightarrow> string \<Rightarrow> passage list) \<Rightarrow> index_db \<Rightarrow> bool" where
  "content_ok sha cutter db \<longleftrightarrow> distinct (map do_Source (ix_documents db)) \<and>
     (\<forall>d \<in> set (ix_documents db). CHR 0x00 \<notin> set (do_Source d) \<and>
        (\<exists>content. do_Digest d = sha content \<and> {p \<in> set (ix_passages db). ps_Source p = do_Source d} = set (cutter (do_Source d) content))) \<and>
     ps_Source ` set (ix_passages db) \<subseteq> do_Source ` set (ix_documents db)"

lemma index_ok_content:
  "index_ok sha cutter db \<longleftrightarrow> content_ok sha cutter db \<and> (case ix_generation db of None \<Rightarrow> ix_documents db = []
      | Some g \<Rightarrow> gn_ID g = GenerationOf sha (gn_Identity g) (ix_documents db) \<and> gn_Identity g \<in> range sha)"
  by (auto simp: index_ok_def content_ok_def)

lemma content_ok_source:
  assumes "content_ok sha cutter db" "p \<in> set (ix_passages db)"
  obtains d where "d \<in> set (ix_documents db)" "ps_Source p = do_Source d"
proof -
  have "ps_Source ` set (ix_passages db) \<subseteq> do_Source ` set (ix_documents db)" using assms(1) by (simp add: content_ok_def)
  then have "ps_Source p \<in> do_Source ` set (ix_documents db)" using assms(2) by blast
  then show thesis using that by (rule imageE)
qed

lemma content_ok_empty: "content_ok sha cutter (db\<lparr>ix_passages := [], ix_documents := []\<rparr>)"
  by (simp add: content_ok_def)

lemma content_ok_document:
  assumes "content_ok sha cutter db" "d \<in> set (ix_documents db)"
  obtains content where "CHR 0x00 \<notin> set (do_Source d)" "do_Digest d = sha content"
    "{p \<in> set (ix_passages db). ps_Source p = do_Source d} = set (cutter (do_Source d) content)"
  using assms unfolding content_ok_def by blast

lemma delete_source_ok:
  assumes "content_ok sha cutter db"
  shows "content_ok sha cutter (delete_source source db)" (is "content_ok _ _ ?db")
  unfolding content_ok_def
proof (intro conjI ballI image_subsetI)
  show "distinct (map do_Source (ix_documents ?db))" using assms by (simp add: content_ok_def delete_source_def distinct_map_filter)
next
  fix d
  assume "d \<in> set (ix_documents ?db)"
  then have d: "d \<in> set (ix_documents db)" "do_Source d \<noteq> source" by (simp_all add: delete_source_def)
  obtain content where c: "CHR 0x00 \<notin> set (do_Source d)" "do_Digest d = sha content"
    "{p \<in> set (ix_passages db). ps_Source p = do_Source d} = set (cutter (do_Source d) content)" by (rule content_ok_document [OF assms d(1)])
  show "CHR 0x00 \<notin> set (do_Source d)" by (rule c(1))
  have "{p \<in> set (ix_passages ?db). ps_Source p = do_Source d} = {p \<in> set (ix_passages db). ps_Source p = do_Source d}"
    using d(2) by (auto simp: delete_source_def)
  then show "\<exists>content. do_Digest d = sha content \<and> {p \<in> set (ix_passages ?db). ps_Source p = do_Source d} = set (cutter (do_Source d) content)"
    using c(2,3) by (metis (no_types, lifting))
next
  fix p
  assume "p \<in> set (ix_passages ?db)"
  then have p: "p \<in> set (ix_passages db)" "ps_Source p \<noteq> source" by (simp_all add: delete_source_def)
  obtain d where "d \<in> set (ix_documents db)" "ps_Source p = do_Source d" by (rule content_ok_source [OF assms p(1)])
  then show "ps_Source p \<in> do_Source ` set (ix_documents ?db)" using p(2) by (simp add: delete_source_def)
qed

lemma delete_sources:
  "content_ok sha cutter db \<Longrightarrow> content_ok sha cutter (fold delete_source ss db) \<and>
     ix_documents (fold delete_source ss db) = filter (\<lambda>d. do_Source d \<notin> set ss) (ix_documents db)"
proof (induction ss arbitrary: db)
  case (Cons s ss)
  have d: "ix_documents (delete_source s db) = filter (\<lambda>d. do_Source d \<noteq> s) (ix_documents db)" by (simp add: delete_source_def)
  have f: "filter (\<lambda>d. do_Source d \<notin> set ss) (ix_documents (delete_source s db)) = filter (\<lambda>d. do_Source d \<notin> set (s # ss)) (ix_documents db)"
    unfolding d filter_filter by (rule filter_cong) auto
  show ?case using Cons.IH [OF delete_source_ok [OF Cons.prems, of s]] unfolding f by simp
qed simp

lemma contentOf_digest: "contentOf sha files w d = Inr content \<Longrightarrow> do_Digest d = sha content"
  by (auto simp: contentOf_def split: option.splits sum.splits if_splits)

lemma add_document_ok:
  assumes "content_ok sha cutter db" "cutter_ok cutter" "CHR 0x00 \<notin> set (do_Source d)" "do_Digest d = sha content"
    "do_Source d \<notin> do_Source ` set (ix_documents db)"
  shows "content_ok sha cutter (db\<lparr>ix_documents := ix_documents db @ [d], ix_passages := ix_passages db @ cutter (do_Source d) content\<rparr>)"
proof -
  let ?new = "ix_passages db @ cutter (do_Source d) content"
  have src: "\<forall>p \<in> set (cutter (do_Source d) content). ps_Source p = do_Source d" using assms(2) by (simp add: cutter_ok_def)
  have none: "\<forall>p \<in> set (ix_passages db). ps_Source p \<noteq> do_Source d" 
  proof
    fix p
    assume "p \<in> set (ix_passages db)"
    then obtain e where "e \<in> set (ix_documents db)" "ps_Source p = do_Source e" by (rule content_ok_source [OF assms(1)])
    then show "ps_Source p \<noteq> do_Source d" using assms(5) by (metis image_eqI)
  qed
  have "{p \<in> set ?new. ps_Source p = do_Source d} = set (cutter (do_Source d) content)" using src none by auto
  moreover have "{p \<in> set ?new. ps_Source p = do_Source e} = {p \<in> set (ix_passages db). ps_Source p = do_Source e}"
    if "e \<in> set (ix_documents db)" for e using src assms(5) that by auto
  ultimately show ?thesis using assms src by (auto simp: content_ok_def)
qed

lemma add_documents_ok:
  "content_ok sha cutter db \<Longrightarrow> cutter_ok cutter \<Longrightarrow> w_passages w = cutter \<Longrightarrow> \<forall>d \<in> set ds. CHR 0x00 \<notin> set (do_Source d) \<Longrightarrow>
   add_documents sha files w ds db = Inr db' \<Longrightarrow> content_ok sha cutter db' \<and> ix_documents db' = ix_documents db @ ds"
proof (induction ds arbitrary: db)
  case (Cons d ds)
  then obtain content where c: "contentOf sha files w d = Inr content" "do_Source d \<notin> do_Source ` set (ix_documents db)"
    by (auto split: sum.splits if_splits)
  let ?db = "db\<lparr>ix_documents := ix_documents db @ [d], ix_passages := ix_passages db @ cutter (do_Source d) content\<rparr>"
  have "content_ok sha cutter ?db" using add_document_ok [OF Cons.prems(1,2) _ contentOf_digest [OF c(1)] c(2)] Cons.prems(4) by simp
  moreover have "add_documents sha files w ds ?db = Inr db'" using Cons.prems(3,5) c by simp
  ultimately show ?case using Cons.IH [of ?db] Cons.prems(2-4) by simp
qed simp

text \<open>The difference, without its loop.\<close>

lemma held_digests_map: "distinct (map do_Source ds) \<Longrightarrow> map_of (held_digests ds) s = map_of (map pair_of ds) s"
proof -
  assume d: "distinct (map do_Source ds)"
  have "map_of (fold (\<lambda>d m. map_set (do_Source d) (do_Digest d) m) ds m) s = (case map_of (map pair_of ds) s of None \<Rightarrow> map_of m s | Some x \<Rightarrow> Some x)" for m
    using d
  proof (induction ds arbitrary: m)
    case (Cons d ds)
    have "map_of (map pair_of ds) (do_Source d) = None" using Cons.prems by (auto simp: map_of_eq_None_iff)
    then show ?case using Cons by (auto split: option.splits)
  qed simp
  then show ?thesis by (simp add: held_digests_def split: option.splits)
qed

lemma diff_walk_spec:
  "diff_walk held ds c = c\<lparr>ch_remove := ch_remove c @ map do_Source (filter (\<lambda>d. map_of held (do_Source d) \<noteq> None \<and> map_of held (do_Source d) \<noteq> Some (do_Digest d)) ds),
     ch_add := ch_add c @ filter (\<lambda>d. map_of held (do_Source d) \<noteq> Some (do_Digest d)) ds\<rparr>"
  by (induction ds arbitrary: c) (auto split: option.splits)

lemma held_pair: "distinct (map do_Source ds) \<Longrightarrow> map_of (held_digests ds) s = Some x \<longleftrightarrow> (s, x) \<in> pair_of ` set ds"
  unfolding held_digests_map by (subst map_of_eq_Some_iff) (auto simp: comp_def)

lemma difference_reaches_walk:
  assumes cur: "distinct (map do_Source (so_Documents read))" and pairs: "pair_of ` set docs = pair_of ` set (so_Documents read)"
    and w: "distinct (map do_Source (w_Documents w))" and inc: "\<not> ch_everything (difference identity read w rebuild)"
  shows "pair_of ` set (filter (\<lambda>d. do_Source d \<notin> set (ch_remove (difference identity read w rebuild))) docs @ ch_add (difference identity read w rebuild)) =
    pair_of ` set (w_Documents w)" (is "pair_of ` set (filter ?keep docs @ ?add) = _")
proof -
  let ?held = "map_of (held_digests (so_Documents read))"
  have i: "\<not> (rebuild \<or> gn_Identity (so_Generation read) \<noteq> identity)" using inc by (simp add: difference_def split: if_splits)
  have add: "?add = filter (\<lambda>d. ?held (do_Source d) \<noteq> Some (do_Digest d)) (w_Documents w)"
    using i by (simp add: difference_def diff_walk_spec Let_def)
  have rem: "set (ch_remove (difference identity read w rebuild)) =
      do_Source ` {d \<in> set (w_Documents w). ?held (do_Source d) \<noteq> None \<and> ?held (do_Source d) \<noteq> Some (do_Digest d)} \<union>
      {s \<in> do_Source ` set (so_Documents read). s \<notin> do_Source ` set (w_Documents w)}"
    using i by (auto simp: difference_def diff_walk_spec Let_def)
  have held: "?held s = Some x \<longleftrightarrow> (s, x) \<in> pair_of ` set docs" for s x using held_pair [OF cur] pairs by simp
  have kept: "pair_of d \<in> pair_of ` set (w_Documents w)" if d: "d \<in> set docs" "?keep d" for d
  proof -
    have h: "?held (do_Source d) = Some (do_Digest d)" unfolding held using d(1) by (rule imageI)
    have "pair_of d \<in> pair_of ` set (so_Documents read)" using d(1) pairs by blast
    then have "do_Source d \<in> do_Source ` set (so_Documents read)" by (rule imageE) simp
    then have "do_Source d \<in> do_Source ` set (w_Documents w)" using d(2) unfolding rem by blast
    then obtain e where e: "e \<in> set (w_Documents w)" "do_Source d = do_Source e" by (rule imageE)
    have "do_Digest e = do_Digest d"
    proof (rule ccontr)
      assume "do_Digest e \<noteq> do_Digest d"
      then have "e \<in> {d \<in> set (w_Documents w). ?held (do_Source d) \<noteq> None \<and> ?held (do_Source d) \<noteq> Some (do_Digest d)}" using e h by simp
      then have "do_Source d \<in> set (ch_remove (difference identity read w rebuild))" unfolding rem e(2) by blast
      then show False using d(2) by contradiction
    qed
    then have "pair_of d = pair_of e" using e(2) by simp
    then show ?thesis using e(1) by (rule image_eqI)
  qed
  have reached: "pair_of d \<in> pair_of ` set (filter ?keep docs @ ?add)" if d: "d \<in> set (w_Documents w)" for d
  proof (cases "?held (do_Source d) = Some (do_Digest d)")
    case True
    then have "pair_of d \<in> pair_of ` set docs" unfolding held .
    then obtain e where "e \<in> set docs" "pair_of d = pair_of e" by (rule imageE)
    then have e: "e \<in> set docs" "do_Source e = do_Source d" "do_Digest e = do_Digest d" by simp_all
    have "e' = d" if "e' \<in> set (w_Documents w)" "do_Source e' = do_Source d" for e' using w d that by (metis distinct_map inj_onD)
    then have "do_Source e \<notin> do_Source ` {d \<in> set (w_Documents w). ?held (do_Source d) \<noteq> None \<and> ?held (do_Source d) \<noteq> Some (do_Digest d)}"
      using e(2) True by fastforce
    moreover have "do_Source e \<in> do_Source ` set (w_Documents w)" unfolding e(2) using d by (rule imageI)
    ultimately have "?keep e" unfolding rem by blast
    then have "e \<in> set (filter ?keep docs @ ?add)" using e(1) by simp
    moreover have "pair_of d = pair_of e" using e by simp
    ultimately show ?thesis by (rule rev_image_eqI)
  next
    case False
    then have "d \<in> set (filter ?keep docs @ ?add)" using d by (simp add: add)
    then show ?thesis by (rule imageI)
  qed
  have "set ?add \<subseteq> set (w_Documents w)" by (auto simp: add)
  then have "pair_of ` set (filter ?keep docs @ ?add) \<subseteq> pair_of ` set (w_Documents w)"
    unfolding set_append image_Un set_filter using kept by blast
  then show ?thesis using reached by blast
qed


definition stored_of :: "index_db \<Rightarrow> stored" where
  "stored_of db = \<lparr>so_Generation = readGeneration db, so_Documents = sort_key do_Source (ix_documents db)\<rparr>"

lemma change_apply_reaches:
  assumes "content_ok sha cutter db" "cutter_ok cutter" "walk_ok sha cutter w"
    and "distinct (map do_Source (so_Documents read))" "pair_of ` set (ix_documents db) = pair_of ` set (so_Documents read)"
    and "change_apply sha files w (difference identity read w rebuild) db = Inr db'"
  shows "content_ok sha cutter db' \<and> pair_of ` set (ix_documents db') = pair_of ` set (w_Documents w) \<and> ix_generation db' = ix_generation db"
proof -
  let ?c = "difference identity read w rebuild"
  let ?start = "if ch_everything ?c then db\<lparr>ix_passages := [], ix_documents := []\<rparr> else db"
  have sub: "set (ch_add ?c) \<subseteq> set (w_Documents w)" by (auto simp: difference_def diff_walk_spec Let_def)
  have s: "content_ok sha cutter ?start" using assms(1) content_ok_empty by simp
  note d = delete_sources [OF s, of "ch_remove ?c"]
  have a: "add_documents sha files w (ch_add ?c) (fold delete_source (ch_remove ?c) ?start) = Inr db'"
    using assms(6) by (simp add: change_apply_def Let_def)
  have ok: "content_ok sha cutter db' \<and> ix_documents db' = ix_documents (fold delete_source (ch_remove ?c) ?start) @ ch_add ?c"
    by (rule add_documents_ok [OF _ assms(2) _ _ a]) (use d assms(3) sub in \<open>auto simp: walk_ok_def\<close>)
  have "pair_of ` set (ix_documents db') = pair_of ` set (w_Documents w)"
  proof (cases "ch_everything ?c")
    case True
    then have "ch_add ?c = w_Documents w" by (auto simp: difference_def diff_walk_spec Let_def split: if_splits)
    then show ?thesis using ok d True by simp
  next
    case False
    then show ?thesis using ok d difference_reaches_walk [OF assms(4,5) _ False] assms(3) by (simp add: walk_ok_def)
  qed
  moreover have "ix_generation db' = ix_generation db"
  proof -
    have g: "ix_generation (fold delete_source ss x) = ix_generation x" for ss x by (induction ss arbitrary: x) (simp_all add: delete_source_def)
    have "add_documents sha files w ds x = Inr y \<Longrightarrow> ix_generation y = ix_generation x" for ds x y
      by (induction ds arbitrary: x) (auto split: sum.splits if_splits)
    from this [OF a] show ?thesis by (simp add: g)
  qed
  ultimately show ?thesis using ok by blast
qed

lemma index_commit_ok:
  assumes hash: "collision_free sha" "identity \<in> range sha" and cut: "cutter_ok cutter" "walk_ok sha cutter w"
    and read: "index_ok sha cutter db0" and cur: "index_ok sha cutter (at_others a (fst st))"
    and c: "index_commit sha identity (gn_ID (readGeneration db0)) w (difference identity (stored_of db0) w rebuild)
      (GenerationOf sha identity (w_Documents w)) a st = (st', r)"
  shows "index_ok sha cutter (fst st') \<and> (\<forall>g. r = Inr g \<longrightarrow> ix_generation (fst st') = Some g \<and>
    gn_ID g = GenerationOf sha identity (w_Documents w) \<and> pair_of ` set (ix_documents (fst st')) = pair_of ` set (w_Documents w))"
proof -
  let ?db = "at_others a (fst st)" and ?diff = "difference identity (stored_of db0) w rebuild"
  let ?target = "GenerationOf sha identity (w_Documents w)"
  show ?thesis
  proof (cases "\<exists>db'. at_begin a = None \<and> at_first a = None \<and> gn_ID (readGeneration ?db) = gn_ID (readGeneration db0) \<and>
      change_apply sha (at_files a) w ?diff ?db = Inr db' \<and> at_statement a = None \<and> at_commit a = None")
    case False
    then have "fst st' = ?db \<and> (\<forall>g. r \<noteq> Inr g)"
      using c by (auto simp: index_commit_def Let_def split: option.splits sum.splits if_splits)
    then show ?thesis using cur by simp
  next
    case True
    then obtain db' where t: "at_begin a = None" "at_first a = None" "gn_ID (readGeneration ?db) = gn_ID (readGeneration db0)"
      "change_apply sha (at_files a) w ?diff ?db = Inr db'" "at_statement a = None" "at_commit a = None" by blast
    let ?g = "\<lparr>gn_ID = ?target, gn_Identity = identity, gn_BuiltAt = at_now a\<rparr>"
    have st': "fst st' = db'\<lparr>ix_generation := Some ?g\<rparr>" "r = Inr ?g" using c t by (auto simp: index_commit_def Let_def)
    have same: "pair_of ` set (ix_documents ?db) = pair_of ` set (so_Documents (stored_of db0))"
      using same_documents [OF hash(1) cur read t(3)] by (simp add: stored_of_def)
    have dist: "distinct (map do_Source (so_Documents (stored_of db0)))" using read by (simp add: stored_of_def index_ok_def distinct_map)
    have content: "content_ok sha cutter ?db" using cur by (simp add: index_ok_content)
    note new = change_apply_reaches [OF content cut dist same t(4)]
    have pairs: "set (map pair_of (ix_documents db')) = set (map pair_of (w_Documents w))" using new by simp
    have d1: "distinct (map fst (map pair_of (ix_documents db')))" using new by (simp add: content_ok_def comp_def)
    have d2: "distinct (map fst (map pair_of (w_Documents w)))" using cut(2) by (simp add: walk_ok_def comp_def)
    have "?target = GenerationOf sha identity (ix_documents db')"
      unfolding GenerationOf_def by (rule generationOfPairs_cong [OF pairs d1 d2, symmetric])
    moreover have "content_ok sha cutter (db'\<lparr>ix_generation := Some ?g\<rparr>)" using new by (simp add: content_ok_def)
    ultimately show ?thesis using st' new hash(2) by (simp add: index_ok_content)
  qed
qed

text \<open>A retry ends with what one of its attempts did, and keeps what every attempt keeps.\<close>

lemma retryBusy_keeps:
  assumes "\<And>a d. a \<in> set as \<Longrightarrow> Inv d \<Longrightarrow> Inv (fst (operation a d))"
  shows "retryBusy operation as held d = Some (d', r) \<Longrightarrow> Inv d \<Longrightarrow>
    Inv d' \<and> (\<forall>x. r = Inr x \<longrightarrow> (\<exists>a \<in> set as. \<exists>d0. Inv d0 \<and> operation a d0 = (d', Inr x)))"
  using assms
proof (induction as arbitrary: held d)
  case (Cons a as)
  obtain d1 r1 where o1: "operation a d = (d1, r1)" by fastforce
  have i1: "Inv d1" using Cons.prems(3) [of a d] Cons.prems(2) o1 by simp
  show ?case
  proof (cases r1)
    case (Inr x)
    then show ?thesis using Cons.prems(1,2) o1 i1 by (auto simp: error_of_def split: if_splits)
  next
    case (Inl e)
    have "(d' = d1 \<and> (\<forall>x. r \<noteq> Inr x)) \<or> retryBusy operation as True d1 = Some (d', r)"
      using Cons.prems(1) o1 Inl by (auto simp: error_of_def split: if_splits option.splits)
    then show ?thesis
    proof
      assume "retryBusy operation as True d1 = Some (d', r)"
      from Cons.IH [OF this i1] Cons.prems(3) show ?thesis by auto
    qed (use i1 in auto)
  qed
qed simp


definition others_ok :: "(string \<Rightarrow> string) \<Rightarrow> (string \<Rightarrow> string \<Rightarrow> passage list) \<Rightarrow> write_round \<Rightarrow> bool" where
  "others_ok sha cutter r \<longleftrightarrow>
     (\<forall>a \<in> set (wr_reads r) \<union> set (wr_commits r). \<forall>db. index_ok sha cutter db \<longrightarrow> index_ok sha cutter (at_others a db)) \<and>
     (\<forall>w. wr_rewalk r = Inr w \<longrightarrow> walk_ok sha cutter w)"

lemma read_round:
  assumes "others_ok sha cutter r" "retryBusy readStored (wr_reads r) False db = Some (db', x)" "index_ok sha cutter db"
  shows "index_ok sha cutter db' \<and> (\<forall>read. x = Inr read \<longrightarrow> read = stored_of db')"
proof -
  have keep: "index_ok sha cutter (fst (readStored a d))" if "a \<in> set (wr_reads r)" "index_ok sha cutter d" for a d
    using assms(1) that by (simp add: others_ok_def readStored_def Let_def)
  have "read = stored_of d'" if "readStored a d = (d', Inr read)" for a d d' read
    using that by (auto simp: readStored_def Let_def stored_of_def split: option.splits)
  then show ?thesis using retryBusy_keeps [OF keep assms(2,3)] by blast
qed

lemma commit_round:
  assumes hash: "collision_free sha" "identity \<in> range sha" and cut: "cutter_ok cutter" "walk_ok sha cutter w"
    and r: "others_ok sha cutter r" and read: "index_ok sha cutter db0" and cur: "index_ok sha cutter (fst st)"
    and c: "retryBusy (index_commit sha identity (gn_ID (so_Generation (stored_of db0))) w (difference identity (stored_of db0) w rebuild)
      (GenerationOf sha identity (w_Documents w))) (wr_commits r) False st = Some (st', x)"
  shows "index_ok sha cutter (fst st') \<and> (\<forall>g. x = Inr g \<longrightarrow> readGeneration (fst st') = g \<and>
    gn_ID g = GenerationOf sha identity (w_Documents w) \<and> pair_of ` set (ix_documents (fst st')) = pair_of ` set (w_Documents w))"
proof -
  let ?op = "index_commit sha identity (gn_ID (so_Generation (stored_of db0))) w (difference identity (stored_of db0) w rebuild)
      (GenerationOf sha identity (w_Documents w))"
  have id: "gn_ID (so_Generation (stored_of db0)) = gn_ID (readGeneration db0)" by (simp add: stored_of_def)
  have one: "index_ok sha cutter (fst s') \<and> (\<forall>g. y = Inr g \<longrightarrow> ix_generation (fst s') = Some g \<and>
      gn_ID g = GenerationOf sha identity (w_Documents w) \<and> pair_of ` set (ix_documents (fst s')) = pair_of ` set (w_Documents w))"
    if "a \<in> set (wr_commits r)" "index_ok sha cutter (fst s)" "?op a s = (s', y)" for a s s' y
    using index_commit_ok [OF hash cut read _ that(3) [unfolded id]] that(1,2) r by (auto simp: others_ok_def)
  have keep: "index_ok sha cutter (fst (fst (?op a s)))" if "a \<in> set (wr_commits r)" "index_ok sha cutter (fst s)" for a s
    using one [OF that, of "fst (?op a s)" "snd (?op a s)"] by simp
  have "index_ok sha cutter (fst st') \<and> (\<forall>g. x = Inr g \<longrightarrow> (\<exists>a \<in> set (wr_commits r). \<exists>d0. index_ok sha cutter (fst d0) \<and> ?op a d0 = (st', Inr g)))"
    by (rule retryBusy_keeps [where Inv = "\<lambda>s. index_ok sha cutter (fst s)" and operation = ?op, OF keep c cur])
  then have ok: "index_ok sha cutter (fst st')" and
    by': "\<And>g. x = Inr g \<Longrightarrow> \<exists>a \<in> set (wr_commits r). \<exists>d0. index_ok sha cutter (fst d0) \<and> ?op a d0 = (st', Inr g)" by blast+
  have "readGeneration (fst st') = g \<and> gn_ID g = GenerationOf sha identity (w_Documents w) \<and>
      pair_of ` set (ix_documents (fst st')) = pair_of ` set (w_Documents w)" if "x = Inr g" for g
  proof -
    from by' [OF that] obtain a d0 where a: "a \<in> set (wr_commits r)" "index_ok sha cutter (fst d0)" "?op a d0 = (st', Inr g)" by blast
    from one [OF a] show ?thesis by (simp add: readGeneration_def)
  qed
  then show ?thesis using ok by blast
qed

lemma unchanged_documents:
  assumes "collision_free sha" "identity \<in> range sha" "walk_ok sha cutter w" "index_ok sha cutter db"
    "gn_ID (readGeneration db) = GenerationOf sha identity (w_Documents w)"
  shows "pair_of ` set (ix_documents db) = pair_of ` set (w_Documents w)"
proof -
  have "GenerationOf sha identity (w_Documents w) \<noteq> []" using assms(1) by (simp add: GenerationOf_def generationOfPairs_def collision_free_def)
  then obtain g where g: "ix_generation db = Some g" using assms(5) by (cases "ix_generation db") (auto simp: readGeneration_def no_generation_def)
  have nl: "CHR 0x0A \<notin> set (gn_Identity g)" "CHR 0x0A \<notin> set identity" using assms(1,2,4) g by (auto simp: index_ok_def collision_free_def)
  have w: "list_all pair_ok (map pair_of (w_Documents w))" using assms(1,3) by (auto simp: list_all_iff pair_ok_def walk_ok_def collision_free_def)
  have "generationOfPairs sha (gn_Identity g) (map pair_of (ix_documents db)) = generationOfPairs sha identity (map pair_of (w_Documents w))"
    using assms(4,5) g by (simp add: index_ok_def readGeneration_def GenerationOf_def)
  from generationOfPairs_inj [OF assms(1) nl index_pairs_ok [OF assms(1,4)] w this] show ?thesis by simp
qed

definition walks :: "walk \<Rightarrow> write_round list \<Rightarrow> walk set" where
  "walks w rounds = insert w {w'. \<exists>r \<in> set rounds. wr_rewalk r = Inr w'}"

lemma index_write_spec:
  assumes hash: "collision_free sha" "identity \<in> range sha" and cut: "cutter_ok cutter"
  shows "index_write sha identity bounded rebuild rounds n w st = Some (db', res) \<Longrightarrow> \<forall>r \<in> set rounds. others_ok sha cutter r \<Longrightarrow>
    index_ok sha cutter (fst st) \<Longrightarrow> walk_ok sha cutter w \<Longrightarrow>
    index_ok sha cutter db' \<and> (\<forall>g. res = Inr g \<longrightarrow> readGeneration db' = g \<and> (\<exists>w' \<in> walks w rounds.
      gn_ID g = GenerationOf sha identity (w_Documents w') \<and> pair_of ` set (ix_documents db') = pair_of ` set (w_Documents w')))"
proof (induction rounds arbitrary: n w st)
  case (Cons r rs)
  have ro: "others_ok sha cutter r" using Cons.prems(2) by simp
  show ?case
  proof (cases "wr_ctx r")
    case (Some c)
    then show ?thesis using Cons.prems(1,3) by auto
  next
    case None
    let ?target = "GenerationOf sha identity (w_Documents w)"
    obtain db1 x where read: "retryBusy readStored (wr_reads r) False (fst st) = Some (db1, x)"
      using Cons.prems(1) None by (auto simp: Let_def split: option.splits)
    note db1 = read_round [OF ro read Cons.prems(3)]
    show ?thesis
    proof (cases x)
      case (Inl e)
      then show ?thesis using Cons.prems(1) None read db1 by (auto simp: Let_def)
    next
      case (Inr read1)
      then have r1: "read1 = stored_of db1" using db1 by simp
      show ?thesis
      proof (cases "\<not> rebuild \<and> gn_ID (so_Generation read1) = ?target")
        case True
        then have "db' = db1" "res = Inr (readGeneration db1)" "gn_ID (readGeneration db1) = ?target"
          using Cons.prems(1) None read Inr r1 by (auto simp: Let_def stored_of_def)
        then show ?thesis using db1 unchanged_documents [OF hash Cons.prems(4)] by (auto simp: walks_def)
      next
        case False
        let ?op = "index_commit sha identity (gn_ID (so_Generation read1)) w (difference identity read1 w rebuild) ?target"
        obtain st1 y where c: "retryBusy ?op (wr_commits r) False (db1, snd st) = Some (st1, y)"
          using Cons.prems(1) None read Inr False by (auto simp: Let_def split: option.splits)
        obtain db2 ch where st1: "st1 = (db2, ch)" by fastforce
        have ok: "index_ok sha cutter db2 \<and> (\<forall>g. y = Inr g \<longrightarrow> readGeneration db2 = g \<and> gn_ID g = ?target \<and>
            pair_of ` set (ix_documents db2) = pair_of ` set (w_Documents w))"
          using commit_round [OF hash cut Cons.prems(4) ro _ _ c [unfolded r1]] db1 st1 by simp
        show ?thesis
        proof (cases y)
          case (Inr g)
          then have "db' = db2" "res = Inr g" using Cons.prems(1) None read \<open>x = Inr read1\<close> False c st1 by (auto simp: Let_def)
          then show ?thesis using ok Inr by (auto simp: walks_def)
        next
          case (Inl e)
          have "(db' = db2 \<and> (\<forall>g. res \<noteq> Inr g)) \<or>
              (\<exists>w'. wr_rewalk r = Inr w' \<and> index_write sha identity bounded rebuild rs (n + 1) w' (db2, Some e) = Some (db', res)) \<or>
              index_write sha identity bounded rebuild rs n w (db2, ch) = Some (db', res)"
            using Cons.prems(1) None read \<open>x = Inr read1\<close> False c st1 Inl
            by (auto simp: Let_def split: if_splits sum.splits)
          then consider "db' = db2" "\<forall>g. res \<noteq> Inr g"
            | w' where "wr_rewalk r = Inr w'" "index_write sha identity bounded rebuild rs (n + 1) w' (db2, Some e) = Some (db', res)"
            | "index_write sha identity bounded rebuild rs n w (db2, ch) = Some (db', res)" by blast
          then show ?thesis
          proof cases
            case 1
            then show ?thesis using ok by simp
          next
            case (2 w')
            have wk: "walk_ok sha cutter w'" using ro 2(1) by (simp add: others_ok_def)
            have "walks w' rs \<subseteq> walks w (r # rs)" using 2(1) by (auto simp: walks_def)
            moreover have "index_ok sha cutter db' \<and> (\<forall>g. res = Inr g \<longrightarrow> readGeneration db' = g \<and> (\<exists>w'' \<in> walks w' rs.
                gn_ID g = GenerationOf sha identity (w_Documents w'') \<and> pair_of ` set (ix_documents db') = pair_of ` set (w_Documents w'')))"
              by (rule Cons.IH [OF 2(2)]) (use Cons.prems(2,4) ok wk in simp_all)
            ultimately show ?thesis by blast
          next
            case 3
            have "walks w rs \<subseteq> walks w (r # rs)" by (auto simp: walks_def)
            moreover have "index_ok sha cutter db' \<and> (\<forall>g. res = Inr g \<longrightarrow> readGeneration db' = g \<and> (\<exists>w'' \<in> walks w rs.
                gn_ID g = GenerationOf sha identity (w_Documents w'') \<and> pair_of ` set (ix_documents db') = pair_of ` set (w_Documents w'')))"
              by (rule Cons.IH [OF 3]) (use Cons.prems(2,4) ok in simp_all)
            ultimately show ?thesis by blast
          qed
        qed
      qed
    qed
  qed
qed simp


subsection \<open>Properties\<close>

text \<open>
  An index that opened is kept in a file nobody else can read: whatever mode it had, it has none wider than
  0600 now, and a wider file that is another user's was refused.
\<close>

lemma private_file_narrow:
  assumes "private_file env = Inr mode"
  shows "and mode 384 = mode" "ow_stat env = Present m u \<Longrightarrow> wide_mode m \<Longrightarrow> u = ow_uid env"
proof -
  have present: "and mode 384 = mode" if "private_present env m u = Inr mode" for m u
    using that by (auto simp: private_present_def wide_mode_def split: if_splits option.splits)
  show "and mode 384 = mode" using assms present
    by (auto simp: private_file_def split: file_stat.splits option.splits)
  show "ow_stat env = Present m u \<Longrightarrow> wide_mode m \<Longrightarrow> u = ow_uid env" using assms
    by (auto simp: private_file_def private_present_def split: if_splits)
qed

lemma index_Open_private:
  assumes "index_Open sha quote dir collection cfg mkdir owner opened as db = Some (db', Inr (identity, mode))"
  shows "index_name collection \<and> identity = index_Identity sha quote cfg \<and> and mode 384 = mode"
  using assms private_file_narrow(1)
  by (auto simp: index_Open_def index_path_def split: option.splits sum.splits if_splits) (metis sumE old.unit.exhaust)+


text \<open>
  C20. An index is whole at every commit, whoever else writes.  Whatever other updates commit before each
  attempt, as long as they leave the index whole, whatever fails and however often the index is found
  held, a write leaves it whole: every document's passages are those cut from a content with its
  digest and the generation is that of the documents.  A write that answers a generation leaves that
  generation, and the documents of the walk, or of a later one, it was asked for.
\<close>

theorem index_write_keeps_whole:
  assumes "collision_free sha" "identity \<in> range sha" "cutter_ok cutter" "\<forall>r \<in> set rounds. others_ok sha cutter r"
    "index_ok sha cutter db" "walk_ok sha cutter w" "index_write sha identity bounded rebuild rounds 0 w (db, None) = Some (db', res)"
  shows "index_ok sha cutter db' \<and> (\<forall>g. res = Inr g \<longrightarrow> readGeneration db' = g \<and> (\<exists>w' \<in> walks w rounds.
      gn_ID g = GenerationOf sha identity (w_Documents w') \<and> pair_of ` set (ix_documents db') = pair_of ` set (w_Documents w')))"
  by (rule index_write_spec [OF assms(1-3,7)]) (use assms in simp_all)

text \<open>
  C21. An incremental update is a rebuild.  Two whole states of an index that carry the same generation
  hold the same documents and the same passages, however each was reached; so the state an update leaves
  and the one a rebuild leaves cannot be told apart by a search.
\<close>

theorem generation_names_the_content:
  assumes "collision_free sha" "index_ok sha cutter a" "index_ok sha cutter b" "gn_ID (readGeneration a) = gn_ID (readGeneration b)"
  shows "pair_of ` set (ix_documents a) = pair_of ` set (ix_documents b) \<and> set (ix_passages a) = set (ix_passages b)"
  using same_documents [OF assms] same_passages [OF assms(1-3)] same_passages [OF assms(1,3,2)] by blast

text \<open>
  A wait that succeeds can be reported as a failure.  When an operation found the index held, then
  succeeded, and the context had ended by the time it returned, what comes back is the context's error
  and not the result, although the operation's effect is in the index.
\<close>

theorem success_after_a_wait_is_lost:
  assumes "operation a d = (d1, Inl e)" "isBusy e" "\<not> isCommitBusy e" "at_pause a = None" "operation b d1 = (d2, Inr x)" "at_ctx b = Some c"
  shows "retryBusy operation [a, b] False d = Some (d2, Inl (AtBound c None))"
  using assms by (simp add: error_of_def heldAtBound_def)

text \<open>
  A search is ranked, limited and of one generation.  What a search answers are passages of the index
  that match, the best first, equal scores by source and then ordinal, no more than the limit, and every
  one left out ranks behind every one answered.
\<close>

theorem search_is_ranked:
  assumes "index_search indexed bm25 query limit a db = (db', Inr (Found g hits))"
  shows "g = readGeneration db' \<and> length hits \<le> limit \<and> sorted (map hit_rank hits) \<and>
    (\<forall>h \<in> set hits. ht_Passage h \<in> set (ix_passages db') \<and> bm25 (plainQuery indexed query) (ht_Passage h) = Some (ht_Score h)) \<and>
    (\<forall>h. ht_Passage h \<in> set (ix_passages db') \<and> bm25 (plainQuery indexed query) (ht_Passage h) = Some (ht_Score h) \<longrightarrow>
       h \<in> set hits \<or> (length hits = limit \<and> (\<forall>k \<in> set hits. hit_rank k \<le> hit_rank h)))"
proof -
  let ?rows = "search_rows bm25 (plainQuery indexed query) db'"
  let ?matches = "\<lambda>h. ht_Passage h \<in> set (ix_passages db') \<and> bm25 (plainQuery indexed query) (ht_Passage h) = Some (ht_Score h)"
  have r: "hits = take limit ?rows" and g: "g = readGeneration db'"
    using assms by (auto simp: index_search_def Let_def split: option.splits if_splits)
  have mem: "h \<in> set ?rows \<longleftrightarrow> ?matches h" for h
  proof
    assume "h \<in> set ?rows"
    then show "?matches h" by (auto simp: search_rows_def List.map_filter_def)
  next
    assume h: "?matches h"
    have "h = \<lparr>ht_Passage = ht_Passage h, ht_Score = ht_Score h\<rparr>" by simp
    then show "h \<in> set ?rows" using h by (force simp: search_rows_def List.map_filter_def)
  qed
  have split: "?rows = hits @ drop limit ?rows" unfolding r by simp
  have "sorted (map hit_rank (hits @ drop limit ?rows))" unfolding split [symmetric] by (simp add: search_rows_def)
  then have sorted: "sorted (map hit_rank hits)" "\<forall>x \<in> set hits. \<forall>y \<in> set (drop limit ?rows). hit_rank x \<le> hit_rank y"
    by (auto simp: sorted_append)
  have rest: "h \<in> set hits \<or> (length hits = limit \<and> (\<forall>k \<in> set hits. hit_rank k \<le> hit_rank h))" if "?matches h" for h
  proof (cases "h \<in> set hits")
    case False
    then have d: "h \<in> set (drop limit ?rows)" using mem [of h] that split by (metis Un_iff set_append)
    then have "limit < length ?rows" by (metis drop_all emptyE linorder_not_less set_empty)
    then show ?thesis using d sorted(2) r by simp
  qed simp
  have "?matches h" if "h \<in> set hits" for h using that mem [of h] r by (metis in_set_takeD)
  then show ?thesis using g sorted(1) rest r by auto
qed


subsection \<open>An index that was written\<close>

text \<open>A hash that collides nowhere: the text itself, its line breaks escaped.\<close>

fun demo_escape :: "string \<Rightarrow> string" where
  "demo_escape [] = []"
| "demo_escape (c # cs) = (if c = CHR 0x0A then ''ab'' else if c = CHR ''a'' then ''aa'' else [c]) @ demo_escape cs"

definition demo_sha :: "string \<Rightarrow> string" where "demo_sha s = CHR ''h'' # demo_escape s"

lemma demo_escape_inj: "demo_escape s = demo_escape t \<Longrightarrow> s = t"
proof (induction s arbitrary: t)
  case Nil
  then show ?case by (cases t) (auto split: if_splits)
next
  case (Cons c s)
  then obtain d u where "t = d # u" by (cases t) (auto split: if_splits)
  then show ?case using Cons by (auto split: if_splits)
qed

lemma demo_sha_free: "collision_free demo_sha"
proof -
  have "CHR 0x0A \<notin> set (demo_escape s)" for s by (induction s) auto
  then show ?thesis using demo_escape_inj by (auto simp: collision_free_def demo_sha_def inj_def)
qed

definition demo_cutter :: "string \<Rightarrow> string \<Rightarrow> passage list" where
  "demo_cutter source content = [\<lparr>ps_Source = source, ps_Ordinal = 1, ps_Offset = 0, ps_Text = content\<rparr>]"

definition demo_doc :: "string \<Rightarrow> string \<Rightarrow> document" where
  "demo_doc source content = \<lparr>do_Source = source, do_Digest = demo_sha content, do_Bytes = length content\<rparr>"

definition demo_walk :: "(string \<times> string) list \<Rightarrow> walk" where
  "demo_walk files = \<lparr>w_Documents = map (\<lambda>(s, c). demo_doc s c) files, w_Skipped = [], w_root = [], w_held = Some files, w_passages = demo_cutter\<rparr>"

definition demo_attempt :: attempt where
  "demo_attempt = \<lparr>at_others = id, at_begin = None, at_first = None, at_statement = None, at_commit = None, at_ctx = None, at_pause = None,
     at_now = 5, at_files = (\<lambda>_. Inl ''none'')\<rparr>"

definition demo_round :: write_round where
  "demo_round = \<lparr>wr_ctx = None, wr_reads = [demo_attempt], wr_commits = [demo_attempt], wr_rewalk = Inl Moved, wr_after = None\<rparr>"

definition demo_written :: "bool \<Rightarrow> (string \<times> string) list \<Rightarrow> index_db \<Rightarrow> index_db" where
  "demo_written rebuild files db = fst (the (index_write demo_sha ''h'' False rebuild [demo_round] 0 (demo_walk files) (db, None)))"

lemma demo_index_facts:
  "cutter_ok demo_cutter" "others_ok demo_sha demo_cutter demo_round" "index_ok demo_sha demo_cutter empty_index" "''h'' \<in> range demo_sha"
  "walk_ok demo_sha demo_cutter (demo_walk [(''a'', ''one''), (''b'', ''two'')])" "walk_ok demo_sha demo_cutter (demo_walk [(''a'', ''one'')])"
proof -
  have "demo_sha [] = ''h''" by (simp add: demo_sha_def)
  then show "''h'' \<in> range demo_sha" by (metis rangeI)
qed (auto simp: cutter_ok_def demo_cutter_def others_ok_def demo_round_def demo_attempt_def index_ok_def empty_index_def walk_ok_def demo_walk_def demo_doc_def)

lemma demo_first: "index_write demo_sha ''h'' False False [demo_round] 0 (demo_walk [(''a'', ''one'')]) (empty_index, None) =
    Some (demo_written False [(''a'', ''one'')] empty_index, Inr (readGeneration (demo_written False [(''a'', ''one'')] empty_index)))"
  by code_simp

theorem index_write_keeps_whole_witness:
  "index_ok demo_sha demo_cutter (demo_written False [(''a'', ''one'')] empty_index) \<and>
   map ps_Text (ix_passages (demo_written False [(''a'', ''one'')] empty_index)) = [''one'']"
proof -
  have p: "map ps_Text (ix_passages (demo_written False [(''a'', ''one'')] empty_index)) = [''one'']" by code_simp
  have r: "\<forall>r \<in> set [demo_round]. others_ok demo_sha demo_cutter r" using demo_index_facts(2) by simp
  from index_write_keeps_whole [OF demo_sha_free demo_index_facts(4,1) r demo_index_facts(3,6) demo_first] p show ?thesis by blast
qed

theorem generation_names_the_content_witness:
  "set (ix_passages (demo_written False [(''a'', ''one''), (''b'', ''two'')] (demo_written False [(''a'', ''one'')] empty_index))) =
   set (ix_passages (demo_written True [(''a'', ''one''), (''b'', ''two'')] empty_index))"
proof -
  let ?one = "demo_written False [(''a'', ''one'')] empty_index" and ?fs = "[(''a'', ''one''), (''b'', ''two'')]"
  let ?inc = "demo_written False ?fs ?one" and ?full = "demo_written True ?fs empty_index"
  have r: "\<forall>r \<in> set [demo_round]. others_ok demo_sha demo_cutter r" using demo_index_facts(2) by simp
  note spec = index_write_spec [OF demo_sha_free demo_index_facts(4,1) _ r]
  have one: "index_ok demo_sha demo_cutter ?one" using spec [OF demo_first] demo_index_facts by simp
  have i: "index_write demo_sha ''h'' False False [demo_round] 0 (demo_walk ?fs) (?one, None) = Some (?inc, Inr (readGeneration ?inc))" by code_simp
  have f: "index_write demo_sha ''h'' False True [demo_round] 0 (demo_walk ?fs) (empty_index, None) = Some (?full, Inr (readGeneration ?full))" by code_simp
  have "index_ok demo_sha demo_cutter ?inc" "index_ok demo_sha demo_cutter ?full" using spec [OF i] spec [OF f] one demo_index_facts by simp_all
  moreover have "gn_ID (readGeneration ?inc) = gn_ID (readGeneration ?full)" by code_simp
  ultimately show ?thesis using generation_names_the_content [OF demo_sha_free] by blast
qed

theorem success_after_a_wait_is_lost_witness:
  "\<exists>db. retryBusy (index_commit demo_sha ''h'' [] (demo_walk []) \<lparr>ch_everything = True, ch_remove = [], ch_add = []\<rparr> ''g'')
     [demo_attempt\<lparr>at_begin := Some SqliteBusy\<rparr>, demo_attempt\<lparr>at_ctx := Some DeadlineExceeded\<rparr>] False (empty_index, None) =
     Some (db, Inl (AtBound DeadlineExceeded None)) \<and> ix_generation (fst db) \<noteq> None"
proof -
  let ?op = "index_commit demo_sha ''h'' [] (demo_walk []) \<lparr>ch_everything = True, ch_remove = [], ch_add = []\<rparr> ''g''"
  let ?g = "\<lparr>gn_ID = ''g'', gn_Identity = ''h'', gn_BuiltAt = 5\<rparr>"
  let ?a = "demo_attempt\<lparr>at_begin := Some SqliteBusy\<rparr>" and ?b = "demo_attempt\<lparr>at_ctx := Some DeadlineExceeded\<rparr>"
  have a: "?op ?a (empty_index, None) = ((empty_index, None), Inl (BeginFailed SqliteBusy))"
    by (simp add: index_commit_def demo_attempt_def)
  have b: "?op ?b (empty_index, None) = ((empty_index\<lparr>ix_generation := Some ?g\<rparr>, None), Inr ?g)"
    by (simp add: index_commit_def demo_attempt_def change_apply_def empty_index_def readGeneration_def no_generation_def Let_def)
  from success_after_a_wait_is_lost [where operation = ?op, OF a _ _ _ b, of DeadlineExceeded] show ?thesis
    by (simp add: demo_attempt_def)
qed

theorem search_is_ranked_witness:
  "\<exists>hits. snd (index_search (\<lambda>_. True) (\<lambda>_ p. Some (int (length (ps_Text p)))) ''disk'' 1 demo_attempt (demo_written False [(''a'', ''one'')] empty_index)) =
     Inr (Found (readGeneration (demo_written False [(''a'', ''one'')] empty_index)) hits) \<and> length hits \<le> 1"
proof -
  let ?db = "demo_written False [(''a'', ''one'')] empty_index"
  let ?s = "index_search (\<lambda>_. True) (\<lambda>_ p. Some (int (length (ps_Text p)))) ''disk'' 1 demo_attempt ?db"
  have "case snd ?s of Inr (Found g h) \<Rightarrow> True | _ \<Rightarrow> False" by code_simp
  then obtain g hits where r: "snd ?s = Inr (Found g hits)" by (auto split: sum.splits found.splits)
  moreover have "fst ?s = ?db" by (simp add: index_search_def Let_def demo_attempt_def)
  ultimately have "?s = (?db, Inr (Found g hits))" by (metis prod.collapse)
  from search_is_ranked [OF this] r show ?thesis by blast
qed

end
