(* ===== verification/Catalogs.thy ===== *)
theory Catalogs
  imports Sources Executor
begin

text \<open>
  The two catalogues a deployment keeps beside its configuration: \<open>mcpcatalog/mcpcatalog.go\<close> and
  \<open>collections/collections.go\<close>.  Reading the file, the JSON decoders, \<open>time.ParseDuration\<close> and
  \<open>url.Parse\<close> are parameters.  The interface \<open>catalogue_loop\<close> states what the loops of the three
  catalogues have in common.
\<close>

subsection \<open>A loop over named entries\<close>

text \<open>
  Every catalogue is read in the order of its names: each entry is judged alone, what is wrong with it
  is appended, and it is kept under its name.
\<close>

locale catalogue_loop =
  fixes loop :: "string list \<Rightarrow> 'p list \<times> 'c gomap \<Rightarrow> 'p list \<times> 'c gomap"
    and judge :: "string \<Rightarrow> 'c \<times> 'p list"
  assumes loop_Nil: "loop [] acc = acc"
    and loop_Cons: "loop (n # ns) (ps, es) = loop ns (ps @ snd (judge n), map_set n (fst (judge n)) es)"
begin

lemma loop_problems: "fst (loop ns (ps, es)) = ps @ concat (map (snd \<circ> judge) ns)"
  by (induction ns arbitrary: ps es) (simp_all add: loop_Nil loop_Cons)

lemma loop_entries: "map_of (snd (loop ns (ps, es))) m = (if m \<in> set ns then Some (fst (judge m)) else map_of es m)"
  by (induction ns arbitrary: ps es) (auto simp: loop_Nil loop_Cons)

lemma accepted_iff: "fst (loop ns ([], [])) = [] \<longleftrightarrow> (\<forall>n \<in> set ns. snd (judge n) = [])"
  by (simp add: loop_problems)

lemma accepted_entry: "fst (loop ns ([], [])) = [] \<Longrightarrow> map_of (snd (loop ns ([], []))) n = Some c \<Longrightarrow>
    n \<in> set ns \<and> c = fst (judge n) \<and> snd (judge n) = []"
  by (simp add: accepted_iff loop_entries split: if_splits)

end

interpretation senders: catalogue_loop "load_sources parse cfg raw" "\<lambda>n. entry_resolve parse n cfg (the (map_of raw n))"
  by unfold_locales (simp_all split: prod.splits)

subsection \<open>MCP servers\<close>

record mcp_entry =
  me_Command :: string
  me_Args :: "string list"
  me_Env :: "string gomap"
  me_URL :: string
  me_Headers :: "string gomap"

definition isStdio :: "mcp_entry \<Rightarrow> bool" where "isStdio e \<longleftrightarrow> me_Command e \<noteq> []"
definition isHTTP :: "mcp_entry \<Rightarrow> bool" where "isHTTP e \<longleftrightarrow> me_URL e \<noteq> []"

datatype mcp_problem = BothTransports string | NoTransport string

definition mcp_validate :: "string \<Rightarrow> mcp_entry \<Rightarrow> mcp_problem option" where
  "mcp_validate n e = (if isStdio e \<and> isHTTP e then Some (BothTransports n)
     else if \<not> isStdio e \<and> \<not> isHTTP e then Some (NoTransport n) else None)"

datatype mcp_error = ReadingServers string | ParsingServers string | ServerProblems "mcp_problem list"

fun mcp_loop :: "mcp_entry gomap \<Rightarrow> string list \<Rightarrow> mcp_problem list \<times> mcp_entry gomap \<Rightarrow> mcp_problem list \<times> mcp_entry gomap" where
  "mcp_loop raw [] acc = acc"
| "mcp_loop raw (n # ns) (problems, entries) = (let e = the (map_of raw n) in
     mcp_loop raw ns (problems @ (case mcp_validate n e of None \<Rightarrow> [] | Some p \<Rightarrow> [p]), map_set n e entries))"

definition mcp_Load :: "(string \<Rightarrow> (string, mcp_entry gomap) result) \<Rightarrow> catalog_file \<Rightarrow> (mcp_error, mcp_entry gomap) result" where
  "mcp_Load decode file = (case file of
     NoFile \<Rightarrow> Inr []
   | UnreadableFile e \<Rightarrow> Inl (ReadingServers e)
   | FileData data \<Rightarrow> (case decode data of
         Inl e \<Rightarrow> Inl (ParsingServers e)
       | Inr raw \<Rightarrow> (case mcp_loop raw (sorted_keys raw) ([], []) of (problems, entries) \<Rightarrow>
           if problems \<noteq> [] then Inl (ServerProblems problems) else Inr entries)))"

definition mcp_Names :: "mcp_entry gomap \<Rightarrow> string list" where "mcp_Names c = sorted_keys c"

datatype 'e mcp_resolve_error = NotProvided string | Unresolved string string string 'e

text \<open>\<open>resolveAll\<close>: the keys in order, up to the first that does not resolve.\<close>

fun resolve_keys ::
  "string \<Rightarrow> string \<Rightarrow> (string \<Rightarrow> ('e, string) result) \<Rightarrow> string gomap \<Rightarrow> string list \<Rightarrow> string gomap \<Rightarrow> ('e mcp_resolve_error, string gomap) result" where
  "resolve_keys server kind interpolate vals [] out = Inr out"
| "resolve_keys server kind interpolate vals (k # ks) out = (case interpolate (the (map_of vals k)) of
     Inl e \<Rightarrow> Inl (Unresolved server kind k e) | Inr v \<Rightarrow> resolve_keys server kind interpolate vals ks (map_set k v out))"

definition resolveAll ::
  "string \<Rightarrow> string \<Rightarrow> string gomap \<Rightarrow> (string \<Rightarrow> ('e, string) result) \<Rightarrow> ('e mcp_resolve_error, string gomap) result" where
  "resolveAll server kind vals interpolate = (if vals = [] then Inr [] else resolve_keys server kind interpolate vals (sorted_keys vals) [])"

datatype server_json = StdioServer string "string list" "string gomap" | HTTPServer string "string gomap"

definition mcp_Resolve ::
  "mcp_entry gomap \<Rightarrow> string \<Rightarrow> (string \<Rightarrow> ('e, string) result) \<Rightarrow> ('e mcp_resolve_error, server_json) result" where
  "mcp_Resolve c n interpolate = (case map_of c n of
     None \<Rightarrow> Inl (NotProvided n)
   | Some e \<Rightarrow>
       if isStdio e then (case resolveAll n ''env'' (me_Env e) interpolate of
           Inl p \<Rightarrow> Inl p | Inr env \<Rightarrow> Inr (StdioServer (me_Command e) (me_Args e) env))
       else (case resolveAll n ''header'' (me_Headers e) interpolate of
           Inl p \<Rightarrow> Inl p | Inr headers \<Rightarrow> Inr (HTTPServer (me_URL e) headers)))"

definition keysOf :: "string \<Rightarrow> string gomap \<Rightarrow> string" where
  "keysOf label vals = (if vals = [] then [] else '' ('' @ label @ '': '' @ str_join (sorted_keys vals) '', '' @ '')'')"

definition mcp_Summary :: "mcp_entry gomap \<Rightarrow> string \<Rightarrow> string" where
  "mcp_Summary c n = (case map_of c n of
     None \<Rightarrow> []
   | Some e \<Rightarrow>
       if isStdio e then
         let args = str_join (me_Args e) '' '' in
         ''stdio  '' @ me_Command e @ (if args = [] then [] else '' '' @ args) @ keysOf ''env'' (me_Env e)
       else ''http   '' @ me_URL e @ keysOf ''headers'' (me_Headers e))"

definition CheckReferences :: "mcp_entry gomap \<Rightarrow> (string \<Rightarrow> ('e, string) result) \<Rightarrow> 'e mcp_resolve_error list" where
  "CheckReferences c interpolate = concat (map (\<lambda>n. let e = the (map_of c n) in
     problem_of (resolveAll n ''env'' (me_Env e) interpolate) @ problem_of (resolveAll n ''header'' (me_Headers e) interpolate)) (mcp_Names c))"

interpretation servers: catalogue_loop "mcp_loop raw" "\<lambda>n. (the (map_of raw n), case mcp_validate n (the (map_of raw n)) of None \<Rightarrow> [] | Some p \<Rightarrow> [p])"
  by unfold_locales (simp_all add: Let_def)

subsection \<open>Collections\<close>

datatype search_mode = Lexical | Semantic

definition DefaultRetrievalTimeout :: duration where "DefaultRetrievalTimeout = 2 * minute"
definition DefaultRequestTimeout :: duration where "DefaultRequestTimeout = 60 * second"

record embeddings =
  eb_URL :: string
  eb_Model :: string
  eb_Credential :: string
  eb_RequestTimeout :: duration

record collection =
  cl_Name :: string
  cl_Directory :: string
  cl_Reports :: "string list option"
  cl_Embeddings :: "embeddings option"
  cl_RetrievalTimeout :: duration

definition collection_Mode :: "collection \<Rightarrow> search_mode" where
  "collection_Mode c = (if cl_Embeddings c \<noteq> None then Semantic else Lexical)"

definition collection_Source :: "collection \<Rightarrow> string" where
  "collection_Source c = (if cl_Directory c \<noteq> [] then ''directory '' @ cl_Directory c
     else ''reports '' @ str_join (case_option [] (\<lambda>rs. rs) (cl_Reports c)) '', '')"

record embeddings_json =
  ej_URL :: string
  ej_Model :: string
  ej_Credential :: string
  ej_RequestTimeout :: string

record collection_entry =
  ce_Directory :: string
  ce_Reports :: "string list option"
  ce_Embeddings :: "embeddings_json option"
  ce_RetrievalTimeout :: string

datatype collection_problem =
    CollectionName
  | TwoSources
  | NoSourceNamed
  | ReportsEmpty
  | DirectoryRelative string
  | ReportsNotApplied
  | ReportName nat string
  | EmbeddingsNotApplied
  | URLNotHTTP string
  | URLCarriesUser
  | ModelEmpty
  | CredentialNotAReference
  | NotADuration string string
  | NotPositive string string

text \<open>\<open>^[a-z0-9][a-z0-9-]{0,62}$\<close>\<close>

definition collection_slug :: "string \<Rightarrow> bool" where
  "collection_slug s = (case s of [] \<Rightarrow> False
     | c # cs \<Rightarrow> (is_lower c \<or> is_digit c) \<and> length cs \<le> 62 \<and> list_all (\<lambda>c. is_lower c \<or> is_digit c \<or> c = CHR ''-'') cs)"

definition appliedSources :: "string \<Rightarrow> bool" where
  "appliedSources s \<longleftrightarrow> s \<in> {''directory'', ''reports''}"

definition collection_duration :: "(string \<Rightarrow> duration option) \<Rightarrow> string \<Rightarrow> string \<Rightarrow> duration option \<times> collection_problem list" where
  "collection_duration parse input field =
     (if input = [] then (None, [])
      else case parse input of
        None \<Rightarrow> (None, [NotADuration field input])
      | Some d \<Rightarrow> if d \<le> 0 then (None, [NotPositive field input]) else (Some d, []))"

text \<open>\<open>parseURL\<close> answers the scheme of a URL that parses and whether it carries user information.\<close>

definition embeddings_resolve ::
  "(string \<Rightarrow> duration option) \<Rightarrow> (string \<Rightarrow> (string \<times> bool) option) \<Rightarrow> embeddings_json \<Rightarrow> embeddings \<times> collection_problem list" where
  "embeddings_resolve parse parseURL e =
     (case collection_duration parse (ej_RequestTimeout e) ''embeddings.request_timeout'' of (declared, found) \<Rightarrow>
       (\<lparr>eb_URL = ej_URL e, eb_Model = ej_Model e, eb_Credential = ej_Credential e,
         eb_RequestTimeout = (case declared of None \<Rightarrow> DefaultRequestTimeout | Some d \<Rightarrow> d)\<rparr>,
        (if appliedSources ''embeddings'' then [] else [EmbeddingsNotApplied]) @
        (case parseURL (ej_URL e) of
           None \<Rightarrow> [URLNotHTTP (ej_URL e)]
         | Some (scheme, user) \<Rightarrow> if scheme \<noteq> ''http'' \<and> scheme \<noteq> ''https'' then [URLNotHTTP (ej_URL e)]
             else if user then [URLCarriesUser] else []) @
        (if trim_space (ej_Model e) = [] then [ModelEmpty] else []) @
        (if ej_Credential e \<noteq> [] \<and> secretReference (ej_Credential e) = None then [CredentialNotAReference] else []) @ found))"

definition source_problems :: "collection_entry \<Rightarrow> collection_problem list" where
  "source_problems e =
     (let reports = case_option [] (\<lambda>rs. rs) (ce_Reports e) in
      (if ce_Directory e \<noteq> [] \<and> reports \<noteq> [] then [TwoSources]
       else if ce_Directory e = [] \<and> ce_Reports e = None then [NoSourceNamed]
       else if ce_Reports e \<noteq> None \<and> reports = [] then [ReportsEmpty]
       else if ce_Directory e \<noteq> [] \<and> \<not> IsAbs (ce_Directory e) then [DirectoryRelative (ce_Directory e)] else []) @
      (if reports \<noteq> [] then
         (if appliedSources ''reports'' then [] else [ReportsNotApplied]) @
         concat (map (\<lambda>(at, n). if collection_slug n then [] else [ReportName at n]) (enumerate 0 reports))
       else []))"

definition collection_resolve ::
  "(string \<Rightarrow> duration option) \<Rightarrow> (string \<Rightarrow> (string \<times> bool) option) \<Rightarrow> string \<Rightarrow> collection_entry \<Rightarrow>
   collection \<times> (string \<times> collection_problem) list" where
  "collection_resolve parse parseURL n e =
     (case collection_duration parse (ce_RetrievalTimeout e) ''retrieval_timeout'' of (declared, found) \<Rightarrow>
      let em = map_option (embeddings_resolve parse parseURL) (ce_Embeddings e) in
      (\<lparr>cl_Name = n, cl_Directory = ce_Directory e, cl_Reports = ce_Reports e, cl_Embeddings = map_option fst em,
        cl_RetrievalTimeout = (case declared of None \<Rightarrow> DefaultRetrievalTimeout | Some d \<Rightarrow> d)\<rparr>,
       map (Pair n) ((if collection_slug n then [] else [CollectionName]) @ source_problems e @ found @ case_option [] snd em)))"

datatype collections_error = ReadingCollections string | ParsingCollections string | CollectionProblems "(string \<times> collection_problem) list"

fun collections_loop ::
  "(string \<Rightarrow> duration option) \<Rightarrow> (string \<Rightarrow> (string \<times> bool) option) \<Rightarrow> collection_entry gomap \<Rightarrow> string list \<Rightarrow>
   (string \<times> collection_problem) list \<times> collection gomap \<Rightarrow> (string \<times> collection_problem) list \<times> collection gomap" where
  "collections_loop parse parseURL raw [] acc = acc"
| "collections_loop parse parseURL raw (n # ns) (problems, entries) =
     (case collection_resolve parse parseURL n (the (map_of raw n)) of (c, found) \<Rightarrow>
        collections_loop parse parseURL raw ns (problems @ found, map_set n c entries))"

definition collections_Load ::
  "(string \<Rightarrow> duration option) \<Rightarrow> (string \<Rightarrow> (string \<times> bool) option) \<Rightarrow> (string \<Rightarrow> (string, collection_entry gomap) result) \<Rightarrow> catalog_file \<Rightarrow>
   (collections_error, collection gomap) result" where
  "collections_Load parse parseURL decode file = (case file of
     NoFile \<Rightarrow> Inr []
   | UnreadableFile e \<Rightarrow> Inl (ReadingCollections e)
   | FileData data \<Rightarrow> (case decode data of
         Inl e \<Rightarrow> Inl (ParsingCollections e)
       | Inr raw \<Rightarrow> (case collections_loop parse parseURL raw (sorted_keys raw) ([], []) of (problems, entries) \<Rightarrow>
           if problems \<noteq> [] then Inl (CollectionProblems problems) else Inr entries)))"

definition collections_Names :: "collection gomap \<Rightarrow> string list" where "collections_Names c = sorted_keys c"

definition collections_Get :: "collection gomap \<Rightarrow> string \<Rightarrow> collection option" where "collections_Get c n = map_of c n"

interpretation declared: catalogue_loop "collections_loop parse parseURL raw" "\<lambda>n. collection_resolve parse parseURL n (the (map_of raw n))"
  by unfold_locales (simp_all split: prod.splits)


subsection \<open>Facts of the servers\<close>

lemma resolve_keys_spec:
  "case resolve_keys server kind interpolate vals ks out of
     Inl p \<Rightarrow> \<exists>k \<in> set ks. \<exists>e. interpolate (the (map_of vals k)) = Inl e \<and> p = Unresolved server kind k e
   | Inr m \<Rightarrow> \<forall>k. (k \<in> set ks \<longrightarrow> (\<exists>v. interpolate (the (map_of vals k)) = Inr v \<and> map_of m k = Some v)) \<and> (k \<notin> set ks \<longrightarrow> map_of m k = map_of out k)"
proof (induction ks arbitrary: out)
  case (Cons k ks)
  show ?case
  proof (cases "interpolate (the (map_of vals k))")
    case (Inl e)
    then show ?thesis by simp
  next
    case (Inr v)
    note ih = Cons.IH [of "map_set k v out"]
    show ?thesis
    proof (cases "resolve_keys server kind interpolate vals ks (map_set k v out)")
      case (Inl p)
      then show ?thesis using Inr ih by auto
    next
      case m: (Inr m)
      then have j: "\<forall>j. (j \<in> set ks \<longrightarrow> (\<exists>v. interpolate (the (map_of vals j)) = Inr v \<and> map_of m j = Some v)) \<and>
          (j \<notin> set ks \<longrightarrow> map_of m j = (if j = k then Some v else map_of out j))" using ih by auto
      then have "map_of m k = Some v" using Inr by (cases "k \<in> set ks") auto
      then show ?thesis using j Inr m by auto
    qed
  qed
qed simp

text \<open>What a map of references resolves to, and when.\<close>

definition resolves :: "(string \<Rightarrow> ('e, string) result) \<Rightarrow> string gomap \<Rightarrow> string gomap \<Rightarrow> bool" where
  "resolves interpolate vals m \<longleftrightarrow> (\<forall>k. case map_of vals k of
     None \<Rightarrow> map_of m k = None | Some t \<Rightarrow> \<exists>v. interpolate t = Inr v \<and> map_of m k = Some v)"

lemma resolveAll_Inr: "resolveAll server kind vals interpolate = Inr m \<Longrightarrow> resolves interpolate vals m"
proof (cases "vals = []")
  case True
  then show "resolveAll server kind vals interpolate = Inr m \<Longrightarrow> resolves interpolate vals m" by (simp add: resolveAll_def resolves_def)
next
  case False
  assume "resolveAll server kind vals interpolate = Inr m"
  then have r: "resolve_keys server kind interpolate vals (sorted_keys vals) [] = Inr m" using False by (simp add: resolveAll_def)
  have "case map_of vals k of None \<Rightarrow> map_of m k = None | Some t \<Rightarrow> \<exists>v. interpolate t = Inr v \<and> map_of m k = Some v" for k
    using resolve_keys_spec [where server = server and kind = kind and interpolate = interpolate and vals = vals and ks = "sorted_keys vals" and out = "[]"] unfolding r sum.case sorted_keys_dom
    by (cases "map_of vals k") (auto simp: dom_def)
  then show "resolves interpolate vals m" by (simp add: resolves_def)
qed

lemma resolveAll_total:
  "(\<exists>m. resolveAll server kind vals interpolate = Inr m) \<longleftrightarrow> (\<forall>k t. map_of vals k = Some t \<longrightarrow> (\<exists>v. interpolate t = Inr v))"
proof
  assume "\<exists>m. resolveAll server kind vals interpolate = Inr m"
  then obtain m where "resolves interpolate vals m" using resolveAll_Inr by blast
  then show "\<forall>k t. map_of vals k = Some t \<longrightarrow> (\<exists>v. interpolate t = Inr v)" by (fastforce simp: resolves_def split: option.splits)
next
  assume all: "\<forall>k t. map_of vals k = Some t \<longrightarrow> (\<exists>v. interpolate t = Inr v)"
  show "\<exists>m. resolveAll server kind vals interpolate = Inr m"
  proof (cases "vals = []")
    case False
    let ?r = "resolve_keys server kind interpolate vals (sorted_keys vals) []"
    have "\<not> isl ?r"
    proof
      assume "isl ?r"
      then obtain p where "?r = Inl p" by (auto simp: isl_def)
      then obtain k e where k: "k \<in> set (sorted_keys vals)" "interpolate (the (map_of vals k)) = Inl e"
        using resolve_keys_spec [where server = server and kind = kind and interpolate = interpolate and vals = vals and ks = "sorted_keys vals" and out = "[]"] by auto
      then obtain t where "map_of vals k = Some t" by (auto simp: sorted_keys_dom simp del: set_sorted_keys)
      with all k(2) show False by (metis Inl_Inr_False option.sel)
    qed
    then show ?thesis using False by (metis resolveAll_def sum.collapse(2))
  qed (simp add: resolveAll_def)
qed

lemma CheckReferences_ok:
  assumes "CheckReferences c interpolate = []" "map_of c n = Some e"
  shows "\<exists>env headers. resolveAll n ''env'' (me_Env e) interpolate = Inr env \<and> resolveAll n ''header'' (me_Headers e) interpolate = Inr headers"
proof -
  have "n \<in> set (mcp_Names c)" using assms(2) by (auto simp: mcp_Names_def sorted_keys_dom simp del: set_sorted_keys)
  then have "problem_of (resolveAll n ''env'' (me_Env e) interpolate) = []" "problem_of (resolveAll n ''header'' (me_Headers e) interpolate) = []"
    using assms by (auto simp: CheckReferences_def Let_def simp del: set_sorted_keys)
  then show ?thesis by (auto simp: problem_of_def split: sum.splits)
qed

lemma mcp_Load_entry:
  assumes "mcp_Load decode file = Inr c" "map_of c n = Some e"
  shows "isStdio e \<noteq> isHTTP e"
proof -
  obtain data raw where f: "file = FileData data" "decode data = Inr raw"
    using assms by (auto simp: mcp_Load_def split: catalog_file.splits sum.splits)
  obtain ps es where l: "mcp_loop raw (sorted_keys raw) ([], []) = (ps, es)" by fastforce
  have "ps = []" "c = es" using assms(1) f l by (auto simp: mcp_Load_def split: if_splits)
  then have "mcp_validate n e = None"
    using servers.accepted_entry [of raw "sorted_keys raw" n e] l assms(2) by (auto split: option.splits)
  then show ?thesis by (auto simp: mcp_validate_def split: if_splits)
qed

text \<open>
  What the check settles.  In a catalogue that loaded and whose references were checked, every server
  named resolves, by the transport it declares and no other, with its command, its arguments and its
  URL as written and every value of its environment or headers what its reference resolves to; a
  server the catalogue does not name does not resolve.
\<close>

theorem checked_servers_resolve:
  assumes "mcp_Load decode file = Inr c" "CheckReferences c interpolate = []"
  shows "case map_of c n of
     None \<Rightarrow> mcp_Resolve c n interpolate = Inl (NotProvided n)
   | Some e \<Rightarrow> \<exists>m. (isStdio e \<and> \<not> isHTTP e \<and> mcp_Resolve c n interpolate = Inr (StdioServer (me_Command e) (me_Args e) m) \<and> resolves interpolate (me_Env e) m) \<or>
       (isHTTP e \<and> \<not> isStdio e \<and> mcp_Resolve c n interpolate = Inr (HTTPServer (me_URL e) m) \<and> resolves interpolate (me_Headers e) m)"
proof (cases "map_of c n")
  case None
  then show ?thesis by (simp add: mcp_Resolve_def)
next
  case (Some e)
  obtain env headers where r: "resolveAll n ''env'' (me_Env e) interpolate = Inr env" "resolveAll n ''header'' (me_Headers e) interpolate = Inr headers"
    using CheckReferences_ok [OF assms(2) Some] by blast
  show ?thesis
    using mcp_Load_entry [OF assms(1) Some] r Some resolveAll_Inr [OF r(1)] resolveAll_Inr [OF r(2)]
    by (cases "isStdio e") (auto simp: mcp_Resolve_def)
qed

subsection \<open>Facts of the collections\<close>

definition collection_ok :: "string \<Rightarrow> collection \<Rightarrow> bool" where
  "collection_ok n c \<longleftrightarrow> cl_Name c = n \<and> collection_slug n \<and> 0 < cl_RetrievalTimeout c \<and> collection_Mode c = Lexical \<and>
     ((IsAbs (cl_Directory c) \<and> cl_Reports c = None) \<or>
      (cl_Directory c = [] \<and> (\<exists>rs. cl_Reports c = Some rs \<and> rs \<noteq> [] \<and> list_all collection_slug rs)))"

lemma source_problems_none:
  assumes "source_problems e = []"
  shows "(IsAbs (ce_Directory e) \<and> ce_Reports e = None) \<or>
    (ce_Directory e = [] \<and> (\<exists>rs. ce_Reports e = Some rs \<and> rs \<noteq> [] \<and> list_all collection_slug rs))"
proof (cases "ce_Reports e")
  case None
  then show ?thesis using assms by (auto simp: source_problems_def split: if_splits)
next
  case (Some rs)
  then have ne: "rs \<noteq> []" "ce_Directory e = []" using assms by (auto simp: source_problems_def Let_def split: if_splits)
  then have "concat (map (\<lambda>(at, n). if collection_slug n then [] else [ReportName at n]) (enumerate 0 rs)) = []"
    using assms Some by (simp add: source_problems_def Let_def)
  then have "\<forall>(at, n) \<in> set (enumerate 0 rs). collection_slug n" by (auto split: if_splits)
  then have "list_all collection_slug rs" by (fastforce simp: list_all_length in_set_enumerate_eq)
  then show ?thesis using Some ne by blast
qed

lemma collection_duration_pos: "collection_duration parse input field = (Some d, found) \<Longrightarrow> 0 < d"
  by (auto simp: collection_duration_def split: if_splits option.splits)

lemma collection_resolve_ok:
  assumes "snd (collection_resolve parse parseURL n e) = []"
  shows "collection_ok n (fst (collection_resolve parse parseURL n e))"
proof -
  obtain declared found where d: "collection_duration parse (ce_RetrievalTimeout e) ''retrieval_timeout'' = (declared, found)" by fastforce
  have "ce_Embeddings e = None"
  proof (cases "ce_Embeddings e")
    case (Some em)
    have "snd (embeddings_resolve parse parseURL em) \<noteq> []" by (auto simp: embeddings_resolve_def appliedSources_def split: prod.splits)
    then show ?thesis using assms Some d by (simp add: collection_resolve_def Let_def)
  qed simp
  moreover have "collection_slug n" "source_problems e = []" using assms d by (auto simp: collection_resolve_def Let_def split: if_splits)
  moreover have "0 < (case declared of None \<Rightarrow> DefaultRetrievalTimeout | Some d \<Rightarrow> d)"
    using d collection_duration_pos by (auto simp: DefaultRetrievalTimeout_def split: option.splits)
  ultimately show ?thesis using d source_problems_none [of e] by (auto simp: collection_resolve_def Let_def collection_ok_def collection_Mode_def)
qed

text \<open>
  C38. The type of a collection.  Every collection of a catalogue that loads has the slug it is kept
  under for its name, exactly one source, an absolute directory or a list of at least one playbook
  name, a bound above zero, and is searched by its words: no catalogue that declares an embeddings
  endpoint loads, so nothing of a document is ever sent to one.
\<close>

theorem loaded_collections_well_formed:
  assumes "collections_Load parse parseURL decode file = Inr c" "collections_Get c n = Some col"
  shows "collection_ok n col"
proof -
  obtain data raw where f: "file = FileData data" "decode data = Inr raw"
    using assms by (auto simp: collections_Load_def collections_Get_def split: catalog_file.splits sum.splits)
  obtain ps es where l: "collections_loop parse parseURL raw (sorted_keys raw) ([], []) = (ps, es)" by fastforce
  have "ps = []" "c = es" using assms(1) f l by (auto simp: collections_Load_def split: if_splits)
  then have "snd (collection_resolve parse parseURL n (the (map_of raw n))) = [] \<and> col = fst (collection_resolve parse parseURL n (the (map_of raw n)))"
    using declared.accepted_entry [of parse parseURL raw "sorted_keys raw" n col] l assms(2) by (auto simp: collections_Get_def)
  then show ?thesis using collection_resolve_ok by blast
qed

subsection \<open>Two catalogues\<close>

definition demo_servers :: "mcp_entry gomap" where
  "demo_servers = [(''docs'', \<lparr>me_Command = ''docs-mcp'', me_Args = [''--ro''], me_Env = [(''TOKEN'', ''${config.hook}'')], me_URL = [], me_Headers = []\<rparr>)]"

theorem checked_servers_resolve_witness:
  "\<exists>m. mcp_Resolve demo_servers ''docs'' (\<lambda>t. Interpolate demo_source_config t []) = Inr (StdioServer ''docs-mcp'' [''--ro''] m) \<and> map_of m ''TOKEN'' = Some ''k''"
proof -
  have l: "mcp_Load (\<lambda>_. Inr demo_servers) (FileData []) = Inr demo_servers" by code_simp
  have c: "CheckReferences demo_servers (\<lambda>t. Interpolate demo_source_config t []) = []" by code_simp
  have i: "Interpolate demo_source_config ''${config.hook}'' [] = Inr ''k''" by code_simp
  from checked_servers_resolve [OF l c, of "''docs''"] obtain m where
    m: "mcp_Resolve demo_servers ''docs'' (\<lambda>t. Interpolate demo_source_config t []) = Inr (StdioServer ''docs-mcp'' [''--ro''] m)"
      "resolves (\<lambda>t. Interpolate demo_source_config t []) [(''TOKEN'', ''${config.hook}'')] m"
    by (auto simp: demo_servers_def isStdio_def isHTTP_def)
  have "map_of m ''TOKEN'' = Some ''k''"
    using m(2) [unfolded resolves_def, rule_format, of "''TOKEN''"] i by simp
  with m(1) show ?thesis by blast
qed

definition demo_collections :: "collection_entry gomap" where
  "demo_collections = [(''notes'', \<lparr>ce_Directory = ''/srv/notes'', ce_Reports = None, ce_Embeddings = None, ce_RetrievalTimeout = []\<rparr>)]"

definition demo_collections_loaded :: "collection gomap" where
  "demo_collections_loaded = projr (collections_Load (\<lambda>_. None) (\<lambda>_. None) (\<lambda>_. Inr demo_collections) (FileData []))"

theorem loaded_collections_well_formed_witness: "collection_ok ''notes'' (the (collections_Get demo_collections_loaded ''notes''))"
proof -
  have l: "\<not> isl (collections_Load (\<lambda>_. None) (\<lambda>_. None) (\<lambda>_. Inr demo_collections) (FileData []))" by code_simp
  have g: "collections_Get demo_collections_loaded ''notes'' \<noteq> None" by code_simp
  show ?thesis
    by (rule loaded_collections_well_formed [of "\<lambda>_. None" "\<lambda>_. None" "\<lambda>_. Inr demo_collections" "FileData []" demo_collections_loaded])
      (use l g in \<open>simp_all add: demo_collections_loaded_def\<close>)
qed

end
