(* ===== verification/Retrieve_Stage.thy ===== *)
theory Retrieve_Stage
  imports Index Catalogs
begin

text \<open>
  The retrieve stage: \<open>stage/retrieve/query.go\<close>, \<open>results.go\<close>, \<open>retrieve.go\<close> and \<open>reports.go\<close>.  The stage
  forms a query, brings the index of a collection up to date, searches it and writes a results file into
  the working directory, which is a map from paths to contents; the indexes are a map from collections to
  databases.  What the walk of a directory, the database and the write of the results file meet is a
  parameter of each retrieval, and so are the formats of a score and the text of an error.
\<close>

subsection \<open>The query\<close>

definition MaxQueryBytes :: nat where "MaxQueryBytes = 1024"

datatype retrieve_error =
    NotACollection string
  | NotLexical string
  | QueryUnread string string
  | NoConfiguration
  | QueryReferences "ref_problem list"
  | EmptyQuery bool
  | WalkFailed ix_error
  | OpenFailed open_error
  | UpdateFailed string ix_error
  | SearchFailed ix_error
  | NoWordsLeft
  | TookTooLong duration retrieve_error
  | ResultsUnwritten string

text \<open>\<open>fault\<close> is why a gathered file that is there cannot be read.\<close>

definition resolveQuery ::
  "config option \<Rightarrow> string option \<Rightarrow> string \<Rightarrow> retrieval \<Rightarrow> string gomap \<Rightarrow> string gomap \<Rightarrow> (retrieve_error, string) result" where
  "resolveQuery cfg fault workDir declared trigger work =
     (if QueryFrom declared \<noteq> [] then
        (case fault of
           Some e \<Rightarrow> Inl (QueryUnread (QueryFrom declared) e)
         | None \<Rightarrow> (case map_of work (path_Join [workDir, path_Base (QueryFrom declared)]) of
               None \<Rightarrow> Inl (QueryUnread (QueryFrom declared) ''no such file or directory'')
             | Some data \<Rightarrow> Inr data))
      else case cfg of
        None \<Rightarrow> Inl NoConfiguration
      | Some c \<Rightarrow> (case Interpolate c (Query declared) trigger of Inl ps \<Rightarrow> Inl (QueryReferences ps) | Inr q \<Rightarrow> Inr q))"

text \<open>\<open>strings.LastIndexFunc\<close> of white space: where the last white-space character begins.\<close>

definition last_space :: "string \<Rightarrow> nat option" where
  "last_space window = (let at = skip_word window (length window) in
     if at = 0 then None else Some (at - trail_space (take at window)))"

definition cutQuery :: "string \<Rightarrow> string \<times> bool" where
  "cutQuery input =
     (let query = trim_space input in
      if length query \<le> MaxQueryBytes then (query, False)
      else let end' = (case last_space (take (MaxQueryBytes + 1) query) of
                 Some (Suc n) \<Rightarrow> Suc n | _ \<Rightarrow> boundary query MaxQueryBytes)
           in (trim_right_space (take end' query), True))"

definition queryOf ::
  "config option \<Rightarrow> string option \<Rightarrow> string \<Rightarrow> retrieval \<Rightarrow> string gomap \<Rightarrow> string gomap \<Rightarrow> (retrieve_error, string \<times> bool) result" where
  "queryOf cfg fault workDir declared trigger work =
     (case resolveQuery cfg fault workDir declared trigger work of Inl e \<Rightarrow> Inl e | Inr q \<Rightarrow> Inr (cutQuery q))"

subsection \<open>The results file\<close>

definition nothingMatched :: string where "nothingMatched = ''Nothing in this collection matched the query.''"

text \<open>\<open>None\<close> is the panic of slicing with a negative bound.\<close>

definition capResults :: "hit list \<Rightarrow> int \<Rightarrow> (hit list \<times> bool) option" where
  "capResults hits limit =
     (if int (length hits) > limit then (if limit < 0 then None else Some (take (nat limit) hits, True))
      else Some (hits, False))"

record heading =
  hg_collection :: string
  hg_mode :: retrieval_mode
  hg_generation :: string
  hg_query :: string
  hg_reports :: bool

record written =
  wn_rank :: nat
  wn_hit :: hit
  wn_text :: string

record piece =
  pc_head :: string
  pc_body :: string
  pc_hit :: "(nat \<times> hit) option"

text \<open>
  A rune \<open>Printable\<close> escapes: the controls of ASCII and of Latin 1 and the line and paragraph separators.
  Its escape is Go's; a byte that begins no rune is written as the replacement character.
\<close>

definition escaped_rune :: "string \<Rightarrow> bool" where
  "escaped_rune r = (case r of
     [c] \<Rightarrow> of_char c < (32 :: nat) \<or> c = CHR 0x7F
   | [b, c] \<Rightarrow> b = CHR 0xC2 \<and> byte_in 0x80 0x9F c
   | _ \<Rightarrow> r = [CHR 0xE2, CHR 0x80, CHR 0xA8] \<or> r = [CHR 0xE2, CHR 0x80, CHR 0xA9])"

definition lower_hex :: "nat \<Rightarrow> char" where "lower_hex n = ''0123456789abcdef'' ! (n mod 16)"

definition rune_escape :: "string \<Rightarrow> string" where
  "rune_escape r = (case r of
     [c] \<Rightarrow> if c = CHR 0x07 then [CHR 0x5C, CHR ''a''] else if c = CHR 0x08 then [CHR 0x5C, CHR ''b'']
       else if c = CHR 0x0C then [CHR 0x5C, CHR ''f''] else if c = CHR 0x0A then [CHR 0x5C, CHR ''n'']
       else if c = CHR 0x0D then [CHR 0x5C, CHR ''r''] else if c = CHR 0x09 then [CHR 0x5C, CHR ''t'']
       else if c = CHR 0x0B then [CHR 0x5C, CHR ''v'']
       else [CHR 0x5C, CHR ''x'', lower_hex (of_char c div 16), lower_hex (of_char c)]
   | [_, c] \<Rightarrow> [CHR 0x5C, CHR ''u'', CHR ''0'', CHR ''0'', lower_hex (of_char c div 16), lower_hex (of_char c)]
   | _ \<Rightarrow> [CHR 0x5C, CHR ''u'', CHR ''2'', CHR ''0'', CHR ''2''] @ (if r ! 2 = CHR 0xA8 then ''8'' else ''9''))"

definition print_rune :: "string \<Rightarrow> string" where
  "print_rune r = (if escaped_rune r then rune_escape r
     else if length r = 1 \<and> of_char (hd r) \<ge> (128 :: nat) then [CHR 0xEF, CHR 0xBF, CHR 0xBD] else r)"

definition Printable :: "string \<Rightarrow> string" where
  "Printable s = concat (map print_rune (runes_from 0 s))"

text \<open>\<open>strings.Fields\<close>\<close>

definition str_fields :: "string \<Rightarrow> string list" where
  "str_fields s = fields_func (\<lambda>r. lead_space wide_spaces r = 0) (runes_from 0 s) []"

definition mode_text :: "retrieval_mode \<Rightarrow> string" where
  "mode_text m = (case m of RetrievalLexical \<Rightarrow> ''lexical'' | RetrievalSemantic \<Rightarrow> ''semantic'')"

definition heading_piece :: "redactor option \<Rightarrow> heading \<Rightarrow> piece" where
  "heading_piece rd h = \<lparr>pc_head = ''# Retrieved from '' @ hg_collection h @ '' ('' @ mode_text (hg_mode h) @ '', generation '' @ hg_generation h @ '')'' @ [CHR 0x0A] @
       ''# Query: '' @ Printable (str_join (str_fields (Redact rd (hg_query h))) '' '') @ [CHR 0x0A],
     pc_body = [], pc_hit = None\<rparr>"

definition hit_line :: "redactor option \<Rightarrow> (int \<Rightarrow> string) \<Rightarrow> bool \<Rightarrow> nat \<Rightarrow> hit \<Rightarrow> string" where
  "hit_line rd score4 reports rank h =
     itoa rank @ ''. '' @ (if reports then ''run '' else []) @ Printable (Redact rd (ps_Source (ht_Passage h))) @
     '', passage '' @ itoa (ps_Ordinal (ht_Passage h)) @ '' (score '' @ score4 (ht_Score h) @ '')''"

definition hit_piece :: "redactor option \<Rightarrow> (int \<Rightarrow> string) \<Rightarrow> bool \<Rightarrow> nat \<times> hit \<Rightarrow> piece" where
  "hit_piece rd score4 reports rh =
     \<lparr>pc_head = [CHR 0x0A] @ ''## '' @ hit_line rd score4 reports (fst rh) (snd rh) @ [CHR 0x0A, CHR 0x0A],
      pc_body = Redact rd (ps_Text (ht_Passage (snd rh))) @ [CHR 0x0A], pc_hit = Some rh\<rparr>"

definition pieces :: "redactor option \<Rightarrow> (int \<Rightarrow> string) \<Rightarrow> heading \<Rightarrow> hit list \<Rightarrow> piece list" where
  "pieces rd score4 h hits = heading_piece rd h #
     (if hits = [] then [\<lparr>pc_head = [CHR 0x0A] @ nothingMatched @ [CHR 0x0A], pc_body = [], pc_hit = None\<rparr>] else []) @
     map (hit_piece rd score4 (hg_reports h)) (enumerate 1 hits)"

abbreviation piece_text :: "piece \<Rightarrow> string" where "piece_text p \<equiv> pc_head p @ pc_body p"

definition cutAt :: "string \<Rightarrow> nat \<Rightarrow> nat" where
  "cutAt txt limit = (if limit \<ge> length txt then length txt else boundary txt limit)"

text \<open>\<open>fill\<close> writes pieces until the budget is spent, and cuts the one that does not fit.\<close>

fun fill :: "piece list \<Rightarrow> nat \<Rightarrow> string \<Rightarrow> written list \<Rightarrow> string \<times> written list" where
  "fill [] budget out items = (out, items)"
| "fill (one # rest) budget out items =
     (let full = piece_text one;
          keep = (if length full > budget - length out then cutAt full (budget - length out) else length full)
      in if pc_hit one \<noteq> None \<and> keep \<le> length (pc_head one) then (out, items)
         else let out' = out @ take keep full;
                  items' = (case pc_hit one of
                      None \<Rightarrow> items
                    | Some (rank, h) \<Rightarrow> items @ [\<lparr>wn_rank = rank, wn_hit = h,
                        wn_text = trim_suffix (drop (length (pc_head one)) (take keep full)) [CHR 0x0A]\<rparr>])
              in if keep < length full then (out', items') else fill rest budget out' items')"

definition trailer :: "int \<Rightarrow> string" where
  "trailer maxBytes = [CHR 0x0A] @ ''(cut to fit '' @ itoa (nat maxBytes) @ '' bytes)'' @ [CHR 0x0A]"

definition render ::
  "redactor option \<Rightarrow> (int \<Rightarrow> string) \<Rightarrow> heading \<Rightarrow> hit list \<Rightarrow> int \<Rightarrow> (string \<times> written list \<times> bool) option" where
  "render rd score4 h hits maxBytes =
     (let ps = pieces rd score4 h hits; total = sum_list (map (\<lambda>p. length (piece_text p)) ps) in
      if int total \<le> maxBytes then (case fill ps total [] [] of (out, items) \<Rightarrow> Some (out, items, False))
      else if maxBytes < 0 then None
      else case fill ps (nat maxBytes - length (trailer maxBytes)) [] [] of (out, items) \<Rightarrow>
        let out' = out @ trailer maxBytes in
        Some (if length out' > nat maxBytes then take (cutAt out' (nat maxBytes)) out' else out', items, True))"

subsection \<open>One retrieval\<close>

text \<open>
  \<open>rl_text\<close> is the text of an error, \<open>rl_score4\<close> and \<open>rl_score\<close> a score in the file and in the record.
\<close>

record retrieve_lib =
  rl_sha :: "string \<Rightarrow> string"
  rl_quote :: "string \<Rightarrow> string"
  rl_tokens :: "string \<Rightarrow> json_token list"
  rl_indexed :: "string \<Rightarrow> bool"
  rl_bm25 :: "string \<Rightarrow> passage \<Rightarrow> int option"
  rl_score4 :: "int \<Rightarrow> string"
  rl_score :: "int \<Rightarrow> string"
  rl_text :: "retrieve_error \<Rightarrow> string"

record retrieve_stage =
  rs_Catalog :: "collection gomap option"
  rs_IndexDir :: string
  rs_Config :: "config option"
  rs_Redactor :: "redactor option"
  rs_Store :: "(store \<times> blobs) option"

text \<open>
  What one retrieval meets: the directory of the collection, opening and reading the index, whether the
  bound of the collection ran out while the run's own context had not ended, and the faults of reading
  the gathered file and writing the results.
\<close>

record search_run =
  sn_root :: "(string, string) result"
  sn_entries :: "dir_entry list"
  sn_mkdir :: "string option"
  sn_owner :: "string \<Rightarrow> owner_env"
  sn_opened :: "string option"
  sn_open :: "attempt list"
  sn_rounds :: "write_round list"
  sn_search :: "attempt list"
  sn_late :: bool
  sn_read :: "string option"
  sn_write :: "string option"

record retrieve_state =
  rv_work :: "string gomap"
  rv_indexes :: "index_db gomap"

fun read_reports :: "blobs \<Rightarrow> string \<Rightarrow> (string \<times> string) list \<Rightarrow> (ix_error, (string \<times> string) list) result" where
  "read_reports b cwd [] = Inr []"
| "read_reports b cwd ((runID, ref) # rest) = (case blob_Get cwd ref b of
     Inl e \<Rightarrow> Inl (IxFault (''reading the report of run '' @ runID @ '': '' @ blob_error_text e))
   | Inr content \<Rightarrow> (case read_reports b cwd rest of Inl e \<Rightarrow> Inl e | Inr reports \<Rightarrow> Inr ((runID, content) # reports)))"

definition ReportsOf :: "(store \<times> blobs) option \<Rightarrow> string \<Rightarrow> string list \<Rightarrow> (ix_error, (string \<times> string) list) result" where
  "ReportsOf st cwd playbooks = (case st of
     None \<Rightarrow> Inl (IxFault ''this deployment was given no record store to read reports from'')
   | Some (s, b) \<Rightarrow> read_reports b cwd (IndexableReports playbooks s))"

definition SourceWalk ::
  "retrieve_lib \<Rightarrow> (store \<times> blobs) option \<Rightarrow> string \<Rightarrow> search_run \<Rightarrow> collection \<Rightarrow> (ix_error, walk) result \<times> configuration" where
  "SourceWalk lib st cwd sn c =
     (if cl_Directory c \<noteq> [] then (WalkDirectory (rl_sha lib) (sn_root sn) (sn_entries sn), DirectoryConfiguration (cl_Directory c))
      else let reports = case_option [] (\<lambda>rs. rs) (cl_Reports c) in
        (ReportsWalk (rl_sha lib) (rl_tokens lib) (ReportsOf st cwd reports), ReportsConfiguration reports))"

definition stage_collection :: "retrieve_stage \<Rightarrow> string \<Rightarrow> collection option \<times> retrieve_error option" where
  "stage_collection stage n = (case rs_Catalog stage of
     None \<Rightarrow> (None, Some (NotACollection n))
   | Some catalog \<Rightarrow> (case collections_Get catalog n of
       None \<Rightarrow> (None, Some (NotACollection n))
     | Some c \<Rightarrow> (Some c, if collection_Mode c \<noteq> Lexical then Some (NotLexical n) else None)))"

text \<open>The context of the search has a deadline, so the update is \<open>bounded\<close>.\<close>

definition stage_search ::
  "retrieve_lib \<Rightarrow> retrieve_stage \<Rightarrow> string \<Rightarrow> search_run \<Rightarrow> collection \<Rightarrow> string \<Rightarrow> nat \<Rightarrow> index_db \<Rightarrow>
   (index_db \<times> (retrieve_error, generation \<times> hit list) result) option" where
  "stage_search lib stage cwd sn c query limit db =
     (case SourceWalk lib (rs_Store stage) cwd sn c of
        (Inl e, _) \<Rightarrow> Some (db, Inl (WalkFailed e))
      | (Inr w, cfg) \<Rightarrow> (case index_Open (rl_sha lib) (rl_quote lib) (rs_IndexDir stage) (cl_Name c) cfg (sn_mkdir sn) (sn_owner sn) (sn_opened sn) (sn_open sn) db of
          None \<Rightarrow> None
        | Some (db1, Inl e) \<Rightarrow> Some (db1, Inl (OpenFailed e))
        | Some (db1, Inr (identity, _)) \<Rightarrow> (case index_Update (rl_sha lib) identity True (sn_rounds sn) w db1 of
            None \<Rightarrow> None
          | Some (db2, Inl e) \<Rightarrow> Some (db2, Inl (UpdateFailed (cl_Name c) e))
          | Some (db2, Inr _) \<Rightarrow> (case index_Search (rl_indexed lib) (rl_bm25 lib) query limit (sn_search sn) db2 of
              None \<Rightarrow> None
            | Some (db3, Inl e) \<Rightarrow> Some (db3, Inl (SearchFailed e))
            | Some (db3, Inr (NoWords g)) \<Rightarrow> Some (db3, Inl NoWordsLeft)
            | Some (db3, Inr (found.Found g hits)) \<Rightarrow> Some (db3, Inr (g, hits))))))"

definition first_row :: "nat \<Rightarrow> retrieval \<Rightarrow> retrieval_row" where
  "first_row at declared = \<lparr>rt_Sequence = at + 1, rt_AsName = retr_As declared, rt_Collection = Collection declared,
     rt_Mode = RetrievalLexical, rt_Generation = [], rt_GenerationBuiltAt = zero_time, rt_Identity = [], rt_Query = [],
     rt_QueryTruncated = False, rt_Outcome = RetrievalFound, rt_ResultsRef = [], rt_ResultsBytes = 0, rt_CountTruncated = False,
     rt_BytesTruncated = False, rt_Error = [], rt_Items = []\<rparr>"

definition refuse_row :: "retrieve_lib \<Rightarrow> retrieval_row \<Rightarrow> retrieve_error \<Rightarrow> retrieved \<times> retrieve_error option" where
  "refuse_row lib row e = (\<lparr>rd_Record = row\<lparr>rt_Outcome := RetrievalRefused, rt_Error := rl_text lib e\<rparr>, rd_Results = None, rd_Contents = []\<rparr>, Some e)"

definition item_of :: "retrieve_lib \<Rightarrow> written \<Rightarrow> retrieved_item" where
  "item_of lib w = \<lparr>it_Rank = wn_rank w, it_Score = rl_score lib (ht_Score (wn_hit w)), it_Source = ps_Source (ht_Passage (wn_hit w)),
     it_Ordinal = ps_Ordinal (ht_Passage (wn_hit w)), it_Offset = ps_Offset (ht_Passage (wn_hit w)), it_ContentRef = []\<rparr>"

definition results_path :: "string \<Rightarrow> retrieval \<Rightarrow> string" where
  "results_path workDir declared = path_Join [workDir, path_Base (retr_As declared)]"

text \<open>What is handed over once the search answered: the file, and the row that describes it.\<close>

definition hand_over ::
  "retrieve_lib \<Rightarrow> retrieve_stage \<Rightarrow> string \<Rightarrow> search_run \<Rightarrow> retrieval \<Rightarrow> collection \<Rightarrow> retrieval_row \<Rightarrow> generation \<times> hit list \<Rightarrow>
   string gomap \<Rightarrow> (string gomap \<times> retrieved \<times> retrieve_error option) option" where
  "hand_over lib stage workDir sn declared c row0 found work =
     (let row = row0\<lparr>rt_Generation := gn_ID (fst found), rt_Identity := gn_Identity (fst found), rt_GenerationBuiltAt := gn_BuiltAt (fst found)\<rparr> in
      case capResults (snd found) (ResultCount declared) of
        None \<Rightarrow> None
      | Some (hits, countTruncated) \<Rightarrow>
          (case render (rs_Redactor stage) (rl_score4 lib) \<lparr>hg_collection = cl_Name c, hg_mode = rt_Mode row, hg_generation = Short (fst found),
                  hg_query = rt_Query row, hg_reports = (cl_Directory c = [])\<rparr> hits (ByteBound declared) of
             None \<Rightarrow> None
           | Some (file, items, bytesTruncated) \<Rightarrow>
               (case sn_write sn of
                  Some e \<Rightarrow> Some (work, refuse_row lib row (ResultsUnwritten e))
                | None \<Rightarrow> Some (map_set (results_path workDir declared) file work,
                    \<lparr>rd_Record = row\<lparr>rt_Outcome := (if items = [] then RetrievalEmpty else RetrievalFound), rt_ResultsBytes := length file,
                        rt_CountTruncated := countTruncated, rt_BytesTruncated := bytesTruncated, rt_Items := map (item_of lib) items\<rparr>,
                      rd_Results = Some file, rd_Contents = map wn_text items\<rparr>, None))))"

definition stage_retrieve ::
  "retrieve_lib \<Rightarrow> retrieve_stage \<Rightarrow> string \<Rightarrow> string \<Rightarrow> search_run \<Rightarrow> nat \<Rightarrow> retrieval \<Rightarrow> string gomap \<Rightarrow> retrieve_state \<Rightarrow>
   (retrieve_state \<times> retrieved \<times> retrieve_error option) option" where
  "stage_retrieve lib stage cwd workDir sn at declared trigger st =
     (case stage_collection stage (Collection declared) of
        (collection, err) \<Rightarrow>
          let row = (first_row at declared)\<lparr>rt_Mode :=
                (case collection of Some c \<Rightarrow> if collection_Mode c = Semantic then RetrievalSemantic else RetrievalLexical | None \<Rightarrow> RetrievalLexical)\<rparr> in
          (case (err, collection) of
             (Some e, _) \<Rightarrow> Some (st, refuse_row lib row e)
           | (None, None) \<Rightarrow> Some (st, refuse_row lib row (NotACollection (Collection declared)))
           | (None, Some c) \<Rightarrow>
               (case queryOf (rs_Config stage) (sn_read sn) workDir declared trigger (rv_work st) of
                  Inl e \<Rightarrow> Some (st, refuse_row lib row e)
                | Inr (query, truncated) \<Rightarrow>
                    let row1 = row\<lparr>rt_Query := query, rt_QueryTruncated := truncated\<rparr> in
                    if \<not> Searchable (rl_indexed lib) query then Some (st, refuse_row lib row1 (EmptyQuery truncated))
                    else (case stage_search lib stage cwd sn c query (nat (ResultCount declared + 1))
                              (case map_of (rv_indexes st) (cl_Name c) of Some db \<Rightarrow> db | None \<Rightarrow> empty_index) of
                        None \<Rightarrow> None
                      | Some (db, r) \<Rightarrow>
                          let st1 = st\<lparr>rv_indexes := map_set (cl_Name c) db (rv_indexes st)\<rparr> in
                          (case r of
                             Inl e \<Rightarrow> Some (st1, refuse_row lib row1 (if sn_late sn then TookTooLong (cl_RetrievalTimeout c) e else e))
                           | Inr found \<Rightarrow> map_option (\<lambda>(work, rest). (st1\<lparr>rv_work := work\<rparr>, rest))
                               (hand_over lib stage workDir sn declared c row1 found (rv_work st)))))))"

subsection \<open>All retrievals of a playbook\<close>

datatype refused = Refused nat string retrieve_error

fun retrieve_each ::
  "retrieve_lib \<Rightarrow> retrieve_stage \<Rightarrow> string \<Rightarrow> string \<Rightarrow> (nat \<Rightarrow> search_run) \<Rightarrow> nat \<Rightarrow> retrieval list \<Rightarrow> string gomap \<Rightarrow> retrieved list \<Rightarrow>
   retrieve_state \<Rightarrow> (retrieve_state \<times> retrieved list \<times> refused option) option" where
  "retrieve_each lib stage cwd workDir meets at [] trigger acc st = Some (st, acc, None)"
| "retrieve_each lib stage cwd workDir meets at (declared # rest) trigger acc st =
     (case stage_retrieve lib stage cwd workDir (meets at) at declared trigger st of
        None \<Rightarrow> None
      | Some (st1, one, Some e) \<Rightarrow> Some (st1, acc @ [one], Some (Refused at (Collection declared) e))
      | Some (st1, one, None) \<Rightarrow> retrieve_each lib stage cwd workDir meets (at + 1) rest trigger (acc @ [one]) st1)"

definition retrieve_Run ::
  "retrieve_lib \<Rightarrow> retrieve_stage \<Rightarrow> string \<Rightarrow> string \<Rightarrow> (nat \<Rightarrow> search_run) \<Rightarrow> retrieval list \<Rightarrow> string gomap \<Rightarrow> retrieve_state \<Rightarrow>
   (retrieve_state \<times> retrieved list \<times> refused option) option" where
  "retrieve_Run lib stage cwd workDir meets retrievals trigger st = retrieve_each lib stage cwd workDir meets 0 retrievals trigger [] st"


subsection \<open>The query that is searched\<close>

lemma cutAt_le: "cutAt t limit \<le> limit \<or> cutAt t limit = length t" "cutAt t limit \<le> length t" "cutAt t limit \<le> max limit (length t)"
  using boundary_le [of limit t] by (auto simp: cutAt_def)

lemma last_space_before: "last_space w = Some n \<Longrightarrow> n < length w"
  using skip_word_found [of w "length w"] by (auto simp: last_space_def Let_def split: if_splits)

lemma cut_prefix_of: "\<exists>rest. take n q = trim_right_space (take n q) @ rest"
  using trim_right_splits by blast

text \<open>
  The query that is searched is bounded.  However long the text it is formed from, the query has at most
  \<open>MaxQueryBytes\<close> bytes, it begins the text without its surrounding white space, and it is reported as cut
  exactly when that text is longer.
\<close>

theorem cutQuery_bounded:
  "length (fst (cutQuery input)) \<le> MaxQueryBytes \<and> (\<exists>rest. trim_space input = fst (cutQuery input) @ rest) \<and>
   (snd (cutQuery input) \<longleftrightarrow> MaxQueryBytes < length (trim_space input))"
proof (cases "length (trim_space input) \<le> MaxQueryBytes")
  case False
  let ?q = "trim_space input"
  define n where "n = (case last_space (take (MaxQueryBytes + 1) ?q) of Some (Suc n) \<Rightarrow> Suc n | _ \<Rightarrow> boundary ?q MaxQueryBytes)"
  have "n \<le> MaxQueryBytes"
    using last_space_before [of "take (MaxQueryBytes + 1) ?q"] boundary_le [of MaxQueryBytes ?q] False
    by (auto simp: n_def split: option.splits nat.splits)
  moreover obtain rest where r: "take n ?q = trim_right_space (take n ?q) @ rest" using cut_prefix_of by blast
  moreover have "cutQuery input = (trim_right_space (take n ?q), True)" using False by (simp add: cutQuery_def n_def Let_def)
  moreover have "length (trim_right_space (take n ?q)) \<le> n" using trim_right_length(1) [of "take n ?q"] by simp
  moreover have "?q = trim_right_space (take n ?q) @ rest @ drop n ?q" by (metis r append.assoc append_take_drop_id)
  ultimately show ?thesis using False by fastforce
qed (simp add: cutQuery_def Let_def)

subsection \<open>What stays on its line\<close>

definition single_line :: "string \<Rightarrow> bool" where
  "single_line s \<longleftrightarrow> (\<forall>c \<in> set s. 32 \<le> (of_char c :: nat) \<and> c \<noteq> CHR 0x7F)"

lemma single_line_Cons [simp]: "single_line []" "single_line (c # s) \<longleftrightarrow> 32 \<le> (of_char c :: nat) \<and> c \<noteq> CHR 0x7F \<and> single_line s"
  by (auto simp: single_line_def)

lemma single_line_append [simp]: "single_line (a @ b) \<longleftrightarrow> single_line a \<and> single_line b"
  by (auto simp: single_line_def)

lemma single_line_concat: "single_line (concat rs) \<longleftrightarrow> (\<forall>r \<in> set rs. single_line r)"
  by (auto simp: single_line_def)

lemma runes_from_drop: "runes_from k s = runes_from 0 (drop k s)"
  by (induction k s rule: runes_from.induct) simp_all

lemma runes_unfold: "s \<noteq> [] \<Longrightarrow> runes_from 0 s = take (rune_size s) s # runes_from 0 (drop (rune_size s) s)"
proof (cases s)
  case (Cons c cs)
  have "0 < rune_size s" by (simp add: rune_size_def Let_def case_prod_beta split: list.splits)
  then have "drop (rune_size s) s = drop (rune_size s - 1) cs" using Cons by (simp add: drop_Cons')
  then show ?thesis using Cons runes_from_drop [of "rune_size s - 1" cs] by simp
qed simp

text \<open>A rune of several bytes is decoded from its own bytes, all of them outside ASCII.\<close>

lemma rune_size_cases:
  assumes "rune_size s \<noteq> 1"
  obtains c d cs where "s = c # d # cs" "rune_size s = 2" "byte_in 0xC2 0xDF c" "byte_in 0x80 0xBF d"
  | c d e cs where "s = c # d # e # cs" "rune_size s = 3" "byte_in 0xE0 0xEF c" "byte_in (fst (second_byte c)) (snd (second_byte c)) d" "byte_in 0x80 0xBF e"
  | c d e f cs where "s = c # d # e # f # cs" "rune_size s = 4" "byte_in 0xF0 0xF4 c" "byte_in (fst (second_byte c)) (snd (second_byte c)) d" "byte_in 0x80 0xBF e" "byte_in 0x80 0xBF f"
proof -
  obtain c d cs where s: "s = c # d # cs" using assms by (cases s rule: remdups_adj.cases) (auto simp: rune_size_def)
  obtain lo hi where b: "second_byte c = (lo, hi)" by fastforce
  have two: "byte_in 0xC2 0xDF c \<Longrightarrow> (lo, hi) = (0x80, 0xBF)" unfolding b [symmetric] by (auto simp: second_byte_def byte_in_def Let_def)
  consider "byte_in 0xC2 0xDF c" "byte_in lo hi d" "rune_size s = 2"
    | "byte_in 0xE0 0xEF c" "byte_in lo hi d" "cs \<noteq> []" "byte_in 0x80 0xBF (hd cs)" "rune_size s = 3"
    | "byte_in 0xF0 0xF4 c" "byte_in lo hi d" "length cs \<ge> 2" "byte_in 0x80 0xBF (hd cs)" "byte_in 0x80 0xBF (cs ! 1)" "rune_size s = 4"
    using assms b unfolding s by (auto simp: rune_size_def Let_def split: if_splits)
  then show thesis
  proof cases
    case 1
    then show thesis using two that(1) [of c d cs] s by simp
  next
    case 2
    then show thesis using that(2) [of c d "hd cs" "tl cs"] s b by simp
  next
    case 3
    then obtain e f ds where "cs = e # f # ds" by (cases cs rule: remdups_adj.cases) auto
    then show thesis using 3 that(3) [of c d e f ds] s b by simp
  qed
qed

definition whole_rune :: "string \<Rightarrow> bool" where
  "whole_rune r \<longleftrightarrow> r \<noteq> [] \<and> (\<forall>rest. rune_size (r @ rest) = length r)"

lemma runes_concat: "list_all whole_rune rs \<Longrightarrow> runes_from 0 (concat rs) = rs"
proof (induction rs)
  case (Cons r rs)
  then have "rune_size (r @ concat rs) = length r" "r \<noteq> []" by (simp_all add: whole_rune_def)
  then show ?case using runes_unfold [of "r @ concat rs"] Cons by simp
qed simp

lemma long_rune_whole:
  assumes "rune_size s \<noteq> 1"
  shows "whole_rune (take (rune_size s) s)" "\<forall>c \<in> set (take (rune_size s) s). 128 \<le> (of_char c :: nat)"
proof -
  have low: "128 \<le> fst (second_byte c)" for c by (simp add: second_byte_def Let_def)
  show "\<forall>c \<in> set (take (rune_size s) s). 128 \<le> (of_char c :: nat)"
    using assms
  proof (cases rule: rune_size_cases)
    case (2 c d e cs)
    then show ?thesis using low [of c] by (auto simp: byte_in_def numeral_3_eq_3)
  next
    case (3 c d e f cs)
    then show ?thesis using low [of c] by (auto simp: byte_in_def eval_nat_numeral)
  qed (auto simp: byte_in_def numeral_2_eq_2)
  show "whole_rune (take (rune_size s) s)"
    using assms
  proof (cases rule: rune_size_cases)
    case (1 c d cs)
    then show ?thesis by (auto simp: whole_rune_def rune_size_def second_byte_def byte_in_def Let_def)
  next
    case (2 c d e cs)
    then show ?thesis by (auto simp: whole_rune_def rune_size_def byte_in_def case_prod_beta Let_def numeral_3_eq_3)
  next
    case (3 c d e f cs)
    then show ?thesis by (auto simp: whole_rune_def rune_size_def byte_in_def case_prod_beta Let_def eval_nat_numeral)
  qed
qed

lemma ascii_whole: "of_char c < (128 :: nat) \<Longrightarrow> whole_rune [c]"
  by (auto simp: whole_rune_def rune_size_def byte_in_def Let_def case_prod_beta split: list.splits)


text \<open>What \<open>Printable\<close> writes is made of whole runes, none of which it would escape.\<close>

lemma runes_of: "r \<in> set (runes_from 0 s) \<Longrightarrow> (\<exists>c. r = [c]) \<or> (whole_rune r \<and> length r \<noteq> 1 \<and> (\<forall>c \<in> set r. 128 \<le> (of_char c :: nat)))"
proof (induction s rule: length_induct)
  case (1 s)
  show ?case
  proof (cases "s = []")
    case False
    have pos: "0 < rune_size s" by (simp add: rune_size_def Let_def case_prod_beta split: list.splits)
    consider "r = take (rune_size s) s" | "r \<in> set (runes_from 0 (drop (rune_size s) s))" using 1(2) runes_unfold [OF False] by auto
    then show ?thesis
    proof cases
      case 1
      show ?thesis
      proof (cases "rune_size s = 1")
        case True
        then show ?thesis using 1 False by (cases s) simp_all
      next
        case long: False
        have "rune_size (take (rune_size s) s @ []) = length (take (rune_size s) s)" using long_rune_whole(1) [OF long] unfolding whole_rune_def by blast
        moreover have "rune_size (take (rune_size s) s @ drop (rune_size s) s) = length (take (rune_size s) s)" using long_rune_whole(1) [OF long] unfolding whole_rune_def by blast
        ultimately have "length r \<noteq> 1" using long 1 by simp
        then show ?thesis using long_rune_whole [OF long] 1 by blast
      qed
    next
      case 2
      moreover have "length (drop (rune_size s) s) < length s" using pos False by simp
      ultimately show ?thesis using 1(1) by blast
    qed
  qed (use 1 in simp)
qed

lemma lower_hex_plain: "lower_hex n \<in> set ''0123456789abcdef''"
  unfolding lower_hex_def by (rule nth_mem) simp

definition plain_ascii :: "char \<Rightarrow> bool" where "plain_ascii c \<longleftrightarrow> 32 \<le> (of_char c :: nat) \<and> of_char c < (127 :: nat)"

lemma hex_plain [simp]: "plain_ascii (lower_hex n)"
  using lower_hex_plain [of n] by (auto simp: plain_ascii_def)

lemma rune_escape_plain: "\<forall>c \<in> set (rune_escape r). plain_ascii c"
proof -
  have "plain_ascii c" if "c \<in> set [CHR 0x5C, CHR ''a'', CHR ''b'', CHR ''f'', CHR ''n'', CHR ''r'', CHR ''t'', CHR ''v'', CHR ''x'', CHR ''u'', CHR ''0'', CHR ''2'', CHR ''8'', CHR ''9'']" for c
    using that by (auto simp: plain_ascii_def)
  then show ?thesis by (auto simp: rune_escape_def split: list.splits)
qed

definition shown_rune :: "string \<Rightarrow> bool" where "shown_rune r \<longleftrightarrow> whole_rune r \<and> \<not> escaped_rune r \<and> print_rune r = r"

lemma plain_shown: "plain_ascii c \<Longrightarrow> shown_rune [c]"
  by (auto simp: shown_rune_def print_rune_def escaped_rune_def plain_ascii_def intro!: ascii_whole)

lemma print_rune_shown:
  assumes "r \<in> set (runes_from 0 s)"
  shows "\<exists>rs. print_rune r = concat rs \<and> list_all shown_rune rs"
proof -
  consider "escaped_rune r" | "\<not> escaped_rune r" "length r = 1" "of_char (hd r) \<ge> (128 :: nat)"
    | "\<not> escaped_rune r" "\<not> (length r = 1 \<and> of_char (hd r) \<ge> (128 :: nat))" by blast
  then show ?thesis
  proof cases
    case 1
    have "concat (map (\<lambda>c. [c]) (rune_escape r)) = rune_escape r" by (induction "rune_escape r") simp_all
    moreover have "list_all shown_rune (map (\<lambda>c. [c]) (rune_escape r))" using rune_escape_plain [of r] plain_shown by (simp add: list_all_iff)
    ultimately show ?thesis using 1 unfolding print_rune_def by (metis (no_types))
  next
    case 2
    have "shown_rune [CHR 0xEF, CHR 0xBF, CHR 0xBD]"
      by (auto simp: shown_rune_def whole_rune_def escaped_rune_def print_rune_def rune_size_def second_byte_def byte_in_def)
    then show ?thesis using 2 by (intro exI [of _ "[[CHR 0xEF, CHR 0xBF, CHR 0xBD]]"]) (simp add: print_rune_def)
  next
    case 3
    then have "print_rune r = r" unfolding print_rune_def by presburger
    moreover have "whole_rune r" using runes_of [OF assms]
    proof
      assume "\<exists>c. r = [c]"
      then obtain c where c: "r = [c]" by blast
      then have "of_char c < (128 :: nat)" using 3(2) by simp
      then show ?thesis unfolding c by (rule ascii_whole)
    qed simp
    ultimately have "shown_rune r" using 3(1) by (simp add: shown_rune_def)
    then show ?thesis using \<open>print_rune r = r\<close> by (intro exI [of _ "[r]"]) simp
  qed
qed

lemma Printable_shown: "\<exists>rs. Printable s = concat rs \<and> list_all shown_rune rs"
proof -
  have "\<exists>rs. concat (map print_rune us) = concat rs \<and> list_all shown_rune rs" if "set us \<subseteq> set (runes_from 0 s)" for us
    using that
  proof (induction us)
    case (Cons u us)
    then obtain rs where "concat (map print_rune us) = concat rs" "list_all shown_rune rs" by auto
    moreover obtain qs where "print_rune u = concat qs" "list_all shown_rune qs" using print_rune_shown [of u s] Cons.prems by auto
    ultimately show ?case by (intro exI [of _ "qs @ rs"]) simp
  qed (auto intro: exI [of _ "[]"])
  then show ?thesis unfolding Printable_def by blast
qed

lemma shown_single_line: assumes "shown_rune r" "r \<in> set (runes_from 0 s)" shows "single_line r"
  using runes_of [OF assms(2)] assms(1)
  by (auto simp: single_line_def shown_rune_def escaped_rune_def not_le)

lemma Printable_runes:
  obtains rs where "Printable s = concat rs" "list_all shown_rune rs" "runes_from 0 (Printable s) = rs"
proof -
  obtain rs where rs: "Printable s = concat rs" "list_all shown_rune rs" using Printable_shown by blast
  moreover have "runes_from 0 (Printable s) = rs" unfolding rs(1) by (rule runes_concat) (use rs(2) in \<open>auto simp: list_all_iff shown_rune_def\<close>)
  ultimately show thesis using that by blast
qed

lemma Printable_single_line: "single_line (Printable s)"
proof -
  obtain rs where rs: "Printable s = concat rs" "list_all shown_rune rs" "runes_from 0 (Printable s) = rs" by (rule Printable_runes)
  have "single_line r" if "r \<in> set rs" for r
    using shown_single_line [of r "Printable s"] that rs(2) unfolding rs(3) by (simp add: list_all_iff)
  then show ?thesis unfolding rs(1) single_line_concat by blast
qed

text \<open>
  What is printed stays on its line.  The text \<open>Printable\<close> writes holds no control character and no
  line or paragraph separator, rune by rune, and printing it once more changes nothing.
\<close>

theorem Printable_stays_on_its_line:
  "(\<forall>r \<in> set (runes_from 0 (Printable s)). \<not> escaped_rune r) \<and> single_line (Printable s) \<and> Printable (Printable s) = Printable s"
proof -
  obtain rs where rs: "Printable s = concat rs" "list_all shown_rune rs" "runes_from 0 (Printable s) = rs" by (rule Printable_runes)
  have "map print_rune rs = rs" using rs(2) by (induction rs) (simp_all add: shown_rune_def)
  moreover have "Printable (Printable s) = concat (map print_rune rs)" by (simp only: Printable_def [of "Printable s"] rs(3))
  ultimately have "Printable (Printable s) = Printable s" using rs(1) by metis
  then show ?thesis using rs(2) Printable_single_line unfolding rs(3) by (auto simp: list_all_iff shown_rune_def)
qed

subsection \<open>The results file is bounded and in order\<close>

definition whole_file :: "piece list \<Rightarrow> string" where "whole_file ps = concat (map piece_text ps)"

lemma whole_file_simps [simp]: "whole_file [] = []" "whole_file (p # ps) = pc_head p @ pc_body p @ whole_file ps"
  by (simp_all add: whole_file_def)

lemma whole_file_length: "length (whole_file ps) = sum_list (map (\<lambda>p. length (piece_text p)) ps)"
  by (induction ps) simp_all

definition kept_text :: "written \<Rightarrow> piece \<Rightarrow> bool" where
  "kept_text w p \<longleftrightarrow> pc_hit p = Some (wn_rank w, wn_hit w) \<and> (\<exists>m. wn_text w = trim_suffix (take m (pc_body p)) [CHR 0x0A])"

abbreviation hit_pieces :: "piece list \<Rightarrow> piece list" where "hit_pieces ps \<equiv> filter (\<lambda>p. pc_hit p \<noteq> None) ps"

text \<open>
  What \<open>fill\<close> writes: within the budget, a beginning of the whole file, and the first items in order; and
  all of it when the budget is large enough.
\<close>

lemma fill_spec:
  assumes "fill ps budget out items = (out', items')" "length out \<le> budget"
  shows "length out' \<le> budget \<and> (\<exists>t. out' = out @ t \<and> prefix t (whole_file ps)) \<and>
    (\<exists>new n. items' = items @ new \<and> list_all2 kept_text new (take n (hit_pieces ps)))"
  using assms
proof (induction ps arbitrary: out items)
  case Nil
  then show ?case by simp
next
  case (Cons one rest)
  let ?full = "piece_text one"
  define keep where "keep = (if length ?full > budget - length out then cutAt ?full (budget - length out) else length ?full)"
  have k: "keep \<le> budget - length out" "keep \<le> length ?full"
    using cutAt_le(1,2) [of ?full "budget - length out"] boundary_le [of "budget - length out" ?full] by (auto simp: keep_def cutAt_def)
  define items1 where "items1 = (case pc_hit one of None \<Rightarrow> items
     | Some (rank, h) \<Rightarrow> items @ [\<lparr>wn_rank = rank, wn_hit = h, wn_text = trim_suffix (drop (length (pc_head one)) (take keep ?full)) [CHR 0x0A]\<rparr>])"
  have f: "fill (one # rest) budget out items = (if pc_hit one \<noteq> None \<and> keep \<le> length (pc_head one) then (out, items)
      else if keep < length ?full then (out @ take keep ?full, items1) else fill rest budget (out @ take keep ?full) items1)"
    unfolding fill.simps Let_def keep_def items1_def by simp
  have new: "\<exists>a b. items1 = items @ a \<and> hit_pieces (one # rest) = b @ hit_pieces rest \<and> list_all2 kept_text a b"
  proof (cases "pc_hit one")
    case (Some rh)
    obtain rank h where rh: "rh = (rank, h)" by fastforce
    let ?w = "\<lparr>wn_rank = rank, wn_hit = h, wn_text = trim_suffix (drop (length (pc_head one)) (take keep ?full)) [CHR 0x0A]\<rparr>"
    have "drop (length (pc_head one)) (take keep ?full) = take (keep - length (pc_head one)) (pc_body one)"
      by (cases "keep \<le> length (pc_head one)") (simp_all add: min_def)
    then have "kept_text ?w one" using Some rh unfolding kept_text_def by (metis written.select_convs)
    moreover have "items1 = items @ [?w]" using Some rh by (simp add: items1_def)
    ultimately show ?thesis using Some by (intro exI [of _ "[?w]"] exI [of _ "[one]"]) simp
  qed (simp add: items1_def)
  consider (none) "pc_hit one \<noteq> None \<and> keep \<le> length (pc_head one)"
    | (cut) "\<not> (pc_hit one \<noteq> None \<and> keep \<le> length (pc_head one))" "keep < length ?full"
    | (whole) "\<not> (pc_hit one \<noteq> None \<and> keep \<le> length (pc_head one))" "\<not> keep < length ?full" by blast
  then show ?case
  proof cases
    case none
    then have "out' = out" "items' = items" using Cons.prems(1) unfolding f by simp_all
    then show ?thesis using Cons.prems(2) by (auto intro!: exI [of _ 0])
  next
    case cut
    then have r: "out' = out @ take keep ?full" "items' = items1" using Cons.prems(1) unfolding f by (auto split: if_splits)
    have "prefix (take keep ?full) (whole_file (one # rest))" by (metis append.assoc take_is_prefix prefix_prefix whole_file_simps(2))
    moreover obtain a b where "items1 = items @ a" "hit_pieces (one # rest) = b @ hit_pieces rest" "list_all2 kept_text a b" using new by blast
    then have "\<exists>new n. items1 = items @ new \<and> list_all2 kept_text new (take n (hit_pieces (one # rest)))"
      by (intro exI [of _ a] exI [of _ "length b"]) simp
    ultimately show ?thesis unfolding r using k Cons.prems(2) by (intro conjI exI [of _ "take keep ?full"]) simp_all
  next
    case whole
    then have kf: "take keep ?full = ?full" "keep = length ?full" using k by simp_all
    have r: "fill rest budget (out @ ?full) items1 = (out', items')" using Cons.prems(1) whole kf unfolding f by (simp split: if_splits)
    have l: "length (out @ ?full) \<le> budget" using k Cons.prems(2) kf by simp
    have ih: "length out' \<le> budget \<and> (\<exists>t. out' = (out @ ?full) @ t \<and> prefix t (whole_file rest)) \<and>
      (\<exists>new n. items' = items1 @ new \<and> list_all2 kept_text new (take n (hit_pieces rest)))"
      by (rule Cons.IH [OF r l])
    then obtain t new' n where t: "length out' \<le> budget" "out' = (out @ ?full) @ t" "prefix t (whole_file rest)"
      "items' = items1 @ new'" "list_all2 kept_text new' (take n (hit_pieces rest))" by blast
    moreover obtain a b where "items1 = items @ a" "hit_pieces (one # rest) = b @ hit_pieces rest" "list_all2 kept_text a b" using new by blast
    then have "items' = items @ (a @ new')" "list_all2 kept_text (a @ new') (take (length b + n) (hit_pieces (one # rest)))"
      using t by (simp_all add: list_all2_appendI)
    moreover have "out' = out @ (?full @ t)" "prefix (?full @ t) (whole_file (one # rest))" using t by simp_all
    ultimately show ?thesis by blast
  qed
qed

lemma fill_whole:
  assumes "length out + length (whole_file ps) \<le> budget" "\<forall>p \<in> set (hit_pieces ps). pc_body p \<noteq> []"
  shows "\<exists>new. fill ps budget out items = (out @ whole_file ps, items @ new) \<and>
    list_all2 (\<lambda>w p. pc_hit p = Some (wn_rank w, wn_hit w) \<and> wn_text w = trim_suffix (pc_body p) [CHR 0x0A]) new (hit_pieces ps)"
  using assms
proof (induction ps arbitrary: out items)
  case (Cons p ps)
  let ?full = "piece_text p"
  have fits: "\<not> length ?full > budget - length out" using Cons.prems(1) by simp
  show ?case
  proof (cases "pc_hit p")
    case None
    have "length (out @ ?full) + length (whole_file ps) \<le> budget" using Cons.prems(1) by simp
    from Cons.IH [OF this, of items] Cons.prems(2) obtain new where "fill ps budget (out @ ?full) items = ((out @ ?full) @ whole_file ps, items @ new)"
      "list_all2 (\<lambda>w p. pc_hit p = Some (wn_rank w, wn_hit w) \<and> wn_text w = trim_suffix (pc_body p) [CHR 0x0A]) new (hit_pieces ps)" using None by auto
    then show ?thesis using None fits by (auto simp: Let_def)
  next
    case (Some rh)
    obtain rank h where rh: "rh = (rank, h)" by fastforce
    let ?w = "\<lparr>wn_rank = rank, wn_hit = h, wn_text = trim_suffix (pc_body p) [CHR 0x0A]\<rparr>"
    have "length (out @ ?full) + length (whole_file ps) \<le> budget" using Cons.prems(1) by simp
    from Cons.IH [OF this, of "items @ [?w]"] Cons.prems(2) obtain new where n: "fill ps budget (out @ ?full) (items @ [?w]) = ((out @ ?full) @ whole_file ps, (items @ [?w]) @ new)"
      "list_all2 (\<lambda>w p. pc_hit p = Some (wn_rank w, wn_hit w) \<and> wn_text w = trim_suffix (pc_body p) [CHR 0x0A]) new (hit_pieces ps)" using Some by auto
    have "pc_body p \<noteq> []" using Cons.prems(2) Some by simp
    then have "fill (p # ps) budget out items = fill ps budget (out @ ?full) (items @ [?w])" using fits Some rh by (simp add: Let_def)
    then show ?thesis using n Some rh by (intro exI [of _ "?w # new"]) simp
  qed
qed simp


lemma trim_kept: "prefix (trim_suffix (take m (b @ [x])) [x]) b" "trim_suffix (b @ [x]) [x] = b"
proof -
  show "trim_suffix (b @ [x]) [x] = b" by (simp add: trim_suffix_def has_suffix_def has_prefix_def)
  have t: "prefix (trim_suffix s t) s" for s t by (simp add: trim_suffix_def take_is_prefix)
  show "prefix (trim_suffix (take m (b @ [x])) [x]) b"
  proof (cases "m \<le> length b")
    case True
    then have "take m (b @ [x]) = take m b" by simp
    then show ?thesis using t [of "take m b" "[x]"] take_is_prefix [of m b] prefix_order.trans by metis
  next
    case False
    then show ?thesis by (simp add: trim_suffix_def has_suffix_def has_prefix_def)
  qed
qed

lemma cutAt_fits: "length (if length t > n then take (cutAt t n) t else t) \<le> n"
  using boundary_le [of n t] by (simp add: cutAt_def min.coboundedI2)

lemma hit_pieces_pieces: "hit_pieces (pieces rd score4 h hits) = map (hit_piece rd score4 (hg_reports h)) (enumerate 1 hits)"
proof -
  have "hit_pieces (map (hit_piece rd score4 (hg_reports h)) xs) = map (hit_piece rd score4 (hg_reports h)) xs" for xs
    by (induction xs) (simp_all add: hit_piece_def)
  then show ?thesis by (simp add: pieces_def heading_piece_def)
qed

lemma nth_hit_piece:
  "k < length hits \<Longrightarrow> map (hit_piece rd score4 reports) (enumerate 1 hits) ! k = hit_piece rd score4 reports (k + 1, hits ! k)"
  by (simp add: nth_enumerate_eq)

lemma kept_items:
  assumes "list_all2 kept_text items (take n (map (hit_piece rd score4 reports) (enumerate 1 hits)))"
  shows "length items \<le> length hits"
    "k < length items \<Longrightarrow> wn_rank (items ! k) = k + 1 \<and> wn_hit (items ! k) = hits ! k \<and> prefix (wn_text (items ! k)) (Redact rd (ps_Text (ht_Passage (hits ! k))))"
proof -
  have l: "length items = min n (length hits)" using list_all2_lengthD [OF assms] by (simp add: min.commute)
  then show "length items \<le> length hits" by simp
  assume k: "k < length items"
  have "kept_text (items ! k) (hit_piece rd score4 reports (k + 1, hits ! k))"
    using list_all2_nthD [OF assms k] nth_hit_piece [of k hits] k l by simp
  then show "wn_rank (items ! k) = k + 1 \<and> wn_hit (items ! k) = hits ! k \<and> prefix (wn_text (items ! k)) (Redact rd (ps_Text (ht_Passage (hits ! k))))"
    using trim_kept(1) by (auto simp: kept_text_def hit_piece_def)
qed

lemma render_cases:
  assumes "render rd score4 h hits maxBytes = Some (file, items, was_cut)"
  obtains (whole) "\<not> was_cut" "int (length (whole_file (pieces rd score4 h hits))) \<le> maxBytes" "file = whole_file (pieces rd score4 h hits)"
      "length items = length hits" "\<And>k. k < length hits \<Longrightarrow> wn_rank (items ! k) = k + 1 \<and> wn_hit (items ! k) = hits ! k \<and> wn_text (items ! k) = Redact rd (ps_Text (ht_Passage (hits ! k)))"
  | (was_cut) out n where "was_cut" "0 \<le> maxBytes" "maxBytes < int (length (whole_file (pieces rd score4 h hits)))"
      "length out \<le> nat maxBytes - length (trailer maxBytes)" "prefix out (whole_file (pieces rd score4 h hits))"
      "file = (if length (out @ trailer maxBytes) > nat maxBytes then take (cutAt (out @ trailer maxBytes) (nat maxBytes)) (out @ trailer maxBytes) else out @ trailer maxBytes)"
      "list_all2 kept_text items (take n (map (hit_piece rd score4 (hg_reports h)) (enumerate 1 hits)))"
proof -
  let ?ps = "pieces rd score4 h hits"
  let ?total = "sum_list (map (\<lambda>p. length (piece_text p)) ?ps)"
  have total: "?total = length (whole_file ?ps)" by (simp add: whole_file_length)
  show thesis
  proof (cases "int ?total \<le> maxBytes")
    case True
    have "\<forall>p \<in> set (hit_pieces ?ps). pc_body p \<noteq> []" unfolding hit_pieces_pieces by (auto simp: hit_piece_def)
    then obtain new where n: "fill ?ps ?total [] [] = ([] @ whole_file ?ps, [] @ new)"
      "list_all2 (\<lambda>w p. pc_hit p = Some (wn_rank w, wn_hit w) \<and> wn_text w = trim_suffix (pc_body p) [CHR 0x0A]) new (hit_pieces ?ps)"
      using fill_whole [of "[]" ?ps ?total "[]"] total by auto
    have r: "\<not> was_cut" "file = whole_file ?ps" "items = new" using assms True n(1) by (auto simp: render_def Let_def)
    have l: "length items = length hits" using list_all2_lengthD [OF n(2) [unfolded hit_pieces_pieces]] r by simp
    have "wn_rank (items ! k) = k + 1 \<and> wn_hit (items ! k) = hits ! k \<and> wn_text (items ! k) = Redact rd (ps_Text (ht_Passage (hits ! k)))" if "k < length hits" for k
      using list_all2_nthD [OF n(2), of k] that r l nth_hit_piece [of k hits] trim_kept(2) unfolding hit_pieces_pieces by (simp add: hit_piece_def)
    then show thesis using whole True total r l by metis
  next
    case False
    then have nn: "\<not> maxBytes < 0" using assms by (auto simp: render_def Let_def)
    obtain out items' where f: "fill ?ps (nat maxBytes - length (trailer maxBytes)) [] [] = (out, items')" by fastforce
    have r: "was_cut" "items = items'" "file = (if length (out @ trailer maxBytes) > nat maxBytes then take (cutAt (out @ trailer maxBytes) (nat maxBytes)) (out @ trailer maxBytes) else out @ trailer maxBytes)"
      using assms False nn f by (auto simp: render_def Let_def)
    from fill_spec [OF f] obtain n where "length out \<le> nat maxBytes - length (trailer maxBytes)" "prefix out (whole_file ?ps)"
      "list_all2 kept_text items' (take n (map (hit_piece rd score4 (hg_reports h)) (enumerate 1 hits)))" unfolding hit_pieces_pieces by auto
    then show thesis using was_cut [OF r(1), of out n] r nn False total by simp
  qed
qed



lemma itoa_single_line: "single_line (itoa n)"
proof -
  have "32 \<le> (of_char c :: nat) \<and> c \<noteq> CHR 0x7F" if "c \<in> set (itoa n)" for c
    using itoa_digits [OF that] by (auto simp: is_digit_def less_eq_char_def)
  then show ?thesis by (simp add: single_line_def)
qed

lemma hit_line_single: "\<forall>s. single_line (score4 s) \<Longrightarrow> single_line (hit_line rd score4 reports rank h)"
  using itoa_single_line Printable_single_line by (simp add: hit_line_def)

text \<open>
  C24. Only a passage breaks a line.  The whole results file is two heading lines, then for each hit an
  empty line, one line that opens the result, an empty line and the redacted passage; the query and the
  name of a source, which others write, hold no line break and so open no result of their own.
\<close>

theorem only_passages_break_lines:
  assumes "single_line (hg_collection h)" "single_line (hg_generation h)" "\<forall>s. single_line (score4 s)"
  shows "\<exists>first query. single_line first \<and> single_line query \<and> (\<forall>rank hit. single_line (hit_line rd score4 (hg_reports h) rank hit)) \<and>
    whole_file (pieces rd score4 h hits) = ''# Retrieved from '' @ first @ [CHR 0x0A] @ ''# Query: '' @ query @ [CHR 0x0A] @
      (if hits = [] then [CHR 0x0A] @ nothingMatched @ [CHR 0x0A]
       else concat (map (\<lambda>(rank, hit). [CHR 0x0A] @ ''## '' @ hit_line rd score4 (hg_reports h) rank hit @ [CHR 0x0A, CHR 0x0A] @
              Redact rd (ps_Text (ht_Passage hit)) @ [CHR 0x0A]) (enumerate 1 hits)))"
proof -
  let ?first = "hg_collection h @ '' ('' @ mode_text (hg_mode h) @ '', generation '' @ hg_generation h @ '')''"
  let ?query = "Printable (str_join (str_fields (Redact rd (hg_query h))) '' '')"
  have "single_line (mode_text (hg_mode h))" by (cases "hg_mode h") (simp_all add: mode_text_def)
  then have "single_line ?first" using assms by simp
  moreover have "whole_file (map (hit_piece rd score4 r) xs) = concat (map (\<lambda>(rank, hit). [CHR 0x0A] @ ''## '' @ hit_line rd score4 r rank hit @ [CHR 0x0A, CHR 0x0A] @
      Redact rd (ps_Text (ht_Passage hit)) @ [CHR 0x0A]) xs)" for r xs
    by (induction xs) (auto simp: hit_piece_def)
  then have "whole_file (pieces rd score4 h hits) = ''# Retrieved from '' @ ?first @ [CHR 0x0A] @ ''# Query: '' @ ?query @ [CHR 0x0A] @
      (if hits = [] then [CHR 0x0A] @ nothingMatched @ [CHR 0x0A]
       else concat (map (\<lambda>(rank, hit). [CHR 0x0A] @ ''## '' @ hit_line rd score4 (hg_reports h) rank hit @ [CHR 0x0A, CHR 0x0A] @
              Redact rd (ps_Text (ht_Passage hit)) @ [CHR 0x0A]) (enumerate 1 hits)))"
    by (simp add: pieces_def heading_piece_def)
  ultimately show ?thesis using Printable_single_line hit_line_single [OF assms(3)] by blast
qed

subsection \<open>What a retrieval hands over\<close>





lemma render_items:
  assumes "render rd score4 h hits maxBytes = Some (file, items, was_cut)"
  shows "int (length file) \<le> maxBytes" "map wn_hit items = take (length items) hits" "map wn_rank items = [1..<Suc (length items)]"
    "list_all2 (\<lambda>t h. prefix t (Redact rd (ps_Text (ht_Passage h)))) (map wn_text items) (map wn_hit items)"
proof -
  have k: "length items \<le> length hits \<and> (\<forall>k < length items. wn_rank (items ! k) = k + 1 \<and> wn_hit (items ! k) = hits ! k \<and>
     prefix (wn_text (items ! k)) (Redact rd (ps_Text (ht_Passage (hits ! k)))))"
    using assms
  proof (cases rule: render_cases)
    case (was_cut out n)
    show ?thesis using kept_items [OF was_cut(7)] by blast
  qed simp
  show "int (length file) \<le> maxBytes" using assms
  proof (cases rule: render_cases)
    case (was_cut out n)
    then show ?thesis using cutAt_fits [of "nat maxBytes" "out @ trailer maxBytes"] unfolding was_cut(6) [symmetric] by linarith
  qed simp
  show "map wn_hit items = take (length items) hits" using k by (intro nth_equalityI) simp_all
  show "map wn_rank items = [1..<Suc (length items)]" using k by (intro nth_equalityI) (simp_all del: upt_Suc)
  show "list_all2 (\<lambda>t h. prefix t (Redact rd (ps_Text (ht_Passage h)))) (map wn_text items) (map wn_hit items)"
    using k by (simp add: list_all2_conv_all_nth)
qed

lemma hand_over_done:
  assumes "hand_over lib stage workDir sn declared c row (g, found) work = Some (work', one, None)"
  obtains data items hits where "rd_Results one = Some data" "map_of work' (results_path workDir declared) = Some data"
    "int (length data) \<le> ByteBound declared" "rt_ResultsBytes (rd_Record one) = length data" "rt_Generation (rd_Record one) = gn_ID g"
    "rt_Items (rd_Record one) = map (item_of lib) items" "rd_Contents one = map wn_text items" "map wn_hit items = hits" "prefix hits found"
    "int (length hits) \<le> ResultCount declared" "map wn_rank items = [1..<Suc (length items)]" "rt_Sequence (rd_Record one) = rt_Sequence row"
    "rt_Outcome (rd_Record one) \<noteq> RetrievalRefused"
    "list_all2 (\<lambda>t h. prefix t (Redact (rs_Redactor stage) (ps_Text (ht_Passage h)))) (map wn_text items) (map wn_hit items)"
proof -
  obtain capped more where cap: "capResults found (ResultCount declared) = Some (capped, more)"
    using assms by (auto simp: hand_over_def Let_def split: option.splits)
  obtain h data items was_cut where r: "render (rs_Redactor stage) (rl_score4 lib) h capped (ByteBound declared) = Some (data, items, was_cut)"
    and one: "work' = map_set (results_path workDir declared) data work" "one = \<lparr>rd_Record = row\<lparr>rt_Generation := gn_ID g, rt_Identity := gn_Identity g, rt_GenerationBuiltAt := gn_BuiltAt g,
         rt_Outcome := (if items = [] then RetrievalEmpty else RetrievalFound), rt_ResultsBytes := length data,
         rt_CountTruncated := more, rt_BytesTruncated := was_cut, rt_Items := map (item_of lib) items\<rparr>, rd_Results = Some data, rd_Contents = map wn_text items\<rparr>"
    using assms cap by (auto simp: hand_over_def Let_def refuse_row_def split: option.splits)
  have c: "int (length capped) \<le> ResultCount declared" "prefix capped found"
    using cap by (auto simp: capResults_def take_is_prefix split: if_splits)
  note i = render_items [OF r]
  have "length (map wn_hit items) \<le> length capped" using i(2) by (metis length_take min.cobounded1)
  moreover have "prefix (map wn_hit items) found" using i(2) c(2) take_is_prefix prefix_order.trans by metis
  ultimately show thesis using that [of data items "map wn_hit items"] one i c(1) by simp
qed

lemma stage_retrieve_done:
  assumes "stage_retrieve lib stage cwd workDir sn at declared trigger st = Some (st', one, None)"
  obtains c query truncated db g found work row where "stage_collection stage (Collection declared) = (Some c, None)"
    "queryOf (rs_Config stage) (sn_read sn) workDir declared trigger (rv_work st) = Inr (query, truncated)"
    "stage_search lib stage cwd sn c query (nat (ResultCount declared + 1)) (case map_of (rv_indexes st) (cl_Name c) of Some db \<Rightarrow> db | None \<Rightarrow> empty_index) = Some (db, Inr (g, found))"
    "st' = st\<lparr>rv_indexes := map_set (cl_Name c) db (rv_indexes st), rv_work := work\<rparr>" "rt_Sequence row = at + 1"
    "hand_over lib stage workDir sn declared c row (g, found) (rv_work st) = Some (work, one, None)"
proof -
  obtain collection err where c: "stage_collection stage (Collection declared) = (collection, err)" by fastforce
  then obtain col where col: "collection = Some col" "err = None"
    using assms by (cases err; cases collection) (auto simp: stage_retrieve_def refuse_row_def)
  obtain query truncated where q: "queryOf (rs_Config stage) (sn_read sn) workDir declared trigger (rv_work st) = Inr (query, truncated)" "Searchable (rl_indexed lib) query"
  proof (cases "queryOf (rs_Config stage) (sn_read sn) workDir declared trigger (rv_work st)")
    case (Inr qt)
    obtain q t where qt: "qt = (q, t)" by fastforce
    show thesis
    proof (cases "Searchable (rl_indexed lib) q")
      case False
      then show thesis using assms c col Inr qt by (simp add: stage_retrieve_def refuse_row_def)
    qed (use that [of q t] Inr qt in simp)
  qed (use assms c col in \<open>simp add: stage_retrieve_def refuse_row_def\<close>)
  let ?db = "case map_of (rv_indexes st) (cl_Name col) of Some db \<Rightarrow> db | None \<Rightarrow> empty_index"
  obtain db g found where s: "stage_search lib stage cwd sn col query (nat (ResultCount declared + 1)) ?db = Some (db, Inr (g, found))"
  proof (cases "stage_search lib stage cwd sn col query (nat (ResultCount declared + 1)) ?db")
    case (Some r)
    obtain db x where r: "r = (db, x)" by fastforce
    show thesis
    proof (cases x)
      case (Inl e)
      then show thesis using assms c col q Some r by (simp add: stage_retrieve_def refuse_row_def)
    next
      case (Inr gf)
      then show thesis using that [of db "fst gf" "snd gf"] Some r by simp
    qed
  qed (use assms c col q in \<open>simp add: stage_retrieve_def\<close>)
  show thesis using assms c col q s by (auto simp: stage_retrieve_def first_row_def intro!: that)
qed



lemma hand_over_refused:
  "hand_over lib stage workDir sn declared c row found work = Some (work', one, Some e) \<Longrightarrow>
     \<exists>row'. rt_Sequence row' = rt_Sequence row \<and> refuse_row lib row' e = (one, Some e)"
  by (rule exI [of _ "row\<lparr>rt_Generation := gn_ID (fst found), rt_Identity := gn_Identity (fst found), rt_GenerationBuiltAt := gn_BuiltAt (fst found)\<rparr>"])
    (auto simp: hand_over_def Let_def refuse_row_def split: option.splits)

lemma refuse_row_self: "refuse_row lib row e' = (one, Some e) \<Longrightarrow> refuse_row lib row e = (one, Some e)"
  by (auto simp: refuse_row_def)

lemma stage_retrieve_refused:
  assumes "stage_retrieve lib stage cwd workDir sn at declared trigger st = Some (st', one, Some e)"
  shows "\<exists>row. rt_Sequence row = at + 1 \<and> refuse_row lib row e = (one, Some e)"
proof -
  obtain collection err where c: "stage_collection stage (Collection declared) = (collection, err)" by fastforce
  define row where "row = (first_row at declared)\<lparr>rt_Mode := (case collection of Some c \<Rightarrow> if collection_Mode c = Semantic then RetrievalSemantic else RetrievalLexical
      | None \<Rightarrow> RetrievalLexical)\<rparr>"
  have row: "rt_Sequence (row\<lparr>rt_Query := q, rt_QueryTruncated := t\<rparr>) = at + 1" "rt_Sequence row = at + 1" for q t by (simp_all add: row_def first_row_def)
  show ?thesis
  proof (cases "err = None \<and> collection \<noteq> None")
    case False
    then have "\<exists>e'. refuse_row lib row e' = (one, Some e)" using assms c by (cases err; cases collection) (auto simp: stage_retrieve_def row_def intro!: exI)
    then show ?thesis using row refuse_row_self by blast
  next
    case True
    then obtain col where col: "collection = Some col" "err = None" by blast
    show ?thesis
    proof (cases "queryOf (rs_Config stage) (sn_read sn) workDir declared trigger (rv_work st)")
      case (Inl f)
      then have "refuse_row lib row f = (one, Some e)" using assms c col by (simp add: stage_retrieve_def row_def)
      then show ?thesis using row refuse_row_self by blast
    next
      case (Inr qt)
      obtain q t where qt: "qt = (q, t)" by fastforce
      let ?row = "row\<lparr>rt_Query := q, rt_QueryTruncated := t\<rparr>"
      let ?search = "stage_search lib stage cwd sn col q (nat (ResultCount declared + 1)) (case map_of (rv_indexes st) (cl_Name col) of Some db \<Rightarrow> db | None \<Rightarrow> empty_index)"
      have eq: "stage_retrieve lib stage cwd workDir sn at declared trigger st =
        (if \<not> Searchable (rl_indexed lib) q then Some (st, refuse_row lib ?row (EmptyQuery t))
         else case ?search of None \<Rightarrow> None | Some (db, r) \<Rightarrow>
           let st1 = st\<lparr>rv_indexes := map_set (cl_Name col) db (rv_indexes st)\<rparr> in
           (case r of Inl e \<Rightarrow> Some (st1, refuse_row lib ?row (if sn_late sn then TookTooLong (cl_RetrievalTimeout col) e else e))
            | Inr found \<Rightarrow> map_option (\<lambda>(work, rest). (st1\<lparr>rv_work := work\<rparr>, rest)) (hand_over lib stage workDir sn declared col ?row found (rv_work st))))"
        by (simp only: stage_retrieve_def c col Inr qt prod.case option.case sum.case row_def Let_def)
      consider e' where "refuse_row lib ?row e' = (one, Some e)"
        | found work where "hand_over lib stage workDir sn declared col ?row found (rv_work st) = Some (work, one, Some e)"
        using assms unfolding eq by (auto simp: Let_def split: if_splits option.splits sum.splits)
      then show ?thesis
      proof cases
        case 1
        then show ?thesis using row refuse_row_self by blast
      next
        case 2
        from hand_over_refused [OF this] show ?thesis using row by metis
      qed
    qed
  qed
qed

lemma stage_retrieve_row:
  assumes "stage_retrieve lib stage cwd workDir sn at declared trigger st = Some (st', one, err)"
  shows "rt_Sequence (rd_Record one) = at + 1" "rt_Outcome (rd_Record one) = RetrievalRefused \<longleftrightarrow> err \<noteq> None"
    "err = Some e \<Longrightarrow> rt_Error (rd_Record one) = rl_text lib e"
proof -
  have "rt_Sequence (rd_Record one) = at + 1 \<and> (rt_Outcome (rd_Record one) = RetrievalRefused \<longleftrightarrow> err \<noteq> None) \<and> (err = Some e \<longrightarrow> rt_Error (rd_Record one) = rl_text lib e)"
  proof (cases err)
    case None
    with assms have "stage_retrieve lib stage cwd workDir sn at declared trigger st = Some (st', one, None)" by simp
    then show ?thesis using None by (elim stage_retrieve_done hand_over_done) simp
  next
    case (Some f)
    with assms have "stage_retrieve lib stage cwd workDir sn at declared trigger st = Some (st', one, Some f)" by simp
    from stage_retrieve_refused [OF this] show ?thesis using Some by (auto simp: refuse_row_def)
  qed
  then show "rt_Sequence (rd_Record one) = at + 1" "rt_Outcome (rd_Record one) = RetrievalRefused \<longleftrightarrow> err \<noteq> None"
    "err = Some e \<Longrightarrow> rt_Error (rd_Record one) = rl_text lib e" by blast+
qed

definition reached_ok :: "retrieve_lib \<Rightarrow> nat \<Rightarrow> retrieval list \<Rightarrow> retrieved list \<Rightarrow> refused option \<Rightarrow> bool" where
  "reached_ok lib at declared reached err \<longleftrightarrow>
     map (\<lambda>r. rt_Sequence (rd_Record r)) reached = [at + 1..<at + 1 + length reached] \<and> length reached \<le> length declared \<and>
     (case err of
        None \<Rightarrow> length reached = length declared \<and> (\<forall>r \<in> set reached. rt_Outcome (rd_Record r) \<noteq> RetrievalRefused)
      | Some (Refused p n e) \<Rightarrow> reached \<noteq> [] \<and> p + 1 = at + length reached \<and> n = Collection (declared ! (length reached - 1)) \<and>
          (\<forall>r \<in> set (butlast reached). rt_Outcome (rd_Record r) \<noteq> RetrievalRefused) \<and>
          rt_Outcome (rd_Record (last reached)) = RetrievalRefused \<and> rt_Error (rd_Record (last reached)) = rl_text lib e)"

lemma reached_ok_Cons:
  assumes "reached_ok lib (at + 1) rest later err" "rt_Sequence (rd_Record one) = at + 1" "rt_Outcome (rd_Record one) \<noteq> RetrievalRefused"
  shows "reached_ok lib at (declared # rest) (one # later) err"
  using assms by (auto simp: reached_ok_def upt_conv_Cons nth_Cons' simp del: upt_Suc split: option.splits refused.splits)

lemma retrieve_loop_reached:
  "retrieve_each lib stage cwd workDir meets at ds trigger acc st = Some (st', reached, err) \<Longrightarrow>
     \<exists>later. reached = acc @ later \<and> reached_ok lib at ds later err"
proof (induction ds arbitrary: at acc st)
  case Nil
  then show ?case by (simp add: reached_ok_def)
next
  case (Cons d ds)
  obtain st1 one e where s: "stage_retrieve lib stage cwd workDir (meets at) at d trigger st = Some (st1, one, e)"
    using Cons.prems by (auto split: option.splits prod.splits)
  note row = stage_retrieve_row [OF s]
  show ?case
  proof (cases e)
    case None
    then have "retrieve_each lib stage cwd workDir meets (at + 1) ds trigger (acc @ [one]) st1 = Some (st', reached, err)" using Cons.prems s by simp
    from Cons.IH [OF this] obtain later where "reached = (acc @ [one]) @ later" "reached_ok lib (at + 1) ds later err" by blast
    then show ?thesis using reached_ok_Cons [of lib at ds later err one d] row None by (intro exI [of _ "one # later"]) simp
  next
    case (Some f)
    then have "reached = acc @ [one]" "err = Some (Refused at (Collection d) f)" using Cons.prems s by simp_all
    then show ?thesis using row(1,2) row(3) [OF Some] Some by (intro exI [of _ "[one]"]) (simp add: reached_ok_def)
  qed
qed

text \<open>
  The stage stops at the first retrieval that is refused.  What it returns are the retrievals it
  reached, numbered from one in declared order.  When none is refused they are all of them; otherwise the
  last one, and it alone, is recorded as refused with the text of its error, and the error names its
  position and its collection.
\<close>

theorem retrieve_Run_stops_at_the_first_refusal:
  assumes "retrieve_Run lib stage cwd workDir meets retrievals trigger st = Some (st', reached, err)"
  shows "map (\<lambda>r. rt_Sequence (rd_Record r)) reached = [1..<1 + length reached] \<and> length reached \<le> length retrievals \<and>
     (case err of
        None \<Rightarrow> length reached = length retrievals \<and> (\<forall>r \<in> set reached. rt_Outcome (rd_Record r) \<noteq> RetrievalRefused)
      | Some (Refused p n e) \<Rightarrow> reached \<noteq> [] \<and> p + 1 = length reached \<and> n = Collection (retrievals ! p) \<and>
          (\<forall>r \<in> set (butlast reached). rt_Outcome (rd_Record r) \<noteq> RetrievalRefused) \<and>
          rt_Outcome (rd_Record (last reached)) = RetrievalRefused \<and> rt_Error (rd_Record (last reached)) = rl_text lib e)"
  using retrieve_loop_reached [OF assms [unfolded retrieve_Run_def]]
  by (auto simp: reached_ok_def split: option.splits refused.splits simp del: upt_Suc) (drule sym [of "Suc n" for n], simp)


subsection \<open>A retrieval\<close>

definition demo_hit :: hit where
  "demo_hit = \<lparr>ht_Passage = \<lparr>ps_Source = ''a.md'', ps_Ordinal = 1, ps_Offset = 0, ps_Text = ''disk is full''\<rparr>, ht_Score = 5\<rparr>"

definition demo_heading :: heading where
  "demo_heading = \<lparr>hg_collection = ''docs'', hg_mode = RetrievalLexical, hg_generation = ''abc'', hg_query = ''disk'' @ [CHR 0x0A] @ ''## 1. mine'', hg_reports = False\<rparr>"

definition demo_owner :: owner_env where
  "demo_owner = \<lparr>ow_stat = Absent, ow_create = None, ow_raced = None, ow_uid = 1000, ow_chmod = None, ow_writable = None\<rparr>"

text \<open>The directory is empty when it is walked; another update commits a passage before the search begins.\<close>

definition demo_meets :: search_run where
  "demo_meets = \<lparr>sn_root = Inr ''/docs'', sn_entries = [], sn_mkdir = None, sn_owner = (\<lambda>_. demo_owner), sn_opened = None, sn_open = [demo_attempt],
     sn_rounds = [Index.demo_round], sn_search = [demo_attempt\<lparr>at_others := (\<lambda>db. db\<lparr>ix_passages := [ht_Passage demo_hit]\<rparr>)\<rparr>],
     sn_late = False, sn_read = None, sn_write = None\<rparr>"

definition demo_lib :: retrieve_lib where
  "demo_lib = \<lparr>rl_sha = demo_sha, rl_quote = (\<lambda>s. s), rl_tokens = (\<lambda>_. []), rl_indexed = (\<lambda>r. r \<noteq> '' ''), rl_bm25 = (\<lambda>_ p. Some (int (length (ps_Text p)))),
     rl_score4 = (\<lambda>n. itoa (nat n)), rl_score = (\<lambda>n. itoa (nat n)), rl_text = (\<lambda>_. ''refused'')\<rparr>"

definition demo_retrieve_stage :: retrieve_stage where
  "demo_retrieve_stage = \<lparr>rs_Catalog = Some [(''docs'', \<lparr>cl_Name = ''docs'', cl_Directory = ''/docs'', cl_Reports = None, cl_Embeddings = None, cl_RetrievalTimeout = minute\<rparr>)],
     rs_IndexDir = ''/state'', rs_Config = Some (example_config ''/src''), rs_Redactor = None, rs_Store = None\<rparr>"

definition demo_retrieval :: retrieval where
  "demo_retrieval = \<lparr>Collection = ''docs'', Query = ''disk'', QueryFrom = [], retr_As = ''results.md'', MaxResults = 0, MaxBytes = 0\<rparr>"

definition demo_started :: retrieve_state where "demo_started = \<lparr>rv_work = [], rv_indexes = []\<rparr>"


theorem only_passages_break_lines_witness:
  "\<exists>first query. single_line first \<and> single_line query \<and>
     prefix (''# Retrieved from '' @ first @ [CHR 0x0A] @ ''# Query: '' @ query @ [CHR 0x0A]) (whole_file (pieces None (\<lambda>_. ''0.5'') demo_heading [demo_hit]))"
proof -
  have "single_line (hg_collection demo_heading)" "single_line (hg_generation demo_heading)" "\<forall>s :: int. single_line ''0.5''" by (simp_all add: demo_heading_def)
  from only_passages_break_lines [OF this, of None "[demo_hit]"] obtain first query rest where
    r: "single_line first" "single_line query" "whole_file (pieces None (\<lambda>_. ''0.5'') demo_heading [demo_hit]) =
      ''# Retrieved from '' @ first @ [CHR 0x0A] @ ''# Query: '' @ query @ [CHR 0x0A] @ rest" by blast
  then show ?thesis by (intro exI [of _ first] exI [of _ query]) simp
qed




definition demo_reached :: "(retrieve_state \<times> retrieved list \<times> refused option) option" where
  "demo_reached = retrieve_Run demo_lib demo_retrieve_stage ''/'' ''/run'' (\<lambda>_. demo_meets)
     [demo_retrieval, demo_retrieval\<lparr>Collection := ''gone''\<rparr>, demo_retrieval] [] demo_started"

theorem retrieve_Run_stops_at_the_first_refusal_witness:
  "case demo_reached of Some (st, reached, Some (Refused p n e)) \<Rightarrow> p = 1 \<and> n = ''gone'' \<and> rt_Outcome (rd_Record (last reached)) = RetrievalRefused \<and> length reached = 2
   | _ \<Rightarrow> False"
proof -
  have "case demo_reached of Some (st, reached, Some (Refused p n e)) \<Rightarrow> p = 1 \<and> n = ''gone'' | _ \<Rightarrow> False" by code_simp
  then obtain st reached p n e where r: "demo_reached = Some (st, reached, Some (Refused p n e))" "p = 1" "n = ''gone''"
    by (auto split: option.splits refused.splits) (metis refused.exhaust)
  show ?thesis unfolding r(1) option.case prod.case refused.case
    using r(2,3) retrieve_Run_stops_at_the_first_refusal [OF r(1) [unfolded demo_reached_def]] by simp
qed

end
