(* ===== verification/Stages.thy ===== *)
theory Stages
  imports Agent Gather Retrieve_Stage
begin

text \<open>
  How the stages of a run fit together.  The executor takes its agent stage and its catalogue as
  functions; here they are the modelled ones, wired the way \<open>run/execute.go\<close> and \<open>run/replay.go\<close> wire
  them: the agent runs with the declaration of the playbook that was admitted and with \<open>CheckReceipt\<close> of
  that declaration as its callback, and a server is resolved from the MCP catalogue.  The texts of errors
  are parameters.
\<close>

subsection \<open>The agent stage of a run\<close>

definition stage_of :: "(receipt_error \<Rightarrow> string) \<Rightarrow> agent_outcome \<Rightarrow> stage" where
  "stage_of mismatch oc =
     \<lparr>sg_Raw = str_Raw (oc_Stream oc),
      sg_Init = map_option (\<lambda>e. (ae_SessionID e, ae_APIKeySource e)) (str_Init (oc_Stream oc)),
      sg_Result = map_option (\<lambda>e. \<lparr>sg_Cost = ae_TotalCost e, sg_Tokens = Usage_Total (ae_Usage e), sg_Denials = ae_PermissionDenials e\<rparr>)
        (str_Result (oc_Stream oc)),
      sg_Calls = map (\<lambda>c. \<lparr>sc_Name = call_Name c, sc_Input = call_Input c, sc_Output = call_Output c, sc_StartedAt = call_StartedAt c,
        sc_Outcome = call_Outcome c\<rparr>) (co_calls (str_calls (oc_Stream oc))),
      sg_Aborted = map_option mismatch (oc_Aborted oc), sg_TimedOut = oc_TimedOut oc, sg_DecodeErr = oc_DecodeErr oc,
      sg_Report = (case outcome_Report oc of None \<Rightarrow> Inl ''the agent process produced no terminal event'' | Some r \<Rightarrow> Inr r)\<rparr>"

definition agent_stage ::
  "(receipt_error \<Rightarrow> string) \<Rightarrow> (agent_error \<Rightarrow> string) \<Rightarrow> agent_env \<Rightarrow> string \<Rightarrow> playbook \<Rightarrow> agent_options \<Rightarrow> (string, stage) result" where
  "agent_stage mismatch failure ag workDir book opts =
     (let decl = declarationOf book in
      case agent_Run ag decl (CheckReceipt decl) workDir (ao_Prompt opts) (ao_Timeout opts) (ao_Servers opts) of
        Inl e \<Rightarrow> Inl (failure e) | Inr oc \<Rightarrow> Inr (stage_of mismatch oc))"

definition catalog_stage ::
  "(string mcp_resolve_error \<Rightarrow> string) \<Rightarrow> (server_json \<Rightarrow> string) \<Rightarrow> mcp_entry gomap \<Rightarrow> (string \<Rightarrow> (string, string) result) \<Rightarrow> string \<Rightarrow> (string, string) result" where
  "catalog_stage problem encode c interpolate n =
     (case mcp_Resolve c n interpolate of Inl e \<Rightarrow> Inl (problem e) | Inr server \<Rightarrow> Inr (encode server))"

text \<open>A stage that was not aborted reported nothing wider than its declaration.\<close>

definition start_up :: "agent_event \<Rightarrow> bool" where "start_up e \<longleftrightarrow> ae_Type e = ''system'' \<and> ae_Subtype e = ''init''"

definition child_bounded :: "agent_env \<Rightarrow> agent_declaration \<Rightarrow> child_run \<Rightarrow> bool" where
  "child_bounded ag decl child \<longleftrightarrow>
     (\<forall>line \<in> set (ch_lines child). \<forall>e. dc_event (ag_decoders ag) line = Some e \<and> start_up e \<longrightarrow> within_bound decl e)"

lemma unaborted_bounded:
  assumes "agent_Run ag decl (CheckReceipt decl) workDir prompt timeout servers = Inr oc" "oc_Aborted oc = None"
  shows "child_bounded ag decl (ag_child ag (oc_ArgvUsed oc) prompt (stage_limit timeout))"
proof -
  from assms(1) obtain args child end' where c: "child = ag_child ag args prompt (stage_limit timeout)"
    and d: "Decode (ag_decoders ag) (CheckReceipt decl) (ch_scan child) (ch_lines child) no_stream = (oc_Stream oc, end')"
    and ab: "oc_Aborted oc = (case end' of RefusedByCallback e \<Rightarrow> Some e | _ \<Rightarrow> None)" and a: "oc_ArgvUsed oc = args"
    by (rule agent_Run_Inr)
  have np: "end' \<noteq> Panicked" using Decode_calls [OF d] by (simp add: no_stream_def)
  have "\<forall>line \<in> set (ch_lines child). \<forall>e. dc_event (ag_decoders ag) line = Some e \<longrightarrow> CheckReceipt decl e = None"
    using Decode_stops [OF d] ab assms(2) np by (cases end') auto
  then show ?thesis unfolding child_bounded_def a c [symmetric] start_up_def by (auto simp: CheckReceipt_None)
qed

subsection \<open>When the sinks are asked\<close>

lemma events_fence: "run_fence env x = (y, e) \<Longrightarrow> \<exists>ok. x_events y = x_events x @ [Fenced ok]"
  by (auto simp: run_fence_def event_def split: prod.splits)

lemma events_kept [simp]:
  "x_events (finished runID x) = x_events x" "x_events (set_status st why x) = x_events x" "x_events (stoppedByTheGuard x) = x_events x"
  "x_events (loop_decides env at x) = x_events x" "x_events (recordStage env runID sg x) = x_events x"
  using recorded_stage [of x env runID sg]
  by (simp_all add: finished_def set_status_def stoppedByTheGuard_def loop_decides_def recorded_def Let_def split: option.splits)

lemma asked_by_agentAndSinks:
  assumes "SinksAsked \<in> set (x_events (agentAndSinks env runID book prompt trigger x))" "SinksAsked \<notin> set (x_events x)"
  shows "\<exists>opts sg. ev_agent env opts = Inr sg \<and> sg_Aborted sg = None \<and> \<not> sg_TimedOut sg"
proof (rule ccontr)
  assume no: "\<nexists>opts sg. ev_agent env opts = Inr sg \<and> sg_Aborted sg = None \<and> \<not> sg_TimedOut sg"
  have stage: "SinksAsked \<notin> set (x_events (after_agent env runID book timeout sinks sg y))"
    if "ev_agent env opts = Inr sg" "SinksAsked \<notin> set (x_events y)" for opts sg timeout sinks y
  proof -
    have "sg_Aborted sg \<noteq> None \<or> sg_TimedOut sg" using no that(1) by metis
    then show ?thesis using that(2) by (auto simp: after_agent_def Let_def split: option.splits)
  qed
  obtain sinks refusals where B: "Build (build_options_of env book trigger) (declarationsOf book) = (sinks, refusals)" by fastforce
  obtain x1 e where F: "run_fence env x = (x1, e)" by fastforce
  have x1: "SinksAsked \<notin> set (x_events x1)" "SinksAsked \<notin> set (x_events (event AgentRan x1))"
    using events_fence [OF F] assms(2) by (auto simp: event_def)
  have "SinksAsked \<notin> set (x_events (agentAndSinks env runID book prompt trigger x))"
    using assms(2) x1 stage [OF _ x1(2)] by (auto simp: agentAndSinks_def B F split: sum.splits option.splits if_splits)
  then show False using assms(1) by simp
qed

text \<open>Before the agent a run asks no sink.\<close>

lemma phases_late: "phases p es = Some q \<Longrightarrow> p \<in> {Delivering, Stopped} \<Longrightarrow> q \<in> {Delivering, Stopped}"
proof (induction es arbitrary: p)
  case (Cons e es)
  then obtain r where r: "phase_after p e = Some r" "phases r es = Some q" by (auto split: option.splits)
  then have "r \<in> {Delivering, Stopped}" using Cons.prems(2) by (cases "(p, e)" rule: phase_after.cases) (auto split: if_splits)
  then show ?case using Cons.IH [OF r(2)] by blast
qed auto

lemma early_asks_nothing:
  assumes "phases p es = Some q" "q \<notin> {Delivering, Stopped}"
  shows "SinksAsked \<notin> set es"
proof
  assume "SinksAsked \<in> set es"
  then obtain as bs where es: "es = as @ SinksAsked # bs" by (meson split_list)
  then obtain r s where r: "phase_after r SinksAsked = Some s" "phases s bs = Some q"
    using assms(1) by (auto simp: phases_append split: option.splits)
  then have "s \<in> {Delivering, Stopped}" by (cases "(r, SinksAsked)" rule: phase_after.cases) auto
  then show False using phases_late [OF r(2)] assms(2) by blast
qed

lemma stepped_early: "stepped p x q y \<Longrightarrow> q \<notin> {Delivering, Stopped} \<Longrightarrow> SinksAsked \<notin> set (x_events x) \<Longrightarrow> SinksAsked \<notin> set (x_events y)"
  using early_asks_nothing by (auto simp: stepped_def)

lemma asked_by_execute_body:
  assumes "SinksAsked \<in> set (x_events (execute_body env runID book trigger x))" "SinksAsked \<notin> set (x_events x)"
  shows "\<exists>opts sg. ev_agent env opts = Inr sg \<and> sg_Aborted sg = None \<and> \<not> sg_TimedOut sg"
proof -
  obtain x1 ref where 1: "storeResolved env runID book x = (x1, ref)" by fastforce
  let ?x1 = "x1\<lparr>x_outcome := (x_outcome x1)\<lparr>ResolvedPlaybookRef := ref\<rparr>\<rparr>"
  obtain x2 ge where 2: "exec_gather env runID book trigger ?x1 = (x2, ge)" by fastforce
  obtain x3 re where 3: "exec_retrieve env runID book trigger x2 = (x3, re)" by fastforce
  obtain x4 pr where 4: "exec_prompt env runID book (if trig_Type (pb_Trigger book) = ''webhook'' then [] else trigger) x3 = (x4, pr)" by fastforce
  have e1: "SinksAsked \<notin> set (x_events ?x1)" by (rule stepped_early [OF stepped_resolved [OF 1, of Preparing] _ assms(2)]) simp
  have e2: "SinksAsked \<notin> set (x_events x2)" using stepped_gather [OF 2] stepped_early [OF _ _ e1] by blast
  obtain q where "q \<in> {Gathered, Retrieved}" "stepped Gathered x2 q x3" using stepped_retrieve [OF 3] by blast
  then have e3: "SinksAsked \<notin> set (x_events x3)" using stepped_early [OF _ _ e2] by blast
  have e4: "SinksAsked \<notin> set (x_events x4)" using recorded_prompt [OF 4] e3 by (simp add: recorded_def)
  show ?thesis
  proof (cases "ge = None \<and> re = None \<and> \<not> isl pr")
    case True
    then obtain pp where pp: "pr = Inr pp" by (metis sum.collapse(2))
    let ?x4 = "x4\<lparr>x_outcome := (x_outcome x4)\<lparr>PromptRef := snd pp\<rparr>\<rparr>"
    have "execute_body env runID book trigger x = agentAndSinks env runID book (fst pp) trigger ?x4"
      using True pp by (cases pp) (simp add: execute_body_def 1 2 3 4)
    then show ?thesis using asked_by_agentAndSinks [of env runID book "fst pp" trigger ?x4] assms(1) e4 by simp
  next
    case False
    then show ?thesis using assms(1) e2 e3 e4
      by (auto simp: execute_body_def 1 2 3 4 isl_def split: option.splits sum.splits)
  qed
qed

text \<open>
  C7. Sinks hear only from an agent that stayed within its playbook.  Wire the modelled agent stage into
  a run.  If the run asks a sink at all, the agent's process was started with the declaration of the
  playbook that was admitted, it was neither aborted nor timed out, and every start-up event it reported
  names only tools and servers of that declaration.  A process that reports more leaves the network as
  it was.
\<close>

theorem sinks_hear_a_bounded_agent:
  assumes "Execute env g aenv newID book kind due trigger x = (x', Inr out)"
    and wired: "\<And>x1 adm. admitTrigger g aenv newID book kind due trigger x = (x1, Inr adm) \<Longrightarrow>
      ev_agent env = agent_stage mismatch failure ag workDir (ad_Book adm)"
  shows "\<exists>x1 adm. admitTrigger g aenv newID book kind due trigger x = (x1, Inr adm) \<and>
    (let decl = declarationOf (ad_Book adm) in
     (SinksAsked \<notin> set (x_events x') \<and> x_net x' = x_net x) \<or>
     (\<exists>(opts :: agent_options) oc. agent_Run ag decl (CheckReceipt decl) workDir (ao_Prompt opts) (ao_Timeout opts) (ao_Servers opts) = Inr oc \<and>
        oc_Aborted oc = None \<and> \<not> oc_TimedOut oc \<and>
        child_bounded ag decl (ag_child ag (oc_ArgvUsed oc) (ao_Prompt opts) (stage_limit (ao_Timeout opts)))))"
  using assms(1)
proof (cases rule: Execute_frame)
  case (1 x1 adm)
  let ?decl = "declarationOf (ad_Book adm)"
  have order: "SinksAsked \<notin> set (x_events x') \<longrightarrow> x_net x' = x_net x"
    using run_frame_order [OF run_body.executing 1(2)] admitTrigger_net [OF 1(1)] by auto
  have "\<exists>(opts :: agent_options) oc. agent_Run ag ?decl (CheckReceipt ?decl) workDir (ao_Prompt opts) (ao_Timeout opts) (ao_Servers opts) = Inr oc \<and>
        oc_Aborted oc = None \<and> \<not> oc_TimedOut oc \<and>
        child_bounded ag ?decl (ag_child ag (oc_ArgvUsed oc) (ao_Prompt opts) (stage_limit (ao_Timeout opts)))" if asked: "SinksAsked \<in> set (x_events x')"
    using 1(2)
  proof (cases rule: run_frame_ran)
    case f: (1 l row x0 y)
    have "x_events x' = x_events (execute_body env (ad_RunID adm) (ad_Book adm) trigger x0)" unfolding f(10) by (simp add: f(8))
    then obtain opts sg where s: "ev_agent env opts = Inr sg" "sg_Aborted sg = None" "\<not> sg_TimedOut sg"
      using asked_by_execute_body [of env "ad_RunID adm" "ad_Book adm" trigger x0] asked f(3) by auto
    then obtain oc where "agent_Run ag ?decl (CheckReceipt ?decl) workDir (ao_Prompt opts) (ao_Timeout opts) (ao_Servers opts) = Inr oc"
      "sg = stage_of mismatch oc" using wired [OF 1(1)] by (auto simp: agent_stage_def Let_def split: sum.splits)
    moreover from this(2) have "oc_Aborted oc = None" "\<not> oc_TimedOut oc" using s(2,3) by (simp_all add: stage_of_def)
    ultimately show ?thesis using unaborted_bounded by metis
  qed
  then show ?thesis using 1(1) order unfolding Let_def by metis
qed

subsection \<open>The servers of an accepted playbook\<close>

lemma Validate_servers:
  assumes "Validate genv book dep = []"
  shows "set (MCP (pb_Agent book)) \<subseteq> set (MCPServers dep)"
proof
  fix n assume "n \<in> set (MCP (pb_Agent book))"
  then obtain i where i: "i < length (MCP (pb_Agent book))" "MCP (pb_Agent book) ! i = n" by (metis in_set_conv_nth)
  have "validateAgent genv book dep = []" using assms by (simp add: Validate_def)
  then have "each (\<lambda>at name. if \<not> contains (MCPServers dep) name
              then [prob (indexed ''agent.mcp'' at) (FNotAServer name) (provided (MCPServers dep))] else []) (MCP (pb_Agent book)) = []"
    by (simp add: validateAgent_def Let_def)
  then have none: "prob (indexed ''agent.mcp'' i) (FNotAServer n) (provided (MCPServers dep)) \<notin> set (each (\<lambda>at name. if \<not> contains (MCPServers dep) name
              then [prob (indexed ''agent.mcp'' at) (FNotAServer name) (provided (MCPServers dep))] else []) (MCP (pb_Agent book)))"
    by (simp only: list.set(1)) simp
  show "n \<in> set (MCPServers dep)"
  proof (rule ccontr)
    assume "n \<notin> set (MCPServers dep)"
    then show False using none i unfolding each_mem by auto
  qed
qed

lemma servers_loop_ok:
  "\<forall>n \<in> set ns. \<exists>v. resolve' n = Inr v \<Longrightarrow>
     \<exists>m. servers_loop resolve' ns acc = Inr m \<and> (\<forall>n. map_of m n = (if n \<in> set ns then Some (projr (resolve' n)) else map_of acc n))"
proof (induction ns arbitrary: acc)
  case (Cons n ns)
  then obtain v where v: "resolve' n = Inr v" by auto
  from Cons obtain m where "servers_loop resolve' ns (map_set n v acc) = Inr m"
    "\<forall>k. map_of m k = (if k \<in> set ns then Some (projr (resolve' k)) else map_of (map_set n v acc) k)" by fastforce
  then show ?case using v by auto
qed simp

text \<open>
  C40. The servers of an accepted playbook always resolve.  When the gate accepted a playbook against a
  deployment whose servers are those of the loaded catalogue, and every reference of the catalogue was
  checked, handing the servers to the agent never fails: the configuration holds exactly the servers the
  playbook declares, each as its entry resolves.
\<close>

theorem accepted_servers_resolve:
  assumes "Validate genv book dep = []" "set (MCPServers dep) \<subseteq> set (mcp_Names c)"
    and "mcp_Load decode source = Inr c" "CheckReferences c interpolate = []"
    and wired: "ev_catalog env = Some (catalog_stage problem encode c interpolate)"
  shows "\<exists>servers. serversOf env book = Inr servers \<and>
    (\<forall>n. map_of servers n = (if n \<in> set (MCP (pb_Agent book)) then Some (encode (projr (mcp_Resolve c n interpolate))) else None))"
proof -
  have ok: "\<exists>server. mcp_Resolve c n interpolate = Inr server" if n: "n \<in> set (MCP (pb_Agent book))" for n
  proof -
    have "n \<in> set (mcp_Names c)" using n Validate_servers [OF assms(1)] assms(2) by blast
    then obtain e where e: "map_of c n = Some e" by (auto simp: mcp_Names_def sorted_keys_dom simp del: set_sorted_keys)
    from CheckReferences_ok [OF assms(4) e] show ?thesis using e by (auto simp: mcp_Resolve_def)
  qed
  have "\<forall>n \<in> set (MCP (pb_Agent book)). \<exists>v. catalog_stage problem encode c interpolate n = Inr v"
    using ok by (fastforce simp: catalog_stage_def)
  from servers_loop_ok [OF this, of "[]"] obtain m where m: "servers_loop (catalog_stage problem encode c interpolate) (MCP (pb_Agent book)) [] = Inr m"
    "\<forall>n. map_of m n = (if n \<in> set (MCP (pb_Agent book)) then Some (projr (catalog_stage problem encode c interpolate n)) else map_of [] n)" by blast
  have "projr (catalog_stage problem encode c interpolate n) = encode (projr (mcp_Resolve c n interpolate))" if "n \<in> set (MCP (pb_Agent book))" for n
    using ok [OF that] by (auto simp: catalog_stage_def)
  then show ?thesis using m wired by (simp add: serversOf_def)
qed


subsection \<open>A run whose agent reports too much\<close>

definition demo_wide_agent :: agent_env where "demo_wide_agent = demo_agent [''noise'', ''wide'', ''end'']"

definition demo_wide_env :: exec_env where
  "demo_wide_env = demo_exec_env\<lparr>ev_agent := agent_stage (\<lambda>_. ''wider'') (\<lambda>_. ''failed'') demo_wide_agent ''/w'' demo_book\<rparr>"

definition demo_wide_run :: "exec \<times> (exec_error, run_row) result" where
  "demo_wide_run = Execute demo_wide_env demo_guard demo_admit_env (Inr ''r1'') demo_book TriggerManual 0 [] demo_exec"

lemma demo_wide_ran: "\<not> isl (snd demo_wide_run) \<and> x_events (fst demo_wide_run) = [GatherRan, Fenced True, AgentRan] \<and>
    run_Status (x_outcome (fst demo_wide_run)) = StatusRefused"
  by code_simp

lemma demo_wide_admitted: "\<not> isl (snd (admitTrigger demo_guard demo_admit_env (Inr ''r1'') demo_book TriggerManual 0 [] demo_exec)) \<and>
    ad_Book (projr (snd (admitTrigger demo_guard demo_admit_env (Inr ''r1'') demo_book TriggerManual 0 [] demo_exec))) = demo_book"
  by code_simp

theorem sinks_hear_a_bounded_agent_witness:
  "run_Status (x_outcome (fst demo_wide_run)) = StatusRefused \<and> x_events (fst demo_wide_run) = [GatherRan, Fenced True, AgentRan] \<and>
   x_net (fst demo_wide_run) = x_net demo_exec"
proof -
  have ran: "Execute demo_wide_env demo_guard demo_admit_env (Inr ''r1'') demo_book TriggerManual 0 [] demo_exec = (fst demo_wide_run, Inr (projr (snd demo_wide_run)))"
    using ran_pair [of demo_wide_run] demo_wide_ran unfolding demo_wide_run_def by blast
  have book: "ad_Book adm = demo_book" if "admitTrigger demo_guard demo_admit_env (Inr ''r1'') demo_book TriggerManual 0 [] demo_exec = (x1, Inr adm)" for x1 adm
    using demo_wide_admitted unfolding that by simp
  have wired: "ev_agent demo_wide_env = agent_stage (\<lambda>_. ''wider'') (\<lambda>_. ''failed'') demo_wide_agent ''/w'' (ad_Book adm)"
    if "admitTrigger demo_guard demo_admit_env (Inr ''r1'') demo_book TriggerManual 0 [] demo_exec = (x1, Inr adm)" for x1 adm
    unfolding book [OF that] by (simp add: demo_wide_env_def)
  have wide: "\<not> child_bounded demo_wide_agent (declarationOf demo_book) (ag_child demo_wide_agent args p t)" for args p t
    by (simp add: child_bounded_def demo_wide_agent_def demo_agent_def demo_decoders_def demo_event_def start_up_def within_bound_def
      declarationOf_def demo_book_def)
  have "x_net (fst demo_wide_run) = x_net demo_exec"
  proof (rule ccontr)
    assume "x_net (fst demo_wide_run) \<noteq> x_net demo_exec"
    then have "\<exists>x1 adm args p t. admitTrigger demo_guard demo_admit_env (Inr ''r1'') demo_book TriggerManual 0 [] demo_exec = (x1, Inr adm) \<and>
        child_bounded demo_wide_agent (declarationOf (ad_Book adm)) (ag_child demo_wide_agent args p t)"
      using sinks_hear_a_bounded_agent [OF ran, of "\<lambda>_. ''wider''" "\<lambda>_. ''failed''" demo_wide_agent "''/w''"] wired unfolding Let_def by blast
    then show False using book wide by metis
  qed
  then show ?thesis using demo_wide_ran by blast
qed

theorem accepted_servers_resolve_witness:
  "\<exists>servers. serversOf (demo_exec_env\<lparr>ev_catalog := Some (catalog_stage (\<lambda>_. ''p'') (\<lambda>_. ''server'')
       [(''grafana'', \<lparr>me_Command = ''g'', me_Args = [], me_Env = [], me_URL = [], me_Headers = []\<rparr>)] (\<lambda>s. Inr s))\<rparr>) example_book = Inr servers \<and>
     map_of servers ''grafana'' = Some ''server''"
proof -
  let ?c = "[(''grafana'', \<lparr>me_Command = ''g'', me_Args = [], me_Env = [], me_URL = [], me_Headers = []\<rparr>)]"
  have n: "set (MCPServers example_dep) \<subseteq> set (mcp_Names ?c)" by (simp add: example_dep_def mcp_Names_def)
  have l: "mcp_Load (\<lambda>_. Inr ?c) (FileData []) = Inr ?c" by code_simp
  have r: "CheckReferences ?c (\<lambda>s. Inr s :: (string, string) result) = []" by code_simp
  have b: "''grafana'' \<in> set (MCP (pb_Agent example_book))" by (simp add: example_book_def)
  from accepted_servers_resolve [OF example_accepted n l r, of "demo_exec_env\<lparr>ev_catalog := Some (catalog_stage (\<lambda>_. ''p'') (\<lambda>_. ''server'') ?c (\<lambda>s. Inr s))\<rparr>" "\<lambda>_. ''p''" "\<lambda>_. ''server''"] b
  show ?thesis by auto
qed

end
