(* ===== verification/Etcd.thy ===== *)
theory Etcd
  imports Coordinator
begin

text \<open>
  The etcd coordinator: \<open>guard/etcd/etcd.go\<close>.  The client library is a parameter: a state with the
  operations the adapter calls, each taking the state as the call finds it, whatever other hosts did
  before, and what the call answers.  \<open>etcd_laws\<close> states the documented behaviour that is relied on: a
  transaction is applied to one state, its comparisons decide which branch runs, and its writes happen
  at one new revision.  The JSON codecs are parameters.  A decision that is never reached is \<open>None\<close>.
  The two hooks only the contract suite sets are left out, and the durations in the text of two refusals.
\<close>

subsection \<open>The client\<close>

record etcd_kv =
  kv_Value :: string
  kv_Create :: int
  kv_Mod :: int

datatype etcd_cmp = CreateRevision string int | ModRevision string int

datatype etcd_op = OpGet string | OpPut string string "int option"

text \<open>The responses to the reads of a branch, in order; a key that does not exist has none.\<close>

record txn_resp =
  tx_Succeeded :: bool
  tx_Revision :: int
  tx_Responses :: "etcd_kv option list"

datatype client_error = ClientError bool string

record watch_resp =
  wp_Err :: "client_error option"
  wp_Deletes :: "bool list"

record 's etcd_client =
  ec_ctx :: "'s \<Rightarrow> string option"
  ec_grant :: "int \<Rightarrow> 's \<Rightarrow> 's \<times> (client_error, int \<times> int) result"
  ec_revoke :: "int \<Rightarrow> 's \<Rightarrow> 's \<times> client_error option"
  ec_keepalive :: "int \<Rightarrow> 's \<Rightarrow> 's \<times> client_error option"
  ec_txn :: "etcd_cmp list \<Rightarrow> etcd_op list \<Rightarrow> etcd_op list \<Rightarrow> 's \<Rightarrow> 's \<times> (client_error, txn_resp) result"
  ec_get :: "string \<Rightarrow> 's \<Rightarrow> 's \<times> (client_error, etcd_kv option \<times> int) result"
  ec_watch :: "string \<Rightarrow> int \<Rightarrow> 's \<Rightarrow> 's \<times> watch_resp list"

definition client_text :: "client_error \<Rightarrow> string" where
  "client_text e = (case e of ClientError _ t \<Rightarrow> t)"

definition lost :: "client_error \<Rightarrow> bool" where
  "lost e = (case e of ClientError notFound t \<Rightarrow> notFound \<or> str_contains t ''requested lease not found'')"

subsection \<open>Keys and values\<close>

record holder_value =
  hv_holder :: holder
  hv_Taken :: time

record tick_value =
  tv_DueAt :: time
  tv_holder :: holder

record etcd_codec =
  enc_holder :: "holder_value \<Rightarrow> (string, string) result"
  dec_holder :: "string \<Rightarrow> (string, holder_value) result"
  enc_tick :: "tick_value \<Rightarrow> (string, string) result"
  dec_tick :: "string \<Rightarrow> (string, tick_value) result"

record 's etcd =
  et_client :: "'s etcd_client"
  et_prefix :: string
  et_codec :: etcd_codec
  et_wall :: "'s \<Rightarrow> time"

definition etcd_New :: "'s etcd_client \<Rightarrow> string \<Rightarrow> etcd_codec \<Rightarrow> ('s \<Rightarrow> time) \<Rightarrow> 's etcd" where
  "etcd_New client root codec wall =
     \<lparr>et_client = client, et_prefix = trim_suffix root ''/'' @ ''/'', et_codec = codec, et_wall = wall\<rparr>"

definition etcd_Reach :: reach where "etcd_Reach = ReachCrossHost"

definition claimKey :: "'s etcd \<Rightarrow> string \<Rightarrow> string" where "claimKey c name = et_prefix c @ ''claims/'' @ name"
definition tickKey :: "'s etcd \<Rightarrow> string \<Rightarrow> string" where "tickKey c name = et_prefix c @ ''ticks/'' @ name"

definition rateKey :: "'s etcd \<Rightarrow> string \<Rightarrow> nat \<Rightarrow> string" where
  "rateKey c name i = et_prefix c @ ''rate/'' @ name @ ''/'' @ itoa i"

text \<open>
  An error of the adapter: a refusal of the contract, a value that does not encode or decode, or the
  panic of reading a response that is not there.
\<close>

datatype etcd_error = Refusal coord_error | NotCoded string | NoResponse

definition unavailable :: "string \<Rightarrow> string \<Rightarrow> etcd_error" where
  "unavailable what why = Refusal (Unavailable (what @ '': '' @ why))"

subsection \<open>Reading one name\<close>

record etcd_state =
  es_holder :: "holder_value option"
  es_tick :: "tick_value option"
  es_tickRev :: int
  es_slotFree :: "bool list"

definition etcd_ops :: "'s etcd \<Rightarrow> acquire_request \<Rightarrow> etcd_op list" where
  "etcd_ops c req = OpGet (claimKey c (Name req)) #
     (if scheduled req then [OpGet (tickKey c (Name req))] else []) @
     (case Rate req of None \<Rightarrow> [] | Some limit \<Rightarrow> map (\<lambda>i. OpGet (rateKey c (Name req) i)) [0..<nat (Runs limit)])"

definition state_slots :: "acquire_request \<Rightarrow> etcd_kv option list \<Rightarrow> (etcd_error, bool list) result" where
  "state_slots req responses = (case Rate req of
     None \<Rightarrow> Inr []
   | Some limit \<Rightarrow> if length responses < nat (Runs limit) then Inl NoResponse
       else Inr (map (\<lambda>r. r = None) (take (nat (Runs limit)) responses)))"

definition state_tick :: "etcd_codec \<Rightarrow> acquire_request \<Rightarrow> etcd_kv option list \<Rightarrow> (etcd_error, (tick_value option \<times> int) \<times> etcd_kv option list) result" where
  "state_tick codec req responses =
     (if \<not> scheduled req then Inr ((None, 0), responses)
      else case responses of
        [] \<Rightarrow> Inl NoResponse
      | None # rest \<Rightarrow> Inr ((None, 0), rest)
      | Some kv # rest \<Rightarrow> (case dec_tick codec (kv_Value kv) of
            Inl e \<Rightarrow> Inl (NotCoded (''reading a recorded tick: '' @ e))
          | Inr t \<Rightarrow> Inr ((Some t, kv_Mod kv), rest)))"

definition state_holder :: "etcd_codec \<Rightarrow> etcd_kv option list \<Rightarrow> (etcd_error, holder_value option \<times> etcd_kv option list) result" where
  "state_holder codec responses = (case responses of
     [] \<Rightarrow> Inl NoResponse
   | None # rest \<Rightarrow> Inr (None, rest)
   | Some kv # rest \<Rightarrow> (case dec_holder codec (kv_Value kv) of
         Inl e \<Rightarrow> Inl (NotCoded (''reading the holder of a claim: '' @ e))
       | Inr h \<Rightarrow> Inr (Some h, rest)))"

definition stateOf :: "etcd_codec \<Rightarrow> acquire_request \<Rightarrow> etcd_kv option list \<Rightarrow> (etcd_error, etcd_state) result" where
  "stateOf codec req responses =
     (case state_holder codec responses of Inl e \<Rightarrow> Inl e
      | Inr (holder', rest) \<Rightarrow> (case state_tick codec req rest of Inl e \<Rightarrow> Inl e
      | Inr ((tick, rev'), rest') \<Rightarrow> (case state_slots req rest' of Inl e \<Rightarrow> Inl e
      | Inr free \<Rightarrow> Inr \<lparr>es_holder = holder', es_tick = tick, es_tickRev = rev', es_slotFree = free\<rparr>)))"

definition etcd_read :: "'s etcd \<Rightarrow> acquire_request \<Rightarrow> 's \<Rightarrow> 's \<times> (etcd_error, etcd_state) result" where
  "etcd_read c req s = (case ec_txn (et_client c) [] (etcd_ops c req) [] s of
     (s1, Inl e) \<Rightarrow> (s1, Inl (unavailable ''reading the claim'' (client_text e)))
   | (s1, Inr resp) \<Rightarrow> (s1, stateOf (et_codec c) req (tx_Responses resp)))"

definition tickRan :: "acquire_request \<Rightarrow> tick_value option \<Rightarrow> bool" where
  "tickRan req recorded = (scheduled req \<and> (case recorded of None \<Rightarrow> False | Some t \<Rightarrow> \<not> DueAt (Trigger req) > tv_DueAt t))"

fun freeSlot :: "bool list \<Rightarrow> nat option" where
  "freeSlot [] = None"
| "freeSlot (free # rest) = (if free then Some 0 else map_option Suc (freeSlot rest))"

subsection \<open>Taking a claim\<close>

record etcd_claim =
  cm_name :: string
  cm_lease :: int
  cm_token :: int
  cm_granted :: duration

text \<open>Refusals seen in the first read of a round, and in what a failed transaction read back.\<close>

definition read_refusal :: "acquire_request \<Rightarrow> etcd_state \<Rightarrow> (coord_error, nat option) result" where
  "read_refusal req read =
     (if tickRan req (es_tick read) then
        Inl (case es_holder read of Some h \<Rightarrow> Held (hv_holder h) | None \<Rightarrow> TickRan (tv_DueAt (the (es_tick read))) (tv_holder (the (es_tick read))))
      else case Rate req of
        None \<Rightarrow> Inr None
      | Some limit \<Rightarrow> (case freeSlot (es_slotFree read) of None \<Rightarrow> Inl (RateLimited limit) | Some i \<Rightarrow> Inr (Some i)))"

definition lost_refusal :: "acquire_request \<Rightarrow> etcd_state \<Rightarrow> coord_error option" where
  "lost_refusal req fresh = (case es_holder fresh of
     Some h \<Rightarrow> Some (Held (hv_holder h))
   | None \<Rightarrow> if tickRan req (es_tick fresh) then Some (TickRan (tv_DueAt (the (es_tick fresh))) (tv_holder (the (es_tick fresh)))) else None)"

definition take_conditions :: "'s etcd \<Rightarrow> acquire_request \<Rightarrow> int \<Rightarrow> nat option \<Rightarrow> etcd_cmp list" where
  "take_conditions c req tickRev slot = CreateRevision (claimKey c (Name req)) 0 #
     (if scheduled req then [ModRevision (tickKey c (Name req)) tickRev] else []) @
     (case slot of None \<Rightarrow> [] | Some i \<Rightarrow> [CreateRevision (rateKey c (Name req) i) 0])"

definition take_writes :: "'s etcd \<Rightarrow> acquire_request \<Rightarrow> string \<Rightarrow> string \<Rightarrow> int \<Rightarrow> int \<Rightarrow> nat option \<Rightarrow> etcd_op list" where
  "take_writes c req holder' tick lease rateLease slot = OpPut (claimKey c (Name req)) holder' (Some lease) #
     (if scheduled req then [OpPut (tickKey c (Name req)) tick None] else []) @
     (case slot of None \<Rightarrow> [] | Some i \<Rightarrow> [OpPut (rateKey c (Name req) i) (RunID (Holder req)) (Some rateLease)])"

partial_function (option) take_loop ::
  "'s etcd \<Rightarrow> acquire_request \<Rightarrow> string \<Rightarrow> string \<Rightarrow> int \<Rightarrow> duration \<Rightarrow> int \<Rightarrow> 's \<Rightarrow> ('s \<times> (etcd_error, etcd_claim) result) option" where
  "take_loop c req holder' tick lease granted rateLease s =
     (case ec_ctx (et_client c) s of
        Some e \<Rightarrow> Some (s, Inl (unavailable ''deciding'' e))
      | None \<Rightarrow> (case etcd_read c req s of
          (s1, Inl e) \<Rightarrow> Some (s1, Inl e)
        | (s1, Inr read) \<Rightarrow> (case read_refusal req read of
            Inl e \<Rightarrow> Some (s1, Inl (Refusal e))
          | Inr slot \<Rightarrow>
              (case ec_txn (et_client c) (take_conditions c req (es_tickRev read) slot) (take_writes c req holder' tick lease rateLease slot) (etcd_ops c req) s1 of
                 (s2, Inl e) \<Rightarrow> Some (s2, Inl (unavailable ''taking the claim'' (client_text e)))
               | (s2, Inr resp) \<Rightarrow>
                   if tx_Succeeded resp
                   then Some (s2, Inr \<lparr>cm_name = Name req, cm_lease = lease, cm_token = tx_Revision resp, cm_granted = granted\<rparr>)
                   else (case stateOf (et_codec c) req (tx_Responses resp) of
                       Inl e \<Rightarrow> Some (s2, Inl e)
                     | Inr fresh \<Rightarrow> (case lost_refusal req fresh of
                           Some e \<Rightarrow> Some (s2, Inl (Refusal e))
                         | None \<Rightarrow> take_loop c req holder' tick lease granted rateLease s2))))))"

declare take_loop.simps [code]

definition etcd_take ::
  "'s etcd \<Rightarrow> acquire_request \<Rightarrow> int \<Rightarrow> duration \<Rightarrow> int \<Rightarrow> 's \<Rightarrow> ('s \<times> (etcd_error, etcd_claim) result) option" where
  "etcd_take c req lease granted rateLease s =
     (case enc_holder (et_codec c) \<lparr>hv_holder = Holder req, hv_Taken = et_wall c s\<rparr> of
        Inl e \<Rightarrow> Some (s, Inl (NotCoded e))
      | Inr holder' \<Rightarrow> (case enc_tick (et_codec c) \<lparr>tv_DueAt = DueAt (Trigger req), tv_holder = Holder req\<rparr> of
          Inl e \<Rightarrow> Some (s, Inl (NotCoded e))
        | Inr tick \<Rightarrow> take_loop c req holder' tick lease granted rateLease s))"

definition CheckGrant :: "duration \<Rightarrow> duration \<Rightarrow> etcd_error option" where
  "CheckGrant asked granted = (if granted < asked then Some (Refusal (Unavailable ''the backend granted a shorter expiry than asked for'')) else None)"

text \<open>A revocation that cannot be made in the call is made once more on a context of its own.\<close>

definition etcd_revoke :: "'s etcd \<Rightarrow> int \<Rightarrow> 's \<Rightarrow> 's" where
  "etcd_revoke c lease s =
     (if ec_ctx (et_client c) s = None
      then (case ec_revoke (et_client c) lease s of (s1, None) \<Rightarrow> s1 | (s1, Some _) \<Rightarrow> fst (ec_revoke (et_client c) lease s1))
      else fst (ec_revoke (et_client c) lease s))"

definition rate_lease :: "'s etcd \<Rightarrow> acquire_request \<Rightarrow> 's \<Rightarrow> 's \<times> (client_error, int) result" where
  "rate_lease c req s = (case Rate req of
     None \<Rightarrow> (s, Inr 0)
   | Some limit \<Rightarrow> (case ec_grant (et_client c) (Per limit div second) s of
       (s1, Inl e) \<Rightarrow> (s1, Inl e) | (s1, Inr (lease, _)) \<Rightarrow> (s1, Inr lease)))"

definition etcd_Acquire :: "'s etcd \<Rightarrow> acquire_request \<Rightarrow> 's \<Rightarrow> ('s \<times> (etcd_error, etcd_claim) result) option" where
  "etcd_Acquire c req s =
     (case request_Check req of
        Some e \<Rightarrow> Some (s, Inl (Refusal e))
      | None \<Rightarrow>
          if Expiry req \<le> 0 \<or> Expiry req mod second \<noteq> 0
          then Some (s, Inl (Refusal (Malformed ''the claim expiry is not a whole number of seconds'')))
          else (case ec_grant (et_client c) (Expiry req div second) s of
              (s1, Inl e) \<Rightarrow> Some (s1, Inl (unavailable ''granting a lease'' (client_text e)))
            | (s1, Inr (lease, ttl)) \<Rightarrow>
                let granted = wrap64 (ttl * second) in
                (case CheckGrant (Expiry req) granted of
                   Some e \<Rightarrow> Some (etcd_revoke c lease s1, Inl e)
                 | None \<Rightarrow> (case rate_lease c req s1 of
                     (s2, Inl e) \<Rightarrow> Some (etcd_revoke c lease s2, Inl (unavailable (''granting a rate slot'' @ [CHR 0x27] @ ''s lease'') (client_text e)))
                   | (s2, Inr rateLease) \<Rightarrow> (case etcd_take c req lease granted rateLease s2 of
                       None \<Rightarrow> None
                     | Some (s3, Inr claim) \<Rightarrow> Some (s3, Inr claim)
                     | Some (s3, Inl e) \<Rightarrow> let s4 = etcd_revoke c lease s3 in
                         Some (if Rate req \<noteq> None then etcd_revoke c rateLease s4 else s4, Inl e))))))"

subsection \<open>A held claim\<close>

fun watch_loop :: "string option \<Rightarrow> watch_resp list \<Rightarrow> etcd_error option" where
  "watch_loop ctx [] = Some (unavailable ''watching the claim'' (case ctx of None \<Rightarrow> [] | Some e \<Rightarrow> e))"
| "watch_loop ctx (change # rest) = (case wp_Err change of
     Some e \<Rightarrow> Some (unavailable ''watching the claim'' (client_text e))
   | None \<Rightarrow> if list_ex (\<lambda>d. d) (wp_Deletes change) then None else watch_loop ctx rest)"

definition etcd_Released :: "'s etcd \<Rightarrow> string \<Rightarrow> 's \<Rightarrow> 's \<times> etcd_error option" where
  "etcd_Released c name s = (case ec_get (et_client c) (claimKey c name) s of
     (s1, Inl e) \<Rightarrow> (s1, Some (unavailable ''reading the claim'' (client_text e)))
   | (s1, Inr (None, _)) \<Rightarrow> (s1, None)
   | (s1, Inr (Some _, revision)) \<Rightarrow> (case ec_watch (et_client c) (claimKey c name) (revision + 1) s1 of
       (s2, changes) \<Rightarrow> (s2, watch_loop (ec_ctx (et_client c) s2) changes)))"

definition etcdClaim_Renew :: "'s etcd \<Rightarrow> etcd_claim \<Rightarrow> 's \<Rightarrow> 's \<times> etcd_error option" where
  "etcdClaim_Renew c claim s = (case ec_keepalive (et_client c) (cm_lease claim) s of
     (s1, None) \<Rightarrow> (s1, None)
   | (s1, Some e) \<Rightarrow> (s1, Some (if lost e then Refusal (Lost (''the lease of '' @ cm_name claim @ '' is gone''))
       else unavailable (''renewing the claim on '' @ cm_name claim) (client_text e))))"

definition etcdClaim_Fence :: "'s etcd \<Rightarrow> etcd_claim \<Rightarrow> 's \<Rightarrow> 's \<times> etcd_error option" where
  "etcdClaim_Fence c claim s =
     (let key = claimKey c (cm_name claim) in
      case ec_txn (et_client c) [CreateRevision key (cm_token claim)] [OpGet key] [] s of
        (s1, Inl e) \<Rightarrow> (s1, Some (unavailable (''fencing on the claim of '' @ cm_name claim) (client_text e)))
      | (s1, Inr resp) \<Rightarrow> (s1, if tx_Succeeded resp then None else Some (Refusal (Lost (cm_name claim @ '' is no longer held under its token'')))))"

definition etcdClaim_Release :: "'s etcd \<Rightarrow> etcd_claim \<Rightarrow> 's \<Rightarrow> 's \<times> etcd_error option" where
  "etcdClaim_Release c claim s = (case ec_revoke (et_client c) (cm_lease claim) s of
     (s1, None) \<Rightarrow> (s1, None)
   | (s1, Some e) \<Rightarrow> (s1, if lost e then None else Some (unavailable (''releasing the claim on '' @ cm_name claim) (client_text e))))"


subsection \<open>What is relied on\<close>

text \<open>
  \<open>get\<close> is the store as a reader at a state sees it, \<open>rv\<close> its revision and \<open>evolves\<close> what may become of it meanwhile, whoever
  does it.  A comparison with revision 0 says that the key does not exist.
\<close>

definition cmp_holds :: "(string \<Rightarrow> etcd_kv option) \<Rightarrow> etcd_cmp \<Rightarrow> bool" where
  "cmp_holds m cmp = (case cmp of
     CreateRevision k n \<Rightarrow> (case m k of None \<Rightarrow> 0 | Some kv \<Rightarrow> kv_Create kv) = n
   | ModRevision k n \<Rightarrow> (case m k of None \<Rightarrow> 0 | Some kv \<Rightarrow> kv_Mod kv) = n)"

fun gets_of :: "etcd_op list \<Rightarrow> string list" where
  "gets_of [] = []"
| "gets_of (OpGet k # ops) = k # gets_of ops"
| "gets_of (OpPut k v l # ops) = gets_of ops"

fun puts_of :: "etcd_op list \<Rightarrow> (string \<times> string) list" where
  "puts_of [] = []"
| "puts_of (OpGet k # ops) = puts_of ops"
| "puts_of (OpPut k v l # ops) = (k, v) # puts_of ops"

definition store_after :: "etcd_op list \<Rightarrow> int \<Rightarrow> (string \<Rightarrow> etcd_kv option) \<Rightarrow> string \<Rightarrow> etcd_kv option" where
  "store_after ops revision m k = (case map_of (puts_of ops) k of
     None \<Rightarrow> m k
   | Some v \<Rightarrow> Some \<lparr>kv_Value = v, kv_Create = (case m k of None \<Rightarrow> revision | Some kv \<Rightarrow> kv_Create kv), kv_Mod = revision\<rparr>)"

text \<open>What a transaction that answered did: at one state \<open>s1\<close> its comparisons were decided and its branch applied.\<close>

definition txn_applied :: "(string \<Rightarrow> etcd_kv option) \<Rightarrow> int \<Rightarrow> etcd_cmp list \<Rightarrow> etcd_op list \<Rightarrow> etcd_op list \<Rightarrow> txn_resp \<Rightarrow> (string \<Rightarrow> etcd_kv option) \<Rightarrow> int \<Rightarrow> bool" where
  "txn_applied m revision cs ts es r m' revision' \<longleftrightarrow>
     tx_Succeeded r = list_all (cmp_holds m) cs \<and>
     (if tx_Succeeded r
      then tx_Responses r = map m (gets_of ts) \<and> m' = store_after ts (tx_Revision r) m \<and>
           (puts_of ts \<noteq> [] \<longrightarrow> revision < tx_Revision r \<and> tx_Revision r = revision')
      else tx_Responses r = map m (gets_of es) \<and> m' = m)"

definition etcd_laws :: "'s etcd_client \<Rightarrow> ('s \<Rightarrow> string \<Rightarrow> etcd_kv option) \<Rightarrow> ('s \<Rightarrow> int) \<Rightarrow> ('s \<Rightarrow> 's \<Rightarrow> bool) \<Rightarrow> bool" where
  "etcd_laws cl get rv evolves \<longleftrightarrow>
     (\<forall>s. evolves s s) \<and> (\<forall>s s1 s2. evolves s s1 \<longrightarrow> evolves s1 s2 \<longrightarrow> evolves s s2) \<and>
     (\<forall>s s'. evolves s s' \<longrightarrow> rv s \<le> rv s') \<and>
     (\<forall>s k kv. get s k = Some kv \<longrightarrow> 0 < kv_Create kv \<and> 0 < kv_Mod kv) \<and>
     (\<forall>s s' k kv kv'. evolves s s' \<longrightarrow> get s k = Some kv \<longrightarrow> get s' k = Some kv' \<longrightarrow> kv_Mod kv = kv_Mod kv' \<longrightarrow> kv_Value kv = kv_Value kv') \<and>
     (\<forall>s s' k kv'. evolves s s' \<longrightarrow> get s' k = Some kv' \<longrightarrow>
        rv s < kv_Create kv' \<or> (\<exists>kv. get s k = Some kv \<and> kv_Create kv = kv_Create kv')) \<and>
     (\<forall>cs ts es s s' r. ec_txn cl cs ts es s = (s', Inr r) \<longrightarrow>
        (\<exists>s1. evolves s s1 \<and> evolves s1 s' \<and> txn_applied (get s1) (rv s1) cs ts es r (get s') (rv s'))) \<and>
     (\<forall>cs ts es s. evolves s (fst (ec_txn cl cs ts es s))) \<and>
     (\<forall>n s. evolves s (fst (ec_grant cl n s))) \<and> (\<forall>n s. evolves s (fst (ec_revoke cl n s)))"

lemmas law_parts = etcd_laws_def [THEN iffD1]

lemma law_refl: "etcd_laws cl get rv evolves \<Longrightarrow> evolves s s"
  by (rule law_parts [THEN conjunct1, rule_format])

lemma law_trans: "etcd_laws cl get rv evolves \<Longrightarrow> evolves s s1 \<Longrightarrow> evolves s1 s2 \<Longrightarrow> evolves s s2"
  by (rule law_parts [THEN conjunct2, THEN conjunct1, rule_format])

lemma law_rev: "etcd_laws cl get rv evolves \<Longrightarrow> evolves s s' \<Longrightarrow> rv s \<le> rv s'"
  by (rule law_parts [THEN conjunct2, THEN conjunct2, THEN conjunct1, rule_format])

lemma law_positive: "etcd_laws cl get rv evolves \<Longrightarrow> get s k = Some kv \<Longrightarrow> 0 < kv_Create kv \<and> 0 < kv_Mod kv"
  by (rule law_parts [THEN conjunct2, THEN conjunct2, THEN conjunct2, THEN conjunct1, rule_format])

lemma law_unchanged:
  "etcd_laws cl get rv evolves \<Longrightarrow> evolves s s' \<Longrightarrow> get s k = Some kv \<Longrightarrow> get s' k = Some kv' \<Longrightarrow> kv_Mod kv = kv_Mod kv' \<Longrightarrow> kv_Value kv = kv_Value kv'"
  by (rule law_parts [THEN conjunct2, THEN conjunct2, THEN conjunct2, THEN conjunct2, THEN conjunct1, rule_format])

lemma law_created:
  "etcd_laws cl get rv evolves \<Longrightarrow> evolves s s' \<Longrightarrow> get s' k = Some kv' \<Longrightarrow>
     rv s < kv_Create kv' \<or> (\<exists>kv. get s k = Some kv \<and> kv_Create kv = kv_Create kv')"
  by (rule law_parts [THEN conjunct2, THEN conjunct2, THEN conjunct2, THEN conjunct2, THEN conjunct2, THEN conjunct1, rule_format])

lemma law_txn:
  "etcd_laws cl get rv evolves \<Longrightarrow> ec_txn cl cs ts es s = (s', Inr r) \<Longrightarrow>
     \<exists>s1. evolves s s1 \<and> evolves s1 s' \<and> txn_applied (get s1) (rv s1) cs ts es r (get s') (rv s')"
  by (rule law_parts [THEN conjunct2, THEN conjunct2, THEN conjunct2, THEN conjunct2, THEN conjunct2, THEN conjunct2, THEN conjunct1, rule_format])

lemma law_calls:
  assumes "etcd_laws cl get rv evolves"
  shows "evolves s (fst (ec_txn cl cs ts es s))" "evolves s (fst (ec_grant cl n s))" "evolves s (fst (ec_revoke cl n s))"
proof -
  note rest = law_parts [OF assms, THEN conjunct2, THEN conjunct2, THEN conjunct2, THEN conjunct2, THEN conjunct2, THEN conjunct2, THEN conjunct2]
  show "evolves s (fst (ec_txn cl cs ts es s))" by (rule rest [THEN conjunct1, rule_format])
  show "evolves s (fst (ec_grant cl n s))" by (rule rest [THEN conjunct2, THEN conjunct1, rule_format])
  show "evolves s (fst (ec_revoke cl n s))" by (rule rest [THEN conjunct2, THEN conjunct2, rule_format])
qed

subsection \<open>What a read finds\<close>

lemma gets_map: "gets_of (map (\<lambda>i. OpGet (f i)) xs) = map f xs"
  by (induction xs) simp_all

lemma gets_append: "gets_of (a @ b) = gets_of a @ gets_of b"
  by (induction a rule: gets_of.induct) simp_all

text \<open>The state of a name in a store: what its keys hold, decoded.\<close>

definition found_in :: "'s etcd \<Rightarrow> acquire_request \<Rightarrow> (string \<Rightarrow> etcd_kv option) \<Rightarrow> etcd_state \<Rightarrow> bool" where
  "found_in c req m st \<longleftrightarrow>
     (case m (claimKey c (Name req)) of None \<Rightarrow> es_holder st = None
      | Some kv \<Rightarrow> \<exists>h. es_holder st = Some h \<and> dec_holder (et_codec c) (kv_Value kv) = Inr h) \<and>
     (scheduled req \<longrightarrow> (case m (tickKey c (Name req)) of None \<Rightarrow> es_tick st = None \<and> es_tickRev st = 0
      | Some kv \<Rightarrow> \<exists>t. es_tick st = Some t \<and> dec_tick (et_codec c) (kv_Value kv) = Inr t \<and> es_tickRev st = kv_Mod kv)) \<and>
     (\<forall>limit. Rate req = Some limit \<longrightarrow> es_slotFree st = map (\<lambda>i. m (rateKey c (Name req) i) = None) [0..<nat (Runs limit)])"

lemma stateOf_found:
  assumes "stateOf (et_codec c) req (map m (gets_of (etcd_ops c req))) = Inr st"
  shows "found_in c req m st"
proof -
  let ?slots = "case Rate req of None \<Rightarrow> [] | Some limit \<Rightarrow> map (\<lambda>i. m (rateKey c (Name req) i)) [0..<nat (Runs limit)]"
  have g: "map m (gets_of (etcd_ops c req)) = m (claimKey c (Name req)) # (if scheduled req then [m (tickKey c (Name req))] else []) @ ?slots"
    by (simp add: etcd_ops_def gets_append gets_map comp_def split: option.splits)
  show ?thesis
    using assms unfolding g found_in_def stateOf_def
    by (auto simp: state_holder_def state_tick_def state_slots_def comp_def split: option.splits sum.splits if_splits)
qed

lemma read_found:
  assumes "etcd_laws (et_client c) get rv evolves" "etcd_read c req s = (s1, Inr st)"
  shows "\<exists>s0. evolves s s0 \<and> evolves s0 s1 \<and> found_in c req (get s0) st"
proof -
  obtain resp where t: "ec_txn (et_client c) [] (etcd_ops c req) [] s = (s1, Inr resp)" "stateOf (et_codec c) req (tx_Responses resp) = Inr st"
    using assms(2) by (auto simp: etcd_read_def split: prod.splits sum.splits)
  from law_txn [OF assms(1) t(1)] obtain s0 where e: "evolves s s0" "evolves s0 s1"
    "txn_applied (get s0) (rv s0) [] (etcd_ops c req) [] resp (get s1) (rv s1)" by blast
  then have "stateOf (et_codec c) req (map (get s0) (gets_of (etcd_ops c req))) = Inr st" using t(2) by (simp add: txn_applied_def)
  from stateOf_found [OF this] e show ?thesis by blast
qed

lemma freeSlot_Some: "freeSlot xs = Some i \<Longrightarrow> i < length xs \<and> xs ! i"
  by (induction xs arbitrary: i) (auto split: if_splits)

subsection \<open>One step\<close>

lemma keys_differ [simp]:
  "claimKey c n \<noteq> tickKey c n'" "claimKey c n \<noteq> rateKey c n' i" "tickKey c n \<noteq> rateKey c n' i"
  "tickKey c n \<noteq> claimKey c n'" "rateKey c n' i \<noteq> claimKey c n" "rateKey c n' i \<noteq> tickKey c n"
  by (simp_all add: claimKey_def tickKey_def rateKey_def)

text \<open>
  What a grant did to the store: the claim key did not exist, the recorded tick was earlier and a rate
  slot was free; all of them were written at the revision that is the token, and no other key was.
\<close>

definition granted_at :: "'s etcd \<Rightarrow> acquire_request \<Rightarrow> string \<Rightarrow> string \<Rightarrow> int \<Rightarrow> (string \<Rightarrow> etcd_kv option) \<Rightarrow> (string \<Rightarrow> etcd_kv option) \<Rightarrow> bool" where
  "granted_at c req holder' tick token m m' \<longleftrightarrow>
     (\<exists>slot. m (claimKey c (Name req)) = None \<and>
        m' (claimKey c (Name req)) = Some \<lparr>kv_Value = holder', kv_Create = token, kv_Mod = token\<rparr> \<and>
        (scheduled req \<longrightarrow>
           (\<forall>kv. m (tickKey c (Name req)) = Some kv \<longrightarrow> (\<exists>t. dec_tick (et_codec c) (kv_Value kv) = Inr t \<and> tv_DueAt t < DueAt (Trigger req))) \<and>
           (\<exists>kv. m' (tickKey c (Name req)) = Some kv \<and> kv_Value kv = tick \<and> kv_Mod kv = token)) \<and>
        (\<forall>limit. Rate req = Some limit \<longrightarrow> slot < nat (Runs limit) \<and> m (rateKey c (Name req) slot) = None \<and>
           m' (rateKey c (Name req) slot) = Some \<lparr>kv_Value = RunID (Holder req), kv_Create = token, kv_Mod = token\<rparr>) \<and>
        (\<forall>k. k \<noteq> claimKey c (Name req) \<and> \<not> (scheduled req \<and> k = tickKey c (Name req)) \<and>
           \<not> (Rate req \<noteq> None \<and> k = rateKey c (Name req) slot) \<longrightarrow> m' k = m k))"

lemma compared_absent:
  assumes "etcd_laws cl get rv evolves" "cmp_holds (get s) (CreateRevision k 0)"
  shows "get s k = None"
  using assms(2) law_positive [OF assms(1), of s k] by (fastforce simp: cmp_holds_def split: option.splits)

text \<open>The comparison of the tick's revision: the tick at the commit is the one that was read.\<close>

lemma compared_tick:
  assumes laws: "etcd_laws (et_client c) get rv evolves" and "found_in c req (get s0) read" "evolves s0 s1" "scheduled req"
    and "cmp_holds (get s1) (ModRevision (tickKey c (Name req)) (es_tickRev read))" "get s1 (tickKey c (Name req)) = Some kv"
  shows "\<exists>t. es_tick read = Some t \<and> dec_tick (et_codec c) (kv_Value kv) = Inr t"
proof -
  have m: "kv_Mod kv = es_tickRev read" using assms(5,6) by (simp add: cmp_holds_def)
  with law_positive [OF laws assms(6)] have "es_tickRev read \<noteq> 0" by simp
  then obtain kv0 t where r: "get s0 (tickKey c (Name req)) = Some kv0" "es_tick read = Some t"
    "dec_tick (et_codec c) (kv_Value kv0) = Inr t" "es_tickRev read = kv_Mod kv0"
    using assms(2,4) by (auto simp: found_in_def split: option.splits)
  with law_unchanged [OF laws assms(3) r(1) assms(6)] m show ?thesis by simp
qed

lemma not_ran: "\<not> tickRan req (Some t) \<Longrightarrow> scheduled req \<Longrightarrow> tv_DueAt t < DueAt (Trigger req)"
  by (simp add: tickRan_def)

lemma read_passed:
  assumes "read_refusal req read = Inr slot" "found_in c req m read"
  shows "\<not> tickRan req (es_tick read)"
    "case Rate req of None \<Rightarrow> slot = None | Some limit \<Rightarrow> \<exists>i. slot = Some i \<and> i < nat (Runs limit)"
proof -
  show ran: "\<not> tickRan req (es_tick read)" using assms(1) by (auto simp: read_refusal_def split: if_splits)
  show "case Rate req of None \<Rightarrow> slot = None | Some limit \<Rightarrow> \<exists>i. slot = Some i \<and> i < nat (Runs limit)"
  proof (cases "Rate req")
    case (Some limit)
    then obtain i where i: "freeSlot (es_slotFree read) = Some i" "slot = Some i"
      using assms(1) ran by (auto simp: read_refusal_def split: option.splits)
    have "length (es_slotFree read) = nat (Runs limit)" using assms(2) Some by (simp add: found_in_def)
    with Some i freeSlot_Some [OF i(1)] show ?thesis by simp
  qed (use assms(1) ran in \<open>simp add: read_refusal_def\<close>)
qed

lemma commit_step:
  assumes laws: "etcd_laws (et_client c) get rv evolves"
    and read: "found_in c req (get s0) read" "evolves s0 s1" "read_refusal req read = Inr slot"
    and ran: "txn_applied (get s1) (rv s1) (take_conditions c req (es_tickRev read) slot) (take_writes c req holder' tick lease rateLease slot) es resp m' rv'"
    and won: "tx_Succeeded resp"
  shows "granted_at c req holder' tick (tx_Revision resp) (get s1) m' \<and> rv s1 < tx_Revision resp \<and> tx_Revision resp = rv'"
proof -
  note passed = read_passed [OF read(3,1)]
  have conds: "list_all (cmp_holds (get s1)) (take_conditions c req (es_tickRev read) slot)" using ran won by (simp add: txn_applied_def)
  then have absent: "get s1 (claimKey c (Name req)) = None" using compared_absent [OF laws] by (simp add: take_conditions_def)
  have m': "m' = store_after (take_writes c req holder' tick lease rateLease slot) (tx_Revision resp) (get s1)"
    using ran won by (simp add: txn_applied_def)
  have tick: "\<exists>t. dec_tick (et_codec c) (kv_Value kv) = Inr t \<and> tv_DueAt t < DueAt (Trigger req)"
    if "scheduled req" "get s1 (tickKey c (Name req)) = Some kv" for kv
  proof -
    have "cmp_holds (get s1) (ModRevision (tickKey c (Name req)) (es_tickRev read))" using conds that(1) by (simp add: take_conditions_def)
    from compared_tick [OF laws read(1,2) that(1) this that(2)] passed(1) not_ran [OF _ that(1)] show ?thesis by auto
  qed
  have slot: "i < nat (Runs limit) \<and> get s1 (rateKey c (Name req) i) = None" if "Rate req = Some limit" "slot = Some i" for limit i
    using passed(2) that conds compared_absent [OF laws] by (simp add: take_conditions_def)
  have some: "\<exists>i. slot = Some i" if "Rate req = Some limit" for limit using passed(2) that by auto
  have "granted_at c req holder' tick (tx_Revision resp) (get s1) m'"
    unfolding granted_at_def
    using absent tick slot some passed(2)
    by (intro exI [of _ "case slot of None \<Rightarrow> 0 | Some i \<Rightarrow> i"])
       (auto simp: m' store_after_def take_writes_def split: option.splits)
  moreover have "rv s1 < tx_Revision resp \<and> tx_Revision resp = rv'" using ran won by (simp add: txn_applied_def take_writes_def)
  ultimately show ?thesis by simp
qed

subsection \<open>Every outcome of an acquisition\<close>

definition refusal_true :: "'s etcd \<Rightarrow> acquire_request \<Rightarrow> (string \<Rightarrow> etcd_kv option) \<Rightarrow> coord_error \<Rightarrow> bool" where
  "refusal_true c req m e = (case e of
     Held h \<Rightarrow> \<exists>kv v. m (claimKey c (Name req)) = Some kv \<and> dec_holder (et_codec c) (kv_Value kv) = Inr v \<and> hv_holder v = h
   | TickRan due h \<Rightarrow> scheduled req \<and> m (claimKey c (Name req)) = None \<and> DueAt (Trigger req) \<le> due \<and>
       (\<exists>kv t. m (tickKey c (Name req)) = Some kv \<and> dec_tick (et_codec c) (kv_Value kv) = Inr t \<and> tv_DueAt t = due \<and> tv_holder t = h)
   | RateLimited limit \<Rightarrow> Rate req = Some limit \<and> (\<forall>i<nat (Runs limit). m (rateKey c (Name req) i) \<noteq> None)
   | Unavailable _ \<Rightarrow> True | Malformed _ \<Rightarrow> True | AlreadyRunning _ \<Rightarrow> False | Lost _ \<Rightarrow> False)"

lemma freeSlot_None: "freeSlot xs = None \<Longrightarrow> i < length xs \<Longrightarrow> \<not> xs ! i"
  by (induction xs arbitrary: i) (auto simp: nth_Cons split: if_splits nat.splits)

lemma ran_tick: "tickRan req (es_tick st) \<Longrightarrow> \<exists>t. es_tick st = Some t \<and> scheduled req \<and> DueAt (Trigger req) \<le> tv_DueAt t"
  by (auto simp: tickRan_def split: option.splits)

lemma found_refusals:
  assumes "found_in c req m st"
  shows "es_holder st = Some h \<Longrightarrow> refusal_true c req m (Held (hv_holder h))"
    "es_holder st = None \<Longrightarrow> tickRan req (es_tick st) \<Longrightarrow> refusal_true c req m (TickRan (tv_DueAt (the (es_tick st))) (tv_holder (the (es_tick st))))"
    "Rate req = Some limit \<Longrightarrow> freeSlot (es_slotFree st) = None \<Longrightarrow> refusal_true c req m (RateLimited limit)"
proof -
  show "refusal_true c req m (Held (hv_holder h))" if "es_holder st = Some h"
    using assms that by (auto simp: refusal_true_def found_in_def split: option.splits)
  show "refusal_true c req m (TickRan (tv_DueAt (the (es_tick st))) (tv_holder (the (es_tick st))))"
    if h: "es_holder st = None" and t: "tickRan req (es_tick st)"
  proof -
    from ran_tick [OF t] obtain t where "es_tick st = Some t" "scheduled req" "DueAt (Trigger req) \<le> tv_DueAt t" by blast
    with h assms show ?thesis by (auto simp: refusal_true_def found_in_def split: option.splits)
  qed
  show "refusal_true c req m (RateLimited limit)" if l: "Rate req = Some limit" and f: "freeSlot (es_slotFree st) = None"
    using assms l freeSlot_None [OF f] by (auto simp: refusal_true_def found_in_def)
qed

lemma read_refused: "found_in c req m read \<Longrightarrow> read_refusal req read = Inl e \<Longrightarrow> refusal_true c req m e"
  using found_refusals [of c req m read] by (auto simp: read_refusal_def split: if_splits option.splits)

lemma lost_refused: "found_in c req m fresh \<Longrightarrow> lost_refusal req fresh = Some e \<Longrightarrow> refusal_true c req m e"
  using found_refusals [of c req m fresh] by (auto simp: lost_refusal_def split: if_splits option.splits)

definition outcome_true ::
  "'s etcd \<Rightarrow> acquire_request \<Rightarrow> string \<Rightarrow> string \<Rightarrow> (string \<Rightarrow> etcd_kv option) \<Rightarrow> int \<Rightarrow> (string \<Rightarrow> etcd_kv option) \<Rightarrow> int \<Rightarrow> (etcd_error, etcd_claim) result \<Rightarrow> bool" where
  "outcome_true c req holder' tick m revision m' revision' r = (case r of
     Inr claim \<Rightarrow> granted_at c req holder' tick (cm_token claim) m m' \<and> revision < cm_token claim \<and> cm_token claim = revision'
   | Inl (Refusal e) \<Rightarrow> refusal_true c req m e
   | Inl _ \<Rightarrow> True)"

lemma outcome_unavailable [simp]: "outcome_true c req h t m n m' n' (Inl (unavailable what why))"
  by (simp add: outcome_true_def unavailable_def refusal_true_def)

lemma stateOf_refuses: "stateOf codec req rs = Inl e \<Longrightarrow> outcome_true c req h t m n m' n' (Inl e)"
  by (auto simp: stateOf_def state_holder_def state_tick_def state_slots_def outcome_true_def split: sum.splits list.splits option.splits if_splits)

lemma read_refuses: "etcd_read c req s = (s1, Inl e) \<Longrightarrow> outcome_true c req h t m n m' n' (Inl e)"
  by (auto simp: etcd_read_def split: prod.splits sum.splits intro: stateOf_refuses)

definition outcome_between ::
  "'s etcd \<Rightarrow> acquire_request \<Rightarrow> string \<Rightarrow> string \<Rightarrow> ('s \<Rightarrow> string \<Rightarrow> etcd_kv option) \<Rightarrow> ('s \<Rightarrow> int) \<Rightarrow> ('s \<Rightarrow> 's \<Rightarrow> bool) \<Rightarrow> 's \<Rightarrow> 's \<Rightarrow> (etcd_error, etcd_claim) result \<Rightarrow> bool" where
  "outcome_between c req h t get rv evolves s s' r \<longleftrightarrow>
     (\<exists>s1. evolves s s1 \<and> evolves s1 s' \<and> outcome_true c req h t (get s1) (rv s1) (get s') (rv s') r)"

lemma outcome_anywhere:
  assumes "etcd_laws cl get rv evolves" "evolves s s'" "\<And>m n m' n'. outcome_true c req h t m n m' n' r"
  shows "outcome_between c req h t get rv evolves s s' r"
  unfolding outcome_between_def using assms(2,3) law_refl [OF assms(1)] by blast

lemma outcome_later:
  assumes "etcd_laws cl get rv evolves" "evolves s s0" "outcome_between c req h t get rv evolves s0 s' r"
  shows "outcome_between c req h t get rv evolves s s' r"
  using assms(3) law_trans [OF assms(1) assms(2)] unfolding outcome_between_def by blast

lemma read_evolves:
  assumes "etcd_laws (et_client c) get rv evolves" "etcd_read c req s = (s1, r)"
  shows "evolves s s1"
  using assms(2) law_calls(1) [OF assms(1), of s "[]" "etcd_ops c req" "[]"]
  by (auto simp: etcd_read_def split: prod.splits sum.splits)

text \<open>The last transaction of a round: what it answers is true of the state it was applied to.\<close>

lemma round_outcome:
  assumes laws: "etcd_laws (et_client c) get rv evolves"
    and read: "found_in c req (get s0) read" "evolves s0 s1" "read_refusal req read = Inr slot"
    and ran: "ec_txn (et_client c) (take_conditions c req (es_tickRev read) slot) (take_writes c req h t lease rateLease slot) (etcd_ops c req) s1 = (s2, Inr resp)"
  shows "tx_Succeeded resp \<Longrightarrow> cm_token claim = tx_Revision resp \<Longrightarrow> outcome_between c req h t get rv evolves s1 s2 (Inr claim)"
    "\<not> tx_Succeeded resp \<Longrightarrow> stateOf (et_codec c) req (tx_Responses resp) = Inr fresh \<Longrightarrow> lost_refusal req fresh = Some e \<Longrightarrow>
       outcome_between c req h t get rv evolves s1 s2 (Inl (Refusal e))"
proof -
  from law_txn [OF laws ran] obtain s' where s': "evolves s1 s'" "evolves s' s2"
    and applied: "txn_applied (get s') (rv s') (take_conditions c req (es_tickRev read) slot) (take_writes c req h t lease rateLease slot) (etcd_ops c req) resp (get s2) (rv s2)"
    by blast
  show "outcome_between c req h t get rv evolves s1 s2 (Inr claim)" if "tx_Succeeded resp" "cm_token claim = tx_Revision resp"
    using commit_step [OF laws read(1) law_trans [OF laws read(2) s'(1)] read(3) applied that(1)] s' that(2)
    unfolding outcome_between_def outcome_true_def by auto
  show "outcome_between c req h t get rv evolves s1 s2 (Inl (Refusal e))"
    if "\<not> tx_Succeeded resp" "stateOf (et_codec c) req (tx_Responses resp) = Inr fresh" "lost_refusal req fresh = Some e"
  proof -
    have "tx_Responses resp = map (get s') (gets_of (etcd_ops c req))" using applied that(1) by (simp add: txn_applied_def)
    with that(2) have "found_in c req (get s') fresh" by (intro stateOf_found) simp
    from lost_refused [OF this that(3)] s' show ?thesis unfolding outcome_between_def outcome_true_def by auto
  qed
qed

lemma take_loop_outcome:
  "take_loop c req h t lease granted rateLease s = Some y \<Longrightarrow> etcd_laws (et_client c) get rv evolves \<Longrightarrow>
     outcome_between c req h t get rv evolves s (fst y) (snd y) \<and>
     (\<forall>claim. snd y = Inr claim \<longrightarrow> cm_name claim = Name req \<and> cm_lease claim = lease \<and> cm_granted claim = granted)"
proof (induction rule: take_loop.raw_induct [rotated, consumes 1])
  case (1 loop c req h t lease granted rateLease s y)
  note laws = 1(3) and body = 1(2)
  show ?case
  proof (cases "ec_ctx (et_client c) s")
    case (Some e)
    then show ?thesis using body outcome_anywhere [OF laws law_refl [OF laws]] by auto
  next
    case None
    obtain s1 r where read: "etcd_read c req s = (s1, r)" by (cases "etcd_read c req s")
    note ev1 = read_evolves [OF laws read]
    show ?thesis
    proof (cases r)
      case (Inl e)
      with read have read': "etcd_read c req s = (s1, Inl e)" by simp
      then show ?thesis using body None outcome_anywhere [OF laws ev1 read_refuses [OF read']] by auto
    next
      case (Inr st)
      with read have read': "etcd_read c req s = (s1, Inr st)" by simp
      from read_found [OF laws this] obtain s0 where s0: "evolves s s0" "evolves s0 s1" "found_in c req (get s0) st" by blast
      show ?thesis
      proof (cases "read_refusal req st")
        case (Inl e)
        then show ?thesis using body None read' s0 read_refused [OF s0(3) Inl]
          by (auto simp: outcome_between_def outcome_true_def)
      next
        case (Inr slot)
        let ?txn = "ec_txn (et_client c) (take_conditions c req (es_tickRev st) slot) (take_writes c req h t lease rateLease slot) (etcd_ops c req) s1"
        obtain s2 a where txn: "?txn = (s2, a)" by (cases ?txn)
        have ev2: "evolves s1 s2" using law_calls(1) [OF laws, of s1] txn by (metis fst_conv)
        note ev = law_trans [OF laws ev1 ev2] and later = outcome_later [OF laws ev1]
        show ?thesis
        proof (cases a)
          case (Inl e)
          then show ?thesis using body None read' Inr txn outcome_anywhere [OF laws ev] by auto
        next
          case a: (Inr resp)
          note round = round_outcome [OF laws s0(3,2) Inr txn [unfolded a]]
          show ?thesis
          proof (cases "tx_Succeeded resp")
            case True
            then show ?thesis using body None read' Inr txn a later [OF round(1) [OF True]] by auto
          next
            case lost: False
            show ?thesis
            proof (cases "stateOf (et_codec c) req (tx_Responses resp)")
              case (Inl e)
              then show ?thesis using body None read' Inr txn a lost outcome_anywhere [OF laws ev stateOf_refuses [OF Inl]] by auto
            next
              case fresh: (Inr fresh)
              show ?thesis
              proof (cases "lost_refusal req fresh")
                case None': None
                then have "loop c req h t lease granted rateLease s2 = Some y"
                  using body None read' Inr txn a lost fresh by simp
                from 1(1) [OF this laws] outcome_later [OF laws ev] show ?thesis by blast
              next
                case (Some e)
                then show ?thesis using body None read' Inr txn a lost fresh later [OF round(2) [OF lost fresh Some]] by auto
              qed
            qed
          qed
        qed
      qed
    qed
  qed
qed

lemma revoke_evolves:
  assumes "etcd_laws (et_client c) get rv evolves"
  shows "evolves s (etcd_revoke c lease s)"
proof -
  have r: "evolves u (fst (ec_revoke (et_client c) lease u))" for u by (rule law_calls(3) [OF assms])
  show ?thesis
    using r [of s] law_trans [OF assms r [of s] r]
    by (auto simp: etcd_revoke_def split: prod.splits option.splits)
qed

lemma rate_lease_evolves:
  assumes "etcd_laws (et_client c) get rv evolves" "rate_lease c req s = (s', r)"
  shows "evolves s s'"
proof (cases "Rate req")
  case None
  then show ?thesis using assms(2) law_refl [OF assms(1)] by (simp add: rate_lease_def)
next
  case (Some limit)
  then show ?thesis using assms(2) law_calls(2) [OF assms(1), of s "Per limit div second"]
    by (auto simp: rate_lease_def split: prod.splits sum.splits)
qed

lemma take_outcome:
  assumes laws: "etcd_laws (et_client c) get rv evolves" and take: "etcd_take c req lease granted rateLease s = Some (s', r)"
  shows "\<exists>h t. outcome_between c req h t get rv evolves s s' r \<and>
    (\<forall>claim. r = Inr claim \<longrightarrow> cm_name claim = Name req \<and> cm_granted claim = granted \<and>
       enc_holder (et_codec c) \<lparr>hv_holder = Holder req, hv_Taken = et_wall c s\<rparr> = Inr h \<and>
       enc_tick (et_codec c) \<lparr>tv_DueAt = DueAt (Trigger req), tv_holder = Holder req\<rparr> = Inr t)"
proof -
  have coded: "outcome_between c req [] [] get rv evolves s s (Inl (NotCoded e))" for e
    by (rule outcome_anywhere [OF laws law_refl [OF laws]]) (simp add: outcome_true_def)
  show ?thesis
  proof (cases "enc_holder (et_codec c) \<lparr>hv_holder = Holder req, hv_Taken = et_wall c s\<rparr>")
    case (Inl e)
    then show ?thesis using take coded by (auto simp: etcd_take_def)
  next
    case h: (Inr h)
    show ?thesis
    proof (cases "enc_tick (et_codec c) \<lparr>tv_DueAt = DueAt (Trigger req), tv_holder = Holder req\<rparr>")
      case (Inl e)
      then show ?thesis using take h coded by (auto simp: etcd_take_def)
    next
      case t: (Inr t)
      have "take_loop c req h t lease granted rateLease s = Some (s', r)" using take h t by (simp add: etcd_take_def)
      from take_loop_outcome [OF this laws] h t show ?thesis by auto
    qed
  qed
qed

text \<open>An acquisition ends before its decision only on a request or a lease that was not good.\<close>

definition before_deciding :: "(etcd_error, etcd_claim) result \<Rightarrow> bool" where
  "before_deciding r \<longleftrightarrow> (\<exists>why. r = Inl (Refusal (Unavailable why)) \<or> r = Inl (Refusal (Malformed why)))"

lemma acquire_outcome:
  assumes laws: "etcd_laws (et_client c) get rv evolves" and acq: "etcd_Acquire c req s = Some (s', r)"
  shows "evolves s s' \<and> before_deciding r \<or>
    (\<exists>s2 s3 lease granted rateLease. evolves s s2 \<and> Expiry req \<le> granted \<and> evolves s3 s' \<and>
       etcd_take c req lease granted rateLease s2 = Some (s3, r) \<and> ((\<exists>claim. r = Inr claim) \<longrightarrow> s' = s3))"
proof (cases "request_Check req \<noteq> None \<or> Expiry req \<le> 0 \<or> Expiry req mod second \<noteq> 0")
  case True
  then show ?thesis using acq law_refl [OF laws]
    by (auto simp: etcd_Acquire_def request_Check_def before_deciding_def split: if_splits)
next
  case False
  then have ok: "request_Check req = None" "\<not> (Expiry req \<le> 0 \<or> Expiry req mod second \<noteq> 0)" by auto
  note acq' = acq [unfolded etcd_Acquire_def ok option.case if_not_P [OF ok(2)]]
  obtain s1 g where g: "ec_grant (et_client c) (Expiry req div second) s = (s1, g)" by fastforce
  have ev1: "evolves s s1" using law_calls(2) [OF laws, of s "Expiry req div second"] g by simp
  note later = law_trans [OF laws ev1]
  show ?thesis
  proof (cases g)
    case (Inl e)
    then show ?thesis using acq' ok g ev1 by (auto simp: unavailable_def before_deciding_def)
  next
    case (Inr p)
    obtain lease ttl where p: "p = (lease, ttl)" by (cases p)
    show ?thesis
    proof (cases "CheckGrant (Expiry req) (wrap64 (ttl * second))")
      case (Some e)
      then show ?thesis using acq' g Inr p later [OF revoke_evolves [OF laws]]
        by (auto simp: Let_def CheckGrant_def before_deciding_def split: if_splits)
    next
      case None
      then have enough: "Expiry req \<le> wrap64 (ttl * second)" by (simp add: CheckGrant_def split: if_splits)
      obtain s2 a where rl: "rate_lease c req s1 = (s2, a)" by (cases "rate_lease c req s1")
      note ev2 = later [OF rate_lease_evolves [OF laws rl]]
      note rest = acq' [unfolded g Inr p prod.case sum.case Let_def None option.case rl]
      show ?thesis
      proof (cases a)
        case (Inl e)
        then show ?thesis using rest law_trans [OF laws ev2 revoke_evolves [OF laws]]
          by (auto simp: unavailable_def before_deciding_def)
      next
        case a: (Inr rateLease)
        obtain s3 q where take: "etcd_take c req lease (wrap64 (ttl * second)) rateLease s2 = Some (s3, q)"
          using rest a by (cases "etcd_take c req lease (wrap64 (ttl * second)) rateLease s2") auto
        note given = revoke_evolves [OF laws, of s3 lease]
        have "r = q \<and> evolves s3 s' \<and> ((\<exists>claim. r = Inr claim) \<longrightarrow> s' = s3)"
          using rest a take given law_refl [OF laws, of s3] law_trans [OF laws given revoke_evolves [OF laws, of _ rateLease]]
          by (cases q) (auto split: if_splits)
        with take ev2 enough show ?thesis by blast
      qed
    qed
  qed
qed

lemma take_evolves:
  assumes laws: "etcd_laws (et_client c) get rv evolves" and "etcd_take c req lease granted rateLease s = Some (s', r)"
  shows "evolves s s'"
proof -
  from take_outcome [OF assms] obtain s1 where "evolves s s1" "evolves s1 s'" unfolding outcome_between_def by blast
  then show ?thesis by (rule law_trans [OF laws])
qed

lemma etcd_evolves:
  assumes laws: "etcd_laws (et_client c) get rv evolves" and "etcd_Acquire c req s = Some (s', r)"
  shows "evolves s s'"
  using acquire_outcome [OF assms] law_trans [OF laws] take_evolves [OF laws] by metis

lemma acquire_granted:
  assumes laws: "etcd_laws (et_client c) get rv evolves" and "etcd_Acquire c req s = Some (s', Inr claim)"
  shows "\<exists>s1 h t taken. evolves s s1 \<and> evolves s1 s' \<and>
    enc_holder (et_codec c) \<lparr>hv_holder = Holder req, hv_Taken = taken\<rparr> = Inr h \<and>
    enc_tick (et_codec c) \<lparr>tv_DueAt = DueAt (Trigger req), tv_holder = Holder req\<rparr> = Inr t \<and>
    granted_at c req h t (cm_token claim) (get s1) (get s') \<and>
    rv s1 < cm_token claim \<and> cm_token claim = rv s' \<and> cm_name claim = Name req \<and> Expiry req \<le> cm_granted claim"
proof -
  from acquire_outcome [OF assms] obtain s2 lease granted rateLease where a: "evolves s s2" "Expiry req \<le> granted"
    "etcd_take c req lease granted rateLease s2 = Some (s', Inr claim)" by (auto simp: before_deciding_def)
  from take_outcome [OF laws a(3)] obtain h t s1 where o: "evolves s2 s1" "evolves s1 s'"
    "outcome_true c req h t (get s1) (rv s1) (get s') (rv s') (Inr claim)" "cm_name claim = Name req" "cm_granted claim = granted"
    "enc_holder (et_codec c) \<lparr>hv_holder = Holder req, hv_Taken = et_wall c s2\<rparr> = Inr h"
    "enc_tick (et_codec c) \<lparr>tv_DueAt = DueAt (Trigger req), tv_holder = Holder req\<rparr> = Inr t"
    unfolding outcome_between_def by blast
  show ?thesis
    by (rule exI [of _ s1], rule exI [of _ h], rule exI [of _ t], rule exI [of _ "et_wall c s2"])
       (use o a(2) law_trans [OF laws a(1) o(1)] in \<open>auto simp: outcome_true_def\<close>)
qed

lemma fence_passes:
  assumes laws: "etcd_laws (et_client c) get rv evolves" and "etcdClaim_Fence c claim s = (s', None)"
  shows "\<exists>s1. evolves s s1 \<and> (case get s1 (claimKey c (cm_name claim)) of None \<Rightarrow> 0 | Some kv \<Rightarrow> kv_Create kv) = cm_token claim"
proof -
  let ?cmp = "[CreateRevision (claimKey c (cm_name claim)) (cm_token claim)]"
  let ?get = "[OpGet (claimKey c (cm_name claim))]"
  obtain r where t: "ec_txn (et_client c) ?cmp ?get [] s = (s', Inr r)" "tx_Succeeded r"
    using assms(2) by (auto simp: etcdClaim_Fence_def Let_def split: prod.splits sum.splits if_splits)
  from law_txn [OF laws t(1)] t(2) obtain s1 where "evolves s s1" "list_all (cmp_holds (get s1)) ?cmp"
    by (auto simp: txn_applied_def)
  then show ?thesis by (auto simp: cmp_holds_def)
qed

subsection \<open>The decision ends\<close>

text \<open>The call's deadline comes nearer with every transaction made while it has not passed.\<close>

definition deadline_nears :: "'s etcd_client \<Rightarrow> ('s \<Rightarrow> nat) \<Rightarrow> bool" where
  "deadline_nears cl left \<longleftrightarrow> (\<forall>cs ts es s. left (fst (ec_txn cl cs ts es s)) \<le> left s \<and>
     (ec_ctx cl s = None \<longrightarrow> left (fst (ec_txn cl cs ts es s)) < left s))"

lemma take_loop_returns:
  assumes "deadline_nears (et_client c) left"
  shows "\<exists>y. take_loop c req h t lease granted rateLease s = Some y"
proof (induction "left s" arbitrary: s rule: less_induct)
  case less
  have near: "left (fst (ec_txn (et_client c) cs ts es u)) \<le> left u"
    "ec_ctx (et_client c) u = None \<Longrightarrow> left (fst (ec_txn (et_client c) cs ts es u)) < left u" for cs ts es u
    using assms by (auto simp: deadline_nears_def)
  have again: "\<exists>y. take_loop c req h t lease granted rateLease s2 = Some y"
    if "ec_ctx (et_client c) s = None" "etcd_read c req s = (s1, read)" "ec_txn (et_client c) cs ts es s1 = (s2, resp)" for s1 s2 read cs ts es resp
  proof -
    have "left s1 < left s" using near(2) [OF that(1), of "[]" "etcd_ops c req" "[]"] that(2)
      by (auto simp: etcd_read_def split: prod.splits sum.splits)
    moreover have "left s2 \<le> left s1" using near(1) [of cs ts es s1] that(3) by simp
    ultimately show ?thesis using less by simp
  qed
  then show ?case
    by (subst take_loop.simps) (auto split: option.splits prod.splits sum.splits)
qed

subsection \<open>A store of its own\<close>

text \<open>
  A client of one store, the newest revision first, in which nothing else happens: what the laws are
  about, for the examples.
\<close>

type_synonym lone_store = "(string \<times> string option) list list"

fun lone_get :: "lone_store \<Rightarrow> string \<Rightarrow> etcd_kv option" where
  "lone_get [] k = None"
| "lone_get (r # s) k = (case map_of r k of
     None \<Rightarrow> lone_get s k
   | Some None \<Rightarrow> None
   | Some (Some v) \<Rightarrow> Some \<lparr>kv_Value = v, kv_Create = (case lone_get s k of None \<Rightarrow> 1 + int (length s) | Some kv \<Rightarrow> kv_Create kv),
       kv_Mod = 1 + int (length s)\<rparr>)"

definition lone_rv :: "lone_store \<Rightarrow> int" where "lone_rv s = int (length s)"

definition lone_evolves :: "lone_store \<Rightarrow> lone_store \<Rightarrow> bool" where
  "lone_evolves s s' \<longleftrightarrow> (\<exists>d. s' = d @ s)"

definition lone_txn :: "etcd_cmp list \<Rightarrow> etcd_op list \<Rightarrow> etcd_op list \<Rightarrow> lone_store \<Rightarrow> lone_store \<times> (client_error, txn_resp) result" where
  "lone_txn cs ts es s =
     (if list_all (cmp_holds (lone_get s)) cs
      then let s' = (if puts_of ts = [] then s else map (\<lambda>(k, v). (k, Some v)) (puts_of ts) # s) in
        (s', Inr \<lparr>tx_Succeeded = True, tx_Revision = lone_rv s', tx_Responses = map (lone_get s) (gets_of ts)\<rparr>)
      else (s, Inr \<lparr>tx_Succeeded = False, tx_Revision = lone_rv s, tx_Responses = map (lone_get s) (gets_of es)\<rparr>))"

definition lone_client :: "lone_store etcd_client" where
  "lone_client = \<lparr>ec_ctx = \<lambda>s. None, ec_grant = \<lambda>n s. (s, Inr (7, n)), ec_revoke = \<lambda>n s. (s, None), ec_keepalive = \<lambda>n s. (s, None),
     ec_txn = lone_txn, ec_get = \<lambda>k s. (s, Inr (lone_get s k, lone_rv s)), ec_watch = \<lambda>k n s. (s, [])\<rparr>"

lemma lone_positive: "lone_get s k = Some kv \<Longrightarrow> 0 < kv_Create kv \<and> 0 < kv_Mod kv \<and> kv_Mod kv \<le> lone_rv s \<and> kv_Create kv \<le> lone_rv s"
  by (induction s arbitrary: kv) (fastforce simp: lone_rv_def split: option.splits)+

lemma lone_unchanged: "lone_get s k = Some kv \<Longrightarrow> lone_get (d @ s) k = Some kv' \<Longrightarrow> kv_Mod kv = kv_Mod kv' \<Longrightarrow> kv_Value kv = kv_Value kv'"
proof (induction d arbitrary: kv')
  case (Cons r d)
  then show ?case using lone_positive [of s k kv] by (auto simp: lone_rv_def split: option.splits)
qed simp

lemma lone_created:
  "lone_get (d @ s) k = Some kv' \<Longrightarrow> lone_rv s < kv_Create kv' \<or> (\<exists>kv. lone_get s k = Some kv \<and> kv_Create kv = kv_Create kv')"
  by (induction d arbitrary: kv') (fastforce simp: lone_rv_def split: option.splits)+

lemma map_of_put: "map_of (map (\<lambda>(k, v). (k, Some v)) ps) k = map_option Some (map_of ps k)"
  by (induction ps) auto

lemma lone_written:
  "lone_get (map (\<lambda>(k, v). (k, Some v)) (puts_of ts) # s) = store_after ts (1 + int (length s)) (lone_get s)"
  by (rule ext) (simp add: store_after_def map_of_put split: option.splits)

lemma store_untouched: "puts_of ts = [] \<Longrightarrow> store_after ts n m = m"
  by (rule ext) (simp add: store_after_def)

lemma lone_applied:
  "lone_txn cs ts es s = (s', Inr r) \<Longrightarrow> lone_evolves s s' \<and> txn_applied (lone_get s) (lone_rv s) cs ts es r (lone_get s') (lone_rv s')"
  by (auto simp: lone_txn_def txn_applied_def lone_evolves_def lone_written store_untouched lone_rv_def Let_def split: if_splits)

lemma lone_laws: "etcd_laws lone_client lone_get lone_rv lone_evolves"
  unfolding etcd_laws_def
proof (intro conjI)
  show "\<forall>cs ts es s s' r. ec_txn lone_client cs ts es s = (s', Inr r) \<longrightarrow>
      (\<exists>s1. lone_evolves s s1 \<and> lone_evolves s1 s' \<and> txn_applied (lone_get s1) (lone_rv s1) cs ts es r (lone_get s') (lone_rv s'))"
  proof (intro allI impI)
    fix cs ts es s s' r
    assume "ec_txn lone_client cs ts es s = (s', Inr r)"
    then have "lone_txn cs ts es s = (s', Inr r)" by (simp add: lone_client_def)
    from lone_applied [OF this] show "\<exists>s1. lone_evolves s s1 \<and> lone_evolves s1 s' \<and>
        txn_applied (lone_get s1) (lone_rv s1) cs ts es r (lone_get s') (lone_rv s')"
      by (intro exI [of _ s]) (simp add: lone_evolves_def)
  qed
  show "\<forall>cs ts es s. lone_evolves s (fst (ec_txn lone_client cs ts es s))"
    by (simp add: lone_client_def lone_txn_def lone_evolves_def Let_def)
  show "\<forall>s s1 s2. lone_evolves s s1 \<longrightarrow> lone_evolves s1 s2 \<longrightarrow> lone_evolves s s2" by (auto simp: lone_evolves_def)
  show "\<forall>s s' k kv kv'. lone_evolves s s' \<longrightarrow> lone_get s k = Some kv \<longrightarrow> lone_get s' k = Some kv' \<longrightarrow> kv_Mod kv = kv_Mod kv' \<longrightarrow> kv_Value kv = kv_Value kv'"
    using lone_unchanged unfolding lone_evolves_def by blast
  show "\<forall>s s' k kv'. lone_evolves s s' \<longrightarrow> lone_get s' k = Some kv' \<longrightarrow>
      lone_rv s < kv_Create kv' \<or> (\<exists>kv. lone_get s k = Some kv \<and> kv_Create kv = kv_Create kv')"
    using lone_created unfolding lone_evolves_def by blast
  show "\<forall>s k kv. lone_get s k = Some kv \<longrightarrow> 0 < kv_Create kv \<and> 0 < kv_Mod kv" using lone_positive by blast
qed (auto simp: lone_evolves_def lone_client_def lone_rv_def)

text \<open>A host of the demonstration, a request of its schedule and the claim it is granted.\<close>

definition lone_codec :: etcd_codec where
  "lone_codec = \<lparr>enc_holder = \<lambda>v. Inr (RunID (hv_holder v)), dec_holder = \<lambda>t. Inr \<lparr>hv_holder = \<lparr>Host = ''a'', Instance = ''1'', RunID = t\<rparr>, hv_Taken = 0\<rparr>,
     enc_tick = \<lambda>v. Inr (replicate (nat (tv_DueAt v)) CHR ''.''), dec_tick = \<lambda>t. Inr \<lparr>tv_DueAt = int (length t), tv_holder = \<lparr>Host = ''a'', Instance = ''1'', RunID = ''r''\<rparr>\<rparr>\<rparr>"

definition lone_etcd :: "lone_store etcd" where
  "lone_etcd = etcd_New lone_client ''/gronin'' lone_codec (\<lambda>s. 0)"

definition lone_request :: "string \<Rightarrow> time \<Rightarrow> acquire_request" where
  "lone_request run due = \<lparr>Name = ''p'', Holder = \<lparr>Host = ''a'', Instance = ''1'', RunID = run\<rparr>, Expiry = 5 * second,
     Rate = Some \<lparr>Runs = 2, Per = minute\<rparr>, Trigger = \<lparr>Kind = KindSchedule, DueAt = due\<rparr>\<rparr>"

definition lone_claimed :: lone_store where
  "lone_claimed = [[(''/gronin/claims/p'', Some ''x''), (''/gronin/ticks/p'', Some ''...''), (''/gronin/rate/p/0'', Some ''x'')]]"

definition lone_retaken :: lone_store where
  "lone_retaken = [(''/gronin/claims/p'', Some ''y''), (''/gronin/ticks/p'', Some ''....''), (''/gronin/rate/p/1'', Some ''y'')] #
     [(''/gronin/claims/p'', None)] # lone_claimed"

lemma lone_first: "etcd_Acquire lone_etcd (lone_request ''x'' 3) [] =
    Some (lone_claimed, Inr \<lparr>cm_name = ''p'', cm_lease = 7, cm_token = 1, cm_granted = 5 * second\<rparr>)"
  by code_simp

lemma lone_held: "etcd_Acquire lone_etcd (lone_request ''y'' 4) lone_claimed =
    Some (lone_claimed, Inl (Refusal (Held \<lparr>Host = ''a'', Instance = ''1'', RunID = ''x''\<rparr>)))"
  by code_simp

lemma lone_second: "etcd_Acquire lone_etcd (lone_request ''y'' 4) ([(''/gronin/claims/p'', None)] # lone_claimed) =
    Some (lone_retaken, Inr \<lparr>cm_name = ''p'', cm_lease = 7, cm_token = 3, cm_granted = 5 * second\<rparr>)"
  by code_simp

lemma lone_etcd_laws: "etcd_laws (et_client lone_etcd) lone_get lone_rv lone_evolves"
  using lone_laws by (simp add: lone_etcd_def etcd_New_def)

text \<open>A host that loses every transaction, with a deadline after so many of them.\<close>

definition losing_client :: "nat etcd_client" where
  "losing_client = \<lparr>ec_ctx = \<lambda>s. if s = 0 then Some ''context deadline exceeded'' else None, ec_grant = \<lambda>n s. (s, Inr (7, n)),
     ec_revoke = \<lambda>n s. (s, None), ec_keepalive = \<lambda>n s. (s, None),
     ec_txn = \<lambda>cs ts es s. (s - 1, Inr \<lparr>tx_Succeeded = cs = [], tx_Revision = 1, tx_Responses = [None, None, None, None]\<rparr>),
     ec_get = \<lambda>k s. (s, Inr (None, 1)), ec_watch = \<lambda>k n s. (s, [])\<rparr>"

subsection \<open>Properties\<close>

text \<open>
  C13. A claim is taken in one step: whatever the other hosts did during the call, there is one state at which
  the claim did not exist, the recorded tick was earlier and a rate slot was free, and the next revision
  holds the claim, the tick and the slot together, and nothing else; it is the claim's fencing token.
  The expiry granted is at least the one asked for.
\<close>

theorem etcd_claim_is_one_step:
  assumes "etcd_laws (et_client c) get rv evolves" and "etcd_Acquire c req s = Some (s', Inr claim)"
  shows "\<exists>s1 h t taken. evolves s s1 \<and> evolves s1 s' \<and>
    enc_holder (et_codec c) \<lparr>hv_holder = Holder req, hv_Taken = taken\<rparr> = Inr h \<and>
    enc_tick (et_codec c) \<lparr>tv_DueAt = DueAt (Trigger req), tv_holder = Holder req\<rparr> = Inr t \<and>
    granted_at c req h t (cm_token claim) (get s1) (get s') \<and>
    rv s1 < cm_token claim \<and> cm_token claim = rv s' \<and> cm_name claim = Name req \<and> Expiry req \<le> cm_granted claim"
  by (rule acquire_granted [OF assms])

theorem etcd_claim_is_one_step_witness:
  "etcd_Acquire lone_etcd (lone_request ''x'' 3) [] = Some (lone_claimed, Inr \<lparr>cm_name = ''p'', cm_lease = 7, cm_token = 1, cm_granted = 5 * second\<rparr>) \<and>
   (\<exists>s1 h t. lone_evolves [] s1 \<and> lone_evolves s1 lone_claimed \<and> granted_at lone_etcd (lone_request ''x'' 3) h t 1 (lone_get s1) (lone_get lone_claimed) \<and> lone_rv s1 < 1)"
proof -
  from etcd_claim_is_one_step [OF lone_etcd_laws lone_first] obtain s1 h t where
    "lone_evolves [] s1" "lone_evolves s1 lone_claimed" "granted_at lone_etcd (lone_request ''x'' 3) h t 1 (lone_get s1) (lone_get lone_claimed)" "lone_rv s1 < 1"
    unfolding etcd_claim.simps by blast
  with lone_first show ?thesis by blast
qed

text \<open>
  C15. A refusal is true of a state the backend was in during the call: a held claim names the holder that was
  there, a tick that ran one that was recorded, at or after the trigger's, while nobody held the claim, and
  a rate limit is reached only when every one of its slots was taken.  A backend that cannot be reached or
  asked never looks like a held claim.
\<close>

theorem etcd_refusals_are_true:
  assumes "etcd_laws (et_client c) get rv evolves" and "etcd_Acquire c req s = Some (s', Inl (Refusal e))"
  shows "\<exists>s1. evolves s s1 \<and> evolves s1 s' \<and> refusal_true c req (get s1) e"
proof -
  note laws = assms(1)
  show ?thesis
  proof (cases "before_deciding (Inl (Refusal e))")
    case True
    moreover have "evolves s s'" by (rule etcd_evolves [OF assms])
    ultimately show ?thesis using law_refl [OF laws] by (auto simp: before_deciding_def refusal_true_def)
  next
    case False
    with acquire_outcome [OF assms] obtain s2 s3 lease granted rateLease where a: "evolves s s2" "evolves s3 s'"
      "etcd_take c req lease granted rateLease s2 = Some (s3, Inl (Refusal e))" by blast
    from take_outcome [OF laws a(3)] obtain h t s1 where o: "evolves s2 s1" "evolves s1 s3"
      "outcome_true c req h t (get s1) (rv s1) (get s3) (rv s3) (Inl (Refusal e))" unfolding outcome_between_def by blast
    have "evolves s s1" "evolves s1 s'" using law_trans [OF laws a(1) o(1)] law_trans [OF laws o(2) a(2)] by this+
    moreover have "refusal_true c req (get s1) e" using o(3) by (simp add: outcome_true_def)
    ultimately show ?thesis by blast
  qed
qed

theorem etcd_refusals_are_true_witness:
  "\<exists>s1. lone_evolves lone_claimed s1 \<and> lone_evolves s1 lone_claimed \<and>
     refusal_true lone_etcd (lone_request ''y'' 4) (lone_get s1) (Held \<lparr>Host = ''a'', Instance = ''1'', RunID = ''x''\<rparr>)"
  by (rule etcd_refusals_are_true [OF lone_etcd_laws lone_held])

text \<open>
  C14. A holder that was overtaken is stopped: once the claim it held has been granted to another, whoever
  granted it and whatever happened between, the later token is the greater one and the earlier holder's
  fence never passes again.
\<close>

theorem etcd_overtaken_is_fenced:
  assumes "etcd_laws (et_client c1) get rv evolves" "etcd_laws (et_client c2) get rv evolves"
    and "etcd_Acquire c1 req1 s = Some (s1, Inr claim1)" "evolves s1 s2"
    and "etcd_Acquire c2 req2 s2 = Some (s3, Inr claim2)" "claimKey c2 (Name req2) = claimKey c1 (Name req1)"
    and "evolves s3 s4" "etcdClaim_Fence c1 claim1 s4 = (s5, e)"
  shows "cm_token claim1 < cm_token claim2 \<and> e \<noteq> None"
proof -
  let ?key = "claimKey c1 (Name req1)"
  from acquire_granted [OF assms(1,3)] have one: "cm_token claim1 = rv s1" "cm_name claim1 = Name req1" by auto
  from acquire_granted [OF assms(2,5)] obtain u h t where u: "evolves s2 u" "granted_at c2 req2 h t (cm_token claim2) (get u) (get s3)"
    "rv u < cm_token claim2" "cm_token claim2 = rv s3" by blast
  have less: "cm_token claim1 < cm_token claim2"
    using one(1) law_rev [OF assms(1,4)] law_rev [OF assms(1) u(1)] u(3) by simp
  have kv: "get s3 ?key = Some \<lparr>kv_Value = h, kv_Create = cm_token claim2, kv_Mod = cm_token claim2\<rparr>"
    using u(2) assms(6) by (auto simp: granted_at_def)
  have "e \<noteq> None"
  proof
    assume "e = None"
    with fence_passes [OF assms(1)] assms(8) one(2) obtain v where v: "evolves s4 v"
      "(case get v ?key of None \<Rightarrow> 0 | Some kv \<Rightarrow> kv_Create kv) = cm_token claim1" by metis
    have "evolves s3 v" by (rule law_trans [OF assms(1,7) v(1)])
    moreover from acquire_granted [OF assms(1,3)] obtain w where "get s1 ?key = Some w" "kv_Create w = cm_token claim1"
      by (auto simp: granted_at_def)
    then have "0 < cm_token claim1" using law_positive [OF assms(1)] by metis
    ultimately obtain kv' where "get v ?key = Some kv'" "kv_Create kv' = cm_token claim1" using v(2) by (auto split: option.splits)
    with law_created [OF assms(1) \<open>evolves s3 v\<close>] kv less u(4) show False by fastforce
  qed
  with less show ?thesis by simp
qed

theorem etcd_overtaken_is_fenced_witness:
  "snd (etcdClaim_Fence lone_etcd \<lparr>cm_name = ''p'', cm_lease = 7, cm_token = 1, cm_granted = 5 * second\<rparr> lone_claimed) = None \<and>
   snd (etcdClaim_Fence lone_etcd \<lparr>cm_name = ''p'', cm_lease = 7, cm_token = 1, cm_granted = 5 * second\<rparr> lone_retaken) \<noteq> None"
proof -
  have "lone_evolves lone_claimed ([(''/gronin/claims/p'', None)] # lone_claimed)" "lone_evolves lone_retaken lone_retaken"
    by (simp_all add: lone_evolves_def)
  moreover have "claimKey lone_etcd (Name (lone_request ''y'' 4)) = claimKey lone_etcd (Name (lone_request ''x'' 3))"
    by (simp add: lone_request_def)
  ultimately have "snd (etcdClaim_Fence lone_etcd \<lparr>cm_name = ''p'', cm_lease = 7, cm_token = 1, cm_granted = 5 * second\<rparr> lone_retaken) \<noteq> None"
    using etcd_overtaken_is_fenced [OF lone_etcd_laws lone_etcd_laws lone_first _ lone_second] surjective_pairing by blast
  moreover have "snd (etcdClaim_Fence lone_etcd \<lparr>cm_name = ''p'', cm_lease = 7, cm_token = 1, cm_granted = 5 * second\<rparr> lone_claimed) = None"
    by code_simp
  ultimately show ?thesis by blast
qed

text \<open>
  C39. An acquisition always ends: losing to other hosts again and again, it reads and decides again until it
  is granted, refused or its deadline passes.
\<close>

theorem etcd_Acquire_returns:
  assumes "deadline_nears (et_client c) left"
  shows "\<exists>s' r. etcd_Acquire c req s = Some (s', r)"
proof -
  have take: False if "etcd_take c req lease granted rateLease u = None" for lease granted rateLease u
  proof -
    have "take_loop c req h t lease granted rateLease u \<noteq> None" for h t using take_loop_returns [OF assms, of req h t] by fastforce
    then show False using that by (simp add: etcd_take_def del: not_None_eq split: sum.splits)
  qed
  have "etcd_Acquire c req s \<noteq> None"
    by (auto simp: etcd_Acquire_def Let_def dest: take split: option.splits prod.splits sum.splits)
  then show ?thesis by auto
qed

theorem etcd_Acquire_returns_witness:
  "\<exists>s' r. etcd_Acquire (etcd_New losing_client ''/gronin'' lone_codec (\<lambda>s. 0)) (lone_request ''x'' 3) 9 = Some (s', r)"
proof -
  have "deadline_nears losing_client (\<lambda>s. s)" by (auto simp: deadline_nears_def losing_client_def)
  then show ?thesis using etcd_Acquire_returns [of "etcd_New losing_client ''/gronin'' lone_codec (\<lambda>s. 0)" "\<lambda>s. s"]
    by (simp add: etcd_New_def)
qed

end
