(* ===== verification/Api.thy ===== *)
theory Api
  imports Rows Ingress
begin

text \<open>
  The local API the operator commands talk to: \<open>api/api.go\<close>, and the lines of \<open>serve_cmd.go\<close> that check its
  address and put its handler behind the listener.  The address functions of the standard library are
  translated; its router is reduced to the two routes, on the segments of a cleaned path.  The text of an
  instant is a parameter, and so is the reader, which \<open>store_reader\<close> provides from the record store.
\<close>

subsection \<open>Addresses\<close>

text \<open>\<open>net.SplitHostPort\<close>.\<close>

definition last_colon :: "string \<Rightarrow> nat option" where
  "last_colon s = map_option (\<lambda>i. length s - 1 - i) (str_index (rev s) '':'')"

definition SplitHostPort :: "string \<Rightarrow> (string \<times> string) option" where
  "SplitHostPort hostport = (case last_colon hostport of
     None \<Rightarrow> None
   | Some i \<Rightarrow>
       if hd hostport = CHR ''['' then (case str_index hostport '']'' of
            None \<Rightarrow> None
          | Some closing \<Rightarrow>
              if closing + 1 \<noteq> i \<or> str_contains (drop 1 hostport) ''['' \<or> str_contains (drop (closing + 1) hostport) '']'' then None
              else Some (drop 1 (take closing hostport), drop (i + 1) hostport))
       else if str_contains (take i hostport) '':'' \<or> str_contains hostport ''['' \<or> str_contains hostport '']'' then None
       else Some (take i hostport, drop (i + 1) hostport))"

text \<open>\<open>net.ParseIP\<close>, as sixteen bytes.  A zone is refused.\<close>

definition octet :: "string \<Rightarrow> nat option" where
  "octet f = (if length f > 1 \<and> hd f = CHR ''0'' then None
     else case atoi_abs f of None \<Rightarrow> None | Some n \<Rightarrow> if n > 255 then None else Some n)"

fun octets :: "string list \<Rightarrow> nat list option" where
  "octets [] = Some []"
| "octets (f # fs) = (case octet f of None \<Rightarrow> None | Some n \<Rightarrow> map_option (Cons n) (octets fs))"

definition parseIPv4 :: "string \<Rightarrow> nat list option" where
  "parseIPv4 s = (let fs = str_split s ''.'' in if length fs = 4 then octets fs else None)"

definition is_hex :: "char \<Rightarrow> bool" where "is_hex c \<longleftrightarrow> hex_digit c \<noteq> None"

definition hex_value :: "string \<Rightarrow> nat" where
  "hex_value ds = foldl (\<lambda>n c. 16 * n + the (hex_digit c)) 0 ds"

text \<open>The fields of an IPv6 address, at most as many as are left; the place of the \<open>::\<close> is kept.\<close>

fun ipv6_fields :: "nat \<Rightarrow> nat list \<Rightarrow> nat option \<Rightarrow> string \<Rightarrow> (nat list \<times> nat option \<times> string) option" where
  "ipv6_fields 0 ip ellipsis s = Some (ip, ellipsis, s)"
| "ipv6_fields (Suc left) ip ellipsis s =
     (let digits = takeWhile is_hex s; rest = dropWhile is_hex s;
          ip' = ip @ [hex_value digits div 256, hex_value digits mod 256] in
      if digits = [] \<or> length digits > 4 then None
      else case rest of
        [] \<Rightarrow> Some (ip', ellipsis, [])
      | c # onward \<Rightarrow>
          if c = CHR ''.'' then
            (if (ellipsis = None \<and> length ip \<noteq> 12) \<or> length ip + 4 > 16 then None
             else map_option (\<lambda>v4. (ip @ v4, ellipsis, [])) (parseIPv4 s))
          else if c \<noteq> CHR '':'' \<or> onward = [] then None
          else if hd onward = CHR '':'' then
            (if ellipsis \<noteq> None then None
             else if tl onward = [] then Some (ip', Some (length ip'), [])
             else ipv6_fields left ip' (Some (length ip')) (tl onward))
          else ipv6_fields left ip' ellipsis onward)"

definition ipv6_bytes :: "nat list \<times> nat option \<times> string \<Rightarrow> nat list option" where
  "ipv6_bytes p = (case p of (ip, ellipsis, rest) \<Rightarrow>
     if rest \<noteq> [] then None
     else case ellipsis of
       None \<Rightarrow> if length ip < 16 then None else Some ip
     | Some at \<Rightarrow> if length ip < 16 then Some (take at ip @ replicate (16 - length ip) 0 @ drop at ip) else None)"

definition parseIPv6 :: "string \<Rightarrow> nat list option" where
  "parseIPv6 s = (case if has_prefix s ''::'' then (if drop 2 s = [] then Some ([], Some 0, []) else ipv6_fields 8 [] (Some 0) (drop 2 s))
       else ipv6_fields 8 [] None s of
     None \<Rightarrow> None | Some p \<Rightarrow> ipv6_bytes p)"

definition v4_in_v6 :: "nat list" where "v4_in_v6 = replicate 10 0 @ [255, 255]"

definition ParseIP :: "string \<Rightarrow> nat list option" where
  "ParseIP s = (case dropWhile (\<lambda>c. c \<notin> {CHR ''.'', CHR '':'', CHR ''%''}) s of
     [] \<Rightarrow> None
   | c # _ \<Rightarrow> if c = CHR ''.'' then map_option (append v4_in_v6) (parseIPv4 s)
       else if c = CHR ''%'' \<or> str_contains s ''%'' then None
       else parseIPv6 s)"

definition IsLoopback :: "nat list \<Rightarrow> bool" where
  "IsLoopback ip = (if take 12 ip = v4_in_v6 then ip ! 12 = 127 else ip = replicate 15 0 @ [1])"

text \<open>\<open>strings.EqualFold\<close> with \<open>localhost\<close>: the long s is a fold of the letter too.\<close>

fun fold_s :: "string \<Rightarrow> string" where
  "fold_s (c # d # cs) = (if c = CHR 0xC5 \<and> d = CHR 0xBF then CHR ''s'' # fold_s cs else c # fold_s (d # cs))"
| "fold_s cs = cs"

definition is_localhost :: "string \<Rightarrow> bool" where
  "is_localhost host \<longleftrightarrow> to_upper (fold_s host) = ''LOCALHOST''"

definition isLoopback :: "string \<Rightarrow> bool" where
  "isLoopback host =
     (if host = [] \<or> host = ''0.0.0.0'' \<or> host = ''::'' then False
      else if is_localhost host then True
      else case ParseIP host of None \<Rightarrow> False | Some ip \<Rightarrow> IsLoopback ip)"

datatype address_error = NoAddress | NotAnAddress string | RemoteWithoutCredential string

definition CheckAddress :: "string \<Rightarrow> string \<Rightarrow> address_error option" where
  "CheckAddress address token =
     (if address = [] then Some NoAddress
      else case SplitHostPort address of
        None \<Rightarrow> Some (NotAnAddress address)
      | Some (host, _) \<Rightarrow> if isLoopback host then None else if token = [] then Some (RemoteWithoutCredential host) else None)"

subsection \<open>What is read\<close>

record api_reader =
  rd_ListRuns :: "int \<Rightarrow> (store_error, run_row list) result"
  rd_GetRun :: "string \<Rightarrow> (store_error, run_row) result"
  rd_GatheredInputs :: "string \<Rightarrow> (store_error, gathered_input list) result"
  rd_SinkOutcomes :: "string \<Rightarrow> (store_error, sink_row list) result"
  rd_RefusedActions :: "string \<Rightarrow> (store_error, refused_action list) result"
  rd_ToolCalls :: "string \<Rightarrow> (store_error, tool_call list) result"

text \<open>\<open>ORDER BY started_at DESC, id DESC\<close>, on the texts that are stored.\<close>

definition ListRuns :: "(time \<Rightarrow> string) \<Rightarrow> int \<Rightarrow> store \<Rightarrow> run_row list" where
  "ListRuns rfc3339nano limit s =
     take (nat (if limit \<le> 0 then 50 else limit)) (rev (sort_key (\<lambda>r. rfc3339nano (StartedAt r)) (sort_key run_ID (st_runs s))))"

definition store_reader :: "(time \<Rightarrow> string) \<Rightarrow> store \<Rightarrow> rows \<Rightarrow> api_reader" where
  "store_reader rfc3339nano s w =
     \<lparr>rd_ListRuns = \<lambda>limit. Inr (ListRuns rfc3339nano limit s), rd_GetRun = \<lambda>id'. GetRun id' s,
      rd_GatheredInputs = \<lambda>id'. Inr (GatheredInputs id' w), rd_SinkOutcomes = \<lambda>id'. Inr (SinkOutcomes id' w),
      rd_RefusedActions = \<lambda>id'. Inr (RefusedActions id' w), rd_ToolCalls = \<lambda>id'. Inr (ToolCalls id' w)\<rparr>"

subsection \<open>Answers\<close>

datatype field_value = FText string | FCost int | FTokens int

datatype api_body =
    ErrorText string
  | RunsBody "(string \<times> field_value) list list"
  | RunBody "(string \<times> field_value) list" "gathered_input list" "tool_call list" "refused_action list" "sink_row list"
  | FromRouter

record api_answer =
  an_Status :: nat
  an_Authenticate :: bool
  an_Body :: api_body

record api_request =
  rq_Method :: string
  rq_Segments :: "string list"
  rq_Authorization :: string

abbreviation plain_answer :: "nat \<Rightarrow> api_body \<Rightarrow> api_answer" where
  "plain_answer code body \<equiv> \<lparr>an_Status = code, an_Authenticate = False, an_Body = body\<rparr>"

abbreviation unreadable :: api_answer where "unreadable \<equiv> plain_answer 500 (ErrorText ''the record could not be read'')"

fun status_text :: "status \<Rightarrow> string" where
  "status_text StatusRunning = ''running''"
| "status_text StatusSucceeded = ''succeeded''"
| "status_text StatusFailed = ''failed''"
| "status_text StatusTimedOut = ''timed_out''"
| "status_text StatusCapped = ''capped''"
| "status_text StatusInterrupted = ''interrupted''"
| "status_text StatusRefused = ''refused''"
| "status_text StatusClaimLost = ''claim_lost''"

fun trigger_text :: "trigger_kind \<Rightarrow> string" where
  "trigger_text TriggerSchedule = ''schedule''"
| "trigger_text TriggerManual = ''manual''"
| "trigger_text TriggerReplay = ''replay''"
| "trigger_text TriggerResume = ''resume''"
| "trigger_text TriggerWebhook = ''webhook''"

definition run_summary :: "(time \<Rightarrow> string) \<Rightarrow> run_row \<Rightarrow> (string \<times> field_value) list" where
  "run_summary rfc3339nano one =
     [(''id'', FText (run_ID one)), (''playbook'', FText (run_PlaybookName one)), (''status'', FText (status_text (run_Status one))),
      (''trigger'', FText (trigger_text (run_TriggerKind one))), (''started_at'', FText (rfc3339nano (StartedAt one))),
      (''cost_usd'', FCost (CostUSD one)), (''tokens'', FTokens (Tokens one))] @
     (if is_zero (EndedAt one) then [] else [(''ended_at'', FText (rfc3339nano (EndedAt one)))]) @
     map (\<lambda>(key, v). (key, FText v)) (filter (\<lambda>(_, v). v \<noteq> [])
       [(''parent_run_id'', ParentRunID one), (''error'', run_Error one), (''credential_source'', CredentialSource one),
        (''report_ref'', ReportRef one), (''prompt_ref'', PromptRef one), (''resolved_playbook_ref'', ResolvedPlaybookRef one)])"

definition listRuns :: "(time \<Rightarrow> string) \<Rightarrow> api_reader \<Rightarrow> api_answer" where
  "listRuns rfc3339nano reader = (case rd_ListRuns reader 50 of
     Inl _ \<Rightarrow> unreadable
   | Inr runs \<Rightarrow> plain_answer 200 (RunsBody (map (run_summary rfc3339nano) runs)))"

definition showRun :: "(time \<Rightarrow> string) \<Rightarrow> api_reader \<Rightarrow> string \<Rightarrow> api_answer" where
  "showRun rfc3339nano reader id' = (case rd_GetRun reader id' of
     Inl (NotFound _) \<Rightarrow> plain_answer 404 (ErrorText ''no such run'')
   | Inl _ \<Rightarrow> unreadable
   | Inr one \<Rightarrow> (case rd_GatheredInputs reader id' of Inl _ \<Rightarrow> unreadable
   | Inr inputs \<Rightarrow> (case rd_SinkOutcomes reader id' of Inl _ \<Rightarrow> unreadable
   | Inr outcomes \<Rightarrow> (case rd_RefusedActions reader id' of Inl _ \<Rightarrow> unreadable
   | Inr actions \<Rightarrow> (case rd_ToolCalls reader id' of Inl _ \<Rightarrow> unreadable
   | Inr calls \<Rightarrow> plain_answer 200 (RunBody (run_summary rfc3339nano one) inputs calls actions outcomes))))))"

text \<open>A route for \<open>GET\<close> takes \<open>HEAD\<close> too, and \<open>{id}\<close> is one segment that is not empty.\<close>

definition api_routes :: "(time \<Rightarrow> string) \<Rightarrow> api_reader \<Rightarrow> api_request \<Rightarrow> api_answer" where
  "api_routes rfc3339nano reader r =
     (let routed = (case rq_Segments r of
            [runs] \<Rightarrow> if runs = ''runs'' then Some (listRuns rfc3339nano reader) else None
          | [runs, id'] \<Rightarrow> if runs = ''runs'' \<and> id' \<noteq> [] then Some (showRun rfc3339nano reader id') else None
          | _ \<Rightarrow> None) in
      case routed of
        None \<Rightarrow> plain_answer 404 FromRouter
      | Some ans \<Rightarrow> if rq_Method r = ''GET'' \<or> rq_Method r = ''HEAD'' then ans else plain_answer 405 FromRouter)"

definition authenticated :: "string \<Rightarrow> (api_request \<Rightarrow> api_answer) \<Rightarrow> api_request \<Rightarrow> api_answer" where
  "authenticated token inner r =
     (if token = [] then inner r
      else let offered = trim_prefix (rq_Authorization r) ''Bearer '' in
        if offered = [] \<or> offered \<noteq> token
        then \<lparr>an_Status = 401, an_Authenticate = True, an_Body = ErrorText ''unauthorized''\<rparr>
        else inner r)"

definition api_Handler :: "(time \<Rightarrow> string) \<Rightarrow> string \<Rightarrow> api_reader \<Rightarrow> api_request \<Rightarrow> api_answer" where
  "api_Handler rfc3339nano token reader = authenticated token (api_routes rfc3339nano reader)"

text \<open>What \<open>gronin serve\<close> listens with: nothing, unless the address passes.\<close>

definition api_serve :: "(time \<Rightarrow> string) \<Rightarrow> string \<Rightarrow> string \<Rightarrow> api_reader \<Rightarrow> (address_error, api_request \<Rightarrow> api_answer) result" where
  "api_serve rfc3339nano address token reader =
     (case CheckAddress address token of Some e \<Rightarrow> Inl e | None \<Rightarrow> Inr (api_Handler rfc3339nano token reader))"

subsection \<open>Properties\<close>

definition shows_record :: "api_body \<Rightarrow> bool" where
  "shows_record b = (case b of RunsBody _ \<Rightarrow> True | RunBody _ _ _ _ _ \<Rightarrow> True | _ \<Rightarrow> False)"

lemma loopback_host:
  "isLoopback host \<Longrightarrow> host \<noteq> [] \<and> (is_localhost host \<or> (\<exists>ip. ParseIP host = Some ip \<and> IsLoopback ip))"
  by (auto simp: isLoopback_def split: if_splits option.splits)

text \<open>
  C10. The record is read locally or with the credential.  Whatever is configured, an answer that holds any of
  the record was given either by a listener bound to a loopback host, the name or an address of the
  loopback network, or to a request that carried the configured token in full; and where a token is
  configured it is asked for on loopback too.
\<close>

theorem api_answers_locally_or_authenticated:
  assumes "api_serve rfc3339nano address token reader = Inr handler" "shows_record (an_Body (handler r))"
  shows "(if token = [] then \<exists>host port. SplitHostPort address = Some (host, port) \<and> host \<noteq> [] \<and>
            (is_localhost host \<or> (\<exists>ip. ParseIP host = Some ip \<and> IsLoopback ip))
          else trim_prefix (rq_Authorization r) ''Bearer '' = token)"
proof (cases "token = []")
  case True
  then obtain host port where h: "SplitHostPort address = Some (host, port)" "isLoopback host"
    using assms(1) by (auto simp: api_serve_def CheckAddress_def split: option.splits if_splits)
  from h(1) loopback_host [OF h(2)] True show ?thesis by auto
next
  case False
  have "handler = api_Handler rfc3339nano token reader" using assms(1) by (simp add: api_serve_def split: option.splits)
  with assms(2) False show ?thesis by (auto simp: api_Handler_def authenticated_def shows_record_def Let_def split: if_splits)
qed

definition quiet_reader :: api_reader where
  "quiet_reader = \<lparr>rd_ListRuns = \<lambda>n. Inr [], rd_GetRun = \<lambda>i. Inl (NotFound i), rd_GatheredInputs = \<lambda>i. Inr [], rd_SinkOutcomes = \<lambda>i. Inr [],
     rd_RefusedActions = \<lambda>i. Inr [], rd_ToolCalls = \<lambda>i. Inr []\<rparr>"

theorem api_answers_locally_or_authenticated_witness:
  "CheckAddress ''[::1]:8787'' [] = None \<and> CheckAddress '':8787'' [] = Some (RemoteWithoutCredential []) \<and>
   CheckAddress ''127.0.0.1:80'' [] = None \<and> CheckAddress ''10.0.0.1:80'' [] \<noteq> None \<and>
   trim_prefix ''Bearer secret'' ''Bearer '' = ''secret''"
proof -
  have "CheckAddress '':8787'' ''secret'' = None" by code_simp
  then have "api_serve (\<lambda>t. []) '':8787'' ''secret'' quiet_reader = Inr (api_Handler (\<lambda>t. []) ''secret'' quiet_reader)"
    by (simp add: api_serve_def)
  moreover have "shows_record (an_Body (api_Handler (\<lambda>t. []) ''secret'' quiet_reader \<lparr>rq_Method = ''GET'', rq_Segments = [''runs''], rq_Authorization = ''Bearer secret''\<rparr>))"
    by code_simp
  ultimately have "trim_prefix ''Bearer secret'' ''Bearer '' = ''secret''"
    using api_answers_locally_or_authenticated by fastforce
  moreover have "CheckAddress ''[::1]:8787'' [] = None" by code_simp
  moreover have "CheckAddress '':8787'' [] = Some (RemoteWithoutCredential [])" by code_simp
  moreover have "CheckAddress ''127.0.0.1:80'' [] = None" by code_simp
  moreover have "CheckAddress ''10.0.0.1:80'' [] \<noteq> None" by code_simp
  ultimately show ?thesis by blast
qed

text \<open>
  A run is shown whole or not at all: every section of it is what the record answered for that run, and a
  section that could not be read is never shown as an empty one.
\<close>

theorem shown_run_is_whole:
  assumes "an_Body (api_Handler rfc3339nano token reader r) = RunBody row inputs calls actions outcomes"
  shows "\<exists>id' one. rq_Segments r = [''runs'', id'] \<and> rd_GetRun reader id' = Inr one \<and> row = run_summary rfc3339nano one \<and>
    rd_GatheredInputs reader id' = Inr inputs \<and> rd_ToolCalls reader id' = Inr calls \<and>
    rd_RefusedActions reader id' = Inr actions \<and> rd_SinkOutcomes reader id' = Inr outcomes"
proof -
  have routed: "an_Body (api_routes rfc3339nano reader r) = RunBody row inputs calls actions outcomes"
    using assms by (auto simp: api_Handler_def authenticated_def Let_def split: if_splits)
  then obtain id' where id': "rq_Segments r = [''runs'', id']" "an_Body (showRun rfc3339nano reader id') = RunBody row inputs calls actions outcomes"
    by (auto simp: api_routes_def listRuns_def Let_def split: list.splits if_splits sum.splits)
  from id'(2) show ?thesis unfolding id'(1)
    by (auto simp: showRun_def split: sum.splits store_error.splits)
qed

end
