(* ===== verification/Spec2Isabelle.thy ===== *)
theory Spec2Isabelle
  imports Load Schedule Fake Ingress Stages Etcd Api
begin

text \<open>
  Gronin runs \<^emph>\<open>playbooks\<close>: a trigger (a schedule, an operator, a webhook) starts a run that gathers inputs
  with shell lines, retrieves passages of indexed collections, hands all of it to an agent process bounded
  by what the playbook declares, and delivers the report to sinks.  The program is the Go module under
  \<open>src/runtime\<close>; this development is a shallow embedding of its packages, one theory per package or file
  group, with definitions that keep the names of the code.  Paths below are relative to
  \<open>src/runtime/internal\<close>.

  \<^bold>\<open>How the parts interact.\<close>  A directory of playbooks is parsed and held to the load gate (\<open>Load\<close>, \<open>Gate\<close>).
  The scheduler (\<open>Schedule\<close>) and the webhook listener (\<open>Ingress\<close>) turn occurrences and deliveries into
  triggers.  The guard (\<open>Guard\<close>) admits a trigger when a coordinator grants its claim (\<open>Coordinator\<close>, with
  \<open>FileLock\<close>, \<open>Fake\<close> and \<open>Etcd\<close> behind the interface), or records why it refused or why it waits; the claim is
  kept by renewals (\<open>Hold\<close>).  The executor (\<open>Executor\<close>, with the stages of \<open>Gather\<close>, \<open>Retrieve_Stage\<close> and \<open>Agent\<close>
  put in their place by \<open>Stages\<close>) runs the admitted playbook, fences on the claim before it acts, and asks the
  sinks (\<open>Sink\<close>).  All of them write to the record (\<open>Store\<close>, \<open>Rows\<close>, \<open>Deliveries\<close>) through the redactor
  (\<open>Redact\<close>), and the local API (\<open>Api\<close>) reads it.

  \<^bold>\<open>Theories, code and what is shown.\<close>
  \<^item> \<open>Gronin_Prelude\<close>, \<open>Filepath\<close>: Go strings as byte lists, maps as association lists, \<open>int64\<close> arithmetic with
    its wrap-around, instants and durations as nanoseconds, and the functions of \<open>strings\<close>, \<open>strconv\<close>, \<open>sort\<close>
    and \<open>path/filepath\<close> the code calls; generic lemmas on them.
  \<^item> \<open>Config\<close> (\<open>config/config.go\<close>, \<open>interpolate.go\<close>, \<open>shell.go\<close>): references and their binding.  A shell line does
    not depend on the values bound into it; every reference is bound once.  The locale \<open>ref_syntax\<close> is the
    shape of a reference pattern; \<open>Gate\<close> interprets it for the three patterns of the code.
  \<^item> \<open>Playbook\<close>, \<open>Gate\<close>, \<open>Load\<close> (\<open>playbook/\<close>): data, values of a delivery, every rule of \<open>validate.go\<close>, reading a
    directory.  An accepted playbook is bounded in its tools and servers and leaks no payload into a shell or
    a sink; below, that the gate settles every reference a run will bind.
  \<^item> \<open>Sources\<close>, \<open>Catalogs\<close> (\<open>sources/\<close>, \<open>mcpcatalog/\<close>, \<open>collections/\<close>): the three catalogues.  The locale
    \<open>catalogue_loop\<close> is the loop all of them share, collecting entries and problems in the order of the names,
    and is interpreted on each.
  \<^item> \<open>Schedule\<close> (\<open>schedule/schedule.go\<close>): every occurrence is fired, recorded as missed or still to come.
  \<^item> \<open>Ingress\<close> (\<open>ingress/\<close>): only an authentic request changes anything, and a hand-off decides every playbook
    bound to the delivery.
  \<^item> \<open>Coordinator\<close> (\<open>guard/coordinator.go\<close>): requests, refusals, and the contract as the locales \<open>coordinator\<close> and
    \<open>fenced_coordinator\<close> over the step relation \<open>history\<close>; exclusion, increasing ticks and increasing tokens are
    proved there once and read off by the interpretations on \<open>FileLock\<close> (\<open>run/filelock.go\<close>, \<open>run.go\<close>) and
    \<open>Fake\<close> (\<open>guard/guardtest/fake.go\<close>).
  \<^item> \<open>Etcd\<close> (\<open>guard/etcd/etcd.go\<close>): the backend shared by hosts, over a client that is a parameter.  \<open>etcd_laws\<close>
    states what the documentation of etcd promises of transactions and revisions while other hosts act at
    any moment; a granted claim is one step, refusals are true, an overtaken holder is fenced and a call
    ends.
  \<^item> \<open>Guard_Config\<close>, \<open>Hold\<close>, \<open>Instance\<close>, \<open>Guard\<close> (\<open>guard/\<close>): the declared durations, the renewal loop and its
    stop bound, the processes of a host and the reconciliation of what they left, and admission.  Admission
    refines the step relation \<open>store_step\<close> of the record.
  \<^item> \<open>Store\<close>, \<open>Rows\<close>, \<open>Deliveries\<close>, \<open>Redact\<close> (\<open>record/\<close>): the tables as lists of rows, each operation with its
    constraints, blobs, acceptance of deliveries and the redactor.  A trigger waits once and ends once; blobs
    round-trip and stay in their directory; a secret never reaches the record.
  \<^item> \<open>Executor\<close> (\<open>run/execute.go\<close>, \<open>replay.go\<close>): Execute, Replay and Resume with everything they record, as state
    passing with a trace of events.  A fence precedes every action, every run that began ends in the record,
    and success means that every part succeeded.
  \<^item> \<open>Gather\<close>, \<open>Agent\<close>, \<open>Sink\<close> (\<open>stage/gather\<close>, \<open>stage/agent\<close>, \<open>sink/\<close>): bounded output of a step; the argument
    vector, the stream, the receipt and the tool calls of the agent; building sinks and delivering, with the
    cap on issues.
  \<^item> \<open>Passages\<close>, \<open>Index\<close>, \<open>Retrieve_Stage\<close> (\<open>index/\<close>, \<open>stage/retrieve\<close>): cutting text, the generation of an index
    and its updates among other writers, searching, and the results file of a retrieval.
  \<^item> \<open>Stages\<close>: the agent and the catalogue inside a run: sinks hear only from an agent that stayed within its
    declaration, and the servers of an accepted playbook resolve.
  \<^item> \<open>Api\<close> (\<open>api/api.go\<close>): the record is read from loopback or with the credential.

  \<^bold>\<open>Conventions.\<close>  A struct is a record, an enumeration a datatype, an error a constructor of an error datatype
  and a fallible operation a \<open>result\<close>, \<open>Inl\<close> being the error.  State is passed explicitly.  A database
  transaction that fails leaves the tables as they were.  Concurrency appears as the steps of others: as
  arguments that say what happened between two steps of an operation (\<open>FileLock\<close>, \<open>Fake\<close>, \<open>Index\<close>), as a step
  relation (\<open>store_step\<close>, \<open>history\<close>), or as the relation \<open>evolves\<close> of \<open>etcd_laws\<close>.

  \<^bold>\<open>Loops.\<close>  A loop that walks data is structural.  A loop that retries takes the list of what its attempts
  meet, and the end of that list means that it is still waiting; no theorem that something is returned
  rests on it.  \<open>collect_due\<close>, \<open>decidedInChain\<close>, \<open>cut_from\<close> and \<open>take_loop\<close> may run on and are partial functions
  with value \<open>None\<close> for a run without end; that they return is proved where it holds, for \<open>cut_from\<close>
  on valid UTF-8.  The page loop of the GitHub sink has the code's own bound \<open>maxPages\<close>, one
  more than which is enough fuel.

  \<^bold>\<open>Parameters.\<close>  Code that is not in the repository: the YAML and JSON decoders, the JSON Schema validator, the
  regular expression compiler, the cron parser, SHA-256 and HMAC, SQLite's full-text score, the etcd client,
  the HTTP exchanges of the sinks, the shell, the agent process, the clock and the file system.  What a
  theorem relies on is a hypothesis it names, and its example instantiates it.

  \<^bold>\<open>Not modelled.\<close>  The command line (flags, wiring, printing), the set-up of the etcd client, the schema
  migrations, logging, process signals and random identifiers are calls into libraries; the contract suite,
  fake servers and other test support are not part of the running program.  Texts of messages are kept
  where code compares them and otherwise reduced to their parts.
\<close>

section \<open>What the gate settles before a shell line is bound\<close>

text \<open>Every refusal of the binding comes from an unterminated opening or from one reference of the line.\<close>

lemma bind_span_refuses:
  "p \<in> set (b_problems (bind_span c t line (at, e, n) st)) \<Longrightarrow> p \<in> set (b_problems st) \<or>
     (quoted line at \<and> p = InsideQuotes n) \<or> (str_cut n ''.'' = None \<and> p = NoSource n) \<or>
     (\<exists>namespace key. str_cut n ''.'' = Some (namespace, key) \<and>
        (resolve c namespace key n t = Inl p \<or> (\<exists>x y z. p = BothBind x y z)))"
  by (auto simp: bind_span_def bind_refuse_def Let_def split: option.splits sum.splits if_splits)

lemma bind_fold_refuses:
  "p \<in> set (b_problems (fold (bind_span c t line) spans st)) \<Longrightarrow> p \<in> set (b_problems st) \<or>
     (\<exists>(at, e, n) \<in> set spans. (quoted line at \<and> p = InsideQuotes n) \<or> (str_cut n ''.'' = None \<and> p = NoSource n) \<or>
        (\<exists>namespace key. str_cut n ''.'' = Some (namespace, key) \<and>
           (resolve c namespace key n t = Inl p \<or> (\<exists>x y z. p = BothBind x y z))))"
proof (induction spans arbitrary: st)
  case (Cons sp spans)
  obtain at e n where sp: "sp = (at, e, n)" by (cases sp)
  from Cons.IH [of "bind_span c t line sp st"] Cons.prems bind_span_refuses [of p c t line at e n st]
  show ?case unfolding sp by (auto 0 4)
qed simp

lemma Check_names:
  assumes "Check compile book vals = Inr checked" "n \<in> dom (map_of (Values (pb_Trigger book)))"
  shows "n \<in> dom (map_of checked)"
proof -
  let ?judge = "check_value compile book vals"
  let ?names = "sorted_keys (Values (pb_Trigger book))"
  have c: "fst (check_loop ?judge ?names ([], [])) = []" "checked = snd (check_loop ?judge ?names ([], []))"
    using assms(1) by (auto simp: Check_def case_prod_beta Let_def split: if_splits)
  have n: "n \<in> set ?names" using assms(2) by (simp add: sorted_keys_dom del: set_sorted_keys)
  moreover have "\<forall>n \<in> set ?names. (case ?judge n of Inl r \<Rightarrow> [r] | Inr _ \<Rightarrow> []) = []"
    using c(1) by (simp add: check_loop_refusals del: set_sorted_keys)
  ultimately have "(case ?judge n of Inl r \<Rightarrow> [r] | Inr _ \<Rightarrow> []) = []" by blast
  then have "\<exists>t. ?judge n = Inr t" by (cases "?judge n") simp_all
  then show ?thesis using n unfolding c(2) by (simp add: check_loop_checked domIff del: set_sorted_keys)
qed

lemma unterminated_only: "p \<in> set (unterminated s) \<Longrightarrow> \<exists>x. p = Unterminated x"
proof -
  have "p \<in> set (unterminated_loop k sps s at) \<Longrightarrow> \<exists>x. p = Unterminated x" for k sps at
    by (induction k arbitrary: at) (auto simp: Let_def split: option.splits prod.splits)
  then show "p \<in> set (unterminated s) \<Longrightarrow> \<exists>x. p = Unterminated x" unfolding unterminated_def by blast
qed

lemma span_body: "(at, e, n) \<in> set (reference_spans s) \<Longrightarrow> n \<in> set (ref_bodies (reference s))"
  unfolding reference_spans_def ref_spans_bodies [of "''${''" 0 "reference s", symmetric] by force

text \<open>
  C4. The load gate leaves a run little to refuse.  When a playbook was accepted and the
  configuration still holds every key the gate knew, binding the shell line of one of its gather steps
  can be refused only for an opening that is not closed, a namespace that is not one of the two, two
  keys that share a variable, or a payload value that is not there; and for a webhook playbook run
  with the values that passed the check of the payload, not for the last.
\<close>

theorem gate_settles_references:
  assumes accepted: "Validate env book dep = []" and step: "step \<in> set (Gather book)"
    and keys: "set (ConfigKeys dep) \<subseteq> dom (map_of (cfg_values c))"
    and refused: "BindShell c (step_Run step) t = Inl ps" "p \<in> set ps"
  shows "(\<exists>x. p = Unterminated x) \<or> (\<exists>x y. p = UnknownSource x y) \<or> (\<exists>x y z. p = BothBind x y z) \<or>
     (\<exists>k. p = NotInPayload k \<and> \<not> (trig_Type (pb_Trigger book) = ''webhook'' \<and> Check compile book vals = Inr t))"
proof -
  let ?line = "step_Run step"
  note g = Validate_gather_references [OF accepted step]
  have "p \<in> set (unterminated ?line) \<or> (\<exists>(at, e, n) \<in> set (reference_spans ?line).
      (quoted ?line at \<and> p = InsideQuotes n) \<or> (str_cut n ''.'' = None \<and> p = NoSource n) \<or>
        (\<exists>namespace key. str_cut n ''.'' = Some (namespace, key) \<and>
           (resolve c namespace key n t = Inl p \<or> (\<exists>x y z. p = BothBind x y z))))"
  proof -
    define st0 where "st0 = \<lparr>b_problems = unterminated ?line, b_names = [], b_values = [], b_out = [], b_last = 0\<rparr>"
    have "p \<in> set (b_problems (fold (bind_span c t ?line) (reference_spans ?line) st0))"
      using refused by (simp add: BindShell_def Let_def st0_def split: if_splits)
    from bind_fold_refuses [OF this] show ?thesis by (simp add: st0_def)
  qed
  then consider "\<exists>x. p = Unterminated x" | "\<exists>x y z. p = BothBind x y z"
    | at e n where "(at, e, n) \<in> set (reference_spans ?line)" "quoted ?line at"
    | at e n where "(at, e, n) \<in> set (reference_spans ?line)" "str_cut n ''.'' = None"
    | at e n namespace key where "(at, e, n) \<in> set (reference_spans ?line)" "str_cut n ''.'' = Some (namespace, key)"
        "resolve c namespace key n t = Inl p"
    using unterminated_only by blast
  then show ?thesis
  proof cases
    case 3
    then have "n \<in> set (QuotedReferences ?line)" by (force simp: QuotedReferences_def)
    with g(3) show ?thesis by simp
  next
    case (4 at e n)
    have "n \<in> set (ref_bodies (reference ?line))"
      using span_body [OF 4(1)] .
    with bareReference_finds str_cut_None [OF 4(2)] g(1) show ?thesis by fastforce
  next
    case (5 at e n namespace key)
    have body: "n \<in> set (ref_bodies (reference ?line))"
      using span_body [OF 5(1)] .
    have n: "n = namespace @ ''.'' @ key" using str_cut_Some [OF 5(2)] .
    show ?thesis
    proof (cases "namespace = ''config''")
      case True
      with body n have "key \<in> set (configReference ?line)" using configReference_finds [of key] by simp
      with g(2) keys have "map_of (cfg_values c) key \<noteq> None" by blast
      with 5(3) True show ?thesis by (simp add: resolve_def split: option.splits)
    next
      case False
      have "\<not> (trig_Type (pb_Trigger book) = ''webhook'' \<and> Check compile book vals = Inr t)" if "namespace = ''trigger''" "map_of t key = None"
      proof
        assume w: "trig_Type (pb_Trigger book) = ''webhook'' \<and> Check compile book vals = Inr t"
        have "key \<in> set (TriggerReferences ?line)" using body 5(2) that(1) by (force simp: TriggerReferences_def)
        moreover have "set (TriggerReferences ?line) \<subseteq> dom (map_of (Values (pb_Trigger book)))"
          using Validate_declares_references [OF accepted _ step] w by blast
        ultimately show False using Check_names [of compile book vals t key] w that(2) by blast
      qed
      with 5(3) False show ?thesis by (auto simp: resolve_def split: if_splits option.splits)
    qed
  qed (simp_all)
qed

theorem gate_settles_references_witness:
  "BindShell (example_config ''/src'') ''ls ${config.checkout} ${trigger.host}'' [] = Inl [NotInPayload ''host''] \<and>
   \<not> (trig_Type (pb_Trigger example_book) = ''webhook'' \<and> Check (\<lambda>_. None) example_book [] = Inr [])"
proof -
  have b: "BindShell (example_config ''/src'') ''ls ${config.checkout} ${trigger.host}'' [] = Inl [NotInPayload ''host'']"
    by code_simp
  have step: "\<lparr>step_Run = ''ls ${config.checkout} ${trigger.host}'', step_As = ''out''\<rparr> \<in> set (Gather example_book)"
    by (simp add: example_book_def)
  have keys: "set (ConfigKeys example_dep) \<subseteq> dom (map_of (cfg_values (example_config ''/src'')))"
    by (simp add: example_dep_def example_config_def)
  show ?thesis
    using b gate_settles_references [OF example_accepted step keys, of "[]" "[NotInPayload ''host'']" "NotInPayload ''host''" "\<lambda>_. None" "[]"]
    by simp
qed

end
